(* ===== verification/Prelude.thy ===== *)
theory Prelude
  imports Main "HOL-Library.Word" "HOL-Library.AList"
begin

text \<open>
  The shared vocabulary of the development: the names of the machine types the C++ code uses,
  the collections of rewrite rules the component theories add to, generic facts on lists,
  options and words, and the contract of a component that runs events one after another
  (\<open>event_system\<close>), from which every "in every reachable state" statement is derived.

  Conventions. A \<^verbatim>\<open>std::uint8_t/16/32/64\<close> is a word of that width, so \<open>+\<close> and \<open>-\<close> wrap
  as in C++. A \<^verbatim>\<open>std::size_t\<close> that counts bytes or elements of an existing container is a
  \<open>nat\<close>: the code bounds every such value far below the type's range, and every subtraction
  on it is written under the guard the code tests first. A span or vector of \<^verbatim>\<open>std::byte\<close> is
  a list of 8-bit words. A reference parameter the callee writes is returned.
\<close>

unbundle bit_operations_syntax

type_synonym u8 = "8 word"
type_synonym u16 = "16 word"
type_synonym u32 = "32 word"
type_synonym u64 = "64 word"
type_synonym bytes = "u8 list"

named_theorems codec_simps \<open>reading and writing fixed-width big-endian fields\<close>
named_theorems const_defs \<open>numeric protocol constants of the headers\<close>
named_theorems inv_intros \<open>operations that keep a component's invariant\<close>

section \<open>Lists\<close>

lemma take_append_exact [simp]: "n = length xs \<Longrightarrow> take n (xs @ ys) = xs"
  by simp

lemma drop_append_exact [simp]: "n = length xs \<Longrightarrow> drop n (xs @ ys) = ys"
  by simp

lemma list_update_append_mid:
  "off < length xs \<Longrightarrow> xs[off := v] = take off xs @ v # drop (Suc off) xs"
  by (rule upd_conv_take_nth_drop)

lemma sum_list_update_nat:
  fixes xs :: "nat list"
  assumes "i < length xs"
  shows "sum_list (xs[i := v]) + xs ! i = sum_list xs + v"
  using assms by (induction xs arbitrary: i) (auto split: nat.splits)

lemma concat_length_sum: "length (concat xss) = sum_list (map length xss)"
  by (rule length_concat)

lemma concat_slices: "concat (map (\<lambda>k. take m (drop (k * m) xs)) [0..<n]) = take (n * m) xs"
proof (induction n)
  case (Suc n)
  then show ?case by (simp add: take_add add.commute [of m])
qed simp

lemma map2_map_left: "map2 f (map g xs) ys = map2 (\<lambda>x y. f (g x) y) xs ys"
  by (simp add: zip_map1 case_prod_unfold comp_def)

lemma fold_takeWhile_dropWhile:
  "fold f xs s = fold f (dropWhile P xs) (fold f (takeWhile P xs) s)"
proof -
  have "fold f (takeWhile P xs @ dropWhile P xs) s =
      fold f (dropWhile P xs) (fold f (takeWhile P xs) s)"
    by (simp only: fold_append comp_apply)
  then show ?thesis by simp
qed

section \<open>Words\<close>

lemma word_le_iff_unat: "a \<le> b \<longleftrightarrow> unat a \<le> unat b" for a b :: "'a::len word"
  by (rule word_le_nat_alt)

lemma word_less_iff_unat: "a < b \<longleftrightarrow> unat a < unat b" for a b :: "'a::len word"
  by (rule word_less_nat_alt)

lemma unat_of_nat_small: "n < 2 ^ LENGTH('a) \<Longrightarrow> unat (of_nat n :: 'a::len word) = n"
  by (simp add: unsigned_of_nat take_bit_nat_eq_self)

lemma unat_add_1_nowrap:
  fixes a :: "'a::len word"
  assumes "a \<noteq> - 1"
  shows "unat (a + 1) = Suc (unat a)"
proof -
  have "a + 1 \<noteq> 0"
    using assms by (simp flip: eq_neg_iff_add_eq_0)
  then show ?thesis
    by (simp add: unatSuc add.commute [of a 1])
qed

lemma less_add_1_nowrap: "a \<noteq> - 1 \<Longrightarrow> a < a + 1" for a :: "'a::len word"
  by (simp add: word_less_iff_unat unat_add_1_nowrap)

section \<open>Options as monotone watermarks\<close>

text \<open>
  Several components keep one high-water mark in a \<^verbatim>\<open>std::optional\<close>: absent at first, then only
  ever growing. The order below says that one such mark is at most another.
\<close>

fun mark_le :: "'a::linorder option \<Rightarrow> 'a option \<Rightarrow> bool" where
  "mark_le None _ = True"
| "mark_le (Some a) None = False"
| "mark_le (Some a) (Some b) = (a \<le> b)"

lemma mark_le_refl [simp, intro]: "mark_le m m"
  by (cases m) simp_all

lemma mark_le_trans: "mark_le a b \<Longrightarrow> mark_le b c \<Longrightarrow> mark_le a c"
  by (cases a; cases b; cases c) auto

section \<open>Running an operation over a list of inputs\<close>

text \<open>The results, in order, of calling a stateful operation on each input, and the final state.\<close>

fun run_outputs :: "('m \<Rightarrow> 's \<Rightarrow> 'r \<times> 's) \<Rightarrow> 'm list \<Rightarrow> 's \<Rightarrow> 'r list \<times> 's" where
  "run_outputs f [] s = ([], s)"
| "run_outputs f (m # ms) s =
     (let (r, s') = f m s; (rs, s'') = run_outputs f ms s' in (r # rs, s''))"

lemma run_outputs_length [simp]: "length (fst (run_outputs f ms s)) = length ms"
  by (induction ms arbitrary: s) (simp_all add: case_prod_unfold Let_def)

lemma run_outputs_nth:
  "k < length ms \<Longrightarrow> fst (run_outputs f ms s) ! k = fst (f (ms ! k) (snd (run_outputs f (take k ms) s)))"
proof (induction ms arbitrary: k s)
  case (Cons m ms)
  then show ?case by (cases k) (simp_all add: case_prod_unfold Let_def)
qed simp

lemma run_outputs_Cons_split:
  assumes "run_outputs f (m # ms) s = (rs, t)"
  obtains r s' rs' where "f m s = (r, s')" "run_outputs f ms s' = (rs', t)" "rs = r # rs'"
  using assms by (auto simp: Let_def split: prod.splits)

section \<open>The contract of a counter source\<close>

text \<open>
  A sender that numbers its records: a call either leaves the counter alone or burns the next
  number and moves on, and the number \<open>limit\<close> is the last one ever used. Over any sequence of
  calls the burned numbers are pairwise distinct and within the limit.
\<close>

locale counter_source =
  fixes upcoming :: "'s \<Rightarrow> u64"
    and available :: "'s \<Rightarrow> bool"
    and limit :: u64
    and step :: "'m \<Rightarrow> 's \<Rightarrow> 'r \<times> 's"
    and burned :: "'r \<Rightarrow> u64 option"
  assumes step_cases: "step m s = (r, s') \<Longrightarrow>
      (burned r = None \<and> upcoming s' = upcoming s \<and> available s' = available s) \<or>
      (available s \<and> burned r = Some (upcoming s) \<and>
       (if upcoming s = limit then \<not> available s'
        else available s' \<and> upcoming s' = upcoming s + 1))"
begin

lemma burned_counters:
  assumes "run_outputs step calls s = (rs, s')" and "available s \<Longrightarrow> upcoming s \<le> limit"
  shows "distinct (List.map_filter burned rs) \<and>
    (\<forall>c \<in> set (List.map_filter burned rs). available s \<and> upcoming s \<le> c \<and> c \<le> limit)"
  using assms
proof (induction calls arbitrary: s rs)
  case Nil
  then show ?case by (simp add: List.map_filter_simps)
next
  case (Cons call calls)
  obtain r s1 rs1 where step: "step call s = (r, s1)"
    and rest: "run_outputs step calls s1 = (rs1, s')" and rs: "rs = r # rs1"
    by (rule run_outputs_Cons_split [OF Cons.prems(1)])
  from step_cases [OF step] show ?case
  proof (elim disjE conjE)
    assume "burned r = None" "upcoming s1 = upcoming s" "available s1 = available s"
    with Cons.IH [OF rest] Cons.prems(2) rs show ?thesis by (simp add: List.map_filter_simps)
  next
    assume av: "available s" and b: "burned r = Some (upcoming s)"
      and s1: "if upcoming s = limit then \<not> available s1
        else available s1 \<and> upcoming s1 = upcoming s + 1"
    show ?thesis
    proof (cases "upcoming s = limit")
      case True
      with Cons.IH [OF rest] s1 have "set (List.map_filter burned rs1) = {}" by auto
      with b rs True av show ?thesis by (simp add: List.map_filter_simps)
    next
      case False
      then have lt: "upcoming s < limit" and s1: "upcoming s1 = upcoming s + 1"
        using Cons.prems(2) [OF av] s1 by simp_all
      have "upcoming s \<noteq> - 1" using lt by auto
      then have suc: "upcoming s < upcoming s + 1" by (rule less_add_1_nowrap)
      have "upcoming s1 \<le> limit" using inc_le [OF lt] s1 by simp
      then have ih: "distinct (List.map_filter burned rs1)"
        "\<And>c. c \<in> set (List.map_filter burned rs1) \<Longrightarrow> upcoming s + 1 \<le> c \<and> c \<le> limit"
        using Cons.IH [OF rest] s1 by auto
      have "upcoming s < c" if "c \<in> set (List.map_filter burned rs1)" for c
        using ih(2) [OF that] suc by (auto intro: less_le_trans)
      moreover have "List.map_filter burned rs = upcoming s # List.map_filter burned rs1"
        by (simp add: rs b List.map_filter_simps)
      ultimately show ?thesis
        using ih av Cons.prems(2) [OF av] by (simp only: distinct.simps list.set) fastforce
    qed
  qed
qed

end

section \<open>The contract of an event-driven component\<close>

text \<open>
  A component is a state, an initial-state predicate and one function that handles an event.
  \<open>inv\<close> holds initially and every admissible event keeps it; \<open>below\<close> is a preorder on states
  that every such event respects (what the component promises never to take back). Both then
  hold along every finite sequence of admissible events.
\<close>

locale event_system =
  fixes init :: "'s \<Rightarrow> bool"
    and admissible :: "'e \<Rightarrow> bool"
    and handle :: "'e \<Rightarrow> 's \<Rightarrow> 's"
    and inv :: "'s \<Rightarrow> bool"
    and below :: "'s \<Rightarrow> 's \<Rightarrow> bool"
  assumes inv_init: "init s \<Longrightarrow> inv s"
    and inv_handle: "admissible e \<Longrightarrow> inv s \<Longrightarrow> inv (handle e s)"
    and below_refl: "inv s \<Longrightarrow> below s s"
    and below_trans: "below s t \<Longrightarrow> below t u \<Longrightarrow> below s u"
    and below_handle: "admissible e \<Longrightarrow> inv s \<Longrightarrow> below s (handle e s)"
begin

lemma inv_fold: "inv s \<Longrightarrow> list_all admissible es \<Longrightarrow> inv (fold handle es s)"
  by (induction es arbitrary: s) (auto intro: inv_handle)

lemma below_fold: "inv s \<Longrightarrow> list_all admissible es \<Longrightarrow> below s (fold handle es s)"
proof (induction es arbitrary: s)
  case Nil
  then show ?case by (simp add: below_refl)
next
  case (Cons e es)
  have "below s (handle e s)" using Cons.prems by (simp add: below_handle)
  moreover have "below (handle e s) (fold handle es (handle e s))"
    using Cons.IH inv_handle Cons.prems by simp
  ultimately show ?case by (auto intro: below_trans)
qed

lemma inv_run: "init s \<Longrightarrow> list_all admissible es \<Longrightarrow> inv (fold handle es s)"
  by (simp add: inv_init inv_fold)

lemma below_run_split:
  "init s \<Longrightarrow> list_all admissible (es @ fs) \<Longrightarrow>
     below (fold handle es s) (fold handle (es @ fs) s)"
  by (simp add: below_fold inv_run)

end

end
