(* ===== verification/Wire_Codec.thy ===== *)
theory Wire_Codec
  imports Prelude
begin

text \<open>
  Fixed-width big-endian fields, as \<^verbatim>\<open>shared/src/protocol.cpp\<close> reads and writes them inside a
  caller-owned buffer (the same helpers are repeated in \<^verbatim>\<open>authenticated_data_plane_v2.cpp\<close> and
  \<^verbatim>\<open>authenticated_control_record_v1.cpp\<close>). The loops are modelled as they run, byte by byte
  on the buffer; \<open>be_bytes\<close> and \<open>be_value\<close> are the reference semantics they are proved equal to.
\<close>

section \<open>The in-place routines\<close>

fun store_shifts :: "bytes \<Rightarrow> nat \<Rightarrow> 'a::len word \<Rightarrow> nat list \<Rightarrow> bytes" where
  "store_shifts buffer offset value [] = buffer"
| "store_shifts buffer offset value (shift # shifts) =
     store_shifts (buffer[offset := ucast (drop_bit shift value)]) (Suc offset) value shifts"

definition store_u16 :: "bytes \<Rightarrow> nat \<Rightarrow> u16 \<Rightarrow> bytes" where
  "store_u16 buffer offset value =
     (buffer[offset := ucast (drop_bit 8 value)])[offset + 1 := ucast value]"

definition store_u32 :: "bytes \<Rightarrow> nat \<Rightarrow> u32 \<Rightarrow> bytes" where
  "store_u32 buffer offset value = store_shifts buffer offset value [24, 16, 8, 0]"

definition store_u64 :: "bytes \<Rightarrow> nat \<Rightarrow> u64 \<Rightarrow> bytes" where
  "store_u64 buffer offset value =
     store_shifts buffer offset value [56, 48, 40, 32, 24, 16, 8, 0]"

fun load_indices :: "bytes \<Rightarrow> nat \<Rightarrow> 'a::len word \<Rightarrow> nat list \<Rightarrow> 'a word" where
  "load_indices input offset value [] = value"
| "load_indices input offset value (index # indices) =
     load_indices input offset (push_bit 8 value OR ucast (input ! (offset + index))) indices"

definition get_u16 :: "bytes \<Rightarrow> nat \<Rightarrow> u16" where
  "get_u16 input offset =
     (push_bit 8 (ucast (input ! offset)) OR ucast (input ! (offset + 1)))"

definition get_u32 :: "bytes \<Rightarrow> nat \<Rightarrow> u32" where
  "get_u32 input offset = load_indices input offset 0 [0, 1, 2, 3]"

definition get_u64 :: "bytes \<Rightarrow> nat \<Rightarrow> u64" where
  "get_u64 input offset = load_indices input offset 0 [0, 1, 2, 3, 4, 5, 6, 7]"

text \<open>\<^verbatim>\<open>std::copy\<close> of a whole range to a position of the destination.\<close>

definition copy_into :: "bytes \<Rightarrow> nat \<Rightarrow> bytes \<Rightarrow> bytes" where
  "copy_into buffer offset source =
     take offset buffer @ source @ drop (offset + length source) buffer"

section \<open>Reference semantics\<close>

definition be_bytes :: "nat \<Rightarrow> 'a::len word \<Rightarrow> bytes" where
  "be_bytes n v = map (\<lambda>i. ucast (drop_bit (8 * i) v)) (rev [0..<n])"

definition be_value :: "bytes \<Rightarrow> 'a::len word" where
  "be_value bs = foldl (\<lambda>v b. push_bit 8 v OR ucast b) 0 bs"

lemma length_be_bytes [simp]: "length (be_bytes n v) = n"
  by (simp add: be_bytes_def)

lemma be_bytes_0 [simp]: "be_bytes 0 v = []"
  by (simp add: be_bytes_def)

lemma be_bytes_Suc: "be_bytes (Suc n) v = ucast (drop_bit (8 * n) v) # be_bytes n v"
  by (simp add: be_bytes_def)

lemma be_bytes_Suc_snoc: "be_bytes (Suc n) v = be_bytes n (drop_bit 8 v) @ [ucast v]"
proof (induction n)
  case 0
  show ?case by (simp add: be_bytes_def)
next
  case (Suc n)
  show ?case
    by (subst be_bytes_Suc) (simp add: Suc.IH be_bytes_Suc [of n "drop_bit 8 v"] ac_simps)
qed

lemma be_value_Nil [simp]: "be_value [] = 0"
  by (simp add: be_value_def)

lemma be_value_snoc: "be_value (bs @ [b]) = push_bit 8 (be_value bs) OR ucast b"
  by (simp add: be_value_def)

lemma foldl_be_bytes:
  fixes a v :: "'a::len word"
  shows "foldl (\<lambda>v b. push_bit 8 v OR ucast b) a (be_bytes n v)
         = push_bit (8 * n) a OR take_bit (8 * n) v"
proof (induction n arbitrary: a)
  case 0
  show ?case by simp
next
  case (Suc n)
  show ?case
    unfolding be_bytes_Suc foldl_Cons Suc.IH
    by (rule bit_word_eqI)
       (auto simp: bit_simps not_less not_le add.commute)
qed

lemma be_value_be_bytes:
  fixes v :: "'a::len word"
  assumes "LENGTH('a) \<le> 8 * n"
  shows "be_value (be_bytes n v) = v"
  using assms by (simp add: be_value_def foldl_be_bytes take_bit_word_eq_self)

lemma u16_bytes: "LENGTH(16) \<le> 8 * 2" and u32_bytes: "LENGTH(32) \<le> 8 * 4"
  and u64_bytes: "LENGTH(64) \<le> 8 * 8"
  by simp_all

lemma be_value_bound:
  "take_bit (8 * length bs) (be_value bs :: 'a::len word) = be_value bs"
proof (induction bs rule: rev_induct)
  case Nil
  show ?case by simp
next
  case (snoc b bs)
  have low: "k < 8 * length bs" if "bit (be_value bs :: 'a word) k" for k
    using that by (subst (asm) snoc.IH [symmetric]) (simp add: bit_take_bit_iff)
  show ?case
    unfolding be_value_snoc
    by (rule bit_word_eqI) (auto simp: bit_simps dest: low bit_imp_le_length)
qed

lemma be_bytes_be_value:
  assumes "8 * length bs \<le> LENGTH('a::len)"
  shows "be_bytes (length bs) (be_value bs :: 'a word) = bs"
  using assms
proof (induction bs rule: rev_induct)
  case Nil
  show ?case by simp
next
  case (snoc b bs)
  let ?x = "be_value bs :: 'a word"
  have high: "k < 8 * length bs" if "bit ?x k" for k
    using that by (subst (asm) be_value_bound [symmetric]) (simp add: bit_take_bit_iff)
  have "drop_bit 8 (push_bit 8 ?x OR ucast b) = ?x"
  proof (rule bit_word_eqI)
    fix k
    assume "k < LENGTH('a)"
    then show "bit (drop_bit 8 (push_bit 8 ?x OR ucast b)) k = bit ?x k"
      using snoc.prems high [of k] by (auto simp: bit_simps dest: bit_imp_le_length)
  qed
  moreover have "ucast (push_bit 8 ?x OR ucast b) = b"
    by (rule bit_word_eqI) (use snoc.prems in \<open>auto simp: bit_simps\<close>)
  moreover have "be_bytes (length bs) ?x = bs"
    using snoc by simp
  ultimately show ?case
    by (simp add: be_bytes_Suc_snoc be_value_snoc)
qed

section \<open>The routines implement the reference semantics\<close>

lemma store_shifts_eq:
  "offset + length shifts \<le> length buffer \<Longrightarrow>
   store_shifts buffer offset value shifts =
     take offset buffer @ map (\<lambda>s. ucast (drop_bit s value)) shifts
       @ drop (offset + length shifts) buffer"
proof (induction shifts arbitrary: buffer offset)
  case Nil
  then show ?case by simp
next
  case (Cons s shifts)
  then show ?case
    by (simp add: list_update_append_mid take_Suc_conv_app_nth nth_append min_def
        add.commute [of "length shifts"])
qed

lemma be_bytes_numerals:
  "be_bytes 2 (v :: u16) = [ucast (drop_bit 8 v), ucast v]"
  "be_bytes 4 (w :: u32) = map (\<lambda>s. ucast (drop_bit s w)) [24, 16, 8, 0]"
  "be_bytes 8 (x :: u64) = map (\<lambda>s. ucast (drop_bit s x)) [56, 48, 40, 32, 24, 16, 8, 0]"
  by (simp_all add: be_bytes_def upt_rec)

lemma store_u16_eq:
  "offset + 2 \<le> length buffer \<Longrightarrow>
   store_u16 buffer offset value = copy_into buffer offset (be_bytes 2 value)"
  by (simp add: store_u16_def copy_into_def be_bytes_numerals list_update_append_mid
      take_Suc_conv_app_nth nth_append min_def)

lemma store_u32_eq:
  "offset + 4 \<le> length buffer \<Longrightarrow>
   store_u32 buffer offset value = copy_into buffer offset (be_bytes 4 value)"
  unfolding store_u32_def copy_into_def by (subst store_shifts_eq) (simp_all add: be_bytes_numerals)

lemma store_u64_eq:
  "offset + 8 \<le> length buffer \<Longrightarrow>
   store_u64 buffer offset value = copy_into buffer offset (be_bytes 8 value)"
  unfolding store_u64_def copy_into_def by (subst store_shifts_eq) (simp_all add: be_bytes_numerals)

lemma load_indices_eq:
  "load_indices input offset acc indices =
   foldl (\<lambda>v b. push_bit 8 v OR ucast b) acc (map (\<lambda>i. input ! (offset + i)) indices)"
  by (induction indices arbitrary: acc) simp_all

lemma take_drop_nth:
  "offset + n \<le> length input \<Longrightarrow>
   take n (drop offset input) = map (\<lambda>i. input ! (offset + i)) [0..<n]"
  by (rule nth_equalityI) simp_all

lemma upt_widths:
  "[0..<2] = [0, 1]" "[0..<4] = [0, 1, 2, 3]" "[0..<8] = [0, 1, 2, 3, 4, 5, 6, 7]"
  by (simp_all add: upt_rec)

lemma get_u16_eq:
  assumes "offset + 2 \<le> length input"
  shows "get_u16 input offset = be_value (take 2 (drop offset input))"
  using assms unfolding take_drop_nth [OF assms] get_u16_def be_value_def upt_widths by simp

lemma get_u32_eq:
  "offset + 4 \<le> length input \<Longrightarrow> get_u32 input offset = be_value (take 4 (drop offset input))"
  unfolding get_u32_def load_indices_eq be_value_def
  by (subst take_drop_nth) (simp_all only: upt_widths)

lemma get_u64_eq:
  "offset + 8 \<le> length input \<Longrightarrow> get_u64 input offset = be_value (take 8 (drop offset input))"
  unfolding get_u64_def load_indices_eq be_value_def
  by (subst take_drop_nth) (simp_all only: upt_widths)

lemma length_copy_into [simp]:
  "offset + length source \<le> length buffer \<Longrightarrow> length (copy_into buffer offset source) = length buffer"
  by (simp add: copy_into_def)

section \<open>The interface of a fixed-width field\<close>

text \<open>
  What a header codec needs of a field routine: writing changes exactly the field's bytes to
  the value's \<open>image\<close>, reading gives back the value whose image stands there, and an image
  has the field's width. Both directions of a header round trip follow.
\<close>

locale fixed_field =
  fixes store :: "bytes \<Rightarrow> nat \<Rightarrow> 'v \<Rightarrow> bytes"
    and load :: "bytes \<Rightarrow> nat \<Rightarrow> 'v"
    and width :: nat
    and image :: "'v \<Rightarrow> bytes"
  assumes image_length: "length (image v) = width"
    and store_image: "offset + width \<le> length buffer \<Longrightarrow>
      store buffer offset v = copy_into buffer offset (image v)"
    and load_image: "offset + width \<le> length input \<Longrightarrow>
      image (load input offset) = take width (drop offset input)"
    and image_inj: "image v = image w \<Longrightarrow> v = w"
begin

lemma load_mid: "load (pre @ image v @ post) (length pre) = v"
  by (rule image_inj) (simp add: load_image image_length)

lemma load_at:
  "input = pre @ image v @ post \<Longrightarrow> length pre = offset \<Longrightarrow> load input offset = v"
  using load_mid by blast

lemma load_store: "offset + width \<le> length buffer \<Longrightarrow> load (store buffer offset v) offset = v"
  by (rule image_inj) (simp add: load_image store_image copy_into_def image_length)

lemma store_load: "offset + width \<le> length buffer \<Longrightarrow>
    store buffer offset (load buffer offset) = buffer"
  by (simp add: store_image load_image copy_into_def image_length flip: take_add)
     (metis append_take_drop_id add.commute drop_drop)

lemma length_store: "offset + width \<le> length buffer \<Longrightarrow>
    length (store buffer offset v) = length buffer"
  by (simp add: store_image image_length)

end

interpretation f16: fixed_field store_u16 get_u16 2 "be_bytes 2"
proof unfold_locales
  show "v = w" if "be_bytes 2 v = be_bytes 2 w" for v w :: u16
    using arg_cong [OF that, of "be_value :: bytes \<Rightarrow> u16"]
    by (simp only: be_value_be_bytes [OF u16_bytes])
  show "be_bytes 2 (get_u16 input offset) = take 2 (drop offset input)"
    if "offset + 2 \<le> length input" for offset input
  proof -
    have l: "length (take 2 (drop offset input)) = 2" using that by simp
    have "be_bytes (length (take 2 (drop offset input))) (be_value (take 2 (drop offset input)) :: u16)
        = take 2 (drop offset input)"
      by (rule be_bytes_be_value) (simp add: l)
    then show ?thesis unfolding l get_u16_eq [OF that] .
  qed
qed (simp_all add: store_u16_eq)

interpretation f32: fixed_field store_u32 get_u32 4 "be_bytes 4"
proof unfold_locales
  show "v = w" if "be_bytes 4 v = be_bytes 4 w" for v w :: u32
    using arg_cong [OF that, of "be_value :: bytes \<Rightarrow> u32"]
    by (simp only: be_value_be_bytes [OF u32_bytes])
  show "be_bytes 4 (get_u32 input offset) = take 4 (drop offset input)"
    if "offset + 4 \<le> length input" for offset input
  proof -
    have l: "length (take 4 (drop offset input)) = 4" using that by simp
    have "be_bytes (length (take 4 (drop offset input))) (be_value (take 4 (drop offset input)) :: u32)
        = take 4 (drop offset input)"
      by (rule be_bytes_be_value) (simp add: l)
    then show ?thesis unfolding l get_u32_eq [OF that] .
  qed
qed (simp_all add: store_u32_eq)

interpretation f64: fixed_field store_u64 get_u64 8 "be_bytes 8"
proof unfold_locales
  show "v = w" if "be_bytes 8 v = be_bytes 8 w" for v w :: u64
    using arg_cong [OF that, of "be_value :: bytes \<Rightarrow> u64"]
    by (simp only: be_value_be_bytes [OF u64_bytes])
  show "be_bytes 8 (get_u64 input offset) = take 8 (drop offset input)"
    if "offset + 8 \<le> length input" for offset input
  proof -
    have l: "length (take 8 (drop offset input)) = 8" using that by simp
    have "be_bytes (length (take 8 (drop offset input))) (be_value (take 8 (drop offset input)) :: u64)
        = take 8 (drop offset input)"
      by (rule be_bytes_be_value) (simp add: l)
    then show ?thesis unfolding l get_u64_eq [OF that] .
  qed
qed (simp_all add: store_u64_eq)

end
