(* ===== verification/Video_Protocol.thy ===== *)
theory Video_Protocol
  imports Wire_Codec
begin

text \<open>
  The VisionForge video wire contract (\<^verbatim>\<open>shared/include/vfdual/protocol.hpp\<close>,
  \<^verbatim>\<open>shared/src/protocol.cpp\<close>) and the fragmenter that cuts an encoded access unit into datagrams
  (\<^verbatim>\<open>shared/src/access_unit_fragmenter.cpp\<close>). Shown: the two codec directions are inverse to each
  other on well-formed fragments and accept nothing else, and the fragments of an access unit
  partition it in order within the protocol's bounds.
\<close>

section \<open>Constants and identities\<close>

definition kVideoPacketMagic :: u32 where "kVideoPacketMagic = 0x56463247"
definition kVideoRepeatedPacketMagic :: u32 where "kVideoRepeatedPacketMagic = 0x56463252"
definition kVideoStreamEpochMax :: u64 where "kVideoStreamEpochMax = 0x7fffffffffffffff"
definition kVideoPacketHeaderBytes :: nat where "kVideoPacketHeaderBytes = 20"
definition kVideoPacketPayloadBytes :: nat where "kVideoPacketPayloadBytes = 1344"
definition kMaxDatagramBytes :: nat where
  "kMaxDatagramBytes = kVideoPacketHeaderBytes + kVideoPacketPayloadBytes"
definition kMaxAccessUnitBytes :: nat where "kMaxAccessUnitBytes = 2 * 1024 * 1024"
definition kMaxVideoFragmentsPerAccessUnit :: nat where
  "kMaxVideoFragmentsPerAccessUnit =
     (kMaxAccessUnitBytes + kVideoPacketPayloadBytes - 1) div kVideoPacketPayloadBytes"

lemma kMaxVideoFragments_eq [const_defs]: "kMaxVideoFragmentsPerAccessUnit = 1561"
  by (simp add: kMaxVideoFragmentsPerAccessUnit_def kMaxAccessUnitBytes_def
      kVideoPacketPayloadBytes_def)

lemmas video_consts [const_defs] =
  kVideoPacketHeaderBytes_def kVideoPacketPayloadBytes_def kMaxDatagramBytes_def
  kMaxAccessUnitBytes_def

definition valid_video_stream_epoch :: "u64 \<Rightarrow> bool" where
  "valid_video_stream_epoch value \<longleftrightarrow> value \<noteq> 0 \<and> value \<le> kVideoStreamEpochMax"

record video_frame_identity =
  stream_epoch :: u64
  frame_sequence :: u32

definition identity_valid :: "video_frame_identity \<Rightarrow> bool" where
  "identity_valid identity \<longleftrightarrow> valid_video_stream_epoch (stream_epoch identity)"

text \<open>\<^verbatim>\<open>VideoFragment\<close>; the borrowed \<^verbatim>\<open>VideoFragmentView\<close> has the same contents.\<close>

record video_fragment =
  identity :: video_frame_identity
  repeated_content :: bool
  fragment_index :: u16
  fragment_count :: u16
  access_unit_part :: bytes

text \<open>The hash that keys unordered containers by identity.\<close>

definition video_frame_identity_mix :: "video_frame_identity \<Rightarrow> u64" where
  "video_frame_identity_mix v =
     stream_epoch v XOR push_bit 32 (ucast (frame_sequence v)) XOR ucast (frame_sequence v)"

text \<open>\<open>None\<close> is the code's \<^verbatim>\<open>false\<close>: no successor without reusing an identity.\<close>

definition advance_video_frame_sequence :: "u32 \<Rightarrow> u32 option" where
  "advance_video_frame_sequence current = (if current = - 1 then None else Some (current + 1))"

definition video_frame_sequence_is_newer :: "u32 \<Rightarrow> u32 \<Rightarrow> bool" where
  "video_frame_sequence_is_newer candidate reference \<longleftrightarrow> reference < candidate"

lemma advance_Some_iff:
  "advance_video_frame_sequence s = Some t \<longleftrightarrow> s \<noteq> - 1 \<and> t = s + 1"
  by (auto simp: advance_video_frame_sequence_def)

lemma advance_is_newer:
  "advance_video_frame_sequence s = Some t \<Longrightarrow> video_frame_sequence_is_newer t s"
  by (auto simp: advance_Some_iff video_frame_sequence_is_newer_def less_add_1_nowrap)

section \<open>The packet codec\<close>

definition encode_video_packet_into ::
  "video_frame_identity \<Rightarrow> bool \<Rightarrow> u16 \<Rightarrow> u16 \<Rightarrow> bytes \<Rightarrow> bytes \<Rightarrow> nat \<times> bytes" where
  "encode_video_packet_into ident repeated index count part destination =
     (if \<not> identity_valid ident \<or> count = 0 \<or>
         kMaxVideoFragmentsPerAccessUnit < unat count \<or> count \<le> index \<or> part = [] \<or>
         kVideoPacketPayloadBytes < length part \<or>
         length destination < kVideoPacketHeaderBytes + length part
      then (0, destination)
      else
        let d = store_u32 destination 0
                  (if repeated then kVideoRepeatedPacketMagic else kVideoPacketMagic);
            d = store_u64 d 4 (stream_epoch ident);
            d = store_u32 d 12 (frame_sequence ident);
            d = store_u16 d 16 index;
            d = store_u16 d 18 count;
            d = copy_into d kVideoPacketHeaderBytes part
        in (kVideoPacketHeaderBytes + length part, d))"

text \<open>\<open>[]\<close> is the empty vector the code returns for an unencodable fragment.\<close>

definition encode_video_packet :: "video_fragment \<Rightarrow> bytes" where
  "encode_video_packet fragment =
     (let packet = replicate (kVideoPacketHeaderBytes + length (access_unit_part fragment)) 0;
          (encoded, packet) =
            encode_video_packet_into (identity fragment) (repeated_content fragment)
              (fragment_index fragment) (fragment_count fragment)
              (access_unit_part fragment) packet
      in if encoded = 0 then [] else take encoded packet)"

definition decode_video_packet_view :: "bytes \<Rightarrow> video_fragment option" where
  "decode_video_packet_view datagram =
     (if length datagram \<le> kVideoPacketHeaderBytes \<or> kMaxDatagramBytes < length datagram then None
      else
        let magic = get_u32 datagram 0 in
        if magic \<noteq> kVideoPacketMagic \<and> magic \<noteq> kVideoRepeatedPacketMagic then None
        else
          let ident = \<lparr>stream_epoch = get_u64 datagram 4, frame_sequence = get_u32 datagram 12\<rparr>;
              index = get_u16 datagram 16;
              count = get_u16 datagram 18
          in if \<not> identity_valid ident \<or> count = 0 \<or>
                kMaxVideoFragmentsPerAccessUnit < unat count \<or> count \<le> index
             then None
             else Some \<lparr>identity = ident,
                        repeated_content = (magic = kVideoRepeatedPacketMagic),
                        fragment_index = index, fragment_count = count,
                        access_unit_part = drop kVideoPacketHeaderBytes datagram\<rparr>)"

text \<open>
  The owning decoder writes the caller's fragment field by field on success and leaves it
  untouched on failure; the result pairs the returned flag with the destination.
\<close>

definition decode_video_packet :: "bytes \<Rightarrow> video_fragment \<Rightarrow> bool \<times> video_fragment" where
  "decode_video_packet datagram destination =
     (case decode_video_packet_view datagram of
        None \<Rightarrow> (False, destination)
      | Some view \<Rightarrow>
          (True, destination\<lparr>identity := identity view,
                   repeated_content := repeated_content view,
                   fragment_index := fragment_index view,
                   fragment_count := fragment_count view,
                   access_unit_part := access_unit_part view\<rparr>))"

text \<open>The well-formedness both directions enforce (\<^verbatim>\<open>valid_video_fragment_metadata\<close>).\<close>

definition valid_video_fragment_metadata ::
  "video_frame_identity \<Rightarrow> u16 \<Rightarrow> u16 \<Rightarrow> nat \<Rightarrow> bool" where
  "valid_video_fragment_metadata ident index count payload_size \<longleftrightarrow>
     identity_valid ident \<and> count \<noteq> 0 \<and> unat count \<le> kMaxVideoFragmentsPerAccessUnit \<and>
     index < count \<and> payload_size \<noteq> 0 \<and> payload_size \<le> kVideoPacketPayloadBytes"

abbreviation fragment_ok :: "video_fragment \<Rightarrow> bool" where
  "fragment_ok f \<equiv> valid_video_fragment_metadata (identity f) (fragment_index f)
     (fragment_count f) (length (access_unit_part f))"

section \<open>Codec laws\<close>

definition video_header :: "video_fragment \<Rightarrow> bytes" where
  "video_header f =
     be_bytes 4 (if repeated_content f then kVideoRepeatedPacketMagic else kVideoPacketMagic)
     @ be_bytes 8 (stream_epoch (identity f)) @ be_bytes 4 (frame_sequence (identity f))
     @ be_bytes 2 (fragment_index f) @ be_bytes 2 (fragment_count f)"

lemma length_video_header [simp]: "length (video_header f) = 20"
  by (simp add: video_header_def)

lemma encode_into_eq:
  assumes "fragment_ok f" and "20 + length (access_unit_part f) \<le> length d"
  shows "encode_video_packet_into (identity f) (repeated_content f) (fragment_index f)
           (fragment_count f) (access_unit_part f) d
         = (20 + length (access_unit_part f),
            video_header f @ access_unit_part f @ drop (20 + length (access_unit_part f)) d)"
  using assms
  by (simp add: encode_video_packet_into_def valid_video_fragment_metadata_def video_consts
      Let_def not_less not_le store_u32_eq store_u64_eq store_u16_eq copy_into_def
      video_header_def add.commute [of _ 20])

lemma encode_eq:
  assumes "fragment_ok f"
  shows "encode_video_packet f = video_header f @ access_unit_part f"
  using encode_into_eq [OF assms, of "replicate (20 + length (access_unit_part f)) 0"]
  by (simp add: encode_video_packet_def video_consts Let_def)

lemma magics_distinct: "kVideoPacketMagic \<noteq> kVideoRepeatedPacketMagic"
  by (simp add: kVideoPacketMagic_def kVideoRepeatedPacketMagic_def)

lemma loads_of_header:
  assumes "datagram = video_header f @ rest"
  shows "get_u32 datagram 0 =
      (if repeated_content f then kVideoRepeatedPacketMagic else kVideoPacketMagic)"
    and "get_u64 datagram 4 = stream_epoch (identity f)"
    and "get_u32 datagram 12 = frame_sequence (identity f)"
    and "get_u16 datagram 16 = fragment_index f"
    and "get_u16 datagram 18 = fragment_count f"
proof -
  let ?m = "be_bytes 4 (if repeated_content f then kVideoRepeatedPacketMagic else kVideoPacketMagic)"
  let ?e = "be_bytes 8 (stream_epoch (identity f))"
  let ?s = "be_bytes 4 (frame_sequence (identity f))"
  let ?i = "be_bytes 2 (fragment_index f)"
  note d = assms [unfolded video_header_def]
  show "get_u32 datagram 0 =
      (if repeated_content f then kVideoRepeatedPacketMagic else kVideoPacketMagic)"
    by (rule f32.load_at [where pre = "[]"]) (simp_all add: d)
  show "get_u64 datagram 4 = stream_epoch (identity f)"
    by (rule f64.load_at [where pre = ?m]) (simp_all add: d)
  show "get_u32 datagram 12 = frame_sequence (identity f)"
    by (rule f32.load_at [where pre = "?m @ ?e"]) (simp_all add: d)
  show "get_u16 datagram 16 = fragment_index f"
    by (rule f16.load_at [where pre = "?m @ ?e @ ?s"]) (simp_all add: d)
  show "get_u16 datagram 18 = fragment_count f"
    by (rule f16.load_at [where pre = "?m @ ?e @ ?s @ ?i"]) (simp_all add: d)
qed

lemma decode_header:
  assumes "fragment_ok f" and "datagram = video_header f @ access_unit_part f"
  shows "decode_video_packet_view datagram = Some f"
  using assms(1) magics_distinct
  unfolding decode_video_packet_view_def assms(2)
  by (cases "repeated_content f")
     (simp_all add: loads_of_header [OF refl] valid_video_fragment_metadata_def video_consts
       identity_valid_def Let_def not_less not_le)

lemma header_of_loads:
  assumes "20 \<le> length datagram"
    and "get_u32 datagram 0 =
      (if repeated_content f then kVideoRepeatedPacketMagic else kVideoPacketMagic)"
    and "get_u64 datagram 4 = stream_epoch (identity f)"
    and "get_u32 datagram 12 = frame_sequence (identity f)"
    and "get_u16 datagram 16 = fragment_index f"
    and "get_u16 datagram 18 = fragment_count f"
  shows "video_header f = take 20 datagram"
proof -
  have split: "take 20 datagram = take 4 (drop 0 datagram) @ take 8 (drop 4 datagram)
      @ take 4 (drop 12 datagram) @ take 2 (drop 16 datagram) @ take 2 (drop 18 datagram)"
    by (simp flip: take_add append_assoc add: drop_drop)
  show ?thesis
    unfolding split video_header_def assms(2-) [symmetric]
    using assms(1) by (simp add: f16.load_image f32.load_image f64.load_image)
qed

lemma decode_Some:
  assumes "decode_video_packet_view datagram = Some f"
  shows "fragment_ok f" and "datagram = video_header f @ access_unit_part f"
proof -
  have len: "20 < length datagram" "length datagram \<le> 1364"
    using assms by (auto simp: decode_video_packet_view_def video_consts split: if_splits)
  have part: "access_unit_part f = drop 20 datagram"
    using assms by (auto simp: decode_video_packet_view_def video_consts Let_def split: if_splits)
  have ok: "fragment_ok f"
    using assms len
    by (auto simp: decode_video_packet_view_def video_consts Let_def not_less not_le
        valid_video_fragment_metadata_def split: if_splits)
  have "video_header f = take 20 datagram"
    by (rule header_of_loads)
       (use assms len in \<open>auto simp: decode_video_packet_view_def Let_def split: if_splits\<close>)
  then show "datagram = video_header f @ access_unit_part f"
    by (simp add: part)
  show "fragment_ok f" by (rule ok)
qed

text \<open>
  Encoding a well-formed fragment and decoding the datagram gives the fragment back, and
  the datagram respects the wire bound.
\<close>

theorem video_packet_roundtrip:
  assumes "fragment_ok f"
  shows "decode_video_packet_view (encode_video_packet f) = Some f
    \<and> length (encode_video_packet f) \<le> kMaxDatagramBytes"
  using assms by (simp add: encode_eq decode_header)
     (simp add: valid_video_fragment_metadata_def video_consts)

theorem video_packet_roundtrip_witness:
  "\<exists>f. fragment_ok f \<and> access_unit_part f = [1, 2, 3]
     \<and> decode_video_packet_view (encode_video_packet f) = Some f"
proof -
  let ?f = "\<lparr>identity = \<lparr>stream_epoch = 7, frame_sequence = 9\<rparr>, repeated_content = True,
      fragment_index = 0, fragment_count = 2, access_unit_part = [1, 2, 3]\<rparr>"
  have ok: "fragment_ok ?f"
    by (simp add: valid_video_fragment_metadata_def identity_valid_def
        valid_video_stream_epoch_def kVideoStreamEpochMax_def const_defs)
  show ?thesis
    by (rule exI [of _ ?f], intro conjI, rule ok, simp,
        rule conjunct1 [OF video_packet_roundtrip [OF ok]])
qed

text \<open>
  C30. The decoder accepts exactly the datagrams the encoder produces: a datagram decodes to
  \<open>f\<close> only if it is the encoding of \<open>f\<close>, so no two datagrams stand for one fragment.
\<close>

theorem video_packet_canonical:
  "decode_video_packet_view datagram = Some f \<longleftrightarrow> fragment_ok f \<and> datagram = encode_video_packet f"
proof
  assume d: "decode_video_packet_view datagram = Some f"
  show "fragment_ok f \<and> datagram = encode_video_packet f"
    by (intro conjI decode_Some(1) [OF d]) (subst encode_eq [OF decode_Some(1) [OF d]],
        rule decode_Some(2) [OF d])
next
  assume "fragment_ok f \<and> datagram = encode_video_packet f"
  then show "decode_video_packet_view datagram = Some f"
    by (metis encode_eq decode_header)
qed

text \<open>The owning decoder agrees with the view and never writes on failure.\<close>

lemma decode_video_packet_eq:
  "decode_video_packet datagram destination =
     (case decode_video_packet_view datagram of None \<Rightarrow> (False, destination) | Some f \<Rightarrow> (True, f))"
  by (auto simp: decode_video_packet_def split: option.split)

section \<open>The fragmenter\<close>

text \<open>
  The loop of \<^verbatim>\<open>fragment_access_unit\<close>. The caller's check rejects a zero payload size before the
  loop is reached; the loop repeats that test so that it is a total function.
\<close>

function fragment_loop ::
  "video_frame_identity \<Rightarrow> bool \<Rightarrow> bytes \<Rightarrow> nat \<Rightarrow> nat \<Rightarrow> nat \<Rightarrow> nat \<Rightarrow> video_fragment list" where
  "fragment_loop ident repeated access_unit max_payload count offset index =
     (if offset < length access_unit \<and> 0 < max_payload then
        let bytes = min max_payload (length access_unit - offset) in
        \<lparr>identity = ident, repeated_content = repeated, fragment_index = of_nat index,
          fragment_count = of_nat count,
          access_unit_part = take bytes (drop offset access_unit)\<rparr>
        # fragment_loop ident repeated access_unit max_payload count
            (offset + max_payload) (Suc index)
      else [])"
  by pat_completeness auto
termination
  by (relation "measure (\<lambda>(_, _, au, _, _, offset, _). length au - offset)") auto

declare fragment_loop.simps [simp del]

definition fragment_access_unit ::
  "video_frame_identity \<Rightarrow> bytes \<Rightarrow> bool \<Rightarrow> nat \<Rightarrow> video_fragment list" where
  "fragment_access_unit ident access_unit repeated max_payload =
     (if \<not> identity_valid ident \<or> access_unit = [] \<or> kMaxAccessUnitBytes < length access_unit \<or>
         max_payload = 0 \<or> kVideoPacketPayloadBytes < max_payload
      then []
      else
        let count = (length access_unit + max_payload - 1) div max_payload in
        if count = 0 \<or> kMaxVideoFragmentsPerAccessUnit < count then []
        else fragment_loop ident repeated access_unit max_payload count 0 0)"

lemma min_take_drop: "take (min m (length xs - n)) (drop n xs) = take m (drop n xs)"
  by (simp add: min_def)

lemma ceil_div_pos: "0 < l \<Longrightarrow> 0 < m \<Longrightarrow> (l + m - 1) div m = Suc ((l - 1) div m)" for l m :: nat
  using div_add_self2 [of m "l - 1"] by simp

lemma ceil_div_step:
  fixes l m :: nat
  assumes "0 < l" and "0 < m"
  shows "(l + m - 1) div m = Suc ((l - m + m - 1) div m)"
  using assms by (cases "m \<le> l") (simp_all add: ceil_div_pos del: One_nat_def)

lemma fragment_loop_eq:
  assumes "0 < m"
  shows "fragment_loop ident rep au m count off i =
    map (\<lambda>k. \<lparr>identity = ident, repeated_content = rep, fragment_index = of_nat (i + k),
          fragment_count = of_nat count, access_unit_part = take m (drop (off + k * m) au)\<rparr>)
      [0..<(length au - off + m - 1) div m]"
proof (induction ident rep au m count off i rule: fragment_loop.induct)
  case (1 ident rep au m count off i)
  show ?case
  proof (cases "off < length au \<and> 0 < m")
    case True
    let ?n = "(length au - (off + m) + m - 1) div m"
    have n: "(length au - off + m - 1) div m = Suc ?n"
      using True ceil_div_step [of "length au - off" m] by simp
    have step: "fragment_loop ident rep au m count off i =
        \<lparr>identity = ident, repeated_content = rep, fragment_index = of_nat i,
          fragment_count = of_nat count, access_unit_part = take m (drop off au)\<rparr>
        # fragment_loop ident rep au m count (off + m) (Suc i)"
      using True by (subst fragment_loop.simps) (simp add: min_take_drop Let_def)
    show ?thesis
      unfolding step n map_upt_Suc "1" [OF True refl] by (simp add: ac_simps)
  next
    case False
    then show ?thesis
      by (subst fragment_loop.simps) (use False in \<open>auto simp: div_eq_0_iff\<close>)
  qed
qed

definition fragment_total :: "bytes \<Rightarrow> nat \<Rightarrow> nat" where
  "fragment_total au m = (length au + m - 1) div m"

definition nth_fragment :: "video_frame_identity \<Rightarrow> bytes \<Rightarrow> bool \<Rightarrow> nat \<Rightarrow> nat \<Rightarrow> video_fragment" where
  "nth_fragment ident au rep m k =
     \<lparr>identity = ident, repeated_content = rep, fragment_index = of_nat k,
       fragment_count = of_nat (fragment_total au m), access_unit_part = take m (drop (k * m) au)\<rparr>"

text \<open>The inputs the fragmenter accepts: its first check, and its bound on the count.\<close>

definition fragmentable :: "video_frame_identity \<Rightarrow> bytes \<Rightarrow> nat \<Rightarrow> bool" where
  "fragmentable ident au m \<longleftrightarrow>
     identity_valid ident \<and> au \<noteq> [] \<and> length au \<le> kMaxAccessUnitBytes \<and>
     0 < m \<and> m \<le> kVideoPacketPayloadBytes \<and>
     fragment_total au m \<le> kMaxVideoFragmentsPerAccessUnit"

lemma fragment_total_pos: "au \<noteq> [] \<Longrightarrow> 0 < m \<Longrightarrow> 0 < fragment_total au m"
  unfolding fragment_total_def by (subst ceil_div_pos) simp_all

lemma fragment_access_unit_eq:
  "fragment_access_unit ident au rep m =
     (if fragmentable ident au m then map (nth_fragment ident au rep m) [0..<fragment_total au m]
      else [])"
proof (cases "fragmentable ident au m")
  case True
  then have "0 < m" and "0 < fragment_total au m"
    by (auto simp: fragmentable_def fragment_total_pos)
  with True show ?thesis
    by (simp add: fragment_access_unit_def fragmentable_def fragment_loop_eq nth_fragment_def
        fragment_total_def Let_def not_less not_le)
next
  case False
  then show ?thesis
    by (auto simp: fragment_access_unit_def fragmentable_def fragment_total_def Let_def)
qed

lemma fragment_total_cover:
  assumes "0 < m" shows "length au \<le> fragment_total au m * m"
proof (cases "au = []")
  case False
  then have "fragment_total au m = Suc ((length au - 1) div m)"
    unfolding fragment_total_def using assms by (subst ceil_div_pos) simp_all
  moreover have "length au - 1 < Suc ((length au - 1) div m) * m"
    using assms by (metis dividend_less_div_times mult_Suc add.commute)
  ultimately show ?thesis using False by (cases au) (simp_all)
qed simp

lemma fragment_total_least:
  assumes "k < fragment_total au m" and "0 < m" shows "k * m < length au"
proof -
  have "au \<noteq> []"
    using assms by (cases au) (auto simp: fragment_total_def)
  then have "k \<le> (length au - 1) div m"
    using assms unfolding fragment_total_def by (subst (asm) ceil_div_pos) simp_all
  then have "k * m \<le> length au - 1"
    using assms(2) by (simp add: less_eq_div_iff_mult_less_eq)
  with \<open>au \<noteq> []\<close> show ?thesis by (cases au) simp_all
qed

lemma nth_fragment_ok:
  assumes "fragmentable ident au m" and "k < fragment_total au m"
  shows "fragment_ok (nth_fragment ident au rep m k)"
proof -
  have bound: "fragment_total au m < 2 ^ 16"
    using assms(1) by (simp add: fragmentable_def const_defs)
  have u: "unat (of_nat (fragment_total au m) :: u16) = fragment_total au m"
    and v: "unat (of_nat k :: u16) = k"
    using bound assms(2) by (simp_all add: unat_of_nat_small)
  have "k * m < length au"
    using assms by (intro fragment_total_least) (auto simp: fragmentable_def)
  then show ?thesis
    using assms u v
    by (auto simp: valid_video_fragment_metadata_def nth_fragment_def fragmentable_def
        word_less_iff_unat simp flip: unat_eq_0)
qed

text \<open>
  On every access unit it accepts, the fragmenter's output partitions the unit: the payloads
  concatenate to it in order, the \<open>k\<close>-th fragment carries index \<open>k\<close> and the total count, and
  every fragment is encodable and survives the wire.
\<close>

theorem fragment_access_unit_partitions:
  assumes "fragmentable ident au m" and "fs = fragment_access_unit ident au rep m"
  shows "concat (map access_unit_part fs) = au
    \<and> length fs = fragment_total au m
    \<and> (\<forall>k < length fs. unat (fragment_index (fs ! k)) = k
          \<and> unat (fragment_count (fs ! k)) = length fs)
    \<and> map (decode_video_packet_view \<circ> encode_video_packet) fs = map Some fs"
proof (intro conjI allI impI)
  let ?n = "fragment_total au m"
  have fs: "fs = map (nth_fragment ident au rep m) [0..<?n]"
    using assms by (simp add: fragment_access_unit_eq)
  have m: "0 < m" and n: "?n < 2 ^ 16"
    using assms(1) by (simp_all add: fragmentable_def const_defs)
  show "concat (map access_unit_part fs) = au"
    using fragment_total_cover [OF m, of au]
    by (simp add: fs comp_def nth_fragment_def concat_slices)
  show len: "length fs = ?n"
    by (simp add: fs)
  show "unat (fragment_index (fs ! k)) = k" and "unat (fragment_count (fs ! k)) = length fs"
    if "k < length fs" for k
    using that n by (simp_all add: fs nth_fragment_def unat_of_nat_small)
  have "decode_video_packet_view (encode_video_packet f) = Some f" if "f \<in> set fs" for f
    using that assms(1) by (auto simp: fs encode_eq nth_fragment_ok intro: decode_header)
  then show "map (decode_video_packet_view \<circ> encode_video_packet) fs = map Some fs"
    by simp
qed

theorem fragment_access_unit_partitions_witness:
  "fragmentable \<lparr>stream_epoch = 1, frame_sequence = 0\<rparr> [10, 11, 12, 13, 14] 2
   \<and> concat (map access_unit_part (fragment_access_unit
       \<lparr>stream_epoch = 1, frame_sequence = 0\<rparr> [10, 11, 12, 13, 14] False 2))
     = [10, 11, 12, 13, 14]"
proof -
  have ok: "fragmentable \<lparr>stream_epoch = 1, frame_sequence = 0\<rparr> [10, 11, 12, 13, 14] 2"
    by (simp add: fragmentable_def fragment_total_def identity_valid_def
        valid_video_stream_epoch_def kVideoStreamEpochMax_def const_defs)
  show ?thesis
    using ok fragment_access_unit_partitions [OF ok refl, of False] by blast
qed

text \<open>With the default payload size every non-empty access unit within the byte bound is accepted.\<close>

lemma fragmentable_default:
  assumes "identity_valid ident" and "au \<noteq> []" and "length au \<le> kMaxAccessUnitBytes"
  shows "fragmentable ident au kVideoPacketPayloadBytes"
  using assms
  by (auto simp: fragmentable_def fragment_total_def kMaxVideoFragmentsPerAccessUnit_def
      kVideoPacketPayloadBytes_def intro!: div_le_mono)

end
