(* ===== verification/Reassembler.thy ===== *)
theory Reassembler
  imports Video_Protocol
begin

text \<open>
  \<^verbatim>\<open>AccessUnitReassembler\<close> (\<^verbatim>\<open>shared/include/vfdual/access_unit_reassembler.hpp\<close> and
  \<^verbatim>\<open>shared/src/access_unit_reassembler.cpp\<close>): the bounded, single-epoch, order-preserving
  reassembly of access units from fragments that arrive late, repeated or in any order.
  Shown: every call returns and keeps the memory bounds, delivery is gap-free and in order,
  a delivered unit is made of pushed fragments only, and all fragments of a unit, in any order
  and with repetitions, deliver exactly that unit once.

  The unordered map of in-flight frames is an association list with distinct keys; the code's
  only use of its iteration order is \<^verbatim>\<open>min_element\<close>, by an arrival number that differs
  between entries.
\<close>

section \<open>State\<close>

record completed_access_unit =
  completed_identity :: video_frame_identity
  completed_repeated :: bool
  completed_bytes :: bytes

record pending_frame =
  pf_repeated_content :: bool
  expected_fragments :: u16
  received_fragments :: u16
  total_bytes :: nat
  first_seen_us :: u64
  arrival_order :: u64
  received :: "bool list"
  parts :: "bytes list"

record reassembler =
  max_inflight_frames :: nat
  max_inflight_bytes :: nat
  inflight_bytes :: nat
  next_arrival_order :: u64
  incomplete_access_unit_losses :: u64
  conflicting_duplicate_losses :: u64
  foreign_or_retired_epoch_drops :: u64
  payload_bytes_copied :: u64
  payload_bytes_moved :: u64
  duplicate_payload_bytes_avoided :: u64
  active_epoch :: "u64 option"
  retired_through :: "u64 option"
  last_delivered_sequence :: "u32 option"
  pending :: "(u32 \<times> pending_frame) list"

section \<open>Operations\<close>

definition make_reassembler :: "nat \<Rightarrow> nat \<Rightarrow> nat \<Rightarrow> reassembler" where
  "make_reassembler max_frames max_bytes retired_epoch_capacity =
     \<lparr>max_inflight_frames = max 1 max_frames,
      max_inflight_bytes = max kVideoPacketPayloadBytes max_bytes,
      inflight_bytes = 0, next_arrival_order = 0, incomplete_access_unit_losses = 0,
      conflicting_duplicate_losses = 0, foreign_or_retired_epoch_drops = 0,
      payload_bytes_copied = 0, payload_bytes_moved = 0, duplicate_payload_bytes_avoided = 0,
      active_epoch = None, retired_through = None, last_delivered_sequence = None,
      pending = []\<rparr>"

definition is_retired_epoch :: "u64 \<Rightarrow> reassembler \<Rightarrow> bool" where
  "is_retired_epoch epoch r \<longleftrightarrow>
     (case retired_through r of None \<Rightarrow> False | Some t \<Rightarrow> epoch \<le> t)"

definition remember_retired_epoch :: "u64 \<Rightarrow> reassembler \<Rightarrow> reassembler" where
  "remember_retired_epoch epoch r =
     (if \<not> valid_video_stream_epoch epoch then r
      else if (case retired_through r of None \<Rightarrow> True | Some t \<Rightarrow> t < epoch)
      then r\<lparr>retired_through := Some epoch\<rparr>
      else r)"

definition clear_pending :: "bool \<Rightarrow> reassembler \<Rightarrow> reassembler" where
  "clear_pending count_as_loss r =
     r\<lparr>incomplete_access_unit_losses :=
         (if count_as_loss then incomplete_access_unit_losses r + of_nat (length (pending r))
          else incomplete_access_unit_losses r),
       pending := [], inflight_bytes := 0\<rparr>"

definition activate_epoch :: "u64 \<Rightarrow> u32 option \<Rightarrow> reassembler \<Rightarrow> bool \<times> reassembler" where
  "activate_epoch epoch seed r =
     (if \<not> valid_video_stream_epoch epoch \<or> is_retired_epoch epoch r \<or>
         (case active_epoch r of None \<Rightarrow> False | Some a \<Rightarrow> epoch < a)
      then (False, r)
      else if active_epoch r = Some epoch then
        (True,
         if seed \<noteq> None \<and> last_delivered_sequence r = None \<and> pending r = []
         then r\<lparr>last_delivered_sequence := seed\<rparr> else r)
      else
        let r = (case active_epoch r of
                   Some a \<Rightarrow> remember_retired_epoch a r
                 | None \<Rightarrow> if 1 < epoch then remember_retired_epoch (epoch - 1) r else r);
            r = clear_pending True r
        in (True, r\<lparr>active_epoch := Some epoch, last_delivered_sequence := seed\<rparr>))"

definition erase_pending :: "u32 \<Rightarrow> bool \<Rightarrow> reassembler \<Rightarrow> reassembler" where
  "erase_pending sequence count_as_loss r =
     (case map_of (pending r) sequence of
        None \<Rightarrow> r
      | Some p \<Rightarrow>
          r\<lparr>inflight_bytes := inflight_bytes r - min (inflight_bytes r) (total_bytes p),
            pending := AList.delete sequence (pending r),
            incomplete_access_unit_losses :=
              (if count_as_loss then incomplete_access_unit_losses r + 1
               else incomplete_access_unit_losses r)\<rparr>)"

text \<open>\<^verbatim>\<open>std::min_element\<close> by arrival order; \<open>None\<close> is the end iterator.\<close>

fun oldest_pending :: "(u32 \<times> pending_frame) list \<Rightarrow> (u32 \<times> pending_frame) option" where
  "oldest_pending [] = None"
| "oldest_pending (x # xs) =
     Some (foldl (\<lambda>smallest y.
       if arrival_order (snd y) < arrival_order (snd smallest) then y else smallest) x xs)"

definition discard_oldest :: "reassembler \<Rightarrow> reassembler" where
  "discard_oldest r =
     (case oldest_pending (pending r) of
        None \<Rightarrow> r
      | Some (sequence, p) \<Rightarrow> erase_pending sequence True r)"

definition pop_completed :: "reassembler \<Rightarrow> completed_access_unit option \<times> reassembler" where
  "pop_completed r =
     (case active_epoch r of
        None \<Rightarrow> (None, r)
      | Some epoch \<Rightarrow>
          if pending r = [] then (None, r)
          else
            let selected =
              (case last_delivered_sequence r of
                 Some l \<Rightarrow>
                   (case advance_video_frame_sequence l of
                      None \<Rightarrow> None
                    | Some expected \<Rightarrow> map_option (Pair expected) (map_of (pending r) expected))
               | None \<Rightarrow> oldest_pending (pending r))
            in case selected of
                 None \<Rightarrow> (None, r)
               | Some (sequence, p) \<Rightarrow>
                   if received_fragments p \<noteq> expected_fragments p then (None, r)
                   else
                     (Some \<lparr>completed_identity =
                              \<lparr>stream_epoch = epoch, frame_sequence = sequence\<rparr>,
                            completed_repeated = pf_repeated_content p,
                            completed_bytes = concat (parts p)\<rparr>,
                      erase_pending sequence False
                        (r\<lparr>last_delivered_sequence := Some sequence\<rparr>)))"

text \<open>
  The trimming loop. \<open>None\<close> would be a loop that never ends: \<^verbatim>\<open>discard_oldest\<close> does nothing on an
  empty map, so a limit still exceeded there stays exceeded.
\<close>

definition over_limits :: "reassembler \<Rightarrow> bool" where
  "over_limits r \<longleftrightarrow> max_inflight_frames r < length (pending r) \<or> max_inflight_bytes r < inflight_bytes r"

lemma oldest_pending_mem: "oldest_pending xs = Some x \<Longrightarrow> x \<in> set xs"
proof (cases xs)
  case (Cons y ys)
  have "foldl (\<lambda>smallest y. if arrival_order (snd y) < arrival_order (snd smallest) then y
      else smallest) y ys \<in> set (y # ys)"
  proof (induction ys arbitrary: y)
    case (Cons z zs)
    show ?case using Cons.IH [of y] Cons.IH [of z] by auto
  qed simp
  moreover assume "oldest_pending xs = Some x"
  ultimately show ?thesis using Cons by simp
qed simp

lemma oldest_pending_None [simp]: "oldest_pending xs = None \<longleftrightarrow> xs = []"
  by (cases xs) simp_all

lemma discard_oldest_shrinks:
  assumes "pending r \<noteq> []"
  shows "length (pending (discard_oldest r)) < length (pending r)"
proof -
  obtain s p where old: "oldest_pending (pending r) = Some (s, p)"
    using assms oldest_pending_None [of "pending r"] by fastforce
  then have mem: "(s, p) \<in> set (pending r)" by (rule oldest_pending_mem)
  then have "length (AList.delete s (pending r)) < length (pending r)"
    by (auto simp: AList.delete_eq intro: length_filter_less)
  moreover obtain q where "map_of (pending r) s = Some q"
    using mem by (metis domI dom_map_of_conv_image_fst domD fst_conv image_eqI)
  ultimately show ?thesis
    using old by (simp add: discard_oldest_def erase_pending_def)
qed

function trim_loop :: "reassembler \<Rightarrow> reassembler option" where
  "trim_loop r =
     (if over_limits r then
        (if pending r = [] then None else trim_loop (discard_oldest r))
      else Some r)"
  by pat_completeness auto
termination
  by (relation "measure (\<lambda>r. length (pending r))") (simp_all add: discard_oldest_shrinks)

declare trim_loop.simps [simp del]

text \<open>
  \<^verbatim>\<open>push_payload\<close>. The two callers differ in whether the payload vector is moved in
  (\<open>owned\<close>) and whether a duplicate is counted as an avoided copy. The outer \<open>None\<close> is a call
  that does not return.
\<close>

definition fresh_pending :: "bool \<Rightarrow> u16 \<Rightarrow> u64 \<Rightarrow> u64 \<Rightarrow> pending_frame" where
  "fresh_pending repeated count now_us arrival =
     \<lparr>pf_repeated_content = repeated, expected_fragments = count, received_fragments = 0,
      total_bytes = 0, first_seen_us = now_us, arrival_order = arrival,
      received = replicate (unat count) False, parts = replicate (unat count) []\<rparr>"

definition store_part :: "nat \<Rightarrow> bytes \<Rightarrow> pending_frame \<Rightarrow> pending_frame" where
  "store_part index payload p =
     p\<lparr>received := (received p)[index := True], parts := (parts p)[index := payload],
       total_bytes := total_bytes p + length payload,
       received_fragments := received_fragments p + 1\<rparr>"

definition note_avoided_copy :: "bool \<Rightarrow> bytes \<Rightarrow> reassembler \<Rightarrow> reassembler" where
  "note_avoided_copy duplicate_path payload r =
     (if duplicate_path
      then r\<lparr>duplicate_payload_bytes_avoided :=
             duplicate_payload_bytes_avoided r + of_nat (length payload)\<rparr>
      else r)"

text \<open>The end of \<^verbatim>\<open>push_payload\<close>: a part not yet received is admitted, stored, and the limits enforced.\<close>

definition store_fragment ::
  "u32 \<Rightarrow> pending_frame \<Rightarrow> nat \<Rightarrow> bytes \<Rightarrow> bool \<Rightarrow> reassembler \<Rightarrow>
     (completed_access_unit option \<times> reassembler) option" where
  "store_fragment sequence p index payload owned r =
     (let part_size = length payload in
      if kMaxAccessUnitBytes < part_size \<or> kMaxAccessUnitBytes - part_size < total_bytes p \<or>
         max_inflight_bytes r < part_size \<or> max_inflight_bytes r - part_size < inflight_bytes r
      then Some (None, erase_pending sequence True r)
      else
        let r = r\<lparr>pending := AList.update sequence (store_part index payload p) (pending r),
                  inflight_bytes := inflight_bytes r + part_size,
                  payload_bytes_moved :=
                    (if owned then payload_bytes_moved r + of_nat part_size
                     else payload_bytes_moved r),
                  payload_bytes_copied :=
                    (if owned then payload_bytes_copied r
                     else payload_bytes_copied r + of_nat part_size)\<rparr>
        in map_option pop_completed (trim_loop r))"

text \<open>The middle of \<^verbatim>\<open>push_payload\<close>: a fragment of the active epoch meets its in-flight frame.\<close>

definition try_emplace ::
  "u32 \<Rightarrow> bool \<Rightarrow> u16 \<Rightarrow> u64 \<Rightarrow> reassembler \<Rightarrow> pending_frame \<times> reassembler" where
  "try_emplace sequence repeated count now_us r =
     (case map_of (pending r) sequence of
        Some p \<Rightarrow> (p, r)
      | None \<Rightarrow>
          let p = fresh_pending repeated count now_us (next_arrival_order r) in
          (p, r\<lparr>next_arrival_order := next_arrival_order r + 1,
               pending := AList.update sequence p (pending r)\<rparr>))"

definition conflict :: "u32 \<Rightarrow> reassembler \<Rightarrow> reassembler" where
  "conflict sequence r =
     (let r = erase_pending sequence True r in
      r\<lparr>conflicting_duplicate_losses := conflicting_duplicate_losses r + 1\<rparr>)"

definition push_frame ::
  "u32 \<Rightarrow> bool \<Rightarrow> u16 \<Rightarrow> u16 \<Rightarrow> bytes \<Rightarrow> bool \<Rightarrow> bool \<Rightarrow> u64 \<Rightarrow> reassembler \<Rightarrow>
     (completed_access_unit option \<times> reassembler) option" where
  "push_frame sequence repeated index count payload owned duplicate_path now_us r =
     (if (case last_delivered_sequence r of None \<Rightarrow> False
          | Some l \<Rightarrow> \<not> video_frame_sequence_is_newer sequence l)
      then Some (pop_completed (note_avoided_copy duplicate_path payload r))
      else
        let (p, r) = try_emplace sequence repeated count now_us r in
        if expected_fragments p \<noteq> count \<or> pf_repeated_content p \<noteq> repeated
        then Some (None, conflict sequence r)
        else if received p ! unat index then
          (if parts p ! unat index \<noteq> payload then Some (None, conflict sequence r)
           else Some (pop_completed (note_avoided_copy duplicate_path payload r)))
        else store_fragment sequence p (unat index) payload owned r)"

definition push_payload ::
  "video_frame_identity \<Rightarrow> bool \<Rightarrow> u16 \<Rightarrow> u16 \<Rightarrow> bytes \<Rightarrow> bool \<Rightarrow> bool \<Rightarrow> u64 \<Rightarrow> reassembler \<Rightarrow>
     (completed_access_unit option \<times> reassembler) option" where
  "push_payload ident repeated index count payload owned duplicate_path now_us r =
     (if \<not> identity_valid ident \<or> count = 0 \<or>
         kMaxVideoFragmentsPerAccessUnit < unat count \<or> count \<le> index \<or> payload = [] \<or>
         kVideoPacketPayloadBytes < length payload
      then Some (None, r)
      else
        let (admitted, r) =
          (if active_epoch r = None then activate_epoch (stream_epoch ident) None r else (True, r))
        in
        if \<not> admitted then Some (None, r)
        else if active_epoch r \<noteq> Some (stream_epoch ident) then
          Some (pop_completed
            (r\<lparr>foreign_or_retired_epoch_drops := foreign_or_retired_epoch_drops r + 1\<rparr>))
        else push_frame (frame_sequence ident) repeated index count payload owned
               duplicate_path now_us r)"

definition push ::
  "video_fragment \<Rightarrow> u64 \<Rightarrow> reassembler \<Rightarrow> (completed_access_unit option \<times> reassembler) option" where
  "push f now_us r =
     push_payload (identity f) (repeated_content f) (fragment_index f) (fragment_count f)
       (access_unit_part f) True False now_us r"

definition push_view ::
  "video_fragment \<Rightarrow> u64 \<Rightarrow> reassembler \<Rightarrow> (completed_access_unit option \<times> reassembler) option" where
  "push_view f now_us r =
     push_payload (identity f) (repeated_content f) (fragment_index f) (fragment_count f)
       (access_unit_part f) False True now_us r"

definition expired :: "u64 \<Rightarrow> u64 \<Rightarrow> pending_frame \<Rightarrow> bool" where
  "expired now_us ttl_us p \<longleftrightarrow> first_seen_us p \<le> now_us \<and> ttl_us < now_us - first_seen_us p"

fun expire_frame :: "u64 \<Rightarrow> u64 \<Rightarrow> u32 \<times> pending_frame \<Rightarrow> nat \<times> reassembler \<Rightarrow> nat \<times> reassembler" where
  "expire_frame now_us ttl_us (sequence, p) (discarded, r) =
     (if expired now_us ttl_us p then (Suc discarded, erase_pending sequence True r)
      else (discarded, r))"

definition discard_expired :: "u64 \<Rightarrow> u64 \<Rightarrow> reassembler \<Rightarrow> nat \<times> reassembler" where
  "discard_expired now_us ttl_us r = fold (expire_frame now_us ttl_us) (pending r) (0, r)"

definition inflight_frame_count :: "reassembler \<Rightarrow> nat" where
  "inflight_frame_count r = length (pending r)"

section \<open>The invariant\<close>

text \<open>
  \<open>H\<close> is the set of fragments ever pushed. An in-flight frame records, slot by slot, fragments
  of \<open>H\<close> for its own identity and shape, and its counters agree with the slots; the reassembler
  counts its bytes exactly and stays within its two limits.
\<close>

definition part_from :: "video_fragment set \<Rightarrow> u64 \<Rightarrow> u32 \<Rightarrow> pending_frame \<Rightarrow> nat \<Rightarrow> bool" where
  "part_from H epoch sequence p i \<longleftrightarrow>
     (\<exists>f \<in> H. fragment_ok f \<and> identity f = \<lparr>stream_epoch = epoch, frame_sequence = sequence\<rparr> \<and>
        unat (fragment_index f) = i \<and> fragment_count f = expected_fragments p \<and>
        repeated_content f = pf_repeated_content p \<and> access_unit_part f = parts p ! i)"

definition frame_inv :: "video_fragment set \<Rightarrow> u64 \<Rightarrow> u32 \<Rightarrow> pending_frame \<Rightarrow> bool" where
  "frame_inv H epoch sequence p \<longleftrightarrow>
     expected_fragments p \<noteq> 0 \<and> unat (expected_fragments p) \<le> kMaxVideoFragmentsPerAccessUnit \<and>
     length (received p) = unat (expected_fragments p) \<and>
     length (parts p) = unat (expected_fragments p) \<and>
     unat (received_fragments p) = length (filter id (received p)) \<and>
     total_bytes p = sum_list (map length (parts p)) \<and> total_bytes p \<le> kMaxAccessUnitBytes \<and>
     (\<forall>i < unat (expected_fragments p).
        if received p ! i then part_from H epoch sequence p i else parts p ! i = [])"

definition pending_bytes :: "reassembler \<Rightarrow> nat" where
  "pending_bytes r = sum_list (map (total_bytes \<circ> snd) (pending r))"

definition epoch_inv :: "reassembler \<Rightarrow> bool" where
  "epoch_inv r \<longleftrightarrow>
     (case active_epoch r of
        None \<Rightarrow> pending r = [] \<and> last_delivered_sequence r = None \<and> retired_through r = None
      | Some e \<Rightarrow> valid_video_stream_epoch e \<and>
          (case retired_through r of None \<Rightarrow> e = 1 | Some t \<Rightarrow> t < e))"

definition frames_inv :: "video_fragment set \<Rightarrow> reassembler \<Rightarrow> bool" where
  "frames_inv H r \<longleftrightarrow>
     distinct (map fst (pending r)) \<and> inflight_bytes r = pending_bytes r \<and>
     kVideoPacketPayloadBytes \<le> max_inflight_bytes r \<and> 0 < max_inflight_frames r \<and>
     inflight_bytes r \<le> max_inflight_bytes r \<and> epoch_inv r \<and>
     (\<forall>(s, p) \<in> set (pending r). \<forall>e. active_epoch r = Some e \<longrightarrow> frame_inv H e s p)"

definition reassembler_inv :: "video_fragment set \<Rightarrow> reassembler \<Rightarrow> bool" where
  "reassembler_inv H r \<longleftrightarrow> frames_inv H r \<and> length (pending r) \<le> max_inflight_frames r"

lemma make_reassembler_inv [inv_intros]: "reassembler_inv H (make_reassembler mf mb rc)"
  by (simp add: reassembler_inv_def frames_inv_def make_reassembler_def pending_bytes_def
      epoch_inv_def const_defs)

subsection \<open>Association lists\<close>

lemma alist_update_new: "map_of xs k = None \<Longrightarrow> AList.update k v xs = xs @ [(k, v)]"
  by (induction xs) (auto split: if_splits)

lemma alist_update_length:
  "length (AList.update k v xs) = (if map_of xs k = None then Suc (length xs) else length xs)"
  by (induction xs) (auto split: if_splits)

lemma alist_update_mem:
  "distinct (map fst xs) \<Longrightarrow> (s, p) \<in> set (AList.update k v xs) \<Longrightarrow>
     (s = k \<and> p = v) \<or> (s \<noteq> k \<and> (s, p) \<in> set xs)"
  by (induction xs) (force split: if_splits)+

lemma alist_update_sum:
  fixes f :: "'a \<times> 'b \<Rightarrow> nat"
  assumes "map_of xs k = Some p"
  shows "sum_list (map f (AList.update k v xs)) + f (k, p) = sum_list (map f xs) + f (k, v)"
  using assms by (induction xs) (auto split: if_splits)

lemma alist_delete_sum:
  fixes f :: "'a \<times> 'b \<Rightarrow> nat"
  assumes "distinct (map fst xs)" and "map_of xs k = Some p"
  shows "sum_list (map f (AList.delete k xs)) + f (k, p) = sum_list (map f xs)"
  using assms
proof (induction xs)
  case (Cons x xs)
  show ?case
  proof (cases "fst x = k")
    case True
    with Cons.prems have "AList.delete k xs = xs" by (auto intro: delete_id)
    with True Cons.prems show ?thesis by (cases x) simp
  next
    case False
    with Cons show ?thesis by (cases x) simp
  qed
qed simp

lemma alist_delete_length:
  assumes "distinct (map fst xs)" and "map_of xs k = Some p"
  shows "Suc (length (AList.delete k xs)) = length xs"
  using alist_delete_sum [OF assms, of "\<lambda>_. 1"] by (simp add: sum_list_triv)

lemma alist_delete_mem: "(s, p) \<in> set (AList.delete k xs) \<Longrightarrow> s \<noteq> k \<and> (s, p) \<in> set xs"
  by (auto simp: AList.delete_eq)

subsection \<open>Preservation by the internal operations\<close>

lemma erase_pending_fields [simp]:
  "active_epoch (erase_pending s b r) = active_epoch r"
  "retired_through (erase_pending s b r) = retired_through r"
  "last_delivered_sequence (erase_pending s b r) = last_delivered_sequence r"
  "max_inflight_frames (erase_pending s b r) = max_inflight_frames r"
  "max_inflight_bytes (erase_pending s b r) = max_inflight_bytes r"
  by (simp_all add: erase_pending_def split: option.split)

lemma erase_pending_pending:
  "pending (erase_pending s b r) = AList.delete s (pending r)"
  by (auto simp: erase_pending_def delete_id map_of_eq_None_iff split: option.split)

lemma erase_pending_frames_inv:
  assumes "frames_inv H r"
  shows "frames_inv H (erase_pending s b r)"
proof (cases "map_of (pending r) s")
  case None
  then show ?thesis using assms by (simp add: erase_pending_def)
next
  case (Some p)
  have d: "distinct (map fst (pending r))" using assms by (simp add: frames_inv_def)
  let ?r = "erase_pending s b r"
  have "inflight_bytes ?r = pending_bytes ?r \<and> inflight_bytes ?r \<le> inflight_bytes r"
    using alist_delete_sum [OF d Some, of "total_bytes \<circ> snd"] assms Some
    by (simp add: frames_inv_def erase_pending_def pending_bytes_def)
  then show ?thesis
    using assms
    by (auto simp: frames_inv_def erase_pending_pending epoch_inv_def distinct_delete
        dest!: alist_delete_mem split: option.splits)
qed

lemma erase_pending_length: "length (pending (erase_pending s b r)) \<le> length (pending r)"
  by (simp add: erase_pending_pending length_delete_le)

lemma erase_pending_inv [inv_intros]:
  "reassembler_inv H r \<Longrightarrow> reassembler_inv H (erase_pending s b r)"
  using erase_pending_frames_inv erase_pending_length [of s b r]
  by (auto simp: reassembler_inv_def)

lemma pop_completed_cases:
  assumes "pop_completed r = (c, r')"
  obtains "c = None" and "r' = r"
  | e s p where "active_epoch r = Some e" and "(s, p) \<in> set (pending r)"
    and "received_fragments p = expected_fragments p"
    and "last_delivered_sequence r = None \<or> (\<exists>l. last_delivered_sequence r = Some l \<and>
      l \<noteq> - 1 \<and> s = l + 1)"
    and "c = Some \<lparr>completed_identity = \<lparr>stream_epoch = e, frame_sequence = s\<rparr>,
      completed_repeated = pf_repeated_content p, completed_bytes = concat (parts p)\<rparr>"
    and "r' = erase_pending s False (r\<lparr>last_delivered_sequence := Some s\<rparr>)"
proof (cases c)
  case None
  with assms have "r' = r"
    by (auto simp: pop_completed_def Let_def split: option.splits if_splits)
  with None show thesis by (rule that(1))
next
  case (Some a)
  obtain e where e: "active_epoch r = Some e"
    using assms Some by (cases "active_epoch r") (simp_all add: pop_completed_def)
  define sel where "sel = (case last_delivered_sequence r of
      Some l \<Rightarrow> (case advance_video_frame_sequence l of None \<Rightarrow> None
        | Some expected \<Rightarrow> map_option (Pair expected) (map_of (pending r) expected))
    | None \<Rightarrow> oldest_pending (pending r))"
  have pop: "pop_completed r = (if pending r = [] then (None, r) else case sel of None \<Rightarrow> (None, r)
    | Some (s, p) \<Rightarrow> if received_fragments p \<noteq> expected_fragments p then (None, r)
        else (Some \<lparr>completed_identity = \<lparr>stream_epoch = e, frame_sequence = s\<rparr>,
            completed_repeated = pf_repeated_content p, completed_bytes = concat (parts p)\<rparr>,
          erase_pending s False (r\<lparr>last_delivered_sequence := Some s\<rparr>)))"
    using e by (simp add: pop_completed_def sel_def)
  obtain s p where sp: "sel = Some (s, p)"
    using pop assms Some by (cases sel) (auto split: if_splits)
  have "(s, p) \<in> set (pending r)" and "last_delivered_sequence r = None \<or>
      (\<exists>l. last_delivered_sequence r = Some l \<and> l \<noteq> - 1 \<and> s = l + 1)"
    using sp by (auto simp: sel_def advance_Some_iff dest: oldest_pending_mem map_of_SomeD
        split: option.splits)
  with that(2) [OF e] show thesis
    using pop assms Some unfolding sp by (auto split: if_splits)
qed

lemma frames_inv_cursor:
  "frames_inv H r \<Longrightarrow> active_epoch r = Some e \<Longrightarrow> frames_inv H (r\<lparr>last_delivered_sequence := l\<rparr>)"
  by (simp add: frames_inv_def epoch_inv_def pending_bytes_def)

lemma pop_completed_inv [inv_intros]:
  assumes "reassembler_inv H r" and "pop_completed r = (c, r')"
  shows "reassembler_inv H r'"
  using assms(2)
proof (cases rule: pop_completed_cases)
  case 1
  with assms(1) show ?thesis by simp
next
  case (2 e s p)
  have "reassembler_inv H (r\<lparr>last_delivered_sequence := Some s\<rparr>)"
    using assms(1) 2(1) by (simp add: reassembler_inv_def frames_inv_cursor)
  then show ?thesis unfolding 2(6) by (rule erase_pending_inv)
qed

lemma epoch_pred_valid:
  "valid_video_stream_epoch e \<Longrightarrow> 1 < e \<Longrightarrow> valid_video_stream_epoch (e - 1) \<and> e - 1 < e"
  by (auto simp: valid_video_stream_epoch_def kVideoStreamEpochMax_def word_le_iff_unat
      word_less_iff_unat unat_sub_if_size)

lemma word_eq_1: "e \<noteq> 0 \<Longrightarrow> \<not> 1 < e \<Longrightarrow> e = 1" for e :: u64
  by (simp add: word_less_iff_unat word_unat_eq_iff)

lemma activate_epoch_epoch_inv:
  assumes "epoch_inv r" and "activate_epoch e seed r = (b, r')"
  shows "epoch_inv r'"
proof (cases "active_epoch r")
  case None
  with assms show ?thesis
    using epoch_pred_valid [of e]
    by (auto simp: activate_epoch_def epoch_inv_def remember_retired_epoch_def clear_pending_def
        Let_def valid_video_stream_epoch_def split: if_splits option.splits dest: word_eq_1)
next
  case (Some a)
  with assms show ?thesis
    by (auto simp: activate_epoch_def epoch_inv_def remember_retired_epoch_def clear_pending_def
        Let_def is_retired_epoch_def valid_video_stream_epoch_def split: if_splits option.splits
        dest: word_eq_1)
qed

lemma remember_retired_epoch_fields [simp]:
  "pending (remember_retired_epoch e r) = pending r"
  "max_inflight_bytes (remember_retired_epoch e r) = max_inflight_bytes r"
  "max_inflight_frames (remember_retired_epoch e r) = max_inflight_frames r"
  by (simp_all add: remember_retired_epoch_def split: option.split)

lemma activate_epoch_cases:
  assumes "activate_epoch e seed r = (b, r')"
  obtains "r' = r" | "active_epoch r = Some e" and "r' = r\<lparr>last_delivered_sequence := seed\<rparr>"
    and "last_delivered_sequence r = None" and "pending r = []"
  | "b" and "pending r' = []" and "inflight_bytes r' = 0"
    and "max_inflight_bytes r' = max_inflight_bytes r"
    and "max_inflight_frames r' = max_inflight_frames r"
    and "active_epoch r' = Some e" and "last_delivered_sequence r' = seed"
    and "active_epoch r = None \<or> (\<exists>a. active_epoch r = Some a \<and> a < e)"
proof (cases "b \<and> active_epoch r \<noteq> Some e")
  case False
  then consider "\<not> b" | "b" and "active_epoch r = Some e" by blast
  then have "r' = r \<or> (active_epoch r = Some e \<and> r' = r\<lparr>last_delivered_sequence := seed\<rparr> \<and>
      last_delivered_sequence r = None \<and> pending r = [])"
    using assms by cases (auto simp: activate_epoch_def Let_def split: if_splits)
  then show thesis by (elim disjE conjE) (rule that(1), assumption, rule that(2))
next
  case True
  then have ok: "valid_video_stream_epoch e" "\<not> is_retired_epoch e r"
    "\<not> (case active_epoch r of None \<Rightarrow> False | Some a \<Rightarrow> e < a)" "active_epoch r \<noteq> Some e"
    using assms by (auto simp: activate_epoch_def split: if_splits)
  let ?r = "snd (activate_epoch e seed r)"
  have "pending ?r = []" "inflight_bytes ?r = 0" "max_inflight_bytes ?r = max_inflight_bytes r"
    "max_inflight_frames ?r = max_inflight_frames r" "active_epoch ?r = Some e"
    "last_delivered_sequence ?r = seed"
    using ok by (simp_all add: activate_epoch_def Let_def clear_pending_def split: option.split)
  moreover have "active_epoch r = None \<or> (\<exists>a. active_epoch r = Some a \<and> a < e)"
    using ok by (auto split: option.splits)
  ultimately show thesis using that(3) True assms by simp
qed

lemma activate_epoch_inv [inv_intros]:
  assumes "reassembler_inv H r" and "activate_epoch e seed r = (b, r')"
  shows "reassembler_inv H r'"
proof -
  have ep: "epoch_inv r'"
    using assms activate_epoch_epoch_inv by (auto simp: reassembler_inv_def frames_inv_def)
  from assms(2) show ?thesis
  proof (cases rule: activate_epoch_cases)
    case 3
    with assms(1) ep show ?thesis
      by (simp add: reassembler_inv_def frames_inv_def pending_bytes_def)
  qed (use assms(1) in \<open>simp_all add: reassembler_inv_def frames_inv_cursor\<close>)
qed

lemma trim_loop_inv:
  assumes "frames_inv H r"
  shows "\<exists>r'. trim_loop r = Some r' \<and> reassembler_inv H r' \<and>
    active_epoch r' = active_epoch r \<and> last_delivered_sequence r' = last_delivered_sequence r"
  using assms
proof (induction r rule: trim_loop.induct)
  case (1 r)
  show ?case
  proof (cases "over_limits r")
    case False
    then show ?thesis using "1.prems"
      by (subst trim_loop.simps) (simp add: over_limits_def reassembler_inv_def)
  next
    case True
    then have ne: "pending r \<noteq> []"
      using "1.prems" by (auto simp: over_limits_def frames_inv_def)
    obtain s p where "oldest_pending (pending r) = Some (s, p)"
      using ne oldest_pending_None [of "pending r"] by fastforce
    then have d: "discard_oldest r = erase_pending s True r" by (simp add: discard_oldest_def)
    have "frames_inv H (discard_oldest r)"
      unfolding d using "1.prems" by (rule erase_pending_frames_inv)
    with "1.IH" [OF True ne] True ne show ?thesis
      by (subst trim_loop.simps) (simp add: d)
  qed
qed

lemma count_received_update:
  "i < length xs \<Longrightarrow> \<not> xs ! i \<Longrightarrow>
     length (filter id (xs[i := True])) = Suc (length (filter id xs))"
  by (induction xs arbitrary: i) (auto split: nat.splits)

lemma count_received_less:
  "i < length xs \<Longrightarrow> \<not> xs ! i \<Longrightarrow> length (filter id xs) < length xs"
  using length_filter_less [of "xs ! i" xs id] nth_mem [of i xs] by simp

lemma store_part_fields [simp]:
  "received (store_part i x p) = (received p)[i := True]"
  "parts (store_part i x p) = (parts p)[i := x]"
  "total_bytes (store_part i x p) = total_bytes p + length x"
  "received_fragments (store_part i x p) = received_fragments p + 1"
  "expected_fragments (store_part i x p) = expected_fragments p"
  "pf_repeated_content (store_part i x p) = pf_repeated_content p"
  by (simp_all add: store_part_def)

lemma store_part_frame_inv:
  assumes "frame_inv H e s p" and "f \<in> H" and "fragment_ok f"
    and "identity f = \<lparr>stream_epoch = e, frame_sequence = s\<rparr>"
    and "fragment_count f = expected_fragments p" and "repeated_content f = pf_repeated_content p"
    and "\<not> received p ! unat (fragment_index f)"
    and "total_bytes p + length (access_unit_part f) \<le> kMaxAccessUnitBytes"
  shows "frame_inv H e s (store_part (unat (fragment_index f)) (access_unit_part f) p)"
proof -
  let ?i = "unat (fragment_index f)" and ?n = "unat (expected_fragments p)"
  have i: "?i < ?n" using assms(3,5) by (simp add: valid_video_fragment_metadata_def word_less_iff_unat)
  have len: "length (received p) = ?n" "length (parts p) = ?n"
    and cnt: "unat (received_fragments p) = length (filter id (received p))"
    and tot: "total_bytes p = sum_list (map length (parts p))"
    and slots: "\<And>j. j < ?n \<Longrightarrow> if received p ! j then part_from H e s p j else parts p ! j = []"
    using assms(1) unfolding frame_inv_def by blast+
  have "parts p ! ?i = []" using slots [OF i] assms(7) by simp
  then have sum: "sum_list (map length ((parts p)[?i := access_unit_part f]))
      = total_bytes p + length (access_unit_part f)"
    using sum_list_update_nat [of ?i "map length (parts p)" "length (access_unit_part f)"] i len tot
    by (simp add: map_update)
  have "unat (received_fragments p) < ?n"
    using count_received_less [of ?i "received p"] i len cnt assms(7) by simp
  moreover have "unat (- 1 :: u16) = 65535"
    by (simp add: unsigned_minus_1_eq_mask mask_eq_exp_minus_1)
  ultimately have "received_fragments p \<noteq> - 1"
    using assms(1) by (auto simp: frame_inv_def const_defs)
  then have cnt': "unat (received_fragments p + 1) = length (filter id ((received p)[?i := True]))"
    using count_received_update [of ?i "received p"] i len cnt assms(7)
    by (simp add: unat_add_1_nowrap)
  have "part_from H e s (store_part ?i (access_unit_part f) p) ?i"
    unfolding part_from_def by (rule bexI [of _ f]) (use assms i len in simp_all)
  then have "if (received p)[?i := True] ! j
      then part_from H e s (store_part ?i (access_unit_part f) p) j
      else (parts p)[?i := access_unit_part f] ! j = []" if "j < ?n" for j
    using slots [OF that] that len i
    by (cases "j = ?i") (auto simp: part_from_def split: if_splits)
  then show ?thesis
    using assms(1,8) len sum cnt' by (simp add: frame_inv_def)
qed

lemma fresh_pending_frame_inv:
  assumes "count \<noteq> 0" and "unat count \<le> kMaxVideoFragmentsPerAccessUnit"
  shows "frame_inv H e s (fresh_pending rep count now arr)"
  using assms by (simp add: frame_inv_def fresh_pending_def sum_list_replicate)

lemma try_emplace_inv:
  assumes "reassembler_inv H r" and "try_emplace s rep count now r = (p, r')"
    and "count \<noteq> 0" and "unat count \<le> kMaxVideoFragmentsPerAccessUnit"
    and "active_epoch r = Some e"
  shows "frames_inv H r'" and "map_of (pending r') s = Some p" and "active_epoch r' = Some e"
    and "last_delivered_sequence r' = last_delivered_sequence r"
    and "frame_inv H e s p"
proof -
  have inv: "frames_inv H r" using assms(1) by (simp add: reassembler_inv_def)
  have "frames_inv H r' \<and> map_of (pending r') s = Some p \<and> active_epoch r' = Some e \<and>
      last_delivered_sequence r' = last_delivered_sequence r"
  proof (cases "map_of (pending r) s")
    case None
    have "frame_inv H e s (fresh_pending rep count now (next_arrival_order r))"
      using assms(3,4) by (rule fresh_pending_frame_inv)
    moreover have "total_bytes (fresh_pending rep count now (next_arrival_order r)) = 0"
      by (simp add: fresh_pending_def)
    ultimately have "frames_inv H r'"
      using inv assms(2,5) None
      by (auto simp: try_emplace_def Let_def frames_inv_def pending_bytes_def epoch_inv_def
          alist_update_new map_of_eq_None_iff)
    then show ?thesis
      using assms(2,5) None by (auto simp: try_emplace_def Let_def update_conv')
  qed (use assms inv in \<open>simp add: try_emplace_def\<close>)
  then show "frames_inv H r'" and m: "map_of (pending r') s = Some p" and "active_epoch r' = Some e"
    and "last_delivered_sequence r' = last_delivered_sequence r"
    by simp_all
  then show "frame_inv H e s p"
    by (auto simp: frames_inv_def dest!: map_of_SomeD)
qed

lemma frames_inv_update:
  assumes "frames_inv H r" and "map_of (pending r) s = Some p" and "active_epoch r = Some e"
    and "frame_inv H e s q" and "total_bytes q = total_bytes p + n"
    and "inflight_bytes r + n \<le> max_inflight_bytes r"
  shows "frames_inv H (r\<lparr>pending := AList.update s q (pending r),
    inflight_bytes := inflight_bytes r + n\<rparr>)"
proof -
  have d: "distinct (map fst (pending r))" using assms(1) by (simp add: frames_inv_def)
  have "sum_list (map (total_bytes \<circ> snd) (AList.update s q (pending r)))
      = sum_list (map (total_bytes \<circ> snd) (pending r)) + n"
    using alist_update_sum [OF assms(2), of "total_bytes \<circ> snd" q] assms(5) by simp
  then show ?thesis
    using assms(1,3,4,6) d
    by (auto simp: frames_inv_def pending_bytes_def epoch_inv_def distinct_update
        dest!: alist_update_mem [OF d])
qed

lemma frames_inv_counters:
  "frames_inv H (r\<lparr>payload_bytes_moved := a, payload_bytes_copied := b\<rparr>) = frames_inv H r"
  "frames_inv H (r\<lparr>duplicate_payload_bytes_avoided := c\<rparr>) = frames_inv H r"
  "frames_inv H (r\<lparr>conflicting_duplicate_losses := c\<rparr>) = frames_inv H r"
  "frames_inv H (r\<lparr>foreign_or_retired_epoch_drops := c\<rparr>) = frames_inv H r"
  by (simp_all add: frames_inv_def pending_bytes_def epoch_inv_def cong: option.case_cong)

lemma frames_inv_length:
  "frames_inv H r \<Longrightarrow> map_of (pending r) s = Some p \<Longrightarrow>
     length (pending r) \<le> Suc (max_inflight_frames r) \<Longrightarrow> reassembler_inv H (erase_pending s b r)"
  using alist_delete_length [of "pending r" s p] erase_pending_frames_inv [of H r s b]
  by (simp add: reassembler_inv_def erase_pending_pending frames_inv_def)

text \<open>
  How far delivery has got is the active epoch and the last delivered sequence. Between two
  states it stays, or moves to a larger epoch, or is seeded where nothing was delivered yet. Every
  push brings the reassembler to such a state and then at most pops one unit.
\<close>

definition cursor_le :: "reassembler \<Rightarrow> reassembler \<Rightarrow> bool" where
  "cursor_le r r' \<longleftrightarrow>
     active_epoch r = None
     \<or> (\<exists>a b. active_epoch r = Some a \<and> active_epoch r' = Some b \<and> a < b)
     \<or> (active_epoch r' = active_epoch r \<and>
        (last_delivered_sequence r = None \<or> last_delivered_sequence r' = last_delivered_sequence r))"

lemma cursor_le_same:
  "active_epoch r' = active_epoch r \<Longrightarrow> last_delivered_sequence r' = last_delivered_sequence r \<Longrightarrow>
     cursor_le r r'"
  by (simp add: cursor_le_def)

lemma activate_epoch_cursor: "activate_epoch e seed r = (b, r') \<Longrightarrow> cursor_le r r'"
  by (erule activate_epoch_cases) (auto simp: cursor_le_def)

definition settles ::
  "video_fragment set \<Rightarrow> reassembler \<Rightarrow> completed_access_unit option \<Rightarrow> reassembler \<Rightarrow> bool" where
  "settles H r c r' \<longleftrightarrow>
     (\<exists>r1. reassembler_inv H r1 \<and> cursor_le r r1 \<and>
        ((c = None \<and> r' = r1) \<or> pop_completed r1 = (c, r')))"

lemma settles_pop:
  "reassembler_inv H r1 \<Longrightarrow> cursor_le r r1 \<Longrightarrow>
     \<exists>c r'. Some (pop_completed r1) = Some (c, r') \<and> settles H r c r'"
  by (cases "pop_completed r1") (auto simp: settles_def)

lemma settlesI: "reassembler_inv H r1 \<Longrightarrow> cursor_le r r1 \<Longrightarrow> settles H r None r1"
  by (auto simp: settles_def)

lemma settles_quiet:
  "reassembler_inv H r1 \<Longrightarrow> cursor_le r r1 \<Longrightarrow>
     \<exists>c r'. Some (None, r1) = Some (c, r') \<and> settles H r c r'"
  by (auto simp: settles_def)

lemma store_fragment_settles:
  assumes "frames_inv H r" and "map_of (pending r) s = Some p" and "active_epoch r = Some e"
    and "length (pending r) \<le> Suc (max_inflight_frames r)"
    and "f \<in> H" and "fragment_ok f" and "identity f = \<lparr>stream_epoch = e, frame_sequence = s\<rparr>"
    and "fragment_count f = expected_fragments p" and "repeated_content f = pf_repeated_content p"
    and "\<not> received p ! unat (fragment_index f)"
  shows "\<exists>c r'. store_fragment s p (unat (fragment_index f)) (access_unit_part f) owned r = Some (c, r')
    \<and> settles H r c r'"
proof -
  let ?n = "length (access_unit_part f)"
  let ?q = "store_part (unat (fragment_index f)) (access_unit_part f) p"
  have fi: "frame_inv H e s p"
    using assms(1-3) by (auto simp: frames_inv_def dest!: map_of_SomeD)
  show ?thesis
  proof (cases "kMaxAccessUnitBytes < ?n \<or> kMaxAccessUnitBytes - ?n < total_bytes p \<or>
      max_inflight_bytes r < ?n \<or> max_inflight_bytes r - ?n < inflight_bytes r")
    case True
    then have "store_fragment s p (unat (fragment_index f)) (access_unit_part f) owned r
        = Some (None, erase_pending s True r)"
      by (simp add: store_fragment_def Let_def)
    then show ?thesis
      using settles_quiet [OF frames_inv_length [OF assms(1,2,4)] cursor_le_same] by simp
  next
    case False
    then have b: "total_bytes p + ?n \<le> kMaxAccessUnitBytes"
      "inflight_bytes r + ?n \<le> max_inflight_bytes r"
      by linarith+
    have "frame_inv H e s ?q"
      using fi assms(5-10) b(1) by (intro store_part_frame_inv)
    then have "frames_inv H (r\<lparr>pending := AList.update s ?q (pending r),
        inflight_bytes := inflight_bytes r + ?n\<rparr>)"
      using assms(1-3) b(2) by (intro frames_inv_update) simp_all
    then have "frames_inv H (r\<lparr>pending := AList.update s ?q (pending r),
        inflight_bytes := inflight_bytes r + ?n\<rparr>\<lparr>payload_bytes_moved := x, payload_bytes_copied := y\<rparr>)"
      for x y
      by (simp only: frames_inv_counters)
    note trim = trim_loop_inv [OF this]
    let ?m = "if owned then payload_bytes_moved r + of_nat ?n else payload_bytes_moved r"
    let ?c = "if owned then payload_bytes_copied r else payload_bytes_copied r + of_nat ?n"
    obtain r1 where r1: "trim_loop (r\<lparr>pending := AList.update s ?q (pending r),
        inflight_bytes := inflight_bytes r + ?n\<rparr>\<lparr>payload_bytes_moved := ?m, payload_bytes_copied := ?c\<rparr>)
        = Some r1" "reassembler_inv H r1" "cursor_le r r1"
      using trim [of ?c ?m] by (auto intro: cursor_le_same)
    then have "store_fragment s p (unat (fragment_index f)) (access_unit_part f) owned r
        = Some (pop_completed r1)"
      using False by (simp add: store_fragment_def Let_def)
    then show ?thesis using settles_pop [OF r1(2,3)] by simp
  qed
qed

lemma try_emplace_length:
  "try_emplace s rep count now r = (p, r') \<Longrightarrow> length (pending r) \<le> max_inflight_frames r \<Longrightarrow>
     length (pending r') \<le> Suc (max_inflight_frames r')"
  by (auto simp: try_emplace_def Let_def alist_update_length split: option.splits)

lemma note_avoided_copy_inv [inv_intros]:
  "reassembler_inv H r \<Longrightarrow> reassembler_inv H (note_avoided_copy d x r)"
  by (simp add: note_avoided_copy_def reassembler_inv_def frames_inv_counters)

lemma note_avoided_copy_fields [simp]:
  "active_epoch (note_avoided_copy d x r) = active_epoch r"
  "last_delivered_sequence (note_avoided_copy d x r) = last_delivered_sequence r"
  "pending (note_avoided_copy d x r) = pending r"
  "max_inflight_frames (note_avoided_copy d x r) = max_inflight_frames r"
  "max_inflight_bytes (note_avoided_copy d x r) = max_inflight_bytes r"
  by (simp_all add: note_avoided_copy_def)

lemma conflict_inv:
  assumes "frames_inv H r" and "map_of (pending r) s = Some p"
    and "length (pending r) \<le> Suc (max_inflight_frames r)"
  shows "reassembler_inv H (conflict s r)"
  using frames_inv_length [OF assms, of True]
  by (simp add: conflict_def Let_def reassembler_inv_def frames_inv_counters)

lemma conflict_fields [simp]:
  "active_epoch (conflict s r) = active_epoch r"
  "last_delivered_sequence (conflict s r) = last_delivered_sequence r"
  by (simp_all add: conflict_def Let_def)

lemma push_frame_settles:
  assumes "reassembler_inv H r" and "active_epoch r = Some e" and "f \<in> H" and "fragment_ok f"
    and "identity f = \<lparr>stream_epoch = e, frame_sequence = s\<rparr>"
  shows "\<exists>c r'. push_frame s (repeated_content f) (fragment_index f) (fragment_count f)
      (access_unit_part f) owned dup now r = Some (c, r') \<and> settles H r c r'"
proof (cases "case last_delivered_sequence r of None \<Rightarrow> False
    | Some l \<Rightarrow> \<not> video_frame_sequence_is_newer s l")
  case True
  then show ?thesis
    using settles_pop [OF note_avoided_copy_inv [OF assms(1)] cursor_le_same]
    by (simp add: push_frame_def)
next
  case False
  obtain p r1 where em: "try_emplace s (repeated_content f) (fragment_count f) now r = (p, r1)"
    by fastforce
  have count: "fragment_count f \<noteq> 0" "unat (fragment_count f) \<le> kMaxVideoFragmentsPerAccessUnit"
    using assms(4) by (simp_all add: valid_video_fragment_metadata_def)
  have idx: "unat (fragment_index f) < unat (fragment_count f)"
    using assms(4) by (simp add: valid_video_fragment_metadata_def word_less_iff_unat)
  note r1 = try_emplace_inv [OF assms(1) em count assms(2)]
  have len: "length (pending r1) \<le> Suc (max_inflight_frames r1)"
    using try_emplace_length [OF em] assms(1) by (simp add: reassembler_inv_def)
  have cur: "cursor_le r (conflict s r1)" "settles H r1 c r' \<Longrightarrow> settles H r c r'" for c r'
    using assms(2) r1(3,4) by (auto simp: cursor_le_def settles_def)
  consider "expected_fragments p \<noteq> fragment_count f \<or> pf_repeated_content p \<noteq> repeated_content f
      \<or> (received p ! unat (fragment_index f) \<and> parts p ! unat (fragment_index f) \<noteq> access_unit_part f)"
    | "received p ! unat (fragment_index f)" and "parts p ! unat (fragment_index f) = access_unit_part f"
      and "expected_fragments p = fragment_count f" and "pf_repeated_content p = repeated_content f"
    | "\<not> received p ! unat (fragment_index f)"
      and "expected_fragments p = fragment_count f" and "pf_repeated_content p = repeated_content f"
    by blast
  then show ?thesis
  proof cases
    case 1
    with False em show ?thesis
      using settles_quiet [OF conflict_inv [OF r1(1,2) len] cur(1)] by (auto simp: push_frame_def)
  next
    case 2
    have "r1 = r"
    proof (cases "map_of (pending r) s")
      case None
      with em have "p = fresh_pending (repeated_content f) (fragment_count f) now (next_arrival_order r)"
        by (simp add: try_emplace_def Let_def)
      then show ?thesis using 2(1) idx by (simp add: fresh_pending_def)
    qed (use em in \<open>simp add: try_emplace_def\<close>)
    then show ?thesis
      using False em 2 settles_pop [OF note_avoided_copy_inv [OF assms(1)] cursor_le_same]
      by (simp add: push_frame_def)
  next
    case 3
    with store_fragment_settles [OF r1(1,2,3) len assms(3-5)] cur(2) False em show ?thesis
      by (fastforce simp: push_frame_def)
  qed
qed

lemma push_payload_settles:
  assumes "reassembler_inv H r" and "f \<in> H"
  shows "\<exists>c r'. push_payload (identity f) (repeated_content f) (fragment_index f) (fragment_count f)
      (access_unit_part f) owned dup now r = Some (c, r') \<and> settles H r c r'"
proof (cases "fragment_ok f")
  case False
  then have "push_payload (identity f) (repeated_content f) (fragment_index f) (fragment_count f)
      (access_unit_part f) owned dup now r = Some (None, r)"
    by (auto simp: push_payload_def valid_video_fragment_metadata_def not_less not_le)
  then show ?thesis using settles_quiet [OF assms(1) cursor_le_same] by simp
next
  case True
  obtain b r1 where act: "(if active_epoch r = None
      then activate_epoch (stream_epoch (identity f)) None r else (True, r)) = (b, r1)"
    by fastforce
  have inv1: "reassembler_inv H r1" and cur: "cursor_le r r1"
    using act assms(1) activate_epoch_inv activate_epoch_cursor
    by (auto split: if_splits intro: cursor_le_same)
  have unf: "push_payload (identity f) (repeated_content f) (fragment_index f) (fragment_count f)
      (access_unit_part f) owned dup now r =
      (if \<not> b then Some (None, r1)
       else if active_epoch r1 \<noteq> Some (stream_epoch (identity f)) then
         Some (pop_completed
           (r1\<lparr>foreign_or_retired_epoch_drops := foreign_or_retired_epoch_drops r1 + 1\<rparr>))
       else push_frame (frame_sequence (identity f)) (repeated_content f) (fragment_index f)
         (fragment_count f) (access_unit_part f) owned dup now r1)"
    using True act
    by (auto simp: push_payload_def valid_video_fragment_metadata_def not_less not_le)
  show ?thesis
  proof (cases "b \<and> active_epoch r1 = Some (stream_epoch (identity f))")
    case True
    have "settles H r1 c r' \<Longrightarrow> settles H r c r'" for c r'
      using act True by (auto simp: settles_def cursor_le_def split: if_splits)
    with push_frame_settles [OF inv1 _ assms(2) \<open>fragment_ok f\<close>, where s = "frame_sequence (identity f)"]
      True unf show ?thesis by fastforce
  next
    case False
    have "reassembler_inv H
        (r1\<lparr>foreign_or_retired_epoch_drops := foreign_or_retired_epoch_drops r1 + 1\<rparr>)"
      using inv1 by (simp add: reassembler_inv_def frames_inv_counters)
    moreover have "cursor_le r
        (r1\<lparr>foreign_or_retired_epoch_drops := foreign_or_retired_epoch_drops r1 + 1\<rparr>)"
      using cur by (simp add: cursor_le_def)
    ultimately show ?thesis
      unfolding unf using False settles_pop settles_quiet [OF inv1 cur] by auto
  qed
qed

lemma expire_frames_inv:
  "reassembler_inv H q \<Longrightarrow> fold (expire_frame now ttl) xs (k, q) = (n, r') \<Longrightarrow>
     reassembler_inv H r' \<and> active_epoch r' = active_epoch q \<and>
     last_delivered_sequence r' = last_delivered_sequence q"
proof (induction xs arbitrary: k q)
  case (Cons x xs)
  obtain s p where x: "x = (s, p)" by (cases x)
  show ?case
    using Cons.IH [of "erase_pending s True q" "Suc k"] Cons.IH [of q k] Cons.prems erase_pending_inv
    by (auto simp: x split: if_splits)
qed simp

lemma discard_expired_inv:
  assumes "reassembler_inv H r" and "discard_expired now ttl r = (n, r')"
  shows "reassembler_inv H r'" and "cursor_le r r'"
  using expire_frames_inv [OF assms(1)] assms(2)
  by (auto simp: discard_expired_def intro: cursor_le_same)

section \<open>Runs\<close>

text \<open>
  The receiver's calls, in any order. \<open>None\<close> is again a call that does not return; the result
  lists the completed units the calls handed out.
\<close>

datatype reassembler_event =
    Push video_fragment u64
  | Push_View video_fragment u64
  | Pop
  | Discard_Expired u64 u64
  | Activate u64 "u32 option"

fun reassembler_step ::
  "reassembler_event \<Rightarrow> reassembler \<Rightarrow> (completed_access_unit option \<times> reassembler) option" where
  "reassembler_step (Push f now_us) r = push f now_us r"
| "reassembler_step (Push_View f now_us) r = push_view f now_us r"
| "reassembler_step Pop r = Some (pop_completed r)"
| "reassembler_step (Discard_Expired now_us ttl_us) r = Some (None, snd (discard_expired now_us ttl_us r))"
| "reassembler_step (Activate epoch seed) r = Some (None, snd (activate_epoch epoch seed r))"

fun reassembler_run ::
  "reassembler_event list \<Rightarrow> reassembler \<Rightarrow> (completed_access_unit list \<times> reassembler) option" where
  "reassembler_run [] r = Some ([], r)"
| "reassembler_run (e # es) r =
     (case reassembler_step e r of
        None \<Rightarrow> None
      | Some (c, r') \<Rightarrow>
          map_option (\<lambda>(cs, r''). ((case c of None \<Rightarrow> cs | Some a \<Rightarrow> a # cs), r''))
            (reassembler_run es r'))"

fun pushed :: "reassembler_event \<Rightarrow> video_fragment set" where
  "pushed (Push f _) = {f}"
| "pushed (Push_View f _) = {f}"
| "pushed _ = {}"

lemma reassembler_step_settles:
  assumes "reassembler_inv H r" and "pushed e \<subseteq> H"
  shows "\<exists>c r'. reassembler_step e r = Some (c, r') \<and> settles H r c r'"
proof (cases e)
  case (Discard_Expired now ttl)
  obtain n r' where run: "discard_expired now ttl r = (n, r')" by fastforce
  show ?thesis
    using settlesI [OF discard_expired_inv [OF assms(1) run]] run Discard_Expired by simp
next
  case (Activate epoch seed)
  obtain b r' where run: "activate_epoch epoch seed r = (b, r')" by fastforce
  show ?thesis
    using settlesI [OF activate_epoch_inv [OF assms(1) run] activate_epoch_cursor [OF run]] run Activate
    by simp
next
  case Pop
  then show ?thesis using settles_pop [OF assms(1) cursor_le_same] by simp
qed (use assms push_payload_settles in \<open>simp_all add: push_def push_view_def\<close>)

lemma settles_inv: "settles H r c r' \<Longrightarrow> reassembler_inv H r'"
  by (auto simp: settles_def intro: pop_completed_inv)

lemma complete_frame_parts:
  assumes "frame_inv H e s p" and "received_fragments p = expected_fragments p"
    and "i < unat (expected_fragments p)"
  shows "part_from H e s p i"
proof -
  have "length (filter id (received p)) = length (received p)"
    using assms(1,2) by (simp add: frame_inv_def)
  then have "received p ! i"
    using count_received_less [of i "received p"] assms(1,3) by (auto simp: frame_inv_def)
  then show ?thesis using assms(1,3) by (simp add: frame_inv_def)
qed

text \<open>A unit is assembled from \<open>H\<close>: one pushed fragment of its identity for every index.\<close>

definition assembled_from :: "video_fragment set \<Rightarrow> completed_access_unit \<Rightarrow> bool" where
  "assembled_from H a \<longleftrightarrow>
     (\<exists>fs. fs \<noteq> [] \<and> set fs \<subseteq> H \<and> completed_bytes a = concat (map access_unit_part fs) \<and>
        (\<forall>k < length fs. fragment_ok (fs ! k) \<and> identity (fs ! k) = completed_identity a \<and>
           repeated_content (fs ! k) = completed_repeated a \<and>
           unat (fragment_index (fs ! k)) = k \<and> unat (fragment_count (fs ! k)) = length fs))"

lemma pop_completed_assembled:
  assumes "reassembler_inv H r" and "pop_completed r = (Some a, r')"
  shows "assembled_from H a"
  using assms(2)
proof (cases rule: pop_completed_cases)
  case (2 e s p)
  let ?n = "unat (expected_fragments p)"
  have fi: "frame_inv H e s p"
    using assms(1) 2(1,2) by (auto simp: reassembler_inv_def frames_inv_def)
  have "\<forall>k. \<exists>f. k < ?n \<longrightarrow> f \<in> H \<and> fragment_ok f \<and>
      identity f = \<lparr>stream_epoch = e, frame_sequence = s\<rparr> \<and> unat (fragment_index f) = k \<and>
      fragment_count f = expected_fragments p \<and> repeated_content f = pf_repeated_content p \<and>
      access_unit_part f = parts p ! k"
    using complete_frame_parts [OF fi 2(3)] unfolding part_from_def by blast
  then obtain g where g: "\<And>k. k < ?n \<Longrightarrow> g k \<in> H \<and> fragment_ok (g k) \<and>
      identity (g k) = \<lparr>stream_epoch = e, frame_sequence = s\<rparr> \<and> unat (fragment_index (g k)) = k \<and>
      fragment_count (g k) = expected_fragments p \<and> repeated_content (g k) = pf_repeated_content p \<and>
      access_unit_part (g k) = parts p ! k"
    by metis
  have "map access_unit_part (map g [0..<?n]) = parts p"
    using g fi by (intro nth_equalityI) (simp_all add: frame_inv_def)
  moreover have "0 < ?n" using fi by (simp add: frame_inv_def unat_gt_0)
  moreover have "fragment_ok (map g [0..<?n] ! k)" if "k < length (map g [0..<?n])" for k
    using that conjunct1 [OF conjunct2 [OF g]] by simp
  ultimately show ?thesis
    unfolding assembled_from_def using 2(5)
    by (intro exI [of _ "map g [0..<?n]"] conjI allI impI) (use g in auto)
qed simp

text \<open>Which identity may be delivered next, given the last one.\<close>

definition next_after :: "video_frame_identity \<Rightarrow> video_frame_identity \<Rightarrow> bool" where
  "next_after a b \<longleftrightarrow> stream_epoch a < stream_epoch b
     \<or> (stream_epoch a = stream_epoch b \<and> unat (frame_sequence b) = Suc (unat (frame_sequence a)))"

lemma next_after_fields [simp]:
  "next_after \<lparr>stream_epoch = stream_epoch a, frame_sequence = frame_sequence a\<rparr> i = next_after a i"
  by (simp add: next_after_def)

definition may_follow :: "reassembler \<Rightarrow> video_frame_identity \<Rightarrow> bool" where
  "may_follow r i \<longleftrightarrow>
     (case active_epoch r of None \<Rightarrow> True
      | Some e \<Rightarrow> (case last_delivered_sequence r of
            None \<Rightarrow> e \<le> stream_epoch i
          | Some l \<Rightarrow> next_after \<lparr>stream_epoch = e, frame_sequence = l\<rparr> i))"

lemma may_follow_cursor: "cursor_le r r' \<Longrightarrow> may_follow r' i \<Longrightarrow> may_follow r i"
  by (auto simp: cursor_le_def may_follow_def next_after_def split: option.splits)

lemma pop_completed_follows:
  assumes "pop_completed r = (Some a, r')"
  shows "may_follow r (completed_identity a)"
    and "active_epoch r' = Some (stream_epoch (completed_identity a))"
    and "last_delivered_sequence r' = Some (frame_sequence (completed_identity a))"
  using assms
  by (auto simp: may_follow_def next_after_def unat_add_1_nowrap elim!: pop_completed_cases)

lemma settles_outcome:
  assumes "settles H r c r'"
  shows "c = None \<Longrightarrow> may_follow r' i \<Longrightarrow> may_follow r i"
    and "c = Some a \<Longrightarrow> assembled_from H a \<and> may_follow r (completed_identity a) \<and>
      (may_follow r' i \<longrightarrow> next_after (completed_identity a) i)"
proof -
  obtain r1 where inv: "reassembler_inv H r1" and cur: "cursor_le r r1"
    and pop: "(c = None \<and> r' = r1) \<or> pop_completed r1 = (c, r')"
    using assms unfolding settles_def by blast
  show "may_follow r i" if "c = None" "may_follow r' i"
    using pop that may_follow_cursor [OF cur] by (auto elim!: pop_completed_cases)
  show "assembled_from H a \<and> may_follow r (completed_identity a) \<and>
      (may_follow r' i \<longrightarrow> next_after (completed_identity a) i)" if "c = Some a"
    using pop that pop_completed_assembled [OF inv] pop_completed_follows may_follow_cursor [OF cur]
    by (auto simp: may_follow_def)
qed

lemma reassembler_run_correct:
  assumes "reassembler_inv H r" and "\<Union> (set (map pushed es)) \<subseteq> H"
  shows "\<exists>cs r'. reassembler_run es r = Some (cs, r') \<and> reassembler_inv H r' \<and>
    list_all (assembled_from H) cs \<and> successively next_after (map completed_identity cs) \<and>
    (\<forall>a as. cs = a # as \<longrightarrow> may_follow r (completed_identity a))"
  using assms
proof (induction es arbitrary: r)
  case (Cons e es)
  obtain c r1 where step: "reassembler_step e r = Some (c, r1)" and s: "settles H r c r1"
    using reassembler_step_settles [of H r e] Cons.prems by auto
  obtain cs r' where run: "reassembler_run es r1 = Some (cs, r')" and inv: "reassembler_inv H r'"
    and cs: "list_all (assembled_from H) cs" "successively next_after (map completed_identity cs)"
    and fol: "\<forall>a as. cs = a # as \<longrightarrow> may_follow r1 (completed_identity a)"
    using Cons.IH [OF settles_inv [OF s]] Cons.prems(2) by auto
  show ?case
  proof (cases c)
    case None
    then show ?thesis using step run inv cs fol settles_outcome(1) [OF s] by auto
  next
    case (Some a)
    have "successively next_after (map completed_identity (a # cs))"
      using cs(2) fol settles_outcome(2) [OF s Some] by (cases cs) auto
    then show ?thesis using step run inv cs settles_outcome(2) [OF s Some] Some by auto
  qed
qed simp

section \<open>Properties\<close>

text \<open>
  C27. Every sequence of calls on a new reassembler returns (the trimming loop ends), and
  afterwards the in-flight bytes are counted exactly and both configured limits hold.
\<close>

theorem reassembler_total_and_bounded:
  "\<exists>cs r. reassembler_run es (make_reassembler mf mb rc) = Some (cs, r) \<and>
     inflight_bytes r = sum_list (map (total_bytes \<circ> snd) (pending r)) \<and>
     inflight_bytes r \<le> max_inflight_bytes r \<and> inflight_frame_count r \<le> max_inflight_frames r \<and>
     list_all (\<lambda>(s, p). length (concat (parts p)) = total_bytes p \<and>
        total_bytes p \<le> kMaxAccessUnitBytes) (pending r)"
proof -
  have init: "reassembler_inv UNIV (make_reassembler mf mb rc)" by (rule make_reassembler_inv)
  obtain cs r where run: "reassembler_run es (make_reassembler mf mb rc) = Some (cs, r)"
    and inv: "reassembler_inv UNIV r"
    using reassembler_run_correct [OF init subset_UNIV] by blast
  have "length (concat (parts p)) = total_bytes p \<and> total_bytes p \<le> kMaxAccessUnitBytes"
    if mem: "(s, p) \<in> set (pending r)" for s p
  proof -
    obtain e where "active_epoch r = Some e"
      using inv mem by (cases "active_epoch r")
        (auto simp: reassembler_inv_def frames_inv_def epoch_inv_def)
    then have "frame_inv UNIV e s p"
      using inv mem by (auto simp: reassembler_inv_def frames_inv_def)
    then show ?thesis by (simp add: frame_inv_def length_concat)
  qed
  with run inv show ?thesis
    by (auto simp: reassembler_inv_def frames_inv_def pending_bytes_def inflight_frame_count_def
        list_all_iff)
qed

section \<open>Every unit sent whole is delivered\<close>

text \<open>
  The reassembler while it collects one access unit: \<open>D\<close> is the set of indices received so far.
\<close>

definition au_slice :: "bytes \<Rightarrow> nat \<Rightarrow> nat \<Rightarrow> bytes" where
  "au_slice au m k = take m (drop (k * m) au)"

definition frame_shape :: "bytes \<Rightarrow> nat \<Rightarrow> bool \<Rightarrow> nat set \<Rightarrow> pending_frame \<Rightarrow> bool" where
  "frame_shape au m rep D p \<longleftrightarrow>
     expected_fragments p = of_nat (fragment_total au m) \<and> pf_repeated_content p = rep \<and>
     received p = map (\<lambda>k. k \<in> D) [0..<fragment_total au m] \<and>
     parts p = map (\<lambda>k. if k \<in> D then au_slice au m k else []) [0..<fragment_total au m]"

definition awaits :: "video_frame_identity \<Rightarrow> reassembler \<Rightarrow> bool" where
  "awaits ident r \<longleftrightarrow>
     reassembler_inv UNIV r \<and> active_epoch r = Some (stream_epoch ident) \<and>
     (\<forall>l. last_delivered_sequence r = Some l \<longrightarrow> Suc (unat l) = unat (frame_sequence ident))"

definition collecting ::
  "video_frame_identity \<Rightarrow> bytes \<Rightarrow> nat \<Rightarrow> bool \<Rightarrow> nat set \<Rightarrow> reassembler \<Rightarrow> bool" where
  "collecting ident au m rep D r \<longleftrightarrow>
     awaits ident r \<and> length au \<le> max_inflight_bytes r \<and>
     ((D = {} \<and> pending r = []) \<or>
      (\<exists>p. pending r = [(frame_sequence ident, p)] \<and> frame_shape au m rep D p))"

lemma map_slice_update:
  "k < n \<Longrightarrow> (map (\<lambda>j. if j \<in> D then g j else []) [0..<n])[k := g k]
     = map (\<lambda>j. if j \<in> insert k D then g j else []) [0..<n]"
  "k < n \<Longrightarrow> (map (\<lambda>j. j \<in> D) [0..<n])[k := True] = map (\<lambda>j. j \<in> insert k D) [0..<n]"
  by (auto intro!: nth_equalityI simp: nth_list_update split: if_splits)

lemma frame_shape_store:
  "frame_shape au m rep D p \<Longrightarrow> k < fragment_total au m \<Longrightarrow>
     frame_shape au m rep (insert k D) (store_part k (au_slice au m k) p)"
  by (simp add: frame_shape_def map_slice_update)

lemma concat_au_slices:
  "0 < m \<Longrightarrow> concat (map (au_slice au m) [0..<fragment_total au m]) = au"
  using concat_slices [of m au "fragment_total au m"] fragment_total_cover [of m au]
  by (simp add: au_slice_def [abs_def])

lemma sum_slices_le:
  assumes "0 < m"
  shows "sum_list (map length (map (\<lambda>k. if k \<in> D then au_slice au m k else []) [0..<fragment_total au m]))
    \<le> length au"
proof -
  have "sum_list (map length (map (\<lambda>k. if k \<in> D then au_slice au m k else []) [0..<fragment_total au m]))
      \<le> sum_list (map length (map (au_slice au m) [0..<fragment_total au m]))"
    by (simp add: comp_def) (rule sum_list_mono, simp)
  also have "\<dots> = length (concat (map (au_slice au m) [0..<fragment_total au m]))"
    by (simp only: length_concat)
  also have "\<dots> = length au" by (simp only: concat_au_slices [OF assms])
  finally show ?thesis .
qed

lemma frame_shape_bytes:
  assumes "frame_shape au m rep D p" and "frame_inv H e s p" and "0 < m"
  shows "total_bytes p \<le> length au"
  using assms sum_slices_le [OF assms(3), of D au] by (simp add: frame_shape_def frame_inv_def)

lemma all_received_iff:
  assumes "frame_shape au m rep D p" and "frame_inv H e s p"
    and "fragment_total au m < 2 ^ 16" and "D \<subseteq> {..<fragment_total au m}"
  shows "received_fragments p = expected_fragments p \<longleftrightarrow> D = {..<fragment_total au m}"
proof -
  let ?n = "fragment_total au m"
  have "length (filter id (received p)) = card D"
  proof -
    have "filter id (map (\<lambda>k. k \<in> D) [0..<?n]) = map (\<lambda>k. k \<in> D) (filter (\<lambda>k. k \<in> D) [0..<?n])"
      by (simp add: filter_map comp_def)
    then have "length (filter id (received p)) = length (filter (\<lambda>k. k \<in> D) [0..<?n])"
      using assms(1) by (simp add: frame_shape_def)
    also have "\<dots> = card (set (filter (\<lambda>k. k \<in> D) [0..<?n]))"
      by (intro distinct_card [symmetric]) simp
    also have "set (filter (\<lambda>k. k \<in> D) [0..<?n]) = D" using assms(4) by auto
    finally show ?thesis .
  qed
  then have "received_fragments p = expected_fragments p \<longleftrightarrow> card D = ?n"
    using assms(1-3) by (simp add: frame_inv_def frame_shape_def word_unat_eq_iff unat_of_nat_small)
  also have "\<dots> \<longleftrightarrow> D = {..<?n}"
    using assms(4) card_subset_eq [of "{..<?n}" D] by auto
  finally show ?thesis .
qed

text \<open>Pushing a fragment of a unit already delivered changes nothing that matters.\<close>

definition delivered :: "video_frame_identity \<Rightarrow> reassembler \<Rightarrow> bool" where
  "delivered ident r \<longleftrightarrow>
     active_epoch r = Some (stream_epoch ident) \<and> pending r = [] \<and>
     last_delivered_sequence r = Some (frame_sequence ident)"

lemma push_payload_active:
  assumes "fragment_ok f" and "active_epoch r = Some (stream_epoch (identity f))"
  shows "push_payload (identity f) (repeated_content f) (fragment_index f) (fragment_count f)
      (access_unit_part f) owned dup now r =
    push_frame (frame_sequence (identity f)) (repeated_content f) (fragment_index f)
      (fragment_count f) (access_unit_part f) owned dup now r"
  using assms by (auto simp: push_payload_def valid_video_fragment_metadata_def not_less not_le)

lemma delivered_push:
  assumes "delivered (identity f) r" and "fragment_ok f"
  shows "\<exists>r'. push_payload (identity f) (repeated_content f) (fragment_index f) (fragment_count f)
      (access_unit_part f) owned dup now r = Some (None, r') \<and> delivered (identity f) r'"
  using assms
  by (simp add: push_payload_active delivered_def push_frame_def video_frame_sequence_is_newer_def
      pop_completed_def)

lemma pop_single:
  assumes "awaits ident r" and "pending r = [(frame_sequence ident, p)]"
  shows "pop_completed r =
    (if received_fragments p \<noteq> expected_fragments p then (None, r)
     else (Some \<lparr>completed_identity = ident, completed_repeated = pf_repeated_content p,
             completed_bytes = concat (parts p)\<rparr>,
           erase_pending (frame_sequence ident) False
             (r\<lparr>last_delivered_sequence := Some (frame_sequence ident)\<rparr>)))"
proof -
  have "advance_video_frame_sequence l = Some (frame_sequence ident)"
    if "last_delivered_sequence r = Some l" for l
  proof -
    have "Suc (unat l) = unat (frame_sequence ident)"
      using assms(1) that by (simp add: awaits_def)
    moreover have "unat (frame_sequence ident) < 2 ^ LENGTH(32)" by (rule unsigned_less)
    moreover have "unat (- 1 :: u32) = 2 ^ 32 - 1"
      by (simp add: unsigned_minus_1_eq_mask mask_eq_exp_minus_1)
    ultimately have "l \<noteq> - 1" by auto
    then show ?thesis
      using \<open>Suc (unat l) = unat (frame_sequence ident)\<close>
      by (simp add: advance_Some_iff word_unat_eq_iff unat_add_1_nowrap)
  qed
  then show ?thesis
    using assms by (auto simp: pop_completed_def awaits_def split: option.splits)
qed

lemma collecting_emplace:
  assumes "collecting ident au m rep D r" and "fragmentable ident au m"
  obtains p r1 where
    "try_emplace (frame_sequence ident) rep (of_nat (fragment_total au m)) now r = (p, r1)"
    and "pending r1 = [(frame_sequence ident, p)]" and "frame_shape au m rep D p"
    and "awaits ident r1" and "max_inflight_bytes r1 = max_inflight_bytes r"
proof -
  let ?n = "fragment_total au m" and ?s = "frame_sequence ident"
  have n: "unat (of_nat ?n :: u16) = ?n" and nz: "(of_nat ?n :: u16) \<noteq> 0"
    using assms(2) fragment_total_pos [of au m]
    by (auto simp: fragmentable_def const_defs unat_of_nat_small simp flip: unat_eq_0)
  have aw: "awaits ident r" using assms(1) by (simp add: collecting_def)
  obtain p r1 where em: "try_emplace ?s rep (of_nat ?n) now r = (p, r1)" by fastforce
  have r1: "frames_inv UNIV r1" "active_epoch r1 = active_epoch r"
    "last_delivered_sequence r1 = last_delivered_sequence r"
    using try_emplace_inv [OF _ em nz] aw assms(2) n by (auto simp: awaits_def fragmentable_def)
  have shape: "pending r1 = [(?s, p)] \<and> frame_shape au m rep D p \<and>
      max_inflight_bytes r1 = max_inflight_bytes r"
    using assms(1) em n unfolding collecting_def
    by (auto simp: try_emplace_def Let_def fresh_pending_def frame_shape_def map_replicate_trivial
        simp flip: map_replicate_const)
  then have "awaits ident r1"
    using aw r1 by (auto simp: awaits_def reassembler_inv_def frames_inv_def)
  with em shape that show thesis by blast
qed

lemma awaits_frame_inv:
  "awaits ident r \<Longrightarrow> pending r = [(frame_sequence ident, p)] \<Longrightarrow>
     frame_inv UNIV (stream_epoch ident) (frame_sequence ident) p \<and> inflight_bytes r = total_bytes p"
  by (simp add: awaits_def reassembler_inv_def frames_inv_def pending_bytes_def)

lemma awaits_avoided: "awaits ident r \<Longrightarrow> awaits ident (note_avoided_copy dup x r)"
  by (simp add: awaits_def note_avoided_copy_inv)

lemma trim_loop_within: "\<not> over_limits r \<Longrightarrow> trim_loop r = Some r"
  by (simp add: trim_loop.simps)

text \<open>The pop that ends every push of a unit still being collected.\<close>

lemma pop_collecting:
  assumes "awaits ident r" and "pending r = [(frame_sequence ident, p)]"
    and "frame_shape au m rep D p" and "D \<subseteq> {..<fragment_total au m}" and "D \<noteq> {}"
    and "fragmentable ident au m" and "length au \<le> max_inflight_bytes r"
  shows "\<exists>c r'. pop_completed r = (c, r') \<and>
    (if D = {..<fragment_total au m}
     then c = Some \<lparr>completed_identity = ident, completed_repeated = rep, completed_bytes = au\<rparr>
       \<and> delivered ident r'
     else c = None \<and> collecting ident au m rep D r')"
proof -
  have m: "0 < m" and n: "fragment_total au m < 2 ^ 16"
    using assms(6) by (simp_all add: fragmentable_def const_defs)
  note complete = all_received_iff [OF assms(3) conjunct1 [OF awaits_frame_inv [OF assms(1,2)]] n assms(4)]
  show ?thesis
  proof (cases "D = {..<fragment_total au m}")
    case True
    have "parts p = map (au_slice au m) [0..<fragment_total au m]"
      using assms(3) True by (simp add: frame_shape_def)
    then have "concat (parts p) = au" by (simp only: concat_au_slices [OF m])
    moreover have "pf_repeated_content p = rep" using assms(3) by (simp add: frame_shape_def)
    ultimately show ?thesis
      using True complete pop_single [OF assms(1,2)] assms(1,2)
      by (simp add: delivered_def awaits_def erase_pending_pending)
  next
    case False
    then show ?thesis
      using complete pop_single [OF assms(1,2)] assms by (auto simp: collecting_def)
  qed
qed

lemma collecting_store:
  assumes "awaits ident r" and "pending r = [(frame_sequence ident, p)]"
    and "frame_shape au m rep D p" and "fragmentable ident au m" and "length au \<le> max_inflight_bytes r"
    and "k < fragment_total au m" and "k \<notin> D"
  shows "\<exists>r2. store_fragment (frame_sequence ident) p k (au_slice au m k) owned r = Some (pop_completed r2) \<and>
    awaits ident r2 \<and> pending r2 = [(frame_sequence ident, store_part k (au_slice au m k) p)] \<and>
    max_inflight_bytes r2 = max_inflight_bytes r"
proof -
  let ?s = "frame_sequence ident" and ?x = "au_slice au m k" and ?n = "fragment_total au m"
  let ?q = "store_part k ?x p" and ?f = "nth_fragment ident au rep m k"
  have m: "0 < m" and n: "?n < 2 ^ 16" and au: "length au \<le> kMaxAccessUnitBytes"
    using assms(4) by (simp_all add: fragmentable_def const_defs)
  have k: "unat (of_nat k :: u16) = k" using assms(6) n by (simp add: unat_of_nat_small)
  note fi = awaits_frame_inv [OF assms(1,2)]
  have "parts p ! k = []" "k < length (parts p)"
    using assms(3,6,7) by (simp_all add: frame_shape_def)
  then have "total_bytes p + length ?x = sum_list (map length (parts ?q))"
    using sum_list_update_nat [of k "map length (parts p)" "length ?x"] fi
    by (simp add: map_update frame_inv_def)
  also have "\<dots> \<le> length au"
    using frame_shape_store [OF assms(3,6)] sum_slices_le [OF m, of "insert k D" au]
    by (simp add: frame_shape_def)
  finally have tot: "total_bytes p + length ?x \<le> length au" .
  have "frame_inv UNIV (stream_epoch ident) ?s (store_part (unat (fragment_index ?f)) (access_unit_part ?f) p)"
    using fi assms(3,7) nth_fragment_ok [OF assms(4,6)] tot au
    by (intro store_part_frame_inv)
      (simp_all add: nth_fragment_def frame_shape_def au_slice_def k assms(6))
  then have "frame_inv UNIV (stream_epoch ident) ?s ?q" by (simp add: nth_fragment_def k au_slice_def)
  then have "frames_inv UNIV (r\<lparr>pending := AList.update ?s ?q (pending r),
      inflight_bytes := inflight_bytes r + length ?x\<rparr>)"
    using assms(1,2,5) fi tot
    by (intro frames_inv_update) (simp_all add: awaits_def reassembler_inv_def)
  then have inv: "frames_inv UNIV (r\<lparr>pending := AList.update ?s ?q (pending r),
      inflight_bytes := inflight_bytes r + length ?x\<rparr>\<lparr>payload_bytes_moved := a, payload_bytes_copied := b\<rparr>)"
    for a b
    by (simp only: frames_inv_counters)
  let ?r2 = "r\<lparr>pending := [(?s, ?q)], inflight_bytes := inflight_bytes r + length ?x,
      payload_bytes_moved := (if owned then payload_bytes_moved r + of_nat (length ?x)
        else payload_bytes_moved r),
      payload_bytes_copied := (if owned then payload_bytes_copied r
        else payload_bytes_copied r + of_nat (length ?x))\<rparr>"
  have aw: "awaits ident ?r2"
    using inv assms(1,2) by (simp add: awaits_def reassembler_inv_def)
  then have "\<not> over_limits ?r2"
    by (simp add: awaits_def reassembler_inv_def frames_inv_def over_limits_def)
  moreover have "\<not> (kMaxAccessUnitBytes < length ?x \<or> kMaxAccessUnitBytes - length ?x < total_bytes p \<or>
      max_inflight_bytes r < length ?x \<or> max_inflight_bytes r - length ?x < inflight_bytes r)"
    using tot au assms(5) fi by linarith
  ultimately have "store_fragment ?s p k ?x owned r = Some (pop_completed ?r2)"
    using assms(2) by (simp add: store_fragment_def Let_def trim_loop_within)
  with aw show ?thesis by (intro exI [of _ ?r2]) simp
qed

lemma collecting_push:
  assumes "collecting ident au m rep D r" and "fragmentable ident au m"
    and "D \<subset> {..<fragment_total au m}" and "k < fragment_total au m"
    and "f = nth_fragment ident au rep m k"
  shows "\<exists>c r'. push_payload (identity f) (repeated_content f) (fragment_index f) (fragment_count f)
      (access_unit_part f) owned dup now r = Some (c, r') \<and>
    (if insert k D = {..<fragment_total au m}
     then c = Some \<lparr>completed_identity = ident, completed_repeated = rep, completed_bytes = au\<rparr>
       \<and> delivered ident r'
     else c = None \<and> collecting ident au m rep (insert k D) r')"
proof -
  let ?n = "fragment_total au m" and ?s = "frame_sequence ident" and ?x = "au_slice au m k"
  have m: "0 < m" and n: "?n < 2 ^ 16"
    using assms(2) by (simp_all add: fragmentable_def const_defs)
  have aw: "awaits ident r" and cap: "length au \<le> max_inflight_bytes r"
    using assms(1) by (simp_all add: collecting_def)
  have f: "identity f = ident" "repeated_content f = rep" "fragment_index f = of_nat k"
    "fragment_count f = of_nat ?n" "access_unit_part f = ?x"
    by (simp_all add: assms(5) nth_fragment_def au_slice_def)
  have k: "unat (of_nat k :: u16) = k" using assms(4) n by (simp add: unat_of_nat_small)
  obtain p r1 where em: "try_emplace ?s rep (of_nat ?n) now r = (p, r1)"
    and pend: "pending r1 = [(?s, p)]" and shape: "frame_shape au m rep D p"
    and aw1: "awaits ident r1" and cap1: "max_inflight_bytes r1 = max_inflight_bytes r"
    by (rule collecting_emplace [OF assms(1,2), where now = now])
  have newer: "\<not> (case last_delivered_sequence r of None \<Rightarrow> False
      | Some l \<Rightarrow> \<not> video_frame_sequence_is_newer ?s l)"
    using aw by (auto simp: awaits_def video_frame_sequence_is_newer_def word_less_iff_unat
        split: option.split)
  have ok: "fragment_ok f" unfolding assms(5) by (rule nth_fragment_ok [OF assms(2,4)])
  have act: "active_epoch r = Some (stream_epoch (identity f))"
    using aw by (simp add: f awaits_def)
  have push: "push_payload (identity f) (repeated_content f) (fragment_index f) (fragment_count f)
      (access_unit_part f) owned dup now r =
      (if k \<in> D then Some (pop_completed (note_avoided_copy dup ?x r1))
       else store_fragment ?s p k ?x owned r1)"
    unfolding push_payload_active [OF ok act]
    using newer em shape assms(4) by (simp add: f push_frame_def frame_shape_def k)
  show ?thesis
  proof (cases "k \<in> D")
    case True
    have "insert k D \<subseteq> {..<?n}" "insert k D \<noteq> {}" "insert k D = D" using assms(3) True by auto
    then show ?thesis
      using pop_collecting [OF awaits_avoided [OF aw1, of dup ?x], of p au m rep "insert k D"]
        pend shape assms(2) cap cap1 push True by simp
  next
    case False
    obtain r2 where st: "store_fragment ?s p k ?x owned r1 = Some (pop_completed r2)" "awaits ident r2"
      "pending r2 = [(?s, store_part k ?x p)]" "max_inflight_bytes r2 = max_inflight_bytes r1"
      using collecting_store [OF aw1 pend shape assms(2) _ assms(4) False] cap cap1 by auto
    have D: "insert k D \<subseteq> {..<?n}" "insert k D \<noteq> {}" using assms(3,4) by auto
    show ?thesis
      using pop_collecting [OF st(2,3) frame_shape_store [OF shape assms(4)] D assms(2)]
        st cap cap1 push False by simp
  qed
qed

text \<open>Pushes, by either entry point and at any time.\<close>

fun push_event :: "bool \<times> video_fragment \<times> u64 \<Rightarrow> reassembler_event" where
  "push_event (owned, f, now) = (if owned then Push f now else Push_View f now)"

lemma delivered_run:
  assumes "delivered ident r"
    and "\<forall>(owned, f, now) \<in> set ps. identity f = ident \<and> fragment_ok f"
  shows "\<exists>r'. reassembler_run (map push_event ps) r = Some ([], r') \<and> delivered ident r'"
  using assms
proof (induction ps arbitrary: r)
  case (Cons x ps)
  obtain owned f now where x: "x = (owned, f, now)" by (cases x)
  obtain r1 where "push_payload (identity f) (repeated_content f) (fragment_index f)
      (fragment_count f) (access_unit_part f) owned (\<not> owned) now r = Some (None, r1)"
    "delivered ident r1"
    using delivered_push [of f r owned "\<not> owned" now] Cons.prems x by auto
  with Cons.IH [of r1] Cons.prems(2) show ?case
    by (auto simp: x push_def push_view_def)
qed simp

lemma collecting_run:
  assumes "collecting ident au m rep D r" and "fragmentable ident au m"
    and "D \<subset> {..<fragment_total au m}"
    and "\<forall>(owned, f, now) \<in> set ps. \<exists>k < fragment_total au m. f = nth_fragment ident au rep m k"
    and "{..<fragment_total au m} \<subseteq> D \<union> {k. \<exists>(owned, f, now) \<in> set ps. f = nth_fragment ident au rep m k}"
  shows "\<exists>r'. reassembler_run (map push_event ps) r = Some
      ([\<lparr>completed_identity = ident, completed_repeated = rep, completed_bytes = au\<rparr>], r')
    \<and> delivered ident r'"
  using assms
proof (induction ps arbitrary: r D)
  case Nil
  then show ?case by auto
next
  case (Cons x ps)
  obtain owned f now where x: "x = (owned, f, now)" by (cases x)
  let ?n = "fragment_total au m"
  have n: "?n < 2 ^ 16" using Cons.prems(2) by (simp add: fragmentable_def const_defs)
  obtain k where k: "k < ?n" "f = nth_fragment ident au rep m k" using Cons.prems(4) x by auto
  obtain c r1 where step: "push_payload (identity f) (repeated_content f) (fragment_index f)
      (fragment_count f) (access_unit_part f) owned (\<not> owned) now r = Some (c, r1)"
    and res: "if insert k D = {..<?n}
      then c = Some \<lparr>completed_identity = ident, completed_repeated = rep, completed_bytes = au\<rparr>
        \<and> delivered ident r1
      else c = None \<and> collecting ident au m rep (insert k D) r1"
    using collecting_push [OF Cons.prems(1-3) k] by blast
  have run: "reassembler_run (map push_event (x # ps)) r =
      map_option (\<lambda>(cs, r''). ((case c of None \<Rightarrow> cs | Some a \<Rightarrow> a # cs), r''))
        (reassembler_run (map push_event ps) r1)"
    using step by (cases owned) (simp_all add: x push_def push_view_def)
  show ?case
  proof (cases "insert k D = {..<?n}")
    case True
    have "\<forall>(owned, f, now) \<in> set ps. identity f = ident \<and> fragment_ok f"
      using Cons.prems(2,4) nth_fragment_ok by (fastforce simp: nth_fragment_def)
    then show ?thesis using delivered_run [of ident r1 ps] True res run by auto
  next
    case False
    have inj: "nth_fragment ident au rep m j = f \<Longrightarrow> j < ?n \<Longrightarrow> j = k" for j
      using k n by (auto simp: nth_fragment_def dest: arg_cong [where f = unat] simp: unat_of_nat_small)
    have "insert k D \<subset> {..<?n}" using False k(1) Cons.prems(3) by auto
    moreover have "{..<?n} \<subseteq> insert k D \<union>
        {k. \<exists>(owned, f, now) \<in> set ps. f = nth_fragment ident au rep m k}"
      using Cons.prems(5) x inj by fastforce
    ultimately show ?thesis
      using Cons.IH [of "insert k D" r1] Cons.prems(2,4) False res run by auto
  qed
qed

lemma collects_all:
  assumes "fragmentable ident au m" and "awaits ident r" and "pending r = []"
    and "length au \<le> max_inflight_bytes r"
    and "set (map (fst \<circ> snd) ps) = set (fragment_access_unit ident au rep m)"
  shows "\<exists>r'. reassembler_run (map push_event ps) r = Some
      ([\<lparr>completed_identity = ident, completed_repeated = rep, completed_bytes = au\<rparr>], r')
    \<and> delivered ident r'"
proof -
  let ?n = "fragment_total au m"
  have pos: "0 < ?n" using assms(1) fragment_total_pos by (simp add: fragmentable_def)
  have frs: "set (map (fst \<circ> snd) ps) = nth_fragment ident au rep m ` {..<?n}"
    using assms(1,5) by (simp add: fragment_access_unit_eq lessThan_atLeast0)
  have "\<forall>(owned, f, now) \<in> set ps. \<exists>k < ?n. f = nth_fragment ident au rep m k"
  proof safe
    fix owned f now
    assume "(owned, f, now) \<in> set ps"
    then have "f \<in> set (map (fst \<circ> snd) ps)" by force
    then show "\<exists>k < ?n. f = nth_fragment ident au rep m k" unfolding frs by auto
  qed
  moreover have "{..<?n} \<subseteq> {k. \<exists>(owned, f, now) \<in> set ps. f = nth_fragment ident au rep m k}"
  proof safe
    fix k
    assume "k < ?n"
    then have "nth_fragment ident au rep m k \<in> set (map (fst \<circ> snd) ps)" unfolding frs by auto
    then show "\<exists>(owned, f, now) \<in> set ps. f = nth_fragment ident au rep m k" by force
  qed
  moreover have "collecting ident au m rep {} r" using assms(2-4) by (simp add: collecting_def)
  moreover have "{} \<subset> {..<?n}" using pos by auto
  ultimately show ?thesis using collecting_run [of ident au m rep "{}" r ps] assms(1) by simp
qed

lemma activated_awaits:
  assumes "identity_valid ident"
    and "activate_epoch (stream_epoch ident) None (make_reassembler mf mb rc) = (b, r)"
  shows "awaits ident r" and "pending r = []" and "max_inflight_bytes r = max kVideoPacketPayloadBytes mb"
proof -
  have inv: "reassembler_inv UNIV r"
    using activate_epoch_inv [OF make_reassembler_inv assms(2)] .
  have "pending r = [] \<and> max_inflight_bytes r = max kVideoPacketPayloadBytes mb \<and>
      active_epoch r = Some (stream_epoch ident) \<and> last_delivered_sequence r = None"
    using assms
    by (auto simp: activate_epoch_def make_reassembler_def is_retired_epoch_def clear_pending_def
        remember_retired_epoch_def identity_valid_def Let_def split: if_splits)
  with inv show "awaits ident r" and "pending r = []"
    and "max_inflight_bytes r = max kVideoPacketPayloadBytes mb"
    by (simp_all add: awaits_def)
qed

text \<open>Against a sender that cut one unit per identity, integrity says which unit comes out.\<close>

lemma assembled_from_sent:
  assumes "assembled_from H a" and "fragmentable (completed_identity a) au m"
    and "\<And>f. f \<in> H \<Longrightarrow> identity f = completed_identity a \<Longrightarrow>
      f \<in> set (fragment_access_unit (completed_identity a) au rep m)"
  shows "completed_bytes a = au \<and> completed_repeated a = rep"
proof -
  let ?n = "fragment_total au m" and ?i = "completed_identity a"
  have m: "0 < m" and n: "?n < 2 ^ 16" using assms(2) by (simp_all add: fragmentable_def const_defs)
  obtain fs where fs: "fs \<noteq> []" "set fs \<subseteq> H" "completed_bytes a = concat (map access_unit_part fs)"
    and nth: "\<And>k. k < length fs \<Longrightarrow> identity (fs ! k) = ?i \<and>
      repeated_content (fs ! k) = completed_repeated a \<and>
      unat (fragment_index (fs ! k)) = k \<and> unat (fragment_count (fs ! k)) = length fs"
    using assms(1) unfolding assembled_from_def by blast
  have slot: "fs ! k = nth_fragment ?i au rep m k \<and> length fs = ?n" if "k < length fs" for k
  proof -
    have "fs ! k \<in> set (fragment_access_unit ?i au rep m)"
      using assms(3) fs(2) nth [OF that] that by (metis nth_mem subsetD)
    then obtain j where j: "j < ?n" "fs ! k = nth_fragment ?i au rep m j"
      using assms(2) by (auto simp: fragment_access_unit_eq)
    then show ?thesis using nth [OF that] n by (simp add: nth_fragment_def unat_of_nat_small)
  qed
  have len: "length fs = ?n" using slot [of 0] fs(1) by simp
  have "map access_unit_part fs = map (au_slice au m) [0..<?n]"
    using slot len by (intro nth_equalityI) (simp_all add: nth_fragment_def au_slice_def)
  then have "completed_bytes a = au" unfolding fs(3) by (simp only: concat_au_slices [OF m])
  moreover have "completed_repeated a = rep"
    using nth [of 0] slot [of 0] fs(1) by (simp add: nth_fragment_def)
  ultimately show ?thesis by simp
qed

text \<open>A concrete unit, cut in three, its fragments pushed in reverse order after activation.\<close>

definition example_identity :: video_frame_identity where
  "example_identity = \<lparr>stream_epoch = 7, frame_sequence = 3\<rparr>"

definition example_unit :: bytes where
  "example_unit = [10, 11, 12, 13, 14]"

definition example_pushes :: "(bool \<times> video_fragment \<times> u64) list" where
  "example_pushes = map (\<lambda>f. (True, f, 0)) (rev (fragment_access_unit example_identity example_unit False 2))"

definition example_events :: "reassembler_event list" where
  "example_events = Activate 7 None # map push_event example_pushes"

lemma example_fragmentable: "fragmentable example_identity example_unit 2"
  by (simp add: fragmentable_def fragment_total_def identity_valid_def example_identity_def
      example_unit_def valid_video_stream_epoch_def kVideoStreamEpochMax_def const_defs)

lemma example_pushes_set:
  "set (map (fst \<circ> snd) example_pushes) = set (fragment_access_unit example_identity example_unit False 2)"
  by (simp add: example_pushes_def comp_def)

lemma example_ready:
  "\<exists>r. activate_epoch 7 None (make_reassembler 8 0 8) = (True, r) \<and> awaits example_identity r \<and>
     pending r = [] \<and> length example_unit \<le> max_inflight_bytes r"
proof -
  obtain b r where act: "activate_epoch 7 None (make_reassembler 8 0 8) = (b, r)" by fastforce
  have "identity_valid example_identity" using example_fragmentable by (simp add: fragmentable_def)
  note r = activated_awaits [OF this, of 8 0 8 b r]
  have "b"
    using act by (simp add: activate_epoch_def make_reassembler_def is_retired_epoch_def Let_def
        valid_video_stream_epoch_def kVideoStreamEpochMax_def)
  with act r show ?thesis by (simp add: example_identity_def example_unit_def const_defs)
qed

lemma example_run:
  "\<exists>r'. reassembler_run example_events (make_reassembler 8 0 8) = Some
     ([\<lparr>completed_identity = example_identity, completed_repeated = False,
        completed_bytes = example_unit\<rparr>], r')"
proof -
  obtain r where r: "activate_epoch 7 None (make_reassembler 8 0 8) = (True, r)"
    "awaits example_identity r" "pending r = []" "length example_unit \<le> max_inflight_bytes r"
    using example_ready by blast
  from collects_all [OF example_fragmentable r(2-4) example_pushes_set] r(1) show ?thesis
    by (auto simp: example_events_def)
qed

lemma example_pushed:
  "\<Union> (set (map pushed example_events)) = set (fragment_access_unit example_identity example_unit False 2)"
  by (auto simp: example_events_def example_pushes_def)

text \<open>
  C17. Delivery order: over any sequence of calls, two units delivered one after the other are
  consecutive frames of the same epoch, with no gap, repetition or wrap-around, or the second
  belongs to a later epoch.
\<close>

theorem reassembler_delivers_in_order:
  assumes "reassembler_run es (make_reassembler mf mb rc) = Some (cs, r)"
  shows "successively next_after (map completed_identity cs)"
  using reassembler_run_correct [OF make_reassembler_inv subset_UNIV, of es mf mb rc] assms by auto

theorem reassembler_delivers_in_order_witness:
  "\<exists>cs r. reassembler_run example_events (make_reassembler 8 0 8) = Some (cs, r) \<and> cs \<noteq> [] \<and>
     successively next_after (map completed_identity cs)"
proof -
  obtain cs r where run: "reassembler_run example_events (make_reassembler 8 0 8) = Some (cs, r)"
    and "cs \<noteq> []"
    using example_run by blast
  with reassembler_delivers_in_order [OF run] show ?thesis by blast
qed

text \<open>
  Integrity: whatever is pushed, every delivered unit is the concatenation, in index order,
  of pushed fragments that all carry the unit's own identity, content flag and fragment count.
\<close>

theorem reassembler_delivers_pushed:
  assumes "reassembler_run es (make_reassembler mf mb rc) = Some (cs, r)" and "a \<in> set cs"
  shows "assembled_from (\<Union> (set (map pushed es))) a"
  using reassembler_run_correct [OF make_reassembler_inv subset_refl, of es mf mb rc] assms
  by (auto simp: list_all_iff)

theorem reassembler_delivers_pushed_witness:
  "assembled_from (set (fragment_access_unit example_identity example_unit False 2))
     \<lparr>completed_identity = example_identity, completed_repeated = False,
      completed_bytes = example_unit\<rparr>"
proof -
  let ?a = "\<lparr>completed_identity = example_identity, completed_repeated = False,
      completed_bytes = example_unit\<rparr>"
  obtain r where run: "reassembler_run example_events (make_reassembler 8 0 8) = Some ([?a], r)"
    using example_run by blast
  from reassembler_delivers_pushed [OF run, of ?a] show ?thesis unfolding example_pushed by simp
qed

text \<open>
  C4. Completeness: when the reassembler awaits a frame and its byte limit can hold the unit,
  any sequence of pushes that contains every fragment the sender cut (in any order, with any
  repetitions, by either entry point) delivers exactly the original access unit, exactly once.
\<close>

theorem reassembly_complete:
  assumes "fragmentable ident au m" and "awaits ident r" and "pending r = []"
    and "length au \<le> max_inflight_bytes r"
    and "set (map (fst \<circ> snd) ps) = set (fragment_access_unit ident au rep m)"
  shows "\<exists>r'. reassembler_run (map push_event ps) r = Some
      ([\<lparr>completed_identity = ident, completed_repeated = rep, completed_bytes = au\<rparr>], r')
    \<and> delivered ident r'"
  using assms by (rule collects_all)

theorem reassembly_complete_witness:
  "\<exists>r r'. reassembler_run (map push_event example_pushes) r = Some
     ([\<lparr>completed_identity = example_identity, completed_repeated = False,
        completed_bytes = example_unit\<rparr>], r')"
proof -
  obtain r where r: "awaits example_identity r" "pending r = []"
    "length example_unit \<le> max_inflight_bytes r"
    using example_ready by blast
  from reassembly_complete [OF example_fragmentable r example_pushes_set] show ?thesis by blast
qed

text \<open>
  C5. End-to-end integrity: if every pushed fragment was cut by the fragmenter from the one
  access unit \<open>sent\<close> assigns to its identity, every unit the reassembler delivers is exactly the
  unit sent under that identity, whatever was lost, repeated or reordered on the way.
\<close>

theorem reassembler_delivers_sent:
  assumes "reassembler_run es (make_reassembler mf mb rc) = Some (cs, r)" and "a \<in> set cs"
    and "\<forall>f \<in> \<Union> (set (map pushed es)). \<exists>au rep m. sent (identity f) = Some (au, rep, m) \<and>
      f \<in> set (fragment_access_unit (identity f) au rep m)"
  shows "\<exists>m. sent (completed_identity a) = Some (completed_bytes a, completed_repeated a, m)"
proof -
  let ?H = "\<Union> (set (map pushed es))"
  have asm: "assembled_from ?H a"
    using reassembler_run_correct [OF make_reassembler_inv subset_refl, of es mf mb rc] assms(1,2)
    by (auto simp: list_all_iff)
  then obtain f where f: "f \<in> ?H" "identity f = completed_identity a"
    unfolding assembled_from_def by (metis length_greater_0_conv nth_mem subsetD)
  then obtain au rep m where sent: "sent (completed_identity a) = Some (au, rep, m)"
    and mem: "f \<in> set (fragment_access_unit (completed_identity a) au rep m)"
    using assms(3) by force
  have "fragmentable (completed_identity a) au m"
    using mem by (auto simp: fragment_access_unit_eq split: if_splits)
  moreover have "f \<in> set (fragment_access_unit (completed_identity a) au rep m)"
    if "f \<in> ?H" "identity f = completed_identity a" for f
    using assms(3) that sent by force
  ultimately show ?thesis using assembled_from_sent [OF asm] sent by blast
qed

theorem reassembler_delivers_sent_witness:
  "\<exists>cs r. reassembler_run example_events (make_reassembler 8 0 8) = Some (cs, r) \<and>
     (\<exists>a \<in> set cs. \<exists>m. [example_identity \<mapsto> (example_unit, False, 2 :: nat)] (completed_identity a)
        = Some (completed_bytes a, completed_repeated a, m))"
proof -
  let ?sent = "[example_identity \<mapsto> (example_unit, False, 2 :: nat)]"
  obtain cs r a where run: "reassembler_run example_events (make_reassembler 8 0 8) = Some (cs, r)"
    and a: "a \<in> set cs"
    using example_run by force
  have "\<forall>f \<in> \<Union> (set (map pushed example_events)). \<exists>au rep m. ?sent (identity f) = Some (au, rep, m) \<and>
      f \<in> set (fragment_access_unit (identity f) au rep m)"
    unfolding example_pushed
    by (auto simp: fragment_access_unit_eq example_fragmentable) (auto simp: nth_fragment_def)
  from reassembler_delivers_sent [OF run a this] run a show ?thesis by blast
qed

section \<open>A frame overtaken before the first delivery\<close>

definition early_fragment :: "u32 \<Rightarrow> u16 \<Rightarrow> video_fragment" where
  "early_fragment sequence index =
     \<lparr>identity = \<lparr>stream_epoch = 1, frame_sequence = sequence\<rparr>, repeated_content = False,
      fragment_index = index, fragment_count = 2, access_unit_part = [1]\<rparr>"

lemmas run_defs = push_def push_payload_def push_frame_def try_emplace_def store_fragment_def
  trim_loop.simps over_limits_def pop_completed_def erase_pending_def activate_epoch_def
  is_retired_epoch_def remember_retired_epoch_def clear_pending_def make_reassembler_def
  early_fragment_def identity_valid_def valid_video_stream_epoch_def kVideoStreamEpochMax_def
  video_frame_sequence_is_newer_def fresh_pending_def store_part_def discard_expired_def expired_def
  advance_video_frame_sequence_def note_avoided_copy_def const_defs Let_def

text \<open>
  Before anything is delivered, \<^verbatim>\<open>pop_completed\<close> picks the frame that arrived first, whatever
  its sequence. A frame with a smaller sequence that is still in flight can then never be
  completed: in this run frame 5 is delivered while frame 4 is in flight, the last fragment of
  frame 4 is dropped as late, and its expiry is counted as a loss.
\<close>

theorem older_frame_stranded:
  "(case reassembler_run
      [Push (early_fragment 5 0) 0, Push (early_fragment 4 0) 0, Push (early_fragment 5 1) 0,
       Push (early_fragment 4 1) 0, Discard_Expired 60000 50000] (make_reassembler 8 0 8) of
      None \<Rightarrow> False
    | Some (cs, r) \<Rightarrow> map (frame_sequence \<circ> completed_identity) cs = [5] \<and>
        incomplete_access_unit_losses r = 1)"
  by (simp add: run_defs word_le_nat_alt)

end
