(* ===== verification/Epoch_Session.thy ===== *)
theory Epoch_Session
  imports Video_Protocol
begin

text \<open>
  The receiver's two stream-epoch gates: \<^verbatim>\<open>ReceiverEpochSession\<close>
  (\<^verbatim>\<open>shared/include/vfdual/receiver_epoch_session.hpp\<close>) and \<^verbatim>\<open>VideoEpochCoordinator\<close>
  (\<^verbatim>\<open>shared/src/video_transport_contract.cpp\<close>), with the epoch derivation of the host. Shown:
  an epoch once reported retired is reported retired for ever, committed epochs strictly increase,
  and the two gates take the same decisions.
\<close>

section \<open>ReceiverEpochSession\<close>

datatype receiver_epoch_decision = EpochActive | EpochCandidate | EpochRetired | EpochInvalid

record epoch_session =
  session_active :: "u64 option"
  session_candidate :: "u64 option"
  session_retired_through :: "u64 option"

definition make_epoch_session :: "nat \<Rightarrow> epoch_session" where
  "make_epoch_session retired_capacity =
     \<lparr>session_active = None, session_candidate = None, session_retired_through = None\<rparr>"

definition session_is_retired :: "u64 \<Rightarrow> epoch_session \<Rightarrow> bool" where
  "session_is_retired epoch s \<longleftrightarrow>
     (case session_retired_through s of None \<Rightarrow> False | Some t \<Rightarrow> epoch \<le> t)"

definition session_retire_through :: "u64 \<Rightarrow> epoch_session \<Rightarrow> epoch_session" where
  "session_retire_through epoch s =
     (if \<not> valid_video_stream_epoch epoch then s
      else if (case session_retired_through s of None \<Rightarrow> True | Some t \<Rightarrow> t < epoch)
      then s\<lparr>session_retired_through := Some epoch\<rparr>
      else s)"

definition session_observe :: "u64 \<Rightarrow> epoch_session \<Rightarrow> receiver_epoch_decision \<times> epoch_session" where
  "session_observe epoch s =
     (if \<not> valid_video_stream_epoch epoch then (EpochInvalid, s)
      else if session_active s = Some epoch then (EpochActive, s)
      else if session_is_retired epoch s then (EpochRetired, s)
      else
        (case session_candidate s of
           Some c \<Rightarrow>
             if c = epoch then (EpochCandidate, s)
             else if epoch < c then (EpochRetired, s)
             else (EpochCandidate,
                   (session_retire_through c s)\<lparr>session_candidate := Some epoch\<rparr>)
         | None \<Rightarrow>
             (case session_active s of
                Some a \<Rightarrow>
                  if epoch < a then (EpochRetired, s)
                  else (EpochCandidate, s\<lparr>session_candidate := Some epoch\<rparr>)
              | None \<Rightarrow>
                  (EpochCandidate,
                   (if 1 < epoch then session_retire_through (epoch - 1) s else s)
                     \<lparr>session_candidate := Some epoch\<rparr>))))"

definition session_commit_candidate :: "u64 \<Rightarrow> bool \<Rightarrow> epoch_session \<Rightarrow> bool \<times> epoch_session" where
  "session_commit_candidate epoch complete_real_idr s =
     (if \<not> complete_real_idr \<or> session_candidate s \<noteq> Some epoch \<or> session_is_retired epoch s \<or>
         (case session_active s of None \<Rightarrow> False | Some a \<Rightarrow> epoch \<le> a)
      then (False, s)
      else
        let s = (case session_active s of None \<Rightarrow> s | Some a \<Rightarrow> session_retire_through a s)
        in (True, s\<lparr>session_active := Some epoch, session_candidate := None\<rparr>))"

definition session_reject_candidate :: "u64 \<Rightarrow> epoch_session \<Rightarrow> epoch_session" where
  "session_reject_candidate epoch s =
     (if session_candidate s = Some epoch
      then (session_retire_through epoch s)\<lparr>session_candidate := None\<rparr>
      else s)"

section \<open>VideoEpochCoordinator\<close>

datatype video_epoch_observation =
    ObsInvalid | ObsActive | ObsCandidate | ObsCandidateReplaced | ObsRetired

record video_epoch_coordinator =
  coord_active :: "u64 option"
  coord_candidate :: "u64 option"
  coord_retired_through :: "u64 option"
  retirement_advances :: nat

definition make_epoch_coordinator :: "nat \<Rightarrow> video_epoch_coordinator" where
  "make_epoch_coordinator retired_capacity =
     \<lparr>coord_active = None, coord_candidate = None, coord_retired_through = None,
      retirement_advances = 0\<rparr>"

definition coord_is_retired :: "u64 \<Rightarrow> video_epoch_coordinator \<Rightarrow> bool" where
  "coord_is_retired epoch s \<longleftrightarrow>
     (case coord_retired_through s of None \<Rightarrow> False | Some t \<Rightarrow> epoch \<le> t)"

definition coord_retire :: "u64 \<Rightarrow> video_epoch_coordinator \<Rightarrow> video_epoch_coordinator" where
  "coord_retire epoch s =
     (if \<not> valid_video_stream_epoch epoch then s
      else if (case coord_retired_through s of None \<Rightarrow> True | Some t \<Rightarrow> t < epoch)
      then s\<lparr>coord_retired_through := Some epoch,
             retirement_advances := retirement_advances s + 1\<rparr>
      else s)"

definition coord_observe ::
  "u64 \<Rightarrow> video_epoch_coordinator \<Rightarrow> video_epoch_observation \<times> video_epoch_coordinator" where
  "coord_observe epoch s =
     (if \<not> valid_video_stream_epoch epoch then (ObsInvalid, s)
      else if coord_active s = Some epoch then (ObsActive, s)
      else if coord_is_retired epoch s then (ObsRetired, s)
      else
        (case coord_candidate s of
           Some c \<Rightarrow>
             if c = epoch then (ObsCandidate, s)
             else if epoch < c then (ObsRetired, s)
             else (ObsCandidateReplaced, (coord_retire c s)\<lparr>coord_candidate := Some epoch\<rparr>)
         | None \<Rightarrow>
             if (case coord_active s of None \<Rightarrow> False | Some a \<Rightarrow> epoch < a) then (ObsRetired, s)
             else
               (ObsCandidate,
                (if coord_active s = None \<and> 1 < epoch then coord_retire (epoch - 1) s else s)
                  \<lparr>coord_candidate := Some epoch\<rparr>)))"

definition coord_commit_candidate ::
  "u64 \<Rightarrow> video_epoch_coordinator \<Rightarrow> bool \<times> video_epoch_coordinator" where
  "coord_commit_candidate epoch s =
     (if coord_candidate s \<noteq> Some epoch \<or> coord_is_retired epoch s \<or>
         (case coord_active s of None \<Rightarrow> False | Some a \<Rightarrow> epoch \<le> a)
      then (False, s)
      else
        let s = (case coord_active s of None \<Rightarrow> s | Some a \<Rightarrow> coord_retire a s)
        in (True, s\<lparr>coord_active := Some epoch, coord_candidate := None\<rparr>))"

definition coord_reject_candidate :: "u64 \<Rightarrow> video_epoch_coordinator \<Rightarrow> video_epoch_coordinator" where
  "coord_reject_candidate epoch s =
     (if coord_candidate s = Some epoch then (coord_retire epoch s)\<lparr>coord_candidate := None\<rparr> else s)"

definition coord_reset :: "video_epoch_coordinator \<Rightarrow> video_epoch_coordinator" where
  "coord_reset s =
     s\<lparr>coord_active := None, coord_candidate := None, coord_retired_through := None,
       retirement_advances := 0\<rparr>"

section \<open>The host's epoch derivation\<close>

definition derive_video_stream_epoch :: "u64 \<Rightarrow> u64 \<Rightarrow> u64" where
  "derive_video_stream_epoch process_nonce monotonic_boot_us =
     (let v = (process_nonce XOR
            (monotonic_boot_us + 0x9e3779b97f4a7c15 + push_bit 6 process_nonce
             + drop_bit 2 process_nonce)) AND kVideoStreamEpochMax
      in if v = 0 then 1 else v)"

lemma derive_video_stream_epoch_valid:
  "valid_video_stream_epoch (derive_video_stream_epoch nonce boot)"
  by (auto simp: derive_video_stream_epoch_def valid_video_stream_epoch_def Let_def
      kVideoStreamEpochMax_def word_and_le1)

section \<open>The gate as an event system\<close>

datatype epoch_event = Observe u64 | Commit u64 bool | Reject u64

fun session_handle :: "epoch_event \<Rightarrow> epoch_session \<Rightarrow> epoch_session" where
  "session_handle (Observe e) s = snd (session_observe e s)"
| "session_handle (Commit e idr) s = snd (session_commit_candidate e idr s)"
| "session_handle (Reject e) s = session_reject_candidate e s"

definition session_inv :: "epoch_session \<Rightarrow> bool" where
  "session_inv s \<longleftrightarrow>
     (\<forall>a. session_active s = Some a \<longrightarrow> valid_video_stream_epoch a) \<and>
     (\<forall>c. session_candidate s = Some c \<longrightarrow> valid_video_stream_epoch c \<and>
        \<not> session_is_retired c s \<and> (\<forall>a. session_active s = Some a \<longrightarrow> a < c))"

text \<open>\<open>e\<close> can no longer be admitted: it is not active and some mark lies above it.\<close>

definition epoch_blocked :: "u64 \<Rightarrow> epoch_session \<Rightarrow> bool" where
  "epoch_blocked e s \<longleftrightarrow>
     session_active s \<noteq> Some e \<and>
     (session_is_retired e s \<or> (\<exists>c. session_candidate s = Some c \<and> e < c) \<or>
      (\<exists>a. session_active s = Some a \<and> e < a))"

definition session_below :: "epoch_session \<Rightarrow> epoch_session \<Rightarrow> bool" where
  "session_below s t \<longleftrightarrow>
     (\<forall>e. epoch_blocked e s \<longrightarrow> epoch_blocked e t) \<and> mark_le (session_active s) (session_active t) \<and>
     (\<forall>a. session_active s = Some a \<and> session_active t \<noteq> Some a \<longrightarrow> epoch_blocked a t)"

lemma epoch_pred_below: "1 < e \<Longrightarrow> e - 1 < e" for e :: u64
  by (simp add: word_less_iff_unat unat_sub_if_size)

lemma observe_retired_iff:
  assumes "session_inv s" and "valid_video_stream_epoch e"
  shows "fst (session_observe e s) = EpochRetired \<longleftrightarrow> epoch_blocked e s"
  using assms
  by (auto simp: session_observe_def epoch_blocked_def session_inv_def split: option.splits)

lemmas session_op_defs =
  session_observe_def session_commit_candidate_def session_reject_candidate_def
  session_retire_through_def session_is_retired_def

lemma session_handle_inv: "session_inv s \<Longrightarrow> session_inv (session_handle e s)"
  by (cases e)
    (auto simp: session_op_defs session_inv_def Let_def not_le not_less epoch_pred_below
      split: option.splits if_splits dest: le_neq_trans order.strict_trans1)

lemma retire_through_fields [simp]:
  "session_active (session_retire_through x s) = session_active s"
  "session_candidate (session_retire_through x s) = session_candidate s"
  by (simp_all add: session_retire_through_def split: option.split)

lemma is_retired_retire_through:
  "session_is_retired e (session_retire_through x s) \<longleftrightarrow>
     session_is_retired e s \<or> (valid_video_stream_epoch x \<and> e \<le> x)"
  by (auto simp: session_retire_through_def session_is_retired_def split: option.splits)

lemma is_retired_fields [simp]:
  "session_is_retired e (s\<lparr>session_active := a\<rparr>) = session_is_retired e s"
  "session_is_retired e (s\<lparr>session_candidate := c\<rparr>) = session_is_retired e s"
  by (simp_all add: session_is_retired_def)

lemma observe_below: "session_inv s \<Longrightarrow> session_below s (snd (session_observe e s))"
  by (auto simp: session_observe_def session_below_def epoch_blocked_def session_inv_def
      is_retired_retire_through split: option.splits)

lemma commit_below: "session_inv s \<Longrightarrow> session_below s (snd (session_commit_candidate e idr s))"
  by (auto simp: session_commit_candidate_def session_below_def epoch_blocked_def session_inv_def
      is_retired_retire_through Let_def split: option.splits)

lemma reject_below: "session_inv s \<Longrightarrow> session_below s (session_reject_candidate e s)"
  by (auto simp: session_reject_candidate_def session_below_def epoch_blocked_def session_inv_def
      is_retired_retire_through split: option.splits)

lemma session_handle_below: "session_inv s \<Longrightarrow> session_below s (session_handle e s)"
  by (cases e) (simp_all add: observe_below commit_below reject_below)

lemma session_below_trans: "session_below s t \<Longrightarrow> session_below t u \<Longrightarrow> session_below s u"
  unfolding session_below_def by (metis mark_le_trans)

interpretation epochs: event_system "\<lambda>s. s = make_epoch_session n" "\<lambda>_. True"
  session_handle session_inv session_below
proof unfold_locales
  show "session_inv s" if "s = make_epoch_session n" for s
    using that by (simp add: make_epoch_session_def session_inv_def)
  show "session_below s s" if "session_inv s" for s by (simp add: session_below_def)
qed (blast intro: session_handle_inv session_handle_below session_below_trans)+

text \<open>
  Retirement is permanent: once the gate has reported a valid epoch retired, it reports
  that epoch retired after any further sequence of observations, commits and rejections.
\<close>

theorem retired_forever:
  assumes "valid_video_stream_epoch e"
    and "fst (session_observe e (fold session_handle es (make_epoch_session n))) = EpochRetired"
  shows "fst (session_observe e (fold session_handle (es @ fs) (make_epoch_session n))) = EpochRetired"
  using assms epochs.below_run_split [of "make_epoch_session n" n es fs]
    epochs.inv_run [of "make_epoch_session n" n]
  by (simp add: observe_retired_iff session_below_def list.pred_True del: fold_append)

theorem retired_forever_witness:
  "fst (session_observe 4 (fold session_handle ([Observe 5, Commit 5 True] @ [Observe 9, Reject 9])
     (make_epoch_session 8))) = EpochRetired"
proof -
  have valid: "valid_video_stream_epoch 4"
    by (simp add: valid_video_stream_epoch_def kVideoStreamEpochMax_def)
  have "fst (session_observe 4 (fold session_handle [Observe 5, Commit 5 True] (make_epoch_session 8)))
      = EpochRetired"
    by (simp add: session_op_defs make_epoch_session_def valid_video_stream_epoch_def
        kVideoStreamEpochMax_def Let_def)
  from retired_forever [OF valid this] show ?thesis .
qed

section \<open>Committed epochs\<close>

fun session_event_step :: "epoch_event \<Rightarrow> epoch_session \<Rightarrow> u64 option \<times> epoch_session" where
  "session_event_step (Commit e idr) s =
     (let (ok, s') = session_commit_candidate e idr s in (if ok then Some e else None, s'))"
| "session_event_step ev s = (None, session_handle ev s)"

definition committed_epochs :: "epoch_event list \<Rightarrow> epoch_session \<Rightarrow> u64 list" where
  "committed_epochs es s = List.map_filter id (fst (run_outputs session_event_step es s))"

lemma committed_epochs_simps:
  "committed_epochs [] s = []"
  "committed_epochs (ev # es) s =
     (case session_event_step ev s of (c, s') \<Rightarrow>
        (case c of None \<Rightarrow> committed_epochs es s' | Some e \<Rightarrow> e # committed_epochs es s'))"
  by (simp_all add: committed_epochs_def map_filter_simps case_prod_unfold Let_def split: option.split)

lemma event_step_active:
  assumes "session_event_step ev s = (c, s')"
  shows "s' = session_handle ev s"
    and "case c of None \<Rightarrow> session_active s' = session_active s
      | Some e \<Rightarrow> session_active s' = Some e \<and> (\<forall>a. session_active s = Some a \<longrightarrow> a < e)"
  using assms
  by (cases ev; auto simp: session_commit_candidate_def session_observe_def
      session_reject_candidate_def Let_def not_le split: prod.splits if_splits option.splits)+

lemma committed_after_active:
  "e \<in> set (committed_epochs es s) \<Longrightarrow> session_active s = Some a \<Longrightarrow> a < e"
proof (induction es arbitrary: s a)
  case (Cons ev es)
  obtain c s' where step: "session_event_step ev s = (c, s')" by fastforce
  show ?case
    using Cons.prems Cons.IH [of s'] event_step_active(2) [OF step]
    by (auto simp: committed_epochs_simps step split: option.splits dest: order.strict_trans)
qed (simp add: committed_epochs_simps)

text \<open>
  The epochs the gate ever makes active form a strictly increasing sequence, each committed
  with a complete real IDR: no session is entered twice and none is entered after a later one.
\<close>

theorem committed_epochs_increase: "sorted_wrt (<) (committed_epochs es s)"
proof (induction es arbitrary: s)
  case (Cons ev es)
  obtain c s' where step: "session_event_step ev s = (c, s')" by fastforce
  show ?case
    using Cons.IH [of s'] event_step_active(2) [OF step] committed_after_active [of _ es s']
    by (auto simp: committed_epochs_simps step split: option.splits)
qed (simp add: committed_epochs_simps)

section \<open>The coordinator implements the session gate\<close>

definition coord_abs :: "video_epoch_coordinator \<Rightarrow> epoch_session" where
  "coord_abs s = \<lparr>session_active = coord_active s, session_candidate = coord_candidate s,
     session_retired_through = coord_retired_through s\<rparr>"

fun decision_of :: "video_epoch_observation \<Rightarrow> receiver_epoch_decision" where
  "decision_of ObsInvalid = EpochInvalid"
| "decision_of ObsActive = EpochActive"
| "decision_of ObsCandidate = EpochCandidate"
| "decision_of ObsCandidateReplaced = EpochCandidate"
| "decision_of ObsRetired = EpochRetired"

lemma coord_retire_abs: "coord_abs (coord_retire e s) = session_retire_through e (coord_abs s)"
  by (simp add: coord_abs_def coord_retire_def session_retire_through_def)

lemma coord_is_retired_abs: "coord_is_retired e s = session_is_retired e (coord_abs s)"
  by (simp add: coord_abs_def coord_is_retired_def session_is_retired_def)

lemma coord_abs_fields [simp]:
  "session_active (coord_abs s) = coord_active s"
  "session_candidate (coord_abs s) = coord_candidate s"
  "coord_abs (s\<lparr>coord_active := a\<rparr>) = (coord_abs s)\<lparr>session_active := a\<rparr>"
  "coord_abs (s\<lparr>coord_candidate := a\<rparr>) = (coord_abs s)\<lparr>session_candidate := a\<rparr>"
  by (simp_all add: coord_abs_def)

lemmas coord_simulation = coord_retire_abs coord_is_retired_abs

lemma coord_observe_abs:
  "map_prod decision_of coord_abs (coord_observe e s) = session_observe e (coord_abs s)"
  by (simp add: coord_observe_def session_observe_def coord_simulation split: option.split)

lemma coord_commit_abs:
  "map_prod id coord_abs (coord_commit_candidate e s) = session_commit_candidate e True (coord_abs s)"
  by (simp add: coord_commit_candidate_def session_commit_candidate_def coord_simulation Let_def
      split: option.split)

lemma coord_reject_abs:
  "coord_abs (coord_reject_candidate e s) = session_reject_candidate e (coord_abs s)"
  by (simp add: coord_reject_candidate_def session_reject_candidate_def coord_simulation)

text \<open>
  C35. \<^verbatim>\<open>VideoEpochCoordinator\<close> refines \<^verbatim>\<open>ReceiverEpochSession\<close>: related states take the same
  decision on every observation, commit (of a complete IDR) and rejection, and stay related.
\<close>

theorem coordinator_refines_session:
  "map_prod decision_of coord_abs (coord_observe e s) = session_observe e (coord_abs s)
   \<and> map_prod id coord_abs (coord_commit_candidate e s) = session_commit_candidate e True (coord_abs s)
   \<and> coord_abs (coord_reject_candidate e s) = session_reject_candidate e (coord_abs s)
   \<and> coord_abs (coord_reset s) = make_epoch_session n
   \<and> coord_abs (make_epoch_coordinator k) = make_epoch_session n"
  by (simp add: coord_observe_abs coord_commit_abs coord_reject_abs)
    (simp add: coord_abs_def coord_reset_def make_epoch_coordinator_def make_epoch_session_def)

end
