(* ===== verification/Delivery_Ledger.thy ===== *)
theory Delivery_Ledger
  imports Video_Protocol
begin

text \<open>
  The two bookkeeping components of the video path: \<^verbatim>\<open>VideoDeliveryLedger\<close>
  (\<^verbatim>\<open>shared/include/vfdual/video_delivery_ledger.hpp\<close>), which decides when a requested IDR has really
  been published, and \<^verbatim>\<open>VideoPipelineStateMachine\<close>
  (\<^verbatim>\<open>shared/include/vfdual/video_pipeline_status.hpp\<close>), which decides when control may open. Shown: a
  recovery request stays open until a complete, real IDR encoded for that very request is
  published, and control opens only on a frame that was both completely received and decoded.
\<close>

section \<open>VideoDeliveryLedger\<close>

datatype video_publication_stage =
    StageNone | StageValidation | StageAuthorization | StageEncoding | StageSocketSend | StageComplete

record video_publication_receipt =
  receipt_identity :: video_frame_identity
  receipt_expected_fragments :: u16
  fragments_sent :: u16
  keyframe :: bool
  receipt_repeated_content :: bool
  stage :: video_publication_stage

definition completely_published :: "video_publication_receipt \<Rightarrow> bool" where
  "completely_published r \<longleftrightarrow>
     identity_valid (receipt_identity r) \<and> receipt_expected_fragments r \<noteq> 0 \<and>
     fragments_sent r = receipt_expected_fragments r \<and> stage r = StageComplete"

record video_delivery_decision =
  publication_complete :: bool
  reference_chain_established :: bool
  idr_request_consumed :: bool
  recovery_still_required :: bool

record video_delivery_ledger =
  requested_idr_generation :: u64
  consumed_idr_generation :: u64
  last_complete_frame :: "video_frame_identity option"
  last_complete_idr :: "video_frame_identity option"

definition make_ledger :: video_delivery_ledger where
  "make_ledger = \<lparr>requested_idr_generation = 0, consumed_idr_generation = 0,
     last_complete_frame = None, last_complete_idr = None\<rparr>"

definition request_idr :: "u64 \<Rightarrow> video_delivery_ledger \<Rightarrow> video_delivery_ledger" where
  "request_idr generation l =
     (if requested_idr_generation l < generation
      then l\<lparr>requested_idr_generation := generation\<rparr> else l)"

definition recovery_required :: "video_delivery_ledger \<Rightarrow> bool" where
  "recovery_required l \<longleftrightarrow> consumed_idr_generation l < requested_idr_generation l"

definition real_complete_idr :: "video_publication_receipt \<Rightarrow> bool" where
  "real_complete_idr r \<longleftrightarrow> completely_published r \<and> keyframe r \<and> \<not> receipt_repeated_content r"

definition record_publication ::
  "video_publication_receipt \<Rightarrow> u64 \<Rightarrow> video_delivery_ledger \<Rightarrow>
     video_delivery_decision \<times> video_delivery_ledger" where
  "record_publication receipt encoded_for l =
     (let complete = completely_published receipt;
          l = (if complete then l\<lparr>last_complete_frame := Some (receipt_identity receipt)\<rparr> else l);
          real_idr = real_complete_idr receipt;
          l = (if real_idr then l\<lparr>last_complete_idr := Some (receipt_identity receipt)\<rparr> else l);
          consumed = (real_idr \<and> encoded_for \<noteq> 0 \<and> encoded_for = requested_idr_generation l \<and>
            consumed_idr_generation l < encoded_for);
          l = (if consumed then l\<lparr>consumed_idr_generation := encoded_for\<rparr> else l)
      in (\<lparr>publication_complete = complete, reference_chain_established = real_idr,
           idr_request_consumed = consumed, recovery_still_required = recovery_required l\<rparr>, l))"

datatype ledger_event = Request_Idr u64 | Record video_publication_receipt u64

fun ledger_handle :: "ledger_event \<Rightarrow> video_delivery_ledger \<Rightarrow> video_delivery_ledger" where
  "ledger_handle (Request_Idr g) l = request_idr g l"
| "ledger_handle (Record r g) l = snd (record_publication r g l)"

text \<open>Events that can satisfy a request of generation \<open>g\<close> or later are set apart.\<close>

fun leaves_request_open :: "u64 \<Rightarrow> ledger_event \<Rightarrow> bool" where
  "leaves_request_open g (Request_Idr _) = True"
| "leaves_request_open g (Record r e) = (\<not> (real_complete_idr r \<and> g \<le> e))"

definition ledger_inv :: "video_delivery_ledger \<Rightarrow> bool" where
  "ledger_inv l \<longleftrightarrow> consumed_idr_generation l \<le> requested_idr_generation l \<and>
     (\<forall>i. last_complete_frame l = Some i \<longrightarrow> identity_valid i) \<and>
     (\<forall>i. last_complete_idr l = Some i \<longrightarrow> identity_valid i)"

definition ledger_below :: "u64 \<Rightarrow> video_delivery_ledger \<Rightarrow> video_delivery_ledger \<Rightarrow> bool" where
  "ledger_below g l m \<longleftrightarrow>
     requested_idr_generation l \<le> requested_idr_generation m \<and>
     consumed_idr_generation l \<le> consumed_idr_generation m \<and>
     (consumed_idr_generation l < g \<longrightarrow> consumed_idr_generation m < g)"

lemma ledger_handle_inv: "ledger_inv l \<Longrightarrow> ledger_inv (ledger_handle e l)"
  by (cases e) (auto simp: ledger_inv_def request_idr_def record_publication_def Let_def
      real_complete_idr_def completely_published_def)

lemma ledger_handle_below:
  "leaves_request_open g e \<Longrightarrow> ledger_inv l \<Longrightarrow> ledger_below g l (ledger_handle e l)"
  by (cases e) (auto simp: ledger_below_def request_idr_def record_publication_def Let_def not_le)

lemma ledger_below_trans: "ledger_below g l m \<Longrightarrow> ledger_below g m n \<Longrightarrow> ledger_below g l n"
  by (auto simp: ledger_below_def)

interpretation ledger: event_system "\<lambda>l. l = make_ledger" "leaves_request_open g" ledger_handle
  ledger_inv "ledger_below g"
proof unfold_locales
  show "ledger_inv l" if "l = make_ledger" for l
    using that by (simp add: make_ledger_def ledger_inv_def)
  show "ledger_below g l l" for l by (simp add: ledger_below_def)
qed (blast intro: ledger_handle_inv ledger_handle_below ledger_below_trans)+

text \<open>
  A recovery request survives everything but its answer: if recovery is required for
  generation \<open>g\<close>, it is still required after any sequence of later requests and publications
  that contains no complete, non-repeated keyframe encoded for \<open>g\<close> or a later request.
\<close>

theorem recovery_stays_required:
  assumes "ledger_inv l" and "recovery_required l" and "requested_idr_generation l = g"
    and "list_all (leaves_request_open g) es"
  shows "recovery_required (fold ledger_handle es l)"
  using ledger.below_fold [OF assms(1,4)] assms(2,3)
  by (auto simp: ledger_below_def recovery_required_def intro: order.strict_trans2)

definition example_receipt :: "bool \<Rightarrow> video_publication_receipt" where
  "example_receipt key =
     \<lparr>receipt_identity = \<lparr>stream_epoch = 1, frame_sequence = 7\<rparr>, receipt_expected_fragments = 2,
      fragments_sent = 2, keyframe = key, receipt_repeated_content = False, stage = StageComplete\<rparr>"

theorem recovery_stays_required_witness:
  "recovery_required (fold ledger_handle [Record (example_receipt False) 3, Request_Idr 4]
     (request_idr 3 make_ledger))"
  by (rule recovery_stays_required [where g = 3])
    (simp_all add: ledger_inv_def recovery_required_def request_idr_def make_ledger_def
      real_complete_idr_def example_receipt_def)

text \<open>
  Publication is judged as the ledger promises: a receipt consumes the pending request
  exactly when every fragment of a valid, real (not repeated) keyframe was sent to completion and it
  was encoded for the newest request; recovery is then over, and no other receipt changes the
  request state.
\<close>

theorem record_consumes_iff:
  assumes "record_publication receipt encoded_for l = (d, l')"
  shows "(idr_request_consumed d \<longleftrightarrow>
      real_complete_idr receipt \<and> encoded_for = requested_idr_generation l \<and> recovery_required l)
    \<and> (idr_request_consumed d \<longrightarrow> \<not> recovery_required l' \<and> last_complete_idr l' = Some (receipt_identity receipt))
    \<and> (\<not> idr_request_consumed d \<longrightarrow> consumed_idr_generation l' = consumed_idr_generation l)
    \<and> requested_idr_generation l' = requested_idr_generation l
    \<and> recovery_still_required d = recovery_required l'"
  using assms
  by (cases "completely_published receipt"; cases "real_complete_idr receipt")
    (auto simp: record_publication_def Let_def recovery_required_def)

theorem record_consumes_iff_witness:
  "idr_request_consumed (fst (record_publication (example_receipt True) 3 (request_idr 3 make_ledger)))"
proof -
  obtain d l' where run: "record_publication (example_receipt True) 3 (request_idr 3 make_ledger) = (d, l')"
    by fastforce
  have "idr_request_consumed d"
    using record_consumes_iff [OF run]
    by (simp add: real_complete_idr_def completely_published_def example_receipt_def identity_valid_def
        valid_video_stream_epoch_def kVideoStreamEpochMax_def request_idr_def make_ledger_def
        recovery_required_def)
  then show ?thesis by (simp add: run)
qed

section \<open>VideoPipelineStateMachine\<close>

datatype video_pipeline_phase =
    PhaseStopped | PhaseStarting | PhaseWaitingForIdr | PhaseStreaming | PhaseRecovering
  | PhaseBlocked | PhaseFailed

datatype video_pipeline_blocker =
    NoBlocker | BlockAuthorization | BlockCapture | BlockEncoder | BlockTransport | BlockReassembly
  | BlockDecoder | BlockInference | BlockControlOutput

record video_pipeline_status =
  phase :: video_pipeline_phase
  blocker :: video_pipeline_blocker
  transition_id :: u64
  changed_at_us :: u64
  status_last_complete_frame :: "video_frame_identity option"
  status_last_decoded_frame :: "video_frame_identity option"

definition initial_status :: video_pipeline_status where
  "initial_status = \<lparr>phase = PhaseStopped, blocker = NoBlocker, transition_id = 0, changed_at_us = 0,
     status_last_complete_frame = None, status_last_decoded_frame = None\<rparr>"

definition control_may_open :: "video_pipeline_status \<Rightarrow> bool" where
  "control_may_open s \<longleftrightarrow>
     phase s = PhaseStreaming \<and> blocker s = NoBlocker \<and> status_last_complete_frame s \<noteq> None \<and>
     status_last_decoded_frame s \<noteq> None \<and>
     the (status_last_complete_frame s) = the (status_last_decoded_frame s)"

definition transition ::
  "video_pipeline_phase \<Rightarrow> video_pipeline_blocker \<Rightarrow> u64 \<Rightarrow> video_pipeline_status \<Rightarrow> video_pipeline_status" where
  "transition p b now_us s =
     (if p = phase s \<and> b = blocker s then s
      else s\<lparr>phase := p, blocker := b, changed_at_us := now_us, transition_id := transition_id s + 1\<rparr>)"

definition record_complete_frame :: "video_frame_identity \<Rightarrow> video_pipeline_status \<Rightarrow> video_pipeline_status" where
  "record_complete_frame i s =
     (if identity_valid i then s\<lparr>status_last_complete_frame := Some i\<rparr> else s)"

definition record_decoded_frame :: "video_frame_identity \<Rightarrow> video_pipeline_status \<Rightarrow> video_pipeline_status" where
  "record_decoded_frame i s =
     (if identity_valid i then s\<lparr>status_last_decoded_frame := Some i\<rparr> else s)"

datatype pipeline_event =
    Transition video_pipeline_phase video_pipeline_blocker u64
  | Complete_Frame video_frame_identity
  | Decoded_Frame video_frame_identity

fun pipeline_handle :: "pipeline_event \<Rightarrow> video_pipeline_status \<Rightarrow> video_pipeline_status" where
  "pipeline_handle (Transition p b now) s = transition p b now s"
| "pipeline_handle (Complete_Frame i) s = record_complete_frame i s"
| "pipeline_handle (Decoded_Frame i) s = record_decoded_frame i s"

text \<open>The phase and blocker last asked for, whatever was recorded in between.\<close>

fun last_transition :: "pipeline_event \<Rightarrow> video_pipeline_phase \<times> video_pipeline_blocker \<Rightarrow>
    video_pipeline_phase \<times> video_pipeline_blocker" where
  "last_transition (Transition p b now) _ = (p, b)"
| "last_transition _ pb = pb"

definition pipeline_inv :: "pipeline_event set \<Rightarrow> video_pipeline_status \<Rightarrow> bool" where
  "pipeline_inv E s \<longleftrightarrow>
     (\<forall>i. status_last_complete_frame s = Some i \<longrightarrow> identity_valid i \<and> Complete_Frame i \<in> E) \<and>
     (\<forall>i. status_last_decoded_frame s = Some i \<longrightarrow> identity_valid i \<and> Decoded_Frame i \<in> E)"

interpretation pipeline: event_system "\<lambda>s. s = initial_status" "\<lambda>e. e \<in> E" pipeline_handle
  "pipeline_inv E" "\<lambda>_ _. True"
proof unfold_locales
  show "pipeline_inv E (pipeline_handle e s)" if "e \<in> E" "pipeline_inv E s" for e s
    using that by (cases e) (auto simp: pipeline_inv_def transition_def record_complete_frame_def
        record_decoded_frame_def)
qed (simp_all add: pipeline_inv_def initial_status_def)

lemma pipeline_phase:
  "(phase (fold pipeline_handle es s), blocker (fold pipeline_handle es s)) =
     fold last_transition es (phase s, blocker s)"
proof (induction es arbitrary: s)
  case (Cons e es)
  have "(phase (pipeline_handle e s), blocker (pipeline_handle e s)) = last_transition e (phase s, blocker s)"
    by (cases e) (auto simp: transition_def record_complete_frame_def record_decoded_frame_def)
  with Cons.IH [of "pipeline_handle e s"] show ?case by simp
qed simp

text \<open>
  Control opens only on evidence: after any sequence of events the pipeline lets control open
  only if the last transition asked for unblocked streaming and one and the same valid frame was
  reported both completely received and decoded.
\<close>

theorem control_opens_on_evidence:
  assumes "control_may_open (fold pipeline_handle es initial_status)"
  shows "fold last_transition es (PhaseStopped, NoBlocker) = (PhaseStreaming, NoBlocker)
    \<and> (\<exists>i. identity_valid i \<and> Complete_Frame i \<in> set es \<and> Decoded_Frame i \<in> set es)"
proof -
  let ?s = "fold pipeline_handle es initial_status"
  have "pipeline_inv (set es) ?s"
    by (rule pipeline.inv_run) (simp_all add: list_all_iff)
  moreover have "fold last_transition es (PhaseStopped, NoBlocker) = (phase ?s, blocker ?s)"
    using pipeline_phase [of es initial_status] by (simp add: initial_status_def)
  ultimately show ?thesis
    using assms by (auto simp: control_may_open_def pipeline_inv_def)
qed

theorem control_opens_on_evidence_witness:
  "\<exists>i. identity_valid i \<and> Decoded_Frame i \<in> set [Complete_Frame \<lparr>stream_epoch = 1, frame_sequence = 2\<rparr>,
     Decoded_Frame \<lparr>stream_epoch = 1, frame_sequence = 2\<rparr>, Transition PhaseStreaming NoBlocker 5]"
  using control_opens_on_evidence [of "[Complete_Frame \<lparr>stream_epoch = 1, frame_sequence = 2\<rparr>,
      Decoded_Frame \<lparr>stream_epoch = 1, frame_sequence = 2\<rparr>, Transition PhaseStreaming NoBlocker 5]"]
  by (auto simp: control_may_open_def initial_status_def transition_def record_complete_frame_def
      record_decoded_frame_def identity_valid_def valid_video_stream_epoch_def kVideoStreamEpochMax_def)

end
