(* ===== verification/Replay_Window.thy ===== *)
theory Replay_Window
  imports Prelude
begin

text \<open>
  The fixed 1024-bit sliding replay window of \<^verbatim>\<open>shared/src/authenticated_data_plane_v2.cpp\<close>
  (\<^verbatim>\<open>SlidingReplayWindow1024\<close>): sixteen 64-bit words, bit \<open>d\<close> standing for the counter \<open>d\<close> below
  the highest one accepted. The array code, with its cross-word shift, is proved to implement
  an abstract filter over the set of all counters ever accepted; \<open>replay_filter\<close> is the
  interface the packet opener and the control-record opener rely on.
\<close>

section \<open>The window\<close>

definition kReplayWindowBits :: nat where "kReplayWindowBits = 1024"

datatype replay_disposition = Fresh | Duplicate | TooOld

record replay_window =
  seen :: "u64 list"
  highest_counter :: u64
  initialized :: bool

definition empty_window :: replay_window where
  "empty_window = \<lparr>seen = replicate (kReplayWindowBits div 64) 0, highest_counter = 0,
     initialized = False\<rparr>"

definition classify :: "replay_window \<Rightarrow> u64 \<Rightarrow> replay_disposition" where
  "classify w counter =
     (if \<not> initialized w \<or> highest_counter w < counter then Fresh
      else
        let distance = highest_counter w - counter in
        if kReplayWindowBits \<le> unat distance then TooOld
        else
          let word = unat (distance div 64); pos = unat (distance mod 64) in
          if seen w ! word AND push_bit pos 1 \<noteq> 0 then Duplicate else Fresh)"

text \<open>The shifting loop; leaving the loop early is the code's \<^verbatim>\<open>break\<close>.\<close>

fun shift_loop :: "u64 list \<Rightarrow> nat \<Rightarrow> nat \<Rightarrow> nat list \<Rightarrow> u64 list \<Rightarrow> u64 list" where
  "shift_loop old word_shift bit_shift [] shifted = shifted"
| "shift_loop old word_shift bit_shift (source # sources) shifted =
     (let destination = source + word_shift in
      if length shifted \<le> destination then shifted
      else
        let shifted = shifted[destination :=
              shifted ! destination OR push_bit bit_shift (old ! source)];
            shifted = (if bit_shift \<noteq> 0 \<and> destination + 1 < length shifted
              then shifted[destination + 1 :=
                     shifted ! (destination + 1) OR drop_bit (64 - bit_shift) (old ! source)]
              else shifted)
        in shift_loop old word_shift bit_shift sources shifted)"

definition commit_authenticated :: "replay_window \<Rightarrow> u64 \<Rightarrow> bool \<times> replay_window" where
  "commit_authenticated w counter =
     (if classify w counter \<noteq> Fresh then (False, w)
      else if \<not> initialized w then
        (True, w\<lparr>seen := (replicate (length (seen w)) 0)[0 := 1],
                 highest_counter := counter, initialized := True\<rparr>)
      else if counter \<le> highest_counter w then
        let distance = highest_counter w - counter;
            word = unat (distance div 64); pos = unat (distance mod 64)
        in (True, w\<lparr>seen := (seen w)[word := seen w ! word OR push_bit pos 1]\<rparr>)
      else
        let advance = counter - highest_counter w;
            moved = (if kReplayWindowBits \<le> unat advance then replicate (length (seen w)) 0
              else shift_loop (seen w) (unat (advance div 64)) (unat (advance mod 64))
                     [0..<length (seen w)] (replicate (kReplayWindowBits div 64) 0))
        in (True, w\<lparr>seen := moved[0 := moved ! 0 OR 1], highest_counter := counter\<rparr>))"

section \<open>Bits of the window\<close>

definition wbit :: "u64 list \<Rightarrow> nat \<Rightarrow> bool" where
  "wbit ws d \<longleftrightarrow> bit (ws ! (d div 64)) (d mod 64)"

lemma and_push_bit_one: "(x AND push_bit n 1 \<noteq> 0) = bit x n" for x :: u64
  by (simp add: bit_iff_and_push_bit_not_eq_0)

lemma unat_div_64: "unat (x div 64 :: u64) = unat x div 64"
  by (simp add: unat_div)

lemma unat_mod_64: "unat (x mod 64 :: u64) = unat x mod 64"
  by (simp add: unat_mod)

lemma wbit_list_update_or:
  assumes "length ws = 16" and "d < 1024" and "e < 1024"
  shows "wbit (ws[d div 64 := ws ! (d div 64) OR push_bit (d mod 64) 1]) e \<longleftrightarrow> wbit ws e \<or> e = d"
proof (cases "e div 64 = d div 64")
  case True
  have "e = d \<longleftrightarrow> e mod 64 = d mod 64"
    using True by (metis div_mult_mod_eq)
  moreover have "e div 64 < length ws"
    using assms by simp
  ultimately show ?thesis
    using True by (auto simp: wbit_def bit_simps)
next
  case False
  then show ?thesis by (auto simp: wbit_def)
qed

lemma wbit_set_front:
  assumes "length ws = 16" and "e < 1024"
  shows "wbit (ws[0 := ws ! 0 OR 1]) e \<longleftrightarrow> wbit ws e \<or> e = 0"
  using wbit_list_update_or [OF assms(1) _ assms(2), of 0] by simp

lemma wbit_zeros: "e < 1024 \<Longrightarrow> \<not> wbit (replicate 16 0) e"
  by (simp add: wbit_def)

text \<open>What the loop has put into word \<open>j\<close> after handling the sources below \<open>k\<close>.\<close>

definition shifted_word :: "u64 list \<Rightarrow> nat \<Rightarrow> nat \<Rightarrow> nat \<Rightarrow> nat \<Rightarrow> u64" where
  "shifted_word old ws bs k j =
     (if ws \<le> j \<and> j - ws < k then push_bit bs (old ! (j - ws)) else 0) OR
     (if bs \<noteq> 0 \<and> ws < j \<and> j - ws - 1 < k then drop_bit (64 - bs) (old ! (j - ws - 1)) else 0)"

lemma shifted_word_step:
  assumes "k + ws < n" and "length acc = n" and "\<forall>j<n. acc ! j = shifted_word old ws bs k j"
    and "acc1 = acc[k + ws := acc ! (k + ws) OR push_bit bs (old ! k)]"
    and "acc2 = (if bs \<noteq> 0 \<and> k + ws + 1 < length acc1
           then acc1[k + ws + 1 := acc1 ! (k + ws + 1) OR drop_bit (64 - bs) (old ! k)] else acc1)"
  shows "length acc2 = n \<and> (\<forall>j<n. acc2 ! j = shifted_word old ws bs (Suc k) j)"
proof (intro conjI allI impI)
  show "length acc2 = n" using assms(2,4,5) by simp
  fix j
  assume j: "j < n"
  consider "j = k + ws" | "j = k + ws + 1" | "j \<noteq> k + ws" "j \<noteq> k + ws + 1" by blast
  then show "acc2 ! j = shifted_word old ws bs (Suc k) j"
  proof cases
    case 1
    then have "acc2 ! j = shifted_word old ws bs k j OR push_bit bs (old ! k)"
      using assms j by simp
    then show ?thesis using 1 by (cases k) (simp_all add: shifted_word_def or.commute)
  next
    case 2
    then have "acc2 ! j = (if bs \<noteq> 0 then shifted_word old ws bs k j OR drop_bit (64 - bs) (old ! k)
        else shifted_word old ws bs k j)"
      using assms j by simp
    then show ?thesis using 2 by (simp add: shifted_word_def)
  next
    case 3
    then have "acc2 ! j = shifted_word old ws bs k j"
      using assms j by simp
    moreover have "(ws \<le> j \<and> j - ws < Suc k) = (ws \<le> j \<and> j - ws < k)"
      and "(ws < j \<and> j - ws - 1 < Suc k) = (ws < j \<and> j - ws - 1 < k)"
      using 3 by linarith+
    ultimately show ?thesis by (simp only: shifted_word_def)
  qed
qed

lemma shift_loop_words:
  assumes "length acc = n" and "\<forall>j<n. acc ! j = shifted_word old ws bs k j" and "k \<le> m"
  shows "length (shift_loop old ws bs [k..<m] acc) = n \<and>
    (\<forall>j<n. shift_loop old ws bs [k..<m] acc ! j = shifted_word old ws bs m j)"
  using assms
proof (induction "m - k" arbitrary: k acc)
  case 0
  then show ?case by simp
next
  case (Suc x)
  then have upt: "[k..<m] = k # [Suc k..<m]"
    by (simp add: upt_conv_Cons)
  show ?case
  proof (cases "n \<le> k + ws")
    case True
    then have "shifted_word old ws bs k j = shifted_word old ws bs m j" if "j < n" for j
      using that Suc.prems(3) by (auto simp: shifted_word_def)
    then show ?thesis
      using True Suc.prems by (simp add: upt)
  next
    case False
    let ?a1 = "acc[k + ws := acc ! (k + ws) OR push_bit bs (old ! k)]"
    let ?a2 = "if bs \<noteq> 0 \<and> k + ws + 1 < length ?a1
      then ?a1[k + ws + 1 := ?a1 ! (k + ws + 1) OR drop_bit (64 - bs) (old ! k)] else ?a1"
    have "length ?a2 = n \<and> (\<forall>j<n. ?a2 ! j = shifted_word old ws bs (Suc k) j)"
      by (rule shifted_word_step [OF _ Suc.prems(1,2) refl refl]) (use False in simp)
    then have "length (shift_loop old ws bs [Suc k..<m] ?a2) = n \<and>
        (\<forall>j<n. shift_loop old ws bs [Suc k..<m] ?a2 ! j = shifted_word old ws bs m j)"
      using Suc.hyps(2) by (intro Suc.hyps(1)) auto
    moreover have "shift_loop old ws bs [k..<m] acc = shift_loop old ws bs [Suc k..<m] ?a2"
      using False Suc.prems(1) unfolding upt shift_loop.simps(2) by (simp only: Let_def not_le if_False) simp
    ultimately show ?thesis by simp
  qed
qed

lemma wbit_shifted_word:
  assumes "bs < 64" and "d < 1024" and "a = 64 * ws + bs"
  shows "bit (shifted_word old ws bs 16 (d div 64)) (d mod 64) \<longleftrightarrow> a \<le> d \<and> wbit old (d - a)"
proof -
  define q r where "q = d div 64" and "r = d mod 64"
  have d: "d = 64 * q + r" and r: "r < 64" and q: "q < 16"
    using assms(2) by (simp_all add: q_def r_def)
  show ?thesis
    unfolding q_def [symmetric] r_def [symmetric]
  proof (cases "bs \<le> r")
    case True
    have "\<not> bit (drop_bit (64 - bs) x) r" for x :: u64
      using True r by (auto simp: bit_drop_bit_eq dest: bit_imp_le_length)
    then have lhs: "bit (shifted_word old ws bs 16 q) r \<longleftrightarrow> ws \<le> q \<and> bit (old ! (q - ws)) (r - bs)"
      using True r q by (simp add: shifted_word_def bit_or_iff bit_push_bit_iff less_imp_diff_less)
    have "a \<le> d \<longleftrightarrow> ws \<le> q"
      using True r assms(3) d by linarith
    moreover have "(d - a) div 64 = q - ws" and "(d - a) mod 64 = r - bs" if "ws \<le> q"
    proof -
      have "d - a = (r - bs) + 64 * (q - ws)"
        using that True assms(3) d by (simp add: algebra_simps)
      then show "(d - a) div 64 = q - ws" and "(d - a) mod 64 = r - bs"
        using r by simp_all
    qed
    ultimately show "bit (shifted_word old ws bs 16 q) r \<longleftrightarrow> a \<le> d \<and> wbit old (d - a)"
      unfolding lhs wbit_def by auto
  next
    case False
    then have lhs: "bit (shifted_word old ws bs 16 q) r
        \<longleftrightarrow> ws < q \<and> bit (old ! (q - ws - 1)) (64 - bs + r)"
      using r q by (auto simp: shifted_word_def bit_or_iff bit_push_bit_iff bit_drop_bit_eq
          less_imp_diff_less dest: bit_imp_le_length)
    have "a \<le> d \<longleftrightarrow> ws < q"
      using False r assms(1,3) d by linarith
    moreover have "(d - a) div 64 = q - ws - 1" and "(d - a) mod 64 = 64 - bs + r" if "ws < q"
    proof -
      have "d - a = (64 - bs + r) + 64 * (q - ws - 1)"
        using that False assms(1,3) d by (simp add: algebra_simps)
      moreover have "64 - bs + r < 64" using False assms(1) by simp
      ultimately show "(d - a) div 64 = q - ws - 1" and "(d - a) mod 64 = 64 - bs + r"
        by simp_all
    qed
    ultimately show "bit (shifted_word old ws bs 16 q) r \<longleftrightarrow> a \<le> d \<and> wbit old (d - a)"
      unfolding lhs wbit_def by auto
  qed
qed

lemma wbit_shift:
  assumes "length old = 16" and "d < 1024"
  shows "wbit (shift_loop old (a div 64) (a mod 64) [0..<length old] (replicate 16 0)) d
         \<longleftrightarrow> a \<le> d \<and> wbit old (d - a)"
    and "length (shift_loop old (a div 64) (a mod 64) [0..<length old] (replicate 16 0)) = 16"
proof -
  have "length (shift_loop old (a div 64) (a mod 64) [0..<16] (replicate 16 0)) = 16 \<and>
    (\<forall>j<16. shift_loop old (a div 64) (a mod 64) [0..<16] (replicate 16 0) ! j
       = shifted_word old (a div 64) (a mod 64) 16 j)"
    by (rule shift_loop_words) (auto simp: shifted_word_def)
  then show "wbit (shift_loop old (a div 64) (a mod 64) [0..<length old] (replicate 16 0)) d
         \<longleftrightarrow> a \<le> d \<and> wbit old (d - a)"
    and "length (shift_loop old (a div 64) (a mod 64) [0..<length old] (replicate 16 0)) = 16"
    using assms wbit_shifted_word [of "a mod 64" d a "a div 64" old]
    by (simp_all add: wbit_def)
qed

section \<open>Refinement to the set of accepted counters\<close>

text \<open>
  The abstract filter remembers every accepted counter. The concrete window stands for the set
  \<open>A\<close> when its highest counter is the greatest element and its bits agree with \<open>A\<close> on the
  window.
\<close>

definition window_rel :: "replay_window \<Rightarrow> u64 set \<Rightarrow> bool" where
  "window_rel w A \<longleftrightarrow>
     length (seen w) = 16 \<and> (initialized w \<longleftrightarrow> A \<noteq> {}) \<and>
     (A \<noteq> {} \<longrightarrow> highest_counter w \<in> A \<and> (\<forall>c\<in>A. c \<le> highest_counter w) \<and>
       (\<forall>c. c \<le> highest_counter w \<longrightarrow> unat (highest_counter w - c) < 1024 \<longrightarrow>
          (wbit (seen w) (unat (highest_counter w - c)) \<longleftrightarrow> c \<in> A)))"

definition spec_classify :: "u64 set \<Rightarrow> u64 \<Rightarrow> replay_disposition" where
  "spec_classify A c =
     (if A = {} \<or> Max A < c then Fresh
      else if 1024 \<le> unat (Max A - c) then TooOld
      else if c \<in> A then Duplicate else Fresh)"

lemma window_rel_empty: "window_rel empty_window {}"
  by (simp add: window_rel_def empty_window_def kReplayWindowBits_def)

lemma window_rel_Max: "window_rel w A \<Longrightarrow> A \<noteq> {} \<Longrightarrow> Max A = highest_counter w"
  by (rule Max_eqI) (auto simp: window_rel_def)

lemma classify_refines:
  assumes "window_rel w A"
  shows "classify w c = spec_classify A c"
proof (cases "A = {}")
  case True
  then show ?thesis
    using assms by (simp add: window_rel_def classify_def spec_classify_def)
next
  case False
  then have "initialized w" and m: "Max A = highest_counter w"
    using assms by (auto simp: window_rel_def window_rel_Max)
  moreover have "(seen w ! unat ((highest_counter w - c) div 64)
        AND push_bit (unat ((highest_counter w - c) mod 64)) 1 \<noteq> 0) \<longleftrightarrow> c \<in> A"
    if "c \<le> highest_counter w" "unat (highest_counter w - c) < 1024"
    unfolding and_push_bit_one unat_div_64 unat_mod_64 wbit_def [symmetric]
    using assms False that by (simp add: window_rel_def)
  ultimately show ?thesis
    using False by (simp add: classify_def spec_classify_def kReplayWindowBits_def Let_def not_less not_le)
qed

lemma unat_sub_le: "c \<le> h \<Longrightarrow> unat (h - c) = unat h - unat c" for c h :: u64
  by (simp add: unat_sub word_le_iff_unat)

lemma commit_in_window:
  assumes rel: "window_rel w A" and "A \<noteq> {}" and "c \<le> highest_counter w"
    and "unat (highest_counter w - c) < 1024"
    and w': "w' = w\<lparr>seen := (seen w)[unat (highest_counter w - c) div 64 :=
       seen w ! (unat (highest_counter w - c) div 64)
         OR push_bit (unat (highest_counter w - c) mod 64) 1]\<rparr>"
  shows "window_rel w' (insert c A)"
proof -
  have "wbit (seen w') (unat (highest_counter w - x)) \<longleftrightarrow> x \<in> insert c A"
    if "x \<le> highest_counter w" "unat (highest_counter w - x) < 1024" for x
  proof -
    have "unat (highest_counter w - x) = unat (highest_counter w - c) \<longleftrightarrow> x = c"
      by (simp flip: word_unat_eq_iff)
    then show ?thesis
      using rel assms(2,4) that unfolding w'
      by (auto simp: wbit_list_update_or window_rel_def simp del: push_bit_of_1)
  qed
  then show ?thesis
    using rel assms(2,3) w' by (simp add: window_rel_def)
qed

lemma commit_advance:
  assumes rel: "window_rel w A" and ne: "A \<noteq> {}" and gt: "highest_counter w < c"
    and moved: "length moved = 16"
      "\<And>d. d < 1024 \<Longrightarrow> wbit moved d \<longleftrightarrow>
         unat (c - highest_counter w) \<le> d \<and> wbit (seen w) (d - unat (c - highest_counter w))"
    and w': "w' = w\<lparr>seen := moved[0 := moved ! 0 OR 1], highest_counter := c\<rparr>"
  shows "window_rel w' (insert c A)"
proof -
  let ?h = "highest_counter w"
  have le: "?h \<le> c" using gt by simp
  have bits: "wbit (seen w') (unat (c - x)) \<longleftrightarrow> x \<in> insert c A"
    if "x \<le> c" "unat (c - x) < 1024" for x
  proof -
    have front: "wbit (seen w') (unat (c - x)) \<longleftrightarrow>
        (unat (c - ?h) \<le> unat (c - x) \<and> wbit (seen w) (unat (c - x) - unat (c - ?h))) \<or> x = c"
      using moved that(2) w' by (auto simp: wbit_set_front unat_eq_0)
    show ?thesis
    proof (cases "x \<le> ?h")
      case True
      then have "unat (c - ?h) \<le> unat (c - x)" and "unat (c - x) - unat (c - ?h) = unat (?h - x)"
        using that(1) le by (simp_all add: unat_sub_le word_le_iff_unat)
      moreover have "wbit (seen w) (unat (?h - x)) \<longleftrightarrow> x \<in> A"
        using rel ne True that calculation(2) by (simp add: window_rel_def)
      ultimately show ?thesis using front by auto
    next
      case False
      then have "\<not> unat (c - ?h) \<le> unat (c - x)"
        using that(1) le by (simp add: unat_sub_le word_le_iff_unat)
      moreover have "x \<notin> A" using False rel ne by (auto simp: window_rel_def)
      ultimately show ?thesis using front by auto
    qed
  qed
  have "x \<le> c" if "x \<in> A" for x
    using that rel ne le by (auto simp: window_rel_def intro: order_trans)
  then show ?thesis
    using rel ne moved(1) w' bits by (simp add: window_rel_def)
qed

lemma commit_first:
  assumes "window_rel w {}"
    and w': "w' = w\<lparr>seen := (replicate (length (seen w)) 0)[0 := 1],
                    highest_counter := c, initialized := True\<rparr>"
  shows "window_rel w' {c}"
proof -
  have len: "length (seen w) = 16" using assms(1) by (simp add: window_rel_def)
  have "wbit (seen w') (unat (c - x)) \<longleftrightarrow> x = c" if "unat (c - x) < 1024" for x
    using wbit_set_front [of "replicate 16 0", OF _ that] that
    by (auto simp: w' len wbit_zeros unat_eq_0)
  then show ?thesis
    using len w' by (simp add: window_rel_def)
qed

lemma commit_refines:
  assumes rel: "window_rel w A" and com: "commit_authenticated w c = (ok, w')"
  shows "ok \<longleftrightarrow> spec_classify A c = Fresh"
    and "ok \<Longrightarrow> window_rel w' (insert c A)" and "\<not> ok \<Longrightarrow> w' = w"
proof -
  note cls = classify_refines [OF rel, of c]
  show "ok \<longleftrightarrow> spec_classify A c = Fresh" and "\<not> ok \<Longrightarrow> w' = w"
    using com unfolding cls [symmetric]
    by (auto simp: commit_authenticated_def Let_def split: if_splits)
  assume ok: ok
  with com have fresh: "classify w c = Fresh"
    by (auto simp: commit_authenticated_def split: if_splits)
  show "window_rel w' (insert c A)"
  proof (cases "A = {}")
    case True
    then have "\<not> initialized w" using rel by (simp add: window_rel_def)
    then have "w' = w\<lparr>seen := (replicate (length (seen w)) 0)[0 := 1],
        highest_counter := c, initialized := True\<rparr>"
      using com fresh by (simp add: commit_authenticated_def)
    then show ?thesis using True rel commit_first by auto
  next
    case False
    then have ini: "initialized w" using rel by (simp add: window_rel_def)
    let ?a = "c - highest_counter w"
    consider (inside) "c \<le> highest_counter w" | (ahead) "highest_counter w < c" by fastforce
    then show ?thesis
    proof cases
      case inside
      then have "unat (highest_counter w - c) < 1024"
        using fresh ini by (auto simp: classify_def kReplayWindowBits_def Let_def split: if_splits)
      then show ?thesis
        using com fresh ini inside
        by (intro commit_in_window [OF rel False inside])
           (simp_all add: commit_authenticated_def Let_def unat_div_64 unat_mod_64)
    next
      case ahead
      let ?moved = "if 1024 \<le> unat ?a then replicate 16 0
        else shift_loop (seen w) (unat ?a div 64) (unat ?a mod 64) [0..<length (seen w)]
               (replicate 16 0)"
      have len: "length (seen w) = 16" using rel by (simp add: window_rel_def)
      have "w' = w\<lparr>seen := ?moved[0 := ?moved ! 0 OR 1], highest_counter := c\<rparr>"
        using com fresh ini not_le [THEN iffD2, OF ahead] len
        by (auto simp: commit_authenticated_def Let_def unat_div_64 unat_mod_64
            kReplayWindowBits_def)
      moreover have "length ?moved = 16" using wbit_shift(2) [OF len, of 0] by simp
      moreover have "wbit ?moved d \<longleftrightarrow> unat ?a \<le> d \<and> wbit (seen w) (d - unat ?a)"
        if "d < 1024" for d
        using that wbit_shift(1) [OF len that, of "unat ?a"] wbit_zeros [OF that] by auto
      ultimately show ?thesis
        by (intro commit_advance [OF rel False ahead, of ?moved])
    qed
  qed
qed

text \<open>What the abstract filter answers to a sequence of counters.\<close>

fun spec_run :: "u64 set \<Rightarrow> u64 list \<Rightarrow> bool list" where
  "spec_run A [] = []"
| "spec_run A (c # cs) =
     (if spec_classify A c = Fresh then True # spec_run (insert c A) cs else False # spec_run A cs)"

lemma commit_run_refines:
  "window_rel w A \<Longrightarrow>
   fst (run_outputs (\<lambda>c w. commit_authenticated w c) cs w) = spec_run A cs"
proof (induction cs arbitrary: w A)
  case (Cons c cs)
  obtain ok w' where com: "commit_authenticated w c = (ok, w')" by fastforce
  note r = commit_refines [OF Cons.prems com]
  show ?case
  proof (cases ok)
    case True
    with r Cons.IH [of w' "insert c A"] com show ?thesis
      by (simp add: case_prod_unfold)
  next
    case False
    with r Cons.IH [OF Cons.prems] com show ?thesis
      by (simp add: case_prod_unfold)
  qed
qed simp

text \<open>
  C10. The window implements the abstract filter: whatever sequence of counters is offered to
  \<open>commit_authenticated\<close>, started on the empty window, each answer is the one the set of all
  counters accepted so far gives, so a counter is accepted at most once however far the
  window has slid.
\<close>

theorem replay_window_refines_set:
  "fst (run_outputs (\<lambda>c w. commit_authenticated w c) cs empty_window) = spec_run {} cs"
  by (rule commit_run_refines [OF window_rel_empty])

section \<open>The interface of a replay filter\<close>

text \<open>
  What a record opener relies on: a verdict per counter, a commit that succeeds exactly on
  fresh counters and then remembers the counter, and no change on refusal. Over any sequence
  of inputs an operation that commits each counter it reports reports no counter twice.
\<close>

locale replay_filter =
  fixes verdict :: "'w \<Rightarrow> u64 \<Rightarrow> replay_disposition"
    and commit :: "'w \<Rightarrow> u64 \<Rightarrow> bool \<times> 'w"
    and rel :: "'w \<Rightarrow> u64 set \<Rightarrow> bool"
  assumes fresh_unseen: "rel w A \<Longrightarrow> verdict w c = Fresh \<Longrightarrow> c \<notin> A"
    and commit_fresh: "rel w A \<Longrightarrow> fst (commit w c) \<longleftrightarrow> verdict w c = Fresh"
    and commit_rel: "rel w A \<Longrightarrow> commit w c = (True, w') \<Longrightarrow> rel w' (insert c A)"
    and refused_same: "rel w A \<Longrightarrow> commit w c = (False, w') \<Longrightarrow> w' = w"
begin

lemma reported_distinct:
  assumes "rel (win s) A"
    and "\<And>m s r s'. step m s = (r, s') \<Longrightarrow>
      (case counter_of r of None \<Rightarrow> win s' = win s
       | Some c \<Rightarrow> commit (win s) c = (True, win s'))"
  shows "distinct (List.map_filter counter_of (fst (run_outputs step ms s))) \<and>
    set (List.map_filter counter_of (fst (run_outputs step ms s))) \<inter> A = {}"
  using assms(1)
proof (induction ms arbitrary: s A)
  case Nil
  then show ?case by (simp add: List.map_filter_simps)
next
  case (Cons m ms)
  obtain r s' where st: "step m s = (r, s')" by fastforce
  show ?case
  proof (cases "counter_of r")
    case None
    with assms(2) [OF st] Cons.prems have "rel (win s') A" by simp
    from Cons.IH [OF this] st None show ?thesis
      by (simp add: List.map_filter_simps case_prod_unfold Let_def)
  next
    case (Some c)
    with assms(2) [OF st] have com: "commit (win s) c = (True, win s')" by simp
    have "c \<notin> A"
      using fresh_unseen commit_fresh Cons.prems com by (metis fst_conv)
    moreover have "rel (win s') (insert c A)"
      by (rule commit_rel [OF Cons.prems com])
    from Cons.IH [OF this] st Some calculation show ?thesis
      by (auto simp: List.map_filter_simps case_prod_unfold Let_def)
  qed
qed

end

interpretation rw: replay_filter classify commit_authenticated window_rel
proof unfold_locales
  show "c \<notin> A" if "window_rel w A" "classify w c = Fresh" for w A c
  proof
    assume "c \<in> A"
    then have "A \<noteq> {}" and "\<not> Max A < c" by (auto simp: not_less intro: Max_ge)
    with \<open>c \<in> A\<close> have "spec_classify A c \<noteq> Fresh" by (simp add: spec_classify_def)
    with that show False by (simp add: classify_refines)
  qed
  show "fst (commit_authenticated w c) \<longleftrightarrow> classify w c = Fresh" for w c
    by (simp add: commit_authenticated_def Let_def)
qed (use commit_refines in blast)+

end
