(* ===== verification/Data_Plane.thy ===== *)
theory Data_Plane
  imports Wire_Codec Replay_Window
begin

text \<open>
  The authenticated data plane v2 (\<^verbatim>\<open>shared/include/vfdual/authenticated_data_plane_v2.hpp\<close>,
  \<^verbatim>\<open>shared/src/authenticated_data_plane_v2.cpp\<close>): the 32-byte header, its strict parser, the
  expected-tuple check, the sealer with its single-use counters and the opener with its replay
  window. AES-256-GCM is the platform's (BCrypt on Windows): it enters as the two functions a
  call of \<^verbatim>\<open>Aes256GcmCipher::encrypt\<close> and \<^verbatim>\<open>decrypt\<close> computes, given anew at every call, so that a
  provider may also fail differently from call to call. Whether a container could be resized is
  a flag of the call for the same reason. Erasing key bytes is not visible to any caller and is
  left out.
\<close>

section \<open>Constants and data\<close>

definition kAuthenticatedDataPlaneVersion :: u8 where "kAuthenticatedDataPlaneVersion = 2"
definition kAuthenticatedPacketHeaderBytes :: nat where "kAuthenticatedPacketHeaderBytes = 32"
definition kGcmNoncePrefixBytes :: nat where "kGcmNoncePrefixBytes = 4"
definition kGcmNonceBytes :: nat where "kGcmNonceBytes = kGcmNoncePrefixBytes + 8"
definition kGcmTagBytes :: nat where "kGcmTagBytes = 16"
definition kMaximumAuthenticatedDatagramBytes :: nat where
  "kMaximumAuthenticatedDatagramBytes = 1412"
definition kMaximumAuthenticatedPayloadBytes :: nat where
  "kMaximumAuthenticatedPayloadBytes =
     kMaximumAuthenticatedDatagramBytes - kAuthenticatedPacketHeaderBytes - kGcmTagBytes"
definition kMaximumAuthenticatedPacketCounter :: u64 where
  "kMaximumAuthenticatedPacketCounter = push_bit 23 1 - 1"
definition kMinimumPacketBytes :: nat where
  "kMinimumPacketBytes = kAuthenticatedPacketHeaderBytes + kGcmTagBytes"
definition kPacketMagic :: bytes where "kPacketMagic = [0x56, 0x46, 0x41, 0x32]"

lemmas data_plane_consts [const_defs] =
  kAuthenticatedDataPlaneVersion_def kAuthenticatedPacketHeaderBytes_def kGcmNoncePrefixBytes_def
  kGcmNonceBytes_def kGcmTagBytes_def kMaximumAuthenticatedDatagramBytes_def
  kMaximumAuthenticatedPayloadBytes_def kMinimumPacketBytes_def

text \<open>
  The enumerations, with the byte each has on the wire. A byte that is none of them is a value
  of the C++ enumeration type too; every switch treats it as \<^verbatim>\<open>invalid\<close>.
\<close>

datatype packet_type = PtInvalid | Video | PresenceProbe | IdrRequest | MouseButton

datatype direction = DirInvalid | HostToAndroid | AndroidToHost

fun packet_type_byte :: "packet_type \<Rightarrow> u8" where
  "packet_type_byte PtInvalid = 0"
| "packet_type_byte Video = 1"
| "packet_type_byte PresenceProbe = 2"
| "packet_type_byte IdrRequest = 3"
| "packet_type_byte MouseButton = 4"

definition packet_type_of_byte :: "u8 \<Rightarrow> packet_type" where
  "packet_type_of_byte b =
     (if b = 1 then Video else if b = 2 then PresenceProbe else if b = 3 then IdrRequest
      else if b = 4 then MouseButton else PtInvalid)"

fun direction_byte :: "direction \<Rightarrow> u8" where
  "direction_byte DirInvalid = 0"
| "direction_byte HostToAndroid = 1"
| "direction_byte AndroidToHost = 2"

definition direction_of_byte :: "u8 \<Rightarrow> direction" where
  "direction_of_byte b =
     (if b = 1 then HostToAndroid else if b = 2 then AndroidToHost else DirInvalid)"

definition packet_type_valid :: "packet_type \<Rightarrow> bool" where
  "packet_type_valid t \<longleftrightarrow> t \<noteq> PtInvalid"

definition direction_valid :: "direction \<Rightarrow> bool" where
  "direction_valid d \<longleftrightarrow> d \<noteq> DirInvalid"

record packet_tuple =
  connection_id :: u64
  key_epoch :: u32
  tuple_direction :: direction
  tuple_packet_type :: packet_type

definition tuple_valid :: "packet_tuple \<Rightarrow> bool" where
  "tuple_valid t \<longleftrightarrow>
     connection_id t \<noteq> 0 \<and> key_epoch t \<noteq> 0 \<and> direction_valid (tuple_direction t) \<and>
     packet_type_valid (tuple_packet_type t)"

record traffic_key =
  key_tuple :: packet_tuple
  aes_256_key :: bytes
  nonce_prefix :: bytes

text \<open>
  What one call of the platform cipher computes: nonce, authenticated data and plaintext to
  ciphertext and tag; nonce, authenticated data, ciphertext and tag to plaintext. \<open>None\<close> is a
  call that returns false.
\<close>

type_synonym gcm_encrypt = "bytes \<Rightarrow> bytes \<Rightarrow> bytes \<Rightarrow> (bytes \<times> bytes) option"
type_synonym gcm_decrypt = "bytes \<Rightarrow> bytes \<Rightarrow> bytes \<Rightarrow> bytes \<Rightarrow> bytes option"

section \<open>Framing\<close>

datatype packet_parse_status =
  Parsed | PacketTooShort | InvalidMagic | UnsupportedVersion | InvalidHeaderSize
  | InvalidPacketType | InvalidDirection | CounterExceedsKeyLifetime | PayloadTooLarge
  | LengthMismatch

record parsed_packet =
  packet_tuple :: packet_tuple
  counter :: u64
  authenticated_header :: bytes
  ciphertext :: bytes
  tag :: bytes

definition no_packet :: parsed_packet where
  "no_packet = \<lparr>packet_tuple = \<lparr>connection_id = 0, key_epoch = 0, tuple_direction = DirInvalid,
     tuple_packet_type = PtInvalid\<rparr>, counter = 0, authenticated_header = [], ciphertext = [],
     tag = []\<rparr>"

definition encode_header :: "packet_tuple \<Rightarrow> u64 \<Rightarrow> u32 \<Rightarrow> bytes \<Rightarrow> bytes" where
  "encode_header t cnt payload_size header =
     (let header = copy_into header 0 kPacketMagic;
          header = header[4 := kAuthenticatedDataPlaneVersion];
          header = header[5 := of_nat kAuthenticatedPacketHeaderBytes];
          header = header[6 := packet_type_byte (tuple_packet_type t)];
          header = header[7 := direction_byte (tuple_direction t)];
          header = store_u64 header 8 (connection_id t);
          header = store_u32 header 16 (key_epoch t);
          header = store_u64 header 20 cnt
      in store_u32 header 28 payload_size)"

definition parse_authenticated_packet_v2 :: "bytes \<Rightarrow> packet_parse_status \<times> parsed_packet" where
  "parse_authenticated_packet_v2 datagram =
     (if length datagram < kMinimumPacketBytes then (PacketTooShort, no_packet)
      else if take 4 datagram \<noteq> kPacketMagic then (InvalidMagic, no_packet)
      else if datagram ! 4 \<noteq> kAuthenticatedDataPlaneVersion then (UnsupportedVersion, no_packet)
      else if unat (datagram ! 5) \<noteq> kAuthenticatedPacketHeaderBytes
        then (InvalidHeaderSize, no_packet)
      else
        let ptype = packet_type_of_byte (datagram ! 6) in
        if \<not> packet_type_valid ptype then (InvalidPacketType, no_packet)
        else
          let dir = direction_of_byte (datagram ! 7) in
          if \<not> direction_valid dir then (InvalidDirection, no_packet)
          else
            let cnt = get_u64 datagram 20 in
            if kMaximumAuthenticatedPacketCounter < cnt then (CounterExceedsKeyLifetime, no_packet)
            else
              let payload_size = unat (get_u32 datagram 28) in
              if kMaximumAuthenticatedPayloadBytes < payload_size then (PayloadTooLarge, no_packet)
              else if length datagram
                  \<noteq> kAuthenticatedPacketHeaderBytes + payload_size + kGcmTagBytes
                then (LengthMismatch, no_packet)
              else (Parsed,
                \<lparr>packet_tuple = \<lparr>connection_id = get_u64 datagram 8, key_epoch = get_u32 datagram 16,
                   tuple_direction = dir, tuple_packet_type = ptype\<rparr>,
                 counter = cnt,
                 authenticated_header = take kAuthenticatedPacketHeaderBytes datagram,
                 ciphertext = take payload_size (drop kAuthenticatedPacketHeaderBytes datagram),
                 tag = drop (length datagram - kGcmTagBytes) datagram\<rparr>))"

datatype packet_validation_status =
  Valid | InvalidExpectedTuple | WrongConnectionId | WrongKeyEpoch | WrongDirection
  | WrongPacketType

definition validate_authenticated_packet_v2 ::
  "parsed_packet \<Rightarrow> packet_tuple \<Rightarrow> packet_validation_status" where
  "validate_authenticated_packet_v2 packet expected =
     (if \<not> tuple_valid expected then InvalidExpectedTuple
      else if connection_id (packet_tuple packet) \<noteq> connection_id expected then WrongConnectionId
      else if key_epoch (packet_tuple packet) \<noteq> key_epoch expected then WrongKeyEpoch
      else if tuple_direction (packet_tuple packet) \<noteq> tuple_direction expected then WrongDirection
      else if tuple_packet_type (packet_tuple packet) \<noteq> tuple_packet_type expected
        then WrongPacketType
      else Valid)"

definition compose_authenticated_packet_nonce :: "bytes \<Rightarrow> u64 \<Rightarrow> bytes" where
  "compose_authenticated_packet_nonce prefix cnt =
     store_u64 (copy_into (replicate kGcmNonceBytes 0) 0 prefix) kGcmNoncePrefixBytes cnt"

section \<open>The sealer\<close>

datatype packet_seal_status =
  Sealed | SealInvalidConfiguration | PlaintextTooLarge | CounterExhausted | SealAllocationFailed
  | EncryptionFailed

record seal_result =
  seal_status :: packet_seal_status
  seal_counter :: u64
  seal_datagram :: bytes

record packet_sealer =
  sealer_tuple :: packet_tuple
  sealer_nonce_prefix :: bytes
  sealer_has_cipher :: bool
  next_counter :: u64
  counter_available :: bool

text \<open>\<open>imported\<close>: whether the provider returned a cipher for the key.\<close>

definition make_sealer :: "traffic_key \<Rightarrow> bool \<Rightarrow> u64 \<Rightarrow> packet_sealer" where
  "make_sealer key imported initial_counter =
     \<lparr>sealer_tuple = key_tuple key, sealer_nonce_prefix = nonce_prefix key,
      sealer_has_cipher = (tuple_valid (key_tuple key) \<and> imported),
      next_counter = initial_counter,
      counter_available = (initial_counter \<le> kMaximumAuthenticatedPacketCounter)\<rparr>"

definition seal_packet ::
  "bool \<Rightarrow> gcm_encrypt \<Rightarrow> bytes \<Rightarrow> packet_sealer \<Rightarrow> seal_result \<times> packet_sealer" where
  "seal_packet alloc_ok encrypt plaintext s =
     (let result = \<lparr>seal_status = SealInvalidConfiguration, seal_counter = 0, seal_datagram = []\<rparr> in
      if \<not> tuple_valid (sealer_tuple s) \<or> \<not> sealer_has_cipher s then (result, s)
      else if kMaximumAuthenticatedPayloadBytes < length plaintext
        then (result\<lparr>seal_status := PlaintextTooLarge\<rparr>, s)
      else if \<not> counter_available s then (result\<lparr>seal_status := CounterExhausted\<rparr>, s)
      else if \<not> alloc_ok then (result\<lparr>seal_status := SealAllocationFailed\<rparr>, s)
      else
        let cnt = next_counter s;
            datagram = replicate
              (kAuthenticatedPacketHeaderBytes + length plaintext + kGcmTagBytes) 0;
            header = encode_header (sealer_tuple s) cnt (of_nat (length plaintext))
              (take kAuthenticatedPacketHeaderBytes datagram);
            datagram = copy_into datagram 0 header;
            nonce = compose_authenticated_packet_nonce (sealer_nonce_prefix s) cnt;
            s = (if cnt = kMaximumAuthenticatedPacketCounter then s\<lparr>counter_available := False\<rparr>
                 else s\<lparr>next_counter := cnt + 1\<rparr>)
        in case encrypt nonce header plaintext of
             None \<Rightarrow> (\<lparr>seal_status = EncryptionFailed, seal_counter = cnt, seal_datagram = []\<rparr>, s)
           | Some (ct, tg) \<Rightarrow>
               (\<lparr>seal_status = Sealed, seal_counter = cnt,
                  seal_datagram = copy_into (copy_into datagram kAuthenticatedPacketHeaderBytes ct)
                    (kAuthenticatedPacketHeaderBytes + length plaintext) tg\<rparr>, s))"

section \<open>The opener\<close>

datatype packet_open_status =
  Opened | MalformedPacket | OpenInvalidConfiguration | OpenWrongConnectionId | OpenWrongKeyEpoch
  | OpenWrongDirection | OpenWrongPacketType | OpenDuplicate | OpenTooOld | AuthenticationFailed
  | OpenAllocationFailed

fun map_validation_status :: "packet_validation_status \<Rightarrow> packet_open_status" where
  "map_validation_status Valid = Opened"
| "map_validation_status InvalidExpectedTuple = OpenInvalidConfiguration"
| "map_validation_status WrongConnectionId = OpenWrongConnectionId"
| "map_validation_status WrongKeyEpoch = OpenWrongKeyEpoch"
| "map_validation_status WrongDirection = OpenWrongDirection"
| "map_validation_status WrongPacketType = OpenWrongPacketType"

record open_result =
  open_status :: packet_open_status
  open_parse_status :: packet_parse_status
  open_validation_status :: packet_validation_status
  authenticated_counter :: u64
  open_plaintext :: bytes

record packet_opener =
  opener_tuple :: packet_tuple
  opener_nonce_prefix :: bytes
  opener_has_cipher :: bool
  opener_window :: replay_window

definition make_opener :: "traffic_key \<Rightarrow> bool \<Rightarrow> packet_opener" where
  "make_opener key imported =
     \<lparr>opener_tuple = key_tuple key, opener_nonce_prefix = nonce_prefix key,
      opener_has_cipher = (tuple_valid (key_tuple key) \<and> imported),
      opener_window = empty_window\<rparr>"

definition open_packet ::
  "bool \<Rightarrow> gcm_decrypt \<Rightarrow> bytes \<Rightarrow> packet_opener \<Rightarrow> open_result \<times> packet_opener" where
  "open_packet alloc_ok decrypt datagram s =
     (let result = \<lparr>open_status = OpenInvalidConfiguration, open_parse_status = PacketTooShort,
            open_validation_status = InvalidExpectedTuple, authenticated_counter = 0,
            open_plaintext = []\<rparr> in
      if \<not> tuple_valid (opener_tuple s) \<or> \<not> opener_has_cipher s then (result, s)
      else
        let (status, packet) = parse_authenticated_packet_v2 datagram;
            result = result\<lparr>open_parse_status := status\<rparr> in
        if status \<noteq> Parsed then (result\<lparr>open_status := MalformedPacket\<rparr>, s)
        else
          let validation = validate_authenticated_packet_v2 packet (opener_tuple s);
              result = result\<lparr>open_validation_status := validation\<rparr> in
          if validation \<noteq> Valid
            then (result\<lparr>open_status := map_validation_status validation\<rparr>, s)
          else
            let replay = classify (opener_window s) (counter packet) in
            if replay = Duplicate then (result\<lparr>open_status := OpenDuplicate\<rparr>, s)
            else if replay = TooOld then (result\<lparr>open_status := OpenTooOld\<rparr>, s)
            else if \<not> alloc_ok then (result\<lparr>open_status := OpenAllocationFailed\<rparr>, s)
            else
              let nonce = compose_authenticated_packet_nonce (opener_nonce_prefix s)
                    (counter packet) in
              (case decrypt nonce (authenticated_header packet) (ciphertext packet) (tag packet) of
                 None \<Rightarrow> (result\<lparr>open_status := AuthenticationFailed\<rparr>, s)
               | Some plaintext \<Rightarrow>
                   let (ok, window) = commit_authenticated (opener_window s) (counter packet);
                       s = s\<lparr>opener_window := window\<rparr> in
                   if \<not> ok then (result\<lparr>open_status := OpenInvalidConfiguration\<rparr>, s)
                   else (result\<lparr>open_status := Opened,
                           authenticated_counter := counter packet,
                           open_plaintext := plaintext\<rparr>, s)))"

definition replay_snapshot :: "packet_opener \<Rightarrow> bool \<times> u64" where
  "replay_snapshot s = (initialized (opener_window s), highest_counter (opener_window s))"

section \<open>Header laws\<close>

definition packet_header :: "packet_tuple \<Rightarrow> u64 \<Rightarrow> u32 \<Rightarrow> bytes" where
  "packet_header t cnt n =
     kPacketMagic @ [2, 32, packet_type_byte (tuple_packet_type t), direction_byte (tuple_direction t)]
     @ be_bytes 8 (connection_id t) @ be_bytes 4 (key_epoch t) @ be_bytes 8 cnt @ be_bytes 4 n"

lemma length_kPacketMagic [simp]: "length kPacketMagic = 4"
  by (simp add: kPacketMagic_def)

lemma length_packet_header [simp]: "length (packet_header t cnt n) = 32"
  by (simp add: packet_header_def)

lemma list_length_4: "length xs = 4 \<Longrightarrow> \<exists>a b c d. xs = [a, b, c, d]"
  by (auto simp: numeral_eq_Suc length_Suc_conv)

lemma encode_header_eq:
  assumes "length header = 32"
  shows "encode_header t cnt n header = packet_header t cnt n"
proof -
  obtain a b c d where abcd: "take 4 (drop 4 header) = [a, b, c, d]"
    using list_length_4 [of "take 4 (drop 4 header)"] assms by auto
  have "drop 4 header = [a, b, c, d] @ drop 8 header"
    using append_take_drop_id [of 4 "drop 4 header"] by (simp add: abcd)
  then have start: "copy_into header 0 kPacketMagic = kPacketMagic @ [a, b, c, d] @ drop 8 header"
    by (simp add: copy_into_def)
  show ?thesis
    unfolding encode_header_def Let_def start
    using assms
    by (simp add: kPacketMagic_def packet_header_def store_u64_eq store_u32_eq copy_into_def
        const_defs)
qed

lemma packet_type_byte_inverse: "packet_type_of_byte (packet_type_byte t) = t"
  by (cases t) (simp_all add: packet_type_of_byte_def)

lemma direction_byte_inverse: "direction_of_byte (direction_byte d) = d"
  by (cases d) (simp_all add: direction_of_byte_def)

lemma packet_type_of_byte_valid:
  "packet_type_valid (packet_type_of_byte b) \<Longrightarrow> packet_type_byte (packet_type_of_byte b) = b"
  by (auto simp: packet_type_of_byte_def packet_type_valid_def)

lemma direction_of_byte_valid:
  "direction_valid (direction_of_byte b) \<Longrightarrow> direction_byte (direction_of_byte b) = b"
  by (auto simp: direction_of_byte_def direction_valid_def)

lemma packet_header_fields:
  assumes "d = packet_header t cnt n @ rest"
  shows "take 4 d = kPacketMagic" and "d ! 4 = 2" and "d ! 5 = 32"
    and "d ! 6 = packet_type_byte (tuple_packet_type t)"
    and "d ! 7 = direction_byte (tuple_direction t)"
    and "get_u64 d 8 = connection_id t" and "get_u32 d 16 = key_epoch t"
    and "get_u64 d 20 = cnt" and "get_u32 d 28 = n"
proof -
  let ?p = "kPacketMagic @ [2, 32, packet_type_byte (tuple_packet_type t),
      direction_byte (tuple_direction t)]"
  note d = assms [unfolded packet_header_def]
  show "take 4 d = kPacketMagic" and "d ! 4 = 2" and "d ! 5 = 32"
    and "d ! 6 = packet_type_byte (tuple_packet_type t)"
    and "d ! 7 = direction_byte (tuple_direction t)"
    by (simp_all add: d nth_append)
  show "get_u64 d 8 = connection_id t"
    by (rule f64.load_at [where pre = ?p]) (simp_all add: d)
  show "get_u32 d 16 = key_epoch t"
    by (rule f32.load_at [where pre = "?p @ be_bytes 8 (connection_id t)"]) (simp_all add: d)
  show "get_u64 d 20 = cnt"
    by (rule f64.load_at [where pre = "?p @ be_bytes 8 (connection_id t) @ be_bytes 4 (key_epoch t)"])
       (simp_all add: d)
  show "get_u32 d 28 = n"
    by (rule f32.load_at [where pre = "?p @ be_bytes 8 (connection_id t) @ be_bytes 4 (key_epoch t)
          @ be_bytes 8 cnt"])
       (simp_all add: d)
qed

text \<open>The packets the parser accepts, and the bytes such a packet stands for.\<close>

definition packet_ok :: "parsed_packet \<Rightarrow> bool" where
  "packet_ok p \<longleftrightarrow>
     packet_type_valid (tuple_packet_type (packet_tuple p)) \<and>
     direction_valid (tuple_direction (packet_tuple p)) \<and>
     counter p \<le> kMaximumAuthenticatedPacketCounter \<and>
     length (ciphertext p) \<le> kMaximumAuthenticatedPayloadBytes \<and> length (tag p) = 16 \<and>
     authenticated_header p = packet_header (packet_tuple p) (counter p)
       (of_nat (length (ciphertext p)))"

definition packet_bytes :: "parsed_packet \<Rightarrow> bytes" where
  "packet_bytes p = authenticated_header p @ ciphertext p @ tag p"

lemma unat_payload_size: "n \<le> 1364 \<Longrightarrow> unat (of_nat n :: u32) = n"
  by (rule unat_of_nat_small) simp

lemma parse_packet_bytes:
  assumes "packet_ok p"
  shows "parse_authenticated_packet_v2 (packet_bytes p) = (Parsed, p)"
proof -
  let ?d = "packet_bytes p"
  have h: "authenticated_header p = packet_header (packet_tuple p) (counter p)
      (of_nat (length (ciphertext p)))" and l: "length (ciphertext p) \<le> 1364" "length (tag p) = 16"
    using assms by (simp_all add: packet_ok_def const_defs)
  have d: "?d = packet_header (packet_tuple p) (counter p) (of_nat (length (ciphertext p)))
      @ (ciphertext p @ tag p)"
    by (simp add: packet_bytes_def h)
  note fields = packet_header_fields [OF d]
  show ?thesis
    unfolding parse_authenticated_packet_v2_def Let_def fields
      packet_type_byte_inverse direction_byte_inverse
    using assms l
    by (simp add: packet_ok_def const_defs d unat_payload_size not_less [symmetric])
qed

lemma parse_Parsed_iff:
  "parse_authenticated_packet_v2 d = (Parsed, p) \<longleftrightarrow>
     48 \<le> length d \<and> take 4 d = kPacketMagic \<and> d ! 4 = 2 \<and> unat (d ! 5) = 32 \<and>
     packet_type_valid (packet_type_of_byte (d ! 6)) \<and>
     direction_valid (direction_of_byte (d ! 7)) \<and>
     get_u64 d 20 \<le> kMaximumAuthenticatedPacketCounter \<and>
     unat (get_u32 d 28) \<le> 1364 \<and> length d = 32 + unat (get_u32 d 28) + 16 \<and>
     \<lparr>packet_tuple = \<lparr>connection_id = get_u64 d 8, key_epoch = get_u32 d 16,
        tuple_direction = direction_of_byte (d ! 7),
        tuple_packet_type = packet_type_of_byte (d ! 6)\<rparr>,
      counter = get_u64 d 20, authenticated_header = take 32 d,
      ciphertext = take (unat (get_u32 d 28)) (drop 32 d), tag = drop (length d - 16) d\<rparr> = p"
  unfolding parse_authenticated_packet_v2_def Let_def const_defs
  by (simp add: if_distrib [of "\<lambda>x. x = (Parsed, p)"] not_less cong: if_cong) (auto simp: not_le)

lemma parse_Parsed:
  assumes "parse_authenticated_packet_v2 d = (Parsed, p)"
  shows "packet_ok p" and "d = packet_bytes p"
proof -
  let ?n = "unat (get_u32 d 28)"
  note facts = assms [unfolded parse_Parsed_iff]
  have len: "length d = 48 + ?n" and n: "?n \<le> 1364" using facts by simp_all
  have magic: "take 4 d = kPacketMagic" and ver: "d ! 4 = 2" and hs: "unat (d ! 5) = 32"
    and pt: "packet_type_valid (packet_type_of_byte (d ! 6))"
    and dr: "direction_valid (direction_of_byte (d ! 7))"
    and cnt: "get_u64 d 20 \<le> kMaximumAuthenticatedPacketCounter"
    and p: "p = \<lparr>packet_tuple = \<lparr>connection_id = get_u64 d 8, key_epoch = get_u32 d 16,
        tuple_direction = direction_of_byte (d ! 7),
        tuple_packet_type = packet_type_of_byte (d ! 6)\<rparr>,
      counter = get_u64 d 20, authenticated_header = take 32 d,
      ciphertext = take ?n (drop 32 d), tag = drop (length d - 16) d\<rparr>"
    using facts by blast+
  have "d ! 5 = 32" using hs by (simp add: word_unat_eq_iff)
  then have four: "take 4 (drop 4 d) = [2, 32, d ! 6, d ! 7]"
    using ver len by (simp add: take_drop_nth upt_widths)
  have split: "take 32 d = take 4 d @ take 4 (drop 4 d) @ take 8 (drop 8 d) @ take 4 (drop 16 d)
      @ take 8 (drop 20 d) @ take 4 (drop 28 d)"
    by (simp flip: take_add append_assoc add: drop_drop)
  have hdr: "take 32 d = packet_header (packet_tuple p) (counter p) (of_nat (length (ciphertext p)))"
    unfolding split magic four using len pt dr
    by (simp add: packet_header_def p f64.load_image f32.load_image packet_type_of_byte_valid
        direction_of_byte_valid)
  show "packet_ok p"
    unfolding packet_ok_def using hdr len n pt dr cnt by (simp add: p const_defs)
  have "d = take 32 d @ take ?n (drop 32 d) @ drop (32 + ?n) d"
    using append_take_drop_id [of 32 d] append_take_drop_id [of ?n "drop 32 d"]
    by (simp only: drop_drop add.commute [of ?n])
  then show "d = packet_bytes p"
    by (simp only: packet_bytes_def p parsed_packet.simps len) simp
qed

text \<open>
  The framing is unambiguous: the parser accepts a datagram with result \<open>p\<close> exactly when \<open>p\<close>
  is within the protocol's bounds and the datagram is \<open>p\<close>'s header, ciphertext and tag in a row,
  the header being the encoder's output for \<open>p\<close>'s tuple, counter and length.
\<close>

theorem packet_framing_canonical:
  "parse_authenticated_packet_v2 d = (Parsed, p) \<longleftrightarrow>
     packet_ok p \<and>
     d = encode_header (packet_tuple p) (counter p) (of_nat (length (ciphertext p))) (replicate 32 0)
           @ ciphertext p @ tag p"
proof
  assume a: "parse_authenticated_packet_v2 d = (Parsed, p)"
  show "packet_ok p \<and>
     d = encode_header (packet_tuple p) (counter p) (of_nat (length (ciphertext p))) (replicate 32 0)
           @ ciphertext p @ tag p"
    using parse_Parsed [OF a] by (simp add: encode_header_eq packet_ok_def packet_bytes_def)
next
  assume a: "packet_ok p \<and>
     d = encode_header (packet_tuple p) (counter p) (of_nat (length (ciphertext p))) (replicate 32 0)
           @ ciphertext p @ tag p"
  then have "d = packet_bytes p"
    by (simp add: encode_header_eq packet_ok_def packet_bytes_def)
  then show "parse_authenticated_packet_v2 d = (Parsed, p)"
    using parse_packet_bytes a by blast
qed

section \<open>Nonces\<close>

lemma nonce_eq:
  "length prefix = 4 \<Longrightarrow> compose_authenticated_packet_nonce prefix cnt = prefix @ be_bytes 8 cnt"
  by (simp add: compose_authenticated_packet_nonce_def const_defs store_u64_eq copy_into_def)

lemma nonce_inj:
  assumes "length prefix = 4" and "compose_authenticated_packet_nonce prefix a =
    compose_authenticated_packet_nonce prefix b"
  shows "a = b"
  using assms by (auto simp: nonce_eq intro: f64.image_inj)

text \<open>The counter a call of \<open>seal_packet\<close> hands to the cipher, if it reaches the cipher.\<close>

definition burned_counter :: "seal_result \<Rightarrow> u64 option" where
  "burned_counter r =
     (if seal_status r = Sealed \<or> seal_status r = EncryptionFailed then Some (seal_counter r)
      else None)"

abbreviation seal_step :: "bool \<times> gcm_encrypt \<times> bytes \<Rightarrow> packet_sealer \<Rightarrow> seal_result \<times> packet_sealer"
  where "seal_step c s \<equiv> seal_packet (fst c) (fst (snd c)) (snd (snd c)) s"

lemma max_counter_eq: "kMaximumAuthenticatedPacketCounter = 0x7fffff"
  by (simp add: kMaximumAuthenticatedPacketCounter_def)

lemma seal_packet_cases:
  assumes "seal_packet al enc pt s = (r, s')"
  shows "(burned_counter r = None \<and> s' = s) \<or>
    (counter_available s \<and> burned_counter r = Some (next_counter s) \<and>
     s' = (if next_counter s = kMaximumAuthenticatedPacketCounter then s\<lparr>counter_available := False\<rparr>
           else s\<lparr>next_counter := next_counter s + 1\<rparr>))"
  using assms
  by (auto simp: seal_packet_def burned_counter_def Let_def split: if_splits option.splits prod.splits)

interpretation packet_counters: counter_source next_counter counter_available
  kMaximumAuthenticatedPacketCounter seal_step burned_counter
proof
  show "(burned_counter r = None \<and> next_counter s' = next_counter s \<and>
        counter_available s' = counter_available s) \<or>
      (counter_available s \<and> burned_counter r = Some (next_counter s) \<and>
       (if next_counter s = kMaximumAuthenticatedPacketCounter then \<not> counter_available s'
        else counter_available s' \<and> next_counter s' = next_counter s + 1))"
    if "seal_step m s = (r, s')" for m s r s'
    using seal_packet_cases [OF that] by auto
qed

text \<open>
  The nonces at which a call consults its cipher: those where another answer of the cipher would
  have given the call another outcome.
\<close>

definition consulted_nonces :: "bool \<times> gcm_encrypt \<times> bytes \<Rightarrow> packet_sealer \<Rightarrow> bytes set" where
  "consulted_nonces call s =
     {n. \<exists>encrypt'. (\<forall>n'. n' \<noteq> n \<longrightarrow> encrypt' n' = fst (snd call) n') \<and>
        seal_step (fst call, encrypt', snd (snd call)) s \<noteq> seal_step call s}"

lemma seal_packet_local:
  assumes "encrypt' (compose_authenticated_packet_nonce (sealer_nonce_prefix s) (next_counter s)) =
      encrypt (compose_authenticated_packet_nonce (sealer_nonce_prefix s) (next_counter s))"
  shows "seal_packet al encrypt' pt s = seal_packet al encrypt pt s"
  using assms by (simp add: seal_packet_def Let_def)

lemma seal_packet_unburned:
  "burned_counter (fst (seal_packet al encrypt pt s)) = None \<Longrightarrow>
     seal_packet al encrypt' pt s = seal_packet al encrypt pt s"
  by (auto simp: seal_packet_def burned_counter_def Let_def split: if_splits option.splits prod.splits)

lemma seal_packet_answers:
  assumes "burned_counter (fst (seal_packet al encrypt pt s)) = Some c"
  shows "seal_status (fst (seal_packet al (\<lambda>n a p. None) pt s)) = EncryptionFailed"
    and "seal_status (fst (seal_packet al (\<lambda>n a p. Some ([], [])) pt s)) = Sealed"
  using assms by (auto simp: seal_packet_def burned_counter_def Let_def split: if_splits)

lemma consulted_nonces_eq:
  "consulted_nonces call s =
     (case burned_counter (fst (seal_step call s)) of None \<Rightarrow> {}
      | Some c \<Rightarrow> {compose_authenticated_packet_nonce (sealer_nonce_prefix s) c})"
proof (cases "burned_counter (fst (seal_step call s))")
  case None
  then show ?thesis using seal_packet_unburned [OF None] by (auto simp: consulted_nonces_def)
next
  case (Some c)
  obtain al enc pt where call: "call = (al, enc, pt)" by (cases call)
  define n where "n = compose_authenticated_packet_nonce (sealer_nonce_prefix s) (next_counter s)"
  have c: "c = next_counter s"
    using seal_packet_cases [OF prod.collapse [symmetric], of al enc pt s] Some call by auto
  have same: "seal_packet al e1 pt s = seal_packet al e2 pt s" if "e1 n = e2 n" for e1 e2
    using seal_packet_local that unfolding n_def .
  have "m = n" if "m \<in> consulted_nonces call s" for m
  proof (rule ccontr)
    assume "m \<noteq> n"
    from that obtain e where "\<forall>n'. n' \<noteq> m \<longrightarrow> e n' = enc n'" "seal_packet al e pt s \<noteq> seal_packet al enc pt s"
      by (auto simp: consulted_nonces_def call)
    with same [of e enc] \<open>m \<noteq> n\<close> show False by simp
  qed
  moreover have "n \<in> consulted_nonces call s"
  proof -
    let ?e = "\<lambda>f. enc(n := f)"
    have "seal_packet al (?e f) pt s = seal_packet al (\<lambda>n. f) pt s" for f by (rule same) simp
    then have "seal_packet al (?e (\<lambda>a p. None)) pt s \<noteq> seal_packet al (?e (\<lambda>a p. Some ([], []))) pt s"
      using seal_packet_answers [of al enc pt s c] Some call
      by (metis fst_conv packet_seal_status.distinct snd_conv)
    then obtain f where "seal_packet al (?e f) pt s \<noteq> seal_packet al enc pt s" by metis
    then show ?thesis
      unfolding consulted_nonces_def call by (intro CollectI exI [of _ "?e f"] conjI) simp_all
  qed
  ultimately have "consulted_nonces call s = {n}" by blast
  then show ?thesis using Some by (simp add: n_def c)
qed

lemma seal_run_prefix: "sealer_nonce_prefix (snd (run_outputs seal_step calls s)) = sealer_nonce_prefix s"
proof (induction calls arbitrary: s)
  case (Cons call calls)
  have "sealer_nonce_prefix (snd (seal_step call s)) = sealer_nonce_prefix s"
    using seal_packet_cases [OF prod.collapse [symmetric], of "fst call" "fst (snd call)" "snd (snd call)" s]
    by auto
  then show ?case using Cons.IH by (simp add: case_prod_unfold Let_def)
qed simp

text \<open>
  C20. No nonce is used twice under one key: over any sequence of seal calls on a new sealer, with
  any plaintexts, allocation failures and cipher failures, every call that burns a counter consults
  the cipher at exactly one nonce, the one composed of the key's prefix and that counter, and every
  other call does not consult it; these nonces are pairwise distinct, and every counter stays within
  the key's lifetime.
\<close>

theorem seal_nonces_unique:
  assumes "length (nonce_prefix key) = 4"
    and "run_outputs seal_step calls (make_sealer key imported 0) = (results, s)"
  shows "(\<forall>k < length calls.
      consulted_nonces (calls ! k) (snd (run_outputs seal_step (take k calls) (make_sealer key imported 0))) =
        (case burned_counter (results ! k) of None \<Rightarrow> {}
         | Some c \<Rightarrow> {compose_authenticated_packet_nonce (nonce_prefix key) c}))
    \<and> distinct (map (compose_authenticated_packet_nonce (nonce_prefix key))
           (List.map_filter burned_counter results))
    \<and> (\<forall>c \<in> set (List.map_filter burned_counter results). c \<le> kMaximumAuthenticatedPacketCounter)"
proof -
  have "distinct (List.map_filter burned_counter results) \<and>
    (\<forall>c \<in> set (List.map_filter burned_counter results). c \<le> kMaximumAuthenticatedPacketCounter)"
    using packet_counters.burned_counters [OF assms(2)] by (auto simp: make_sealer_def)
  moreover have "inj (compose_authenticated_packet_nonce (nonce_prefix key))"
    by (rule injI) (rule nonce_inj [OF assms(1)])
  moreover have "consulted_nonces (calls ! k)
      (snd (run_outputs seal_step (take k calls) (make_sealer key imported 0))) =
      (case burned_counter (results ! k) of None \<Rightarrow> {}
       | Some c \<Rightarrow> {compose_authenticated_packet_nonce (nonce_prefix key) c})" if "k < length calls" for k
    using run_outputs_nth [OF that, of seal_step "make_sealer key imported 0"] assms(2)
      seal_run_prefix [of "take k calls" "make_sealer key imported 0"]
    by (simp add: consulted_nonces_eq make_sealer_def split: option.split)
  ultimately show ?thesis
    by (simp add: distinct_map inj_on_subset [OF _ subset_UNIV])
qed

theorem seal_nonces_unique_witness:
  "\<exists>key calls results s. length (nonce_prefix key) = 4 \<and> length calls = 3 \<and>
     run_outputs seal_step calls (make_sealer key True 0) = (results, s) \<and>
     List.map_filter burned_counter results = [0, 1] \<and>
     consulted_nonces (calls ! 0) (make_sealer key True 0) =
       {compose_authenticated_packet_nonce (nonce_prefix key) 0} \<and>
     distinct (map (compose_authenticated_packet_nonce (nonce_prefix key))
       (List.map_filter burned_counter results))"
proof -
  let ?key = "\<lparr>key_tuple = \<lparr>connection_id = 5, key_epoch = 1, tuple_direction = HostToAndroid,
      tuple_packet_type = Video\<rparr>, aes_256_key = [], nonce_prefix = [1, 2, 3, 4]\<rparr>"
  let ?calls = "[(True, \<lambda>n a p. None, [7]), (False, \<lambda>n a p. None, [8]),
      (True, \<lambda>n a p. Some (p, replicate 16 0), [9])] :: (bool \<times> gcm_encrypt \<times> bytes) list"
  obtain results s where run: "run_outputs seal_step ?calls (make_sealer ?key True 0) = (results, s)"
    by fastforce
  have len: "length (nonce_prefix ?key) = 4" by simp
  have burned: "List.map_filter burned_counter results = [0, 1] \<and> burned_counter (results ! 0) = Some 0"
    using run [symmetric]
    by (simp add: seal_packet_def make_sealer_def burned_counter_def tuple_valid_def
        direction_valid_def packet_type_valid_def max_counter_eq const_defs Let_def
        List.map_filter_simps)
  note all = seal_nonces_unique [OF len run]
  have "consulted_nonces (?calls ! 0) (make_sealer ?key True 0) =
      {compose_authenticated_packet_nonce (nonce_prefix ?key) 0}"
    using all [THEN conjunct1, rule_format, of 0] burned by simp
  then show ?thesis
    using len run burned all
    by (intro exI [of _ ?key] exI [of _ ?calls] exI [of _ results] exI [of _ s] conjI) simp_all
qed

section \<open>Opening\<close>

lemma validate_Valid:
  "validate_authenticated_packet_v2 p t = Valid \<longleftrightarrow> tuple_valid t \<and> packet_tuple p = t"
  by (auto simp: validate_authenticated_packet_v2_def)

lemma map_validation_not_Opened: "v \<noteq> Valid \<Longrightarrow> map_validation_status v \<noteq> Opened"
  by (cases v) simp_all

definition opener_ready :: "packet_opener \<Rightarrow> bool" where
  "opener_ready s \<longleftrightarrow> tuple_valid (opener_tuple s) \<and> opener_has_cipher s"

text \<open>The complete condition under which a datagram is opened, with its effect.\<close>

definition opens_as ::
  "bool \<Rightarrow> gcm_decrypt \<Rightarrow> bytes \<Rightarrow> packet_opener \<Rightarrow> u64 \<Rightarrow> bytes \<Rightarrow> replay_window \<Rightarrow> bool" where
  "opens_as al dec d s c pt w \<longleftrightarrow>
     opener_ready s \<and> al \<and>
     (\<exists>p. parse_authenticated_packet_v2 d = (Parsed, p) \<and> packet_tuple p = opener_tuple s \<and>
        counter p = c \<and>
        dec (compose_authenticated_packet_nonce (opener_nonce_prefix s) c) (authenticated_header p)
          (ciphertext p) (tag p) = Some pt) \<and>
     commit_authenticated (opener_window s) c = (True, w)"

lemma commit_True_Fresh: "commit_authenticated w c = (True, w') \<Longrightarrow> classify w c = Fresh"
  by (auto simp: commit_authenticated_def split: if_splits)

lemma commit_False: "commit_authenticated w c = (False, w') \<Longrightarrow> w' = w"
  by (auto simp: commit_authenticated_def Let_def split: if_splits)

lemma open_packet_opened:
  assumes "opens_as al dec d s c pt w"
  shows "open_packet al dec d s =
    (\<lparr>open_status = Opened, open_parse_status = Parsed, open_validation_status = Valid,
      authenticated_counter = c, open_plaintext = pt\<rparr>, s\<lparr>opener_window := w\<rparr>)"
proof -
  from assms obtain p where "parse_authenticated_packet_v2 d = (Parsed, p)"
    and t: "packet_tuple p = opener_tuple s" and "counter p = c"
    and "dec (compose_authenticated_packet_nonce (opener_nonce_prefix s) c)
        (authenticated_header p) (ciphertext p) (tag p) = Some pt"
    and com: "commit_authenticated (opener_window s) c = (True, w)" and "opener_ready s" and al
    unfolding opens_as_def by blast
  then show ?thesis
    using commit_True_Fresh [OF com] validate_Valid [of p "opener_tuple s"]
    by (simp add: open_packet_def opener_ready_def Let_def)
qed

lemma open_packet_refused:
  assumes "open_packet al dec d s = (r, s')" and "open_status r \<noteq> Opened"
  shows "s' = s" and "open_plaintext r = []"
  using assms
  by (auto simp: open_packet_def Let_def dest: commit_False
      split: if_splits prod.splits option.splits)

lemma open_packet_Opened:
  assumes "open_packet al dec d s = (r, s')" and "open_status r = Opened"
  shows "\<exists>c pt w. opens_as al dec d s c pt w"
proof -
  obtain st p where parse: "parse_authenticated_packet_v2 d = (st, p)" by fastforce
  have ready: "opener_ready s" and st: "st = Parsed"
    and v: "validate_authenticated_packet_v2 p (opener_tuple s) = Valid"
    and al: al
    and nf: "classify (opener_window s) (counter p) = Fresh"
    using assms parse map_validation_not_Opened
    by (auto simp: open_packet_def opener_ready_def Let_def
        split: if_splits prod.splits option.splits replay_disposition.splits
        intro: replay_disposition.exhaust [of "classify (opener_window s) (counter p)"])
  obtain pt where dec: "dec (compose_authenticated_packet_nonce (opener_nonce_prefix s) (counter p))
      (authenticated_header p) (ciphertext p) (tag p) = Some pt"
    using assms parse ready st v al nf
    by (auto simp: open_packet_def opener_ready_def Let_def split: option.splits)
  obtain ok w where com: "commit_authenticated (opener_window s) (counter p) = (ok, w)" by fastforce
  have "ok = True"
    using com nf by (auto simp: commit_authenticated_def Let_def split: if_splits)
  then have "opens_as al dec d s (counter p) pt w"
    unfolding opens_as_def using ready v al parse [unfolded st] dec com
    by (intro conjI exI [of _ p]) (simp_all add: validate_Valid)
  then show ?thesis by blast
qed

lemma open_packet_Opened_result:
  assumes "open_packet al dec d s = (r, s')" and "open_status r = Opened"
  shows "opens_as al dec d s (authenticated_counter r) (open_plaintext r) (opener_window s')"
    and "s' = s\<lparr>opener_window := opener_window s'\<rparr>"
proof -
  obtain c pt w where o: "opens_as al dec d s c pt w"
    using open_packet_Opened [OF assms] by blast
  with open_packet_opened [OF o] assms(1)
  show "opens_as al dec d s (authenticated_counter r) (open_plaintext r) (opener_window s')"
    and "s' = s\<lparr>opener_window := opener_window s'\<rparr>"
    by auto
qed

lemma open_packet_keeps:
  assumes "open_packet al dec d s = (r, s')"
  shows "opener_tuple s' = opener_tuple s" and "opener_nonce_prefix s' = opener_nonce_prefix s"
  using open_packet_Opened_result(2) [OF assms] open_packet_refused(1) [OF assms]
  by (metis packet_opener.select_convs(1,2) packet_opener.surjective packet_opener.update_convs(4))+

text \<open>
  C19. The opener's contract. A call reports \<open>Opened\<close> exactly when the opener is configured, the
  datagram parses to a packet for the opener's own tuple, the cipher authenticates header,
  ciphertext and tag under the nonce of that packet's counter, and the counter is new to the
  replay window; it then returns that plaintext and counter and marks the counter. In every
  other case it returns no plaintext and the opener, replay window included, is unchanged.
\<close>

theorem open_packet_contract:
  assumes "open_packet al dec d s = (r, s')"
  shows "(open_status r = Opened \<and>
      opens_as al dec d s (authenticated_counter r) (open_plaintext r) (opener_window s') \<and>
      s' = s\<lparr>opener_window := opener_window s'\<rparr>)
    \<or> (open_status r \<noteq> Opened \<and> open_plaintext r = [] \<and> s' = s \<and>
       (\<forall>c pt w. \<not> opens_as al dec d s c pt w))"
proof (cases "open_status r = Opened")
  case True
  with open_packet_Opened_result [OF assms] show ?thesis by simp
next
  case False
  with open_packet_refused [OF assms] open_packet_opened assms show ?thesis
    by (metis fst_conv open_result.select_convs(1))
qed

text \<open>A concrete packet under a transparent cipher, used by the witnesses below.\<close>

definition example_key :: traffic_key where
  "example_key = \<lparr>key_tuple = \<lparr>connection_id = 5, key_epoch = 1, tuple_direction = HostToAndroid,
     tuple_packet_type = Video\<rparr>, aes_256_key = [], nonce_prefix = [1, 2, 3, 4]\<rparr>"

definition example_encrypt :: gcm_encrypt where
  "example_encrypt nonce aad p = Some (p, replicate 16 0)"

definition example_decrypt :: gcm_decrypt where
  "example_decrypt nonce aad c t = (if t = replicate 16 0 then Some c else None)"

definition example_packet :: parsed_packet where
  "example_packet = \<lparr>packet_tuple = key_tuple example_key, counter = 0,
     authenticated_header = packet_header (key_tuple example_key) 0 1, ciphertext = [9],
     tag = replicate 16 0\<rparr>"

lemma example_tuple_valid: "tuple_valid (key_tuple example_key)"
  by (simp add: example_key_def tuple_valid_def direction_valid_def packet_type_valid_def)

lemma example_packet_ok: "packet_ok example_packet"
  using example_tuple_valid
  by (simp add: packet_ok_def example_packet_def tuple_valid_def max_counter_eq const_defs)

lemma example_opens:
  "opens_as True example_decrypt (packet_bytes example_packet) (make_opener example_key True) 0 [9]
     (snd (commit_authenticated empty_window 0))"
  using parse_packet_bytes [OF example_packet_ok] example_tuple_valid
  by (simp add: opens_as_def opener_ready_def make_opener_def example_packet_def
      example_decrypt_def commit_authenticated_def classify_def empty_window_def)

theorem open_packet_contract_witness:
  "\<exists>d s r s'. open_packet True example_decrypt d s = (r, s') \<and> open_status r = Opened \<and>
     opens_as True example_decrypt d s (authenticated_counter r) [9] (opener_window s')"
proof -
  let ?s = "make_opener example_key True" and ?d = "packet_bytes example_packet"
  obtain r s' where run: "open_packet True example_decrypt ?d ?s = (r, s')" by fastforce
  have r: "open_status r = Opened" "open_plaintext r = [9]"
    using run open_packet_opened [OF example_opens] by auto
  show ?thesis
    using open_packet_contract [OF run] run r by (intro exI [of _ ?d] exI [of _ ?s]) auto
qed

text \<open>The counter an opened packet reports.\<close>

definition opened_counter :: "open_result \<Rightarrow> u64 option" where
  "opened_counter r = (if open_status r = Opened then Some (authenticated_counter r) else None)"

abbreviation open_step :: "bool \<times> gcm_decrypt \<times> bytes \<Rightarrow> packet_opener \<Rightarrow> open_result \<times> packet_opener"
  where "open_step c s \<equiv> open_packet (fst c) (fst (snd c)) (snd (snd c)) s"

lemma open_step_commits:
  assumes "open_step c s = (r, s')"
  shows "case opened_counter r of None \<Rightarrow> opener_window s' = opener_window s
    | Some n \<Rightarrow> commit_authenticated (opener_window s) n = (True, opener_window s')"
proof (cases "open_status r = Opened")
  case True
  then obtain n pt w where o: "opens_as (fst c) (fst (snd c)) (snd (snd c)) s n pt w"
    using open_packet_Opened [OF assms] by blast
  from open_packet_opened [OF o] assms True o show ?thesis
    by (auto simp: opened_counter_def opens_as_def)
next
  case False
  with open_packet_refused [OF assms] show ?thesis by (simp add: opened_counter_def)
qed

text \<open>
  Replay protection: over any sequence of datagrams, forged, repeated or reordered, and any
  behaviour of the cipher and the allocator, the counters the opener accepts are pairwise
  distinct.
\<close>

theorem opened_counters_distinct:
  "distinct (List.map_filter opened_counter
     (fst (run_outputs open_step calls (make_opener key imported))))"
  using rw.reported_distinct [where win = opener_window and A = "{}" and step = open_step
      and counter_of = opened_counter and s = "make_opener key imported", OF _ open_step_commits]
  by (simp add: make_opener_def window_rel_empty)

section \<open>Sealing and opening\<close>

text \<open>
  The documented behaviour of AES-256-GCM the code relies on: ciphertext as long as the
  plaintext, a 16-byte tag, and decryption under the same nonce and authenticated data gives
  the plaintext back.
\<close>

definition gcm_correct :: "gcm_encrypt \<Rightarrow> gcm_decrypt \<Rightarrow> bool" where
  "gcm_correct enc dec \<longleftrightarrow>
     (\<forall>nonce aad p c t. enc nonce aad p = Some (c, t) \<longrightarrow>
        length c = length p \<and> length t = 16 \<and> dec nonce aad c t = Some p)"

lemma seal_packet_Sealed:
  assumes "seal_packet al enc pt s = (r, s')" and "seal_status r = Sealed" and "gcm_correct enc dec"
    and "counter_available s \<Longrightarrow> next_counter s \<le> kMaximumAuthenticatedPacketCounter"
  obtains p where "packet_ok p" and "seal_datagram r = packet_bytes p"
    and "packet_tuple p = sealer_tuple s" and "counter p = seal_counter r"
    and "dec (compose_authenticated_packet_nonce (sealer_nonce_prefix s) (seal_counter r))
      (authenticated_header p) (ciphertext p) (tag p) = Some pt"
    and "tuple_valid (sealer_tuple s)"
proof -
  let ?h = "packet_header (sealer_tuple s) (next_counter s) (of_nat (length pt))"
  let ?n = "compose_authenticated_packet_nonce (sealer_nonce_prefix s) (next_counter s)"
  have tv: "tuple_valid (sealer_tuple s)" and len: "length pt \<le> 1364" and av: "counter_available s"
    and sc: "seal_counter r = next_counter s"
    using assms(1,2) by (auto simp: seal_packet_def Let_def const_defs not_less
        split: if_splits option.splits prod.splits)
  have hdr: "encode_header (sealer_tuple s) (next_counter s) (of_nat (length pt))
      (take 32 (replicate (48 + length pt) 0)) = ?h"
    by (rule encode_header_eq) simp
  obtain ct tg where enc: "enc ?n ?h pt = Some (ct, tg)"
    and dg: "seal_datagram r = copy_into (copy_into (copy_into (replicate (48 + length pt) 0) 0 ?h)
        32 ct) (32 + length pt) tg"
    using assms(1,2) hdr by (auto simp: seal_packet_def Let_def const_defs add.commute
        split: if_splits option.splits prod.splits)
  have ct: "length ct = length pt" "length tg = 16" "dec ?n ?h ct tg = Some pt"
    using assms(3) enc unfolding gcm_correct_def by blast+
  let ?p = "\<lparr>packet_tuple = sealer_tuple s, counter = next_counter s, authenticated_header = ?h,
      ciphertext = ct, tag = tg\<rparr>"
  have "packet_ok ?p"
    using tv len ct assms(4) [OF av] by (simp add: packet_ok_def tuple_valid_def const_defs)
  moreover have "seal_datagram r = packet_bytes ?p"
    using ct by (simp add: dg copy_into_def packet_bytes_def)
  ultimately show thesis
    using that [of ?p] sc ct tv by simp
qed

text \<open>A sealer and an opener made for the same traffic key.\<close>

definition sealer_wf :: "packet_sealer \<Rightarrow> bool" where
  "sealer_wf s \<longleftrightarrow>
     (counter_available s \<longrightarrow> next_counter s \<le> kMaximumAuthenticatedPacketCounter)"

definition same_key :: "packet_sealer \<Rightarrow> packet_opener \<Rightarrow> bool" where
  "same_key a b \<longleftrightarrow>
     sealer_tuple a = opener_tuple b \<and> sealer_nonce_prefix a = opener_nonce_prefix b \<and>
     opener_has_cipher b"

lemma sealed_opens_as:
  assumes "gcm_correct enc dec" and "seal_packet al enc pt a = (r, a')" and "seal_status r = Sealed"
    and "sealer_wf a" and "same_key a b"
  shows "parse_authenticated_packet_v2 (seal_datagram r) \<noteq> (Parsed, no_packet)"
    and "commit_authenticated (opener_window b) (seal_counter r) = (True, w) \<Longrightarrow>
      opens_as True dec (seal_datagram r) b (seal_counter r) pt w"
    and "opens_as al' dec (seal_datagram r) b c pt' w' \<Longrightarrow> c = seal_counter r \<and> pt' = pt"
proof -
  from assms obtain p where p: "packet_ok p" "seal_datagram r = packet_bytes p"
    "packet_tuple p = sealer_tuple a" "counter p = seal_counter r"
    "dec (compose_authenticated_packet_nonce (sealer_nonce_prefix a) (seal_counter r))
      (authenticated_header p) (ciphertext p) (tag p) = Some pt" "tuple_valid (sealer_tuple a)"
    by (auto simp: sealer_wf_def elim: seal_packet_Sealed)
  have parse: "parse_authenticated_packet_v2 (seal_datagram r) = (Parsed, p)"
    using p(1,2) by (simp add: parse_packet_bytes)
  show "parse_authenticated_packet_v2 (seal_datagram r) \<noteq> (Parsed, no_packet)"
    using parse p(1) by (auto simp: packet_ok_def no_packet_def)
  show "opens_as True dec (seal_datagram r) b (seal_counter r) pt w"
    if "commit_authenticated (opener_window b) (seal_counter r) = (True, w)"
    unfolding opens_as_def using parse p assms(5) that
    by (auto simp: same_key_def opener_ready_def)
  show "c = seal_counter r \<and> pt' = pt" if "opens_as al' dec (seal_datagram r) b c pt' w'"
    using that parse p assms(5) unfolding opens_as_def same_key_def by auto
qed

text \<open>
  A sealed datagram opens at the peer: whenever the counter is new to the peer's window, the
  peer recovers exactly the plaintext and the counter, and the datagram respects the wire bound.
\<close>

theorem seal_open_roundtrip:
  assumes "gcm_correct enc dec" and "seal_packet al enc pt a = (r, a')" and "seal_status r = Sealed"
    and "sealer_wf a" and "same_key a b"
    and "window_rel (opener_window b) A" and "spec_classify A (seal_counter r) = Fresh"
  shows "open_status (fst (open_packet True dec (seal_datagram r) b)) = Opened
    \<and> open_plaintext (fst (open_packet True dec (seal_datagram r) b)) = pt
    \<and> authenticated_counter (fst (open_packet True dec (seal_datagram r) b)) = seal_counter r
    \<and> length (seal_datagram r) \<le> kMaximumAuthenticatedDatagramBytes"
proof -
  obtain ok w where com: "commit_authenticated (opener_window b) (seal_counter r) = (ok, w)"
    by fastforce
  then have "commit_authenticated (opener_window b) (seal_counter r) = (True, w)"
    using commit_refines(1) [OF assms(6) com] assms(7) by simp
  from open_packet_opened [OF sealed_opens_as(2) [OF assms(1-5) this]]
  have "open_packet True dec (seal_datagram r) b =
      (\<lparr>open_status = Opened, open_parse_status = Parsed, open_validation_status = Valid,
        authenticated_counter = seal_counter r, open_plaintext = pt\<rparr>, b\<lparr>opener_window := w\<rparr>)" .
  moreover from assms obtain p where "packet_ok p" "seal_datagram r = packet_bytes p"
    by (auto simp: sealer_wf_def elim: seal_packet_Sealed)
  then have "length (seal_datagram r) \<le> kMaximumAuthenticatedDatagramBytes"
    by (simp add: packet_ok_def packet_bytes_def const_defs)
  ultimately show ?thesis by simp
qed

lemma example_gcm_correct: "gcm_correct example_encrypt example_decrypt"
  by (simp add: gcm_correct_def example_encrypt_def example_decrypt_def)

lemma make_sealer_wf: "sealer_wf (make_sealer key imported c)"
  by (simp add: sealer_wf_def make_sealer_def)

theorem seal_open_roundtrip_witness:
  "\<exists>r :: seal_result. seal_status r = Sealed \<and> open_plaintext (fst (open_packet True example_decrypt
     (seal_datagram r) (make_opener example_key True))) = [9, 8]"
proof -
  let ?a = "make_sealer example_key True 0" and ?b = "make_opener example_key True"
  obtain r a' where run: "seal_packet True example_encrypt [9, 8] ?a = (r, a')" by fastforce
  have sealed: "seal_status r = Sealed"
    using run [symmetric] example_tuple_valid
    by (simp add: seal_packet_def make_sealer_def example_encrypt_def max_counter_eq const_defs
        Let_def)
  have key: "same_key ?a ?b"
    using example_tuple_valid by (simp add: same_key_def make_sealer_def make_opener_def)
  have win: "window_rel (opener_window ?b) {}"
    by (simp add: make_opener_def window_rel_empty)
  have new: "spec_classify {} (seal_counter r) = Fresh"
    by (simp add: spec_classify_def)
  show ?thesis
    using sealed seal_open_roundtrip [OF example_gcm_correct run sealed make_sealer_wf key win new]
    by (intro exI [of _ r]) simp
qed

lemma seal_step_wf: "sealer_wf s \<Longrightarrow> seal_step c s = (r, s') \<Longrightarrow>
    sealer_wf s' \<and> sealer_tuple s' = sealer_tuple s \<and> sealer_nonce_prefix s' = sealer_nonce_prefix s"
  using seal_packet_cases [of "fst c" "fst (snd c)" "snd (snd c)" s r s']
  by (auto simp: sealer_wf_def intro!: inc_le dest: le_neq_trans)

lemma sealed_run_opens_as:
  assumes "\<forall>c \<in> set calls. gcm_correct (fst (snd c)) dec" and "sealer_wf a" and "same_key a b"
    and "run_outputs seal_step calls a = (rs, a')"
    and "r \<in> set rs" and "seal_status r = Sealed" and "opens_as al dec (seal_datagram r) b c pt w"
  shows "\<exists>i < length calls. rs ! i = r \<and> c = seal_counter r \<and> pt = snd (snd (calls ! i))"
  using assms
proof (induction calls arbitrary: a rs)
  case (Cons call calls)
  obtain r1 a1 rs1 where step: "seal_step call a = (r1, a1)"
    and rest: "run_outputs seal_step calls a1 = (rs1, a')" and rs: "rs = r1 # rs1"
    by (rule run_outputs_Cons_split [OF Cons.prems(4)])
  show ?case
  proof (cases "r = r1")
    case True
    have "gcm_correct (fst (snd call)) dec" using Cons.prems(1) by simp
    from sealed_opens_as(3) [OF this step Cons.prems(6) [unfolded True] Cons.prems(2,3)
        Cons.prems(7) [unfolded True]]
    have "c = seal_counter r \<and> pt = snd (snd call)" using True by simp
    then show ?thesis using True rs by (intro exI [of _ 0]) simp
  next
    case False
    note wf = seal_step_wf [OF Cons.prems(2) step]
    then have "same_key a1 b" using Cons.prems(3) by (simp add: same_key_def)
    then obtain i where "i < length calls" "rs1 ! i = r" "c = seal_counter r" "pt = snd (snd (calls ! i))"
      using Cons.IH [OF _ _ _ rest _ Cons.prems(6,7)] Cons.prems(1,5) False rs wf by auto
    then show ?thesis using rs by (intro exI [of _ "Suc i"]) simp
  qed
qed simp

lemma opens_only_sealed:
  assumes "\<forall>c \<in> set calls. gcm_correct (fst (snd c)) dec"
    and "run_outputs seal_step calls (make_sealer key True 0) = (sent, a')"
    and "d \<in> seal_datagram ` {r \<in> set sent. seal_status r = Sealed}"
    and "open_packet True dec d b = (res, b')" and "open_status res = Opened"
    and "opener_tuple b = key_tuple key" and "opener_nonce_prefix b = nonce_prefix key"
  shows "\<exists>i < length calls. seal_status (sent ! i) = Sealed \<and>
    seal_counter (sent ! i) = authenticated_counter res \<and> snd (snd (calls ! i)) = open_plaintext res"
proof -
  note op = open_packet_Opened_result(1) [OF assms(4,5)]
  then have "opener_has_cipher b" by (simp add: opens_as_def opener_ready_def)
  then have key: "same_key (make_sealer key True 0) b"
    using assms(6,7) by (simp add: same_key_def make_sealer_def)
  obtain r where r: "r \<in> set sent" "seal_status r = Sealed" "d = seal_datagram r"
    using assms(3) by auto
  from sealed_run_opens_as [OF assms(1) make_sealer_wf key assms(2) r(1,2) op [unfolded r(3)]] r(2)
  show ?thesis by metis
qed

lemma opens_all_sealed:
  assumes "\<forall>c \<in> set calls. gcm_correct (fst (snd c)) dec"
    and "run_outputs seal_step calls (make_sealer key True 0) = (sent, a')"
    and "set ds \<subseteq> seal_datagram ` {r \<in> set sent. seal_status r = Sealed}"
    and "opener_tuple b = key_tuple key" and "opener_nonce_prefix b = nonce_prefix key"
    and "res \<in> set (fst (run_outputs (open_packet True dec) ds b))" and "open_status res = Opened"
  shows "\<exists>i < length calls. seal_status (sent ! i) = Sealed \<and>
    seal_counter (sent ! i) = authenticated_counter res \<and> snd (snd (calls ! i)) = open_plaintext res"
  using assms(3-6)
proof (induction ds arbitrary: b)
  case (Cons x xs)
  obtain r1 b1 where step: "open_packet True dec x b = (r1, b1)" by fastforce
  have "x \<in> seal_datagram ` {r \<in> set sent. seal_status r = Sealed}"
    using Cons.prems(1) by auto
  note first = opens_only_sealed [OF assms(1,2) this step _ Cons.prems(2,3)]
  have rest: "set xs \<subseteq> seal_datagram ` {r \<in> set sent. seal_status r = Sealed}"
    "opener_tuple b1 = key_tuple key" "opener_nonce_prefix b1 = nonce_prefix key"
    using Cons.prems open_packet_keeps [OF step] by auto
  have "fst (run_outputs (open_packet True dec) (x # xs) b)
      = r1 # fst (run_outputs (open_packet True dec) xs b1)"
    using step by (simp add: case_prod_unfold Let_def)
  then consider "res = r1" | "res \<in> set (fst (run_outputs (open_packet True dec) xs b1))"
    using Cons.prems(4) by auto
  then show ?case
    using first assms(7) Cons.IH [OF rest] by cases simp_all
qed simp

text \<open>
  C1. Exactly-once delivery over a network that loses, repeats and reorders: if every datagram
  offered to the opener was produced by the peer's sealer, every plaintext it returns is the one
  sealed under the counter it reports, and no counter, hence no sealed plaintext, is returned
  twice.
\<close>

theorem exactly_once_delivery:
  assumes "\<forall>c \<in> set calls. gcm_correct (fst (snd c)) dec"
    and "run_outputs seal_step calls (make_sealer key True 0) = (sent, a')"
    and "set ds \<subseteq> seal_datagram ` {r \<in> set sent. seal_status r = Sealed}"
    and "opens = fst (run_outputs (open_packet True dec) ds (make_opener key True))"
  shows "(\<forall>res \<in> set opens. open_status res = Opened \<longrightarrow>
       (\<exists>i < length calls. seal_status (sent ! i) = Sealed \<and>
          seal_counter (sent ! i) = authenticated_counter res \<and>
          snd (snd (calls ! i)) = open_plaintext res))
    \<and> distinct (List.map_filter opened_counter opens)"
proof (intro conjI ballI impI)
  show "\<exists>i < length calls. seal_status (sent ! i) = Sealed \<and>
      seal_counter (sent ! i) = authenticated_counter res \<and>
      snd (snd (calls ! i)) = open_plaintext res"
    if "res \<in> set opens" "open_status res = Opened" for res
    using opens_all_sealed [OF assms(1-3) _ _ _ that(2), of "make_opener key True"] that(1) assms(4)
    by (simp add: make_opener_def)
  show "distinct (List.map_filter opened_counter opens)"
    unfolding assms(4)
    using rw.reported_distinct [where win = opener_window and A = "{}"
        and step = "open_packet True dec" and counter_of = opened_counter
        and s = "make_opener key True" and ms = ds]
      open_step_commits [where c = "(True, dec, d)" for d]
    by (simp add: make_opener_def window_rel_empty)
qed

theorem exactly_once_delivery_witness:
  "\<exists>(sent :: seal_result list) ds. length ds = 2 \<and>
     set ds \<subseteq> seal_datagram ` {r \<in> set sent. seal_status r = Sealed} \<and>
     distinct (List.map_filter opened_counter
       (fst (run_outputs (open_packet True example_decrypt) ds (make_opener example_key True))))"
proof -
  let ?calls = "[(True, example_encrypt, [9, 8])] :: (bool \<times> gcm_encrypt \<times> bytes) list"
  obtain sent a' where run: "run_outputs seal_step ?calls (make_sealer example_key True 0) = (sent, a')"
    by fastforce
  obtain r where sent: "sent = [r]" and sealed: "seal_status r = Sealed"
    using run [symmetric] example_tuple_valid
    by (simp add: seal_packet_def make_sealer_def example_encrypt_def max_counter_eq const_defs
        Let_def)
  have cor: "\<forall>c \<in> set ?calls. gcm_correct (fst (snd c)) example_decrypt"
    by (simp add: example_gcm_correct)
  have sub: "set [seal_datagram r, seal_datagram r]
      \<subseteq> seal_datagram ` {r \<in> set sent. seal_status r = Sealed}"
    using sent sealed by simp
  show ?thesis
    using sub exactly_once_delivery [OF cor run sub refl]
    by (intro exI [of _ sent] exI [of _ "[seal_datagram r, seal_datagram r]"]) simp
qed

end
