(* ===== verification/Control_Record.thy ===== *)
theory Control_Record
  imports Data_Plane
begin

text \<open>
  The authenticated control channel \<^verbatim>\<open>VFC1\<close> (\<^verbatim>\<open>shared/src/authenticated_control_record_v1.cpp\<close>): the
  same AEAD discipline as the data plane with a longer header, one key per direction for every
  message type, and a single generic refusal for everything the peer controls. The counter source
  and the replay filter are the interfaces proved for the data plane. Shown: canonical framing,
  unique nonces, replay protection, the refusal is uniform and without effect, and a sealed record
  opens with its own type, counter and plaintext.
\<close>

section \<open>Data\<close>

definition kAuthenticatedControlRecordVersion :: u8 where "kAuthenticatedControlRecordVersion = 1"
definition kAuthenticatedControlHeaderBytes :: nat where "kAuthenticatedControlHeaderBytes = 40"
definition kMaximumAuthenticatedControlPayloadBytes :: nat where
  "kMaximumAuthenticatedControlPayloadBytes = 65536"
definition kMaximumAuthenticatedControlCounter :: u64 where
  "kMaximumAuthenticatedControlCounter = push_bit 23 1 - 1"
definition kControlMagic :: bytes where "kControlMagic = [0x56, 0x46, 0x43, 0x31]"
definition kMinimumRecordBytes :: nat where
  "kMinimumRecordBytes = kAuthenticatedControlHeaderBytes + kGcmTagBytes"

lemmas control_consts [const_defs] =
  kAuthenticatedControlRecordVersion_def kAuthenticatedControlHeaderBytes_def
  kMaximumAuthenticatedControlPayloadBytes_def kMinimumRecordBytes_def

datatype control_direction = CdInvalid | CdHostToAndroid | CdAndroidToHost

datatype control_message_type =
    CmInvalid | LeaseOffer | LeaseAccept | LeaseCommit | SessionClose | SessionCloseAck
  | EntitlementStatusSignRequest | EntitlementStatusSignResponse
  | UsageAuthorizationSignRequest | UsageAuthorizationSignResponse
  | HostStartIntentClaimRequest | HostStartIntentClaimResponse

fun control_direction_byte :: "control_direction \<Rightarrow> u8" where
  "control_direction_byte CdInvalid = 0"
| "control_direction_byte CdHostToAndroid = 1"
| "control_direction_byte CdAndroidToHost = 2"

definition control_direction_of_byte :: "u8 \<Rightarrow> control_direction" where
  "control_direction_of_byte b =
     (if b = 1 then CdHostToAndroid else if b = 2 then CdAndroidToHost else CdInvalid)"

fun control_message_type_byte :: "control_message_type \<Rightarrow> u8" where
  "control_message_type_byte CmInvalid = 0"
| "control_message_type_byte LeaseOffer = 1"
| "control_message_type_byte LeaseAccept = 2"
| "control_message_type_byte LeaseCommit = 3"
| "control_message_type_byte SessionClose = 4"
| "control_message_type_byte SessionCloseAck = 5"
| "control_message_type_byte EntitlementStatusSignRequest = 6"
| "control_message_type_byte EntitlementStatusSignResponse = 7"
| "control_message_type_byte UsageAuthorizationSignRequest = 8"
| "control_message_type_byte UsageAuthorizationSignResponse = 9"
| "control_message_type_byte HostStartIntentClaimRequest = 10"
| "control_message_type_byte HostStartIntentClaimResponse = 11"

text \<open>A byte outside the enumeration is refused by \<^verbatim>\<open>message_type_valid\<close>, as \<open>CmInvalid\<close> is.\<close>

definition control_message_type_of_byte :: "u8 \<Rightarrow> control_message_type" where
  "control_message_type_of_byte b =
     (if b = 1 then LeaseOffer else if b = 2 then LeaseAccept else if b = 3 then LeaseCommit
      else if b = 4 then SessionClose else if b = 5 then SessionCloseAck
      else if b = 6 then EntitlementStatusSignRequest
      else if b = 7 then EntitlementStatusSignResponse
      else if b = 8 then UsageAuthorizationSignRequest
      else if b = 9 then UsageAuthorizationSignResponse
      else if b = 10 then HostStartIntentClaimRequest
      else if b = 11 then HostStartIntentClaimResponse else CmInvalid)"

definition control_direction_valid :: "control_direction \<Rightarrow> bool" where
  "control_direction_valid d \<longleftrightarrow> d = CdHostToAndroid \<or> d = CdAndroidToHost"

fun control_message_type_valid :: "control_message_type \<Rightarrow> bool" where
  "control_message_type_valid CmInvalid = False"
| "control_message_type_valid _ = True"

record control_tuple =
  ct_connection_id :: u64
  ct_session_generation :: u64
  ct_key_epoch :: u32
  ct_direction :: control_direction

definition control_tuple_valid :: "control_tuple \<Rightarrow> bool" where
  "control_tuple_valid t \<longleftrightarrow>
     ct_connection_id t \<noteq> 0 \<and> ct_session_generation t \<noteq> 0 \<and> ct_key_epoch t \<noteq> 0 \<and>
     control_direction_valid (ct_direction t)"

record control_traffic_key =
  ck_tuple :: control_tuple
  ck_aes_256_key :: bytes
  ck_nonce_prefix :: bytes

datatype control_parse_status =
    RecordParsed | RecordTooShort | RecordInvalidMagic | RecordUnsupportedVersion
  | RecordInvalidHeaderSize | RecordInvalidDirection | RecordInvalidMessageType
  | RecordInvalidTuple | RecordCounterExceedsKeyLifetime | RecordPayloadTooLarge
  | RecordLengthMismatch

record parsed_control_record =
  cr_tuple :: control_tuple
  cr_message_type :: control_message_type
  cr_counter :: u64
  cr_authenticated_header :: bytes
  cr_ciphertext :: bytes
  cr_tag :: bytes

definition no_record :: parsed_control_record where
  "no_record = \<lparr>cr_tuple = \<lparr>ct_connection_id = 0, ct_session_generation = 0, ct_key_epoch = 0,
     ct_direction = CdInvalid\<rparr>, cr_message_type = CmInvalid, cr_counter = 0,
     cr_authenticated_header = [], cr_ciphertext = [], cr_tag = []\<rparr>"

section \<open>Framing\<close>

definition encode_control_header ::
  "control_tuple \<Rightarrow> control_message_type \<Rightarrow> u64 \<Rightarrow> u32 \<Rightarrow> bytes \<Rightarrow> bytes" where
  "encode_control_header t mtype cnt ciphertext_size header =
     (let header = copy_into header 0 kControlMagic;
          header = header[4 := kAuthenticatedControlRecordVersion];
          header = header[5 := of_nat kAuthenticatedControlHeaderBytes];
          header = header[6 := control_direction_byte (ct_direction t)];
          header = header[7 := control_message_type_byte mtype];
          header = store_u64 header 8 (ct_connection_id t);
          header = store_u64 header 16 (ct_session_generation t);
          header = store_u32 header 24 (ct_key_epoch t);
          header = store_u64 header 28 cnt
      in store_u32 header 36 ciphertext_size)"

definition parse_authenticated_control_record_v1 ::
  "bytes \<Rightarrow> control_parse_status \<times> parsed_control_record" where
  "parse_authenticated_control_record_v1 envelope =
     (if length envelope < kMinimumRecordBytes then (RecordTooShort, no_record)
      else if take 4 envelope \<noteq> kControlMagic then (RecordInvalidMagic, no_record)
      else if envelope ! 4 \<noteq> kAuthenticatedControlRecordVersion
        then (RecordUnsupportedVersion, no_record)
      else if unat (envelope ! 5) \<noteq> kAuthenticatedControlHeaderBytes
        then (RecordInvalidHeaderSize, no_record)
      else
        let dir = control_direction_of_byte (envelope ! 6) in
        if \<not> control_direction_valid dir then (RecordInvalidDirection, no_record)
        else
          let mtype = control_message_type_of_byte (envelope ! 7) in
          if \<not> control_message_type_valid mtype then (RecordInvalidMessageType, no_record)
          else
            let t = \<lparr>ct_connection_id = get_u64 envelope 8,
                     ct_session_generation = get_u64 envelope 16,
                     ct_key_epoch = get_u32 envelope 24, ct_direction = dir\<rparr> in
            if \<not> control_tuple_valid t then (RecordInvalidTuple, no_record)
            else
              let cnt = get_u64 envelope 28 in
              if kMaximumAuthenticatedControlCounter < cnt
                then (RecordCounterExceedsKeyLifetime, no_record)
              else
                let n = unat (get_u32 envelope 36) in
                if kMaximumAuthenticatedControlPayloadBytes < n
                  then (RecordPayloadTooLarge, no_record)
                else if length envelope \<noteq> kAuthenticatedControlHeaderBytes + n + kGcmTagBytes
                  then (RecordLengthMismatch, no_record)
                else (RecordParsed,
                  \<lparr>cr_tuple = t, cr_message_type = mtype, cr_counter = cnt,
                   cr_authenticated_header = take kAuthenticatedControlHeaderBytes envelope,
                   cr_ciphertext = take n (drop kAuthenticatedControlHeaderBytes envelope),
                   cr_tag = drop (length envelope - kGcmTagBytes) envelope\<rparr>))"

definition compose_authenticated_control_nonce_v1 :: "bytes \<Rightarrow> u64 \<Rightarrow> bytes" where
  "compose_authenticated_control_nonce_v1 prefix cnt =
     store_u64 (copy_into (replicate kGcmNonceBytes 0) 0 prefix) kGcmNoncePrefixBytes cnt"

section \<open>Sealer and opener\<close>

datatype control_seal_status =
    RecordSealed | SealControlInvalidConfiguration | SealInvalidMessageType
  | SealControlPlaintextTooLarge | SealControlCounterExhausted | SealControlAllocationFailed
  | SealControlEncryptionFailed

record control_seal_result =
  cs_status :: control_seal_status
  cs_counter :: u64
  cs_envelope :: bytes

record control_sealer =
  cs_tuple :: control_tuple
  cs_nonce_prefix :: bytes
  cs_has_cipher :: bool
  cs_next_counter :: u64
  cs_counter_available :: bool

definition make_control_sealer :: "control_traffic_key \<Rightarrow> bool \<Rightarrow> u64 \<Rightarrow> control_sealer" where
  "make_control_sealer key imported initial_counter =
     \<lparr>cs_tuple = ck_tuple key, cs_nonce_prefix = ck_nonce_prefix key,
      cs_has_cipher = (control_tuple_valid (ck_tuple key) \<and> imported),
      cs_next_counter = initial_counter,
      cs_counter_available = (initial_counter \<le> kMaximumAuthenticatedControlCounter)\<rparr>"

definition seal_control_record ::
  "bool \<Rightarrow> gcm_encrypt \<Rightarrow> control_message_type \<Rightarrow> bytes \<Rightarrow> control_sealer \<Rightarrow>
     control_seal_result \<times> control_sealer" where
  "seal_control_record alloc_ok encrypt mtype plaintext s =
     (let result = \<lparr>cs_status = SealControlInvalidConfiguration, cs_counter = 0, cs_envelope = []\<rparr> in
      if \<not> control_tuple_valid (cs_tuple s) \<or> \<not> cs_has_cipher s then (result, s)
      else if \<not> control_message_type_valid mtype
        then (result\<lparr>cs_status := SealInvalidMessageType\<rparr>, s)
      else if kMaximumAuthenticatedControlPayloadBytes < length plaintext
        then (result\<lparr>cs_status := SealControlPlaintextTooLarge\<rparr>, s)
      else if \<not> cs_counter_available s
        then (result\<lparr>cs_status := SealControlCounterExhausted\<rparr>, s)
      else if \<not> alloc_ok then (result\<lparr>cs_status := SealControlAllocationFailed\<rparr>, s)
      else
        let cnt = cs_next_counter s;
            envelope = replicate
              (kAuthenticatedControlHeaderBytes + length plaintext + kGcmTagBytes) 0;
            header = encode_control_header (cs_tuple s) mtype cnt (of_nat (length plaintext))
              (take kAuthenticatedControlHeaderBytes envelope);
            envelope = copy_into envelope 0 header;
            nonce = compose_authenticated_control_nonce_v1 (cs_nonce_prefix s) cnt;
            s = (if cnt = kMaximumAuthenticatedControlCounter
                 then s\<lparr>cs_counter_available := False\<rparr>
                 else s\<lparr>cs_next_counter := cnt + 1\<rparr>)
        in case encrypt nonce header plaintext of
             None \<Rightarrow>
               (\<lparr>cs_status = SealControlEncryptionFailed, cs_counter = cnt, cs_envelope = []\<rparr>, s)
           | Some (ct, tg) \<Rightarrow>
               (\<lparr>cs_status = RecordSealed, cs_counter = cnt,
                 cs_envelope = copy_into (copy_into envelope kAuthenticatedControlHeaderBytes ct)
                   (kAuthenticatedControlHeaderBytes + length plaintext) tg\<rparr>, s))"

datatype control_open_status =
    RecordOpened | UnauthenticatedRecord | OpenControlInvalidConfiguration
  | OpenControlAllocationFailed

record control_open_result =
  co_status :: control_open_status
  co_message_type :: control_message_type
  co_counter :: u64
  co_plaintext :: bytes

record control_opener =
  co_tuple :: control_tuple
  co_nonce_prefix :: bytes
  co_has_cipher :: bool
  co_window :: replay_window

definition make_control_opener :: "control_traffic_key \<Rightarrow> bool \<Rightarrow> control_opener" where
  "make_control_opener key imported =
     \<lparr>co_tuple = ck_tuple key, co_nonce_prefix = ck_nonce_prefix key,
      co_has_cipher = (control_tuple_valid (ck_tuple key) \<and> imported), co_window = empty_window\<rparr>"

definition open_control_record ::
  "bool \<Rightarrow> gcm_decrypt \<Rightarrow> bytes \<Rightarrow> control_opener \<Rightarrow> control_open_result \<times> control_opener" where
  "open_control_record alloc_ok decrypt envelope s =
     (let result = \<lparr>co_status = OpenControlInvalidConfiguration, co_message_type = CmInvalid,
            co_counter = 0, co_plaintext = []\<rparr>;
          refused = result\<lparr>co_status := UnauthenticatedRecord\<rparr> in
      if \<not> control_tuple_valid (co_tuple s) \<or> \<not> co_has_cipher s then (result, s)
      else
        let (status, rec) = parse_authenticated_control_record_v1 envelope in
        if status \<noteq> RecordParsed \<or> cr_tuple rec \<noteq> co_tuple s then (refused, s)
        else if classify (co_window s) (cr_counter rec) \<noteq> Fresh then (refused, s)
        else if \<not> alloc_ok then (result\<lparr>co_status := OpenControlAllocationFailed\<rparr>, s)
        else
          let nonce = compose_authenticated_control_nonce_v1 (co_nonce_prefix s) (cr_counter rec) in
          (case decrypt nonce (cr_authenticated_header rec) (cr_ciphertext rec) (cr_tag rec) of
             None \<Rightarrow> (refused, s)
           | Some plaintext \<Rightarrow>
               let (ok, window) = commit_authenticated (co_window s) (cr_counter rec);
                   s = s\<lparr>co_window := window\<rparr> in
               if \<not> ok then (refused, s)
               else (\<lparr>co_status = RecordOpened, co_message_type = cr_message_type rec,
                      co_counter = cr_counter rec, co_plaintext = plaintext\<rparr>, s)))"

definition control_replay_snapshot :: "control_opener \<Rightarrow> bool \<times> u64" where
  "control_replay_snapshot s = (initialized (co_window s), highest_counter (co_window s))"

section \<open>Header laws\<close>

definition control_header :: "control_tuple \<Rightarrow> control_message_type \<Rightarrow> u64 \<Rightarrow> u32 \<Rightarrow> bytes" where
  "control_header t m cnt n =
     kControlMagic
     @ [1, 40, control_direction_byte (ct_direction t), control_message_type_byte m]
     @ be_bytes 8 (ct_connection_id t) @ be_bytes 8 (ct_session_generation t)
     @ be_bytes 4 (ct_key_epoch t) @ be_bytes 8 cnt @ be_bytes 4 n"

lemma length_kControlMagic [simp]: "length kControlMagic = 4"
  by (simp add: kControlMagic_def)

lemma length_control_header [simp]: "length (control_header t m cnt n) = 40"
  by (simp add: control_header_def)

lemma encode_control_header_eq:
  assumes "length header = 40"
  shows "encode_control_header t m cnt n header = control_header t m cnt n"
proof -
  obtain a b c d where abcd: "take 4 (drop 4 header) = [a, b, c, d]"
    using list_length_4 [of "take 4 (drop 4 header)"] assms by auto
  have "drop 4 header = [a, b, c, d] @ drop 8 header"
    using append_take_drop_id [of 4 "drop 4 header"] by (simp add: abcd)
  then have start: "copy_into header 0 kControlMagic = kControlMagic @ [a, b, c, d] @ drop 8 header"
    by (simp add: copy_into_def)
  show ?thesis
    unfolding encode_control_header_def Let_def start
    using assms
    by (simp add: kControlMagic_def control_header_def store_u64_eq store_u32_eq copy_into_def
        const_defs)
qed

lemma control_bytes_inverse:
  "control_direction_of_byte (control_direction_byte d) = d"
  "control_message_type_of_byte (control_message_type_byte m) = m"
  by (cases d; simp add: control_direction_of_byte_def)
     (cases m; simp add: control_message_type_of_byte_def)

lemma control_of_bytes_valid:
  "control_direction_valid (control_direction_of_byte b) \<Longrightarrow>
     control_direction_byte (control_direction_of_byte b) = b"
  "control_message_type_valid (control_message_type_of_byte b) \<Longrightarrow>
     control_message_type_byte (control_message_type_of_byte b) = b"
  by (auto simp: control_direction_of_byte_def control_direction_valid_def
      control_message_type_of_byte_def split: if_splits)

lemma control_header_fields:
  assumes "d = control_header t m cnt n @ rest"
  shows "take 4 d = kControlMagic" and "d ! 4 = 1" and "d ! 5 = 40"
    and "d ! 6 = control_direction_byte (ct_direction t)" and "d ! 7 = control_message_type_byte m"
    and "get_u64 d 8 = ct_connection_id t" and "get_u64 d 16 = ct_session_generation t"
    and "get_u32 d 24 = ct_key_epoch t" and "get_u64 d 28 = cnt" and "get_u32 d 36 = n"
proof -
  let ?p = "kControlMagic @ [1, 40, control_direction_byte (ct_direction t),
      control_message_type_byte m]"
  let ?q = "?p @ be_bytes 8 (ct_connection_id t) @ be_bytes 8 (ct_session_generation t)"
  note d = assms [unfolded control_header_def]
  show "take 4 d = kControlMagic" and "d ! 4 = 1" and "d ! 5 = 40"
    and "d ! 6 = control_direction_byte (ct_direction t)" and "d ! 7 = control_message_type_byte m"
    by (simp_all add: d nth_append)
  show "get_u64 d 8 = ct_connection_id t"
    by (rule f64.load_at [where pre = ?p]) (simp_all add: d)
  show "get_u64 d 16 = ct_session_generation t"
    by (rule f64.load_at [where pre = "?p @ be_bytes 8 (ct_connection_id t)"]) (simp_all add: d)
  show "get_u32 d 24 = ct_key_epoch t"
    by (rule f32.load_at [where pre = ?q]) (simp_all add: d)
  show "get_u64 d 28 = cnt"
    by (rule f64.load_at [where pre = "?q @ be_bytes 4 (ct_key_epoch t)"]) (simp_all add: d)
  show "get_u32 d 36 = n"
    by (rule f32.load_at [where pre = "?q @ be_bytes 4 (ct_key_epoch t) @ be_bytes 8 cnt"])
       (simp_all add: d)
qed

text \<open>The records the parser accepts, and the bytes such a record stands for.\<close>

definition control_record_ok :: "parsed_control_record \<Rightarrow> bool" where
  "control_record_ok r \<longleftrightarrow>
     control_tuple_valid (cr_tuple r) \<and> control_message_type_valid (cr_message_type r) \<and>
     cr_counter r \<le> kMaximumAuthenticatedControlCounter \<and>
     length (cr_ciphertext r) \<le> kMaximumAuthenticatedControlPayloadBytes \<and>
     length (cr_tag r) = 16 \<and>
     cr_authenticated_header r = control_header (cr_tuple r) (cr_message_type r) (cr_counter r)
       (of_nat (length (cr_ciphertext r)))"

definition control_record_bytes :: "parsed_control_record \<Rightarrow> bytes" where
  "control_record_bytes r = cr_authenticated_header r @ cr_ciphertext r @ cr_tag r"

lemma unat_control_size: "n \<le> 65536 \<Longrightarrow> unat (of_nat n :: u32) = n"
  by (rule unat_of_nat_small) simp

lemma parse_control_record_bytes:
  assumes "control_record_ok r"
  shows "parse_authenticated_control_record_v1 (control_record_bytes r) = (RecordParsed, r)"
proof -
  let ?d = "control_record_bytes r"
  have h: "cr_authenticated_header r = control_header (cr_tuple r) (cr_message_type r) (cr_counter r)
      (of_nat (length (cr_ciphertext r)))"
    and l: "length (cr_ciphertext r) \<le> 65536" "length (cr_tag r) = 16"
    using assms by (simp_all add: control_record_ok_def const_defs)
  have d: "?d = control_header (cr_tuple r) (cr_message_type r) (cr_counter r)
      (of_nat (length (cr_ciphertext r))) @ (cr_ciphertext r @ cr_tag r)"
    by (simp add: control_record_bytes_def h)
  note fields = control_header_fields [OF d]
  show ?thesis
    unfolding parse_authenticated_control_record_v1_def Let_def fields control_bytes_inverse
    using assms l
    by (simp add: control_record_ok_def control_tuple_valid_def const_defs d unat_control_size
        not_less [symmetric])
qed

lemma parse_control_iff:
  "parse_authenticated_control_record_v1 d = (RecordParsed, r) \<longleftrightarrow>
     56 \<le> length d \<and> take 4 d = kControlMagic \<and> d ! 4 = 1 \<and> unat (d ! 5) = 40 \<and>
     control_direction_valid (control_direction_of_byte (d ! 6)) \<and>
     control_message_type_valid (control_message_type_of_byte (d ! 7)) \<and>
     control_tuple_valid \<lparr>ct_connection_id = get_u64 d 8, ct_session_generation = get_u64 d 16,
       ct_key_epoch = get_u32 d 24, ct_direction = control_direction_of_byte (d ! 6)\<rparr> \<and>
     get_u64 d 28 \<le> kMaximumAuthenticatedControlCounter \<and>
     unat (get_u32 d 36) \<le> 65536 \<and> length d = 40 + unat (get_u32 d 36) + 16 \<and>
     \<lparr>cr_tuple = \<lparr>ct_connection_id = get_u64 d 8, ct_session_generation = get_u64 d 16,
        ct_key_epoch = get_u32 d 24, ct_direction = control_direction_of_byte (d ! 6)\<rparr>,
      cr_message_type = control_message_type_of_byte (d ! 7), cr_counter = get_u64 d 28,
      cr_authenticated_header = take 40 d,
      cr_ciphertext = take (unat (get_u32 d 36)) (drop 40 d), cr_tag = drop (length d - 16) d\<rparr> = r"
  unfolding parse_authenticated_control_record_v1_def Let_def const_defs
  by (simp add: if_distrib [of "\<lambda>x. x = (RecordParsed, r)"] not_less cong: if_cong) (auto simp: not_le)

lemma parse_control_parsed:
  assumes "parse_authenticated_control_record_v1 d = (RecordParsed, r)"
  shows "control_record_ok r" and "d = control_record_bytes r"
proof -
  let ?n = "unat (get_u32 d 36)"
  note facts = assms [unfolded parse_control_iff]
  have len: "length d = 56 + ?n" and n: "?n \<le> 65536" using facts by simp_all
  have magic: "take 4 d = kControlMagic" and ver: "d ! 4 = 1" and hs: "unat (d ! 5) = 40"
    and dr: "control_direction_valid (control_direction_of_byte (d ! 6))"
    and mt: "control_message_type_valid (control_message_type_of_byte (d ! 7))"
    and tv: "control_tuple_valid \<lparr>ct_connection_id = get_u64 d 8, ct_session_generation = get_u64 d 16,
       ct_key_epoch = get_u32 d 24, ct_direction = control_direction_of_byte (d ! 6)\<rparr>"
    and cnt: "get_u64 d 28 \<le> kMaximumAuthenticatedControlCounter"
    and r: "r = \<lparr>cr_tuple = \<lparr>ct_connection_id = get_u64 d 8, ct_session_generation = get_u64 d 16,
        ct_key_epoch = get_u32 d 24, ct_direction = control_direction_of_byte (d ! 6)\<rparr>,
      cr_message_type = control_message_type_of_byte (d ! 7), cr_counter = get_u64 d 28,
      cr_authenticated_header = take 40 d,
      cr_ciphertext = take ?n (drop 40 d), cr_tag = drop (length d - 16) d\<rparr>"
    using facts by blast+
  have "d ! 5 = 40" using hs by (simp add: word_unat_eq_iff)
  then have four: "take 4 (drop 4 d) = [1, 40, d ! 6, d ! 7]"
    using ver len by (simp add: take_drop_nth upt_widths)
  have split: "take 40 d = take 4 d @ take 4 (drop 4 d) @ take 8 (drop 8 d) @ take 8 (drop 16 d)
      @ take 4 (drop 24 d) @ take 8 (drop 28 d) @ take 4 (drop 36 d)"
    by (simp flip: take_add append_assoc add: drop_drop)
  have hdr: "take 40 d = control_header (cr_tuple r) (cr_message_type r) (cr_counter r)
      (of_nat (length (cr_ciphertext r)))"
    unfolding split magic four using len dr mt
    by (simp add: control_header_def r f64.load_image f32.load_image control_of_bytes_valid)
  show "control_record_ok r"
    unfolding control_record_ok_def using hdr len n mt tv cnt by (simp add: r const_defs)
  have "d = take 40 d @ take ?n (drop 40 d) @ drop (40 + ?n) d"
    using append_take_drop_id [of 40 d] append_take_drop_id [of ?n "drop 40 d"]
    by (simp only: drop_drop add.commute [of ?n])
  then show "d = control_record_bytes r"
    by (simp only: control_record_bytes_def r parsed_control_record.simps len) simp
qed

text \<open>
  Control framing is unambiguous: the parser accepts an envelope with result \<open>r\<close> exactly
  when \<open>r\<close> is within bounds and the envelope is the encoder's header for \<open>r\<close> followed by
  ciphertext and tag.
\<close>

theorem control_framing_canonical:
  "parse_authenticated_control_record_v1 d = (RecordParsed, r) \<longleftrightarrow>
     control_record_ok r \<and>
     d = encode_control_header (cr_tuple r) (cr_message_type r) (cr_counter r)
           (of_nat (length (cr_ciphertext r))) (replicate 40 0) @ cr_ciphertext r @ cr_tag r"
proof -
  have "d = control_record_bytes r \<longleftrightarrow>
      d = encode_control_header (cr_tuple r) (cr_message_type r) (cr_counter r)
           (of_nat (length (cr_ciphertext r))) (replicate 40 0) @ cr_ciphertext r @ cr_tag r"
    if "control_record_ok r"
    using that by (simp add: encode_control_header_eq control_record_ok_def control_record_bytes_def)
  moreover have "parse_authenticated_control_record_v1 d = (RecordParsed, r) \<longleftrightarrow>
      control_record_ok r \<and> d = control_record_bytes r"
    by (auto intro: parse_control_parsed parse_control_record_bytes)
  ultimately show ?thesis by (cases "control_record_ok r") simp_all
qed

section \<open>Counters and replay\<close>

definition control_burned_counter :: "control_seal_result \<Rightarrow> u64 option" where
  "control_burned_counter r =
     (if cs_status r = RecordSealed \<or> cs_status r = SealControlEncryptionFailed
      then Some (cs_counter r) else None)"

abbreviation control_seal_step ::
  "bool \<times> gcm_encrypt \<times> control_message_type \<times> bytes \<Rightarrow> control_sealer \<Rightarrow>
     control_seal_result \<times> control_sealer"
  where "control_seal_step c s \<equiv>
    seal_control_record (fst c) (fst (snd c)) (fst (snd (snd c))) (snd (snd (snd c))) s"

lemma seal_control_cases:
  assumes "seal_control_record al enc m pt s = (r, s')"
  shows "(control_burned_counter r = None \<and> s' = s) \<or>
    (cs_counter_available s \<and> control_burned_counter r = Some (cs_next_counter s) \<and>
     s' = (if cs_next_counter s = kMaximumAuthenticatedControlCounter
           then s\<lparr>cs_counter_available := False\<rparr>
           else s\<lparr>cs_next_counter := cs_next_counter s + 1\<rparr>))"
  using assms
  by (auto simp: seal_control_record_def control_burned_counter_def Let_def
      split: if_splits option.splits prod.splits)

interpretation control_counters: counter_source cs_next_counter cs_counter_available
  kMaximumAuthenticatedControlCounter control_seal_step control_burned_counter
proof
  show "(control_burned_counter r = None \<and> cs_next_counter s' = cs_next_counter s \<and>
        cs_counter_available s' = cs_counter_available s) \<or>
      (cs_counter_available s \<and> control_burned_counter r = Some (cs_next_counter s) \<and>
       (if cs_next_counter s = kMaximumAuthenticatedControlCounter then \<not> cs_counter_available s'
        else cs_counter_available s' \<and> cs_next_counter s' = cs_next_counter s + 1))"
    if "control_seal_step m s = (r, s')" for m s r s'
    using seal_control_cases [OF that] by auto
qed

definition control_opened_counter :: "control_open_result \<Rightarrow> u64 option" where
  "control_opened_counter r = (if co_status r = RecordOpened then Some (co_counter r) else None)"

definition control_opens_as ::
  "gcm_decrypt \<Rightarrow> bytes \<Rightarrow> control_opener \<Rightarrow> parsed_control_record \<Rightarrow> bytes \<Rightarrow> replay_window \<Rightarrow> bool" where
  "control_opens_as dec d s r pt w \<longleftrightarrow>
     control_tuple_valid (co_tuple s) \<and> co_has_cipher s \<and>
     parse_authenticated_control_record_v1 d = (RecordParsed, r) \<and> cr_tuple r = co_tuple s \<and>
     dec (compose_authenticated_control_nonce_v1 (co_nonce_prefix s) (cr_counter r))
       (cr_authenticated_header r) (cr_ciphertext r) (cr_tag r) = Some pt \<and>
     commit_authenticated (co_window s) (cr_counter r) = (True, w)"

lemma open_control_accepts:
  "control_opens_as dec d s r pt w \<Longrightarrow> open_control_record True dec d s =
     (\<lparr>co_status = RecordOpened, co_message_type = cr_message_type r, co_counter = cr_counter r,
       co_plaintext = pt\<rparr>, s\<lparr>co_window := w\<rparr>)"
  using commit_True_Fresh by (simp add: control_opens_as_def open_control_record_def Let_def)

lemma commit_fresh_iff: "fst (commit_authenticated w c) = True \<longleftrightarrow> classify w c = Fresh"
  by (simp add: commit_authenticated_def Let_def)

lemma open_control_cases:
  assumes "open_control_record al dec d s = (res, s')"
  shows "(\<exists>r pt w. control_opens_as dec d s r pt w \<and> al \<and>
      res = \<lparr>co_status = RecordOpened, co_message_type = cr_message_type r,
        co_counter = cr_counter r, co_plaintext = pt\<rparr> \<and> s' = s\<lparr>co_window := w\<rparr>)
    \<or> (co_status res \<noteq> RecordOpened \<and> co_plaintext res = [] \<and> co_message_type res = CmInvalid \<and>
       co_counter res = 0 \<and> s' = s)"
proof (cases "control_tuple_valid (co_tuple s) \<and> co_has_cipher s")
  case False
  with assms show ?thesis by (auto simp: open_control_record_def Let_def)
next
  case True
  obtain st r where parse: "parse_authenticated_control_record_v1 d = (st, r)" by fastforce
  show ?thesis
  proof (cases "st = RecordParsed \<and> cr_tuple r = co_tuple s \<and> classify (co_window s) (cr_counter r) = Fresh
      \<and> al")
    case False
    with assms True parse show ?thesis by (auto simp: open_control_record_def Let_def split: if_splits)
  next
    case ok: True
    show ?thesis
    proof (cases "dec (compose_authenticated_control_nonce_v1 (co_nonce_prefix s) (cr_counter r))
        (cr_authenticated_header r) (cr_ciphertext r) (cr_tag r)")
      case None
      with assms True parse ok show ?thesis by (auto simp: open_control_record_def Let_def)
    next
      case (Some pt)
      obtain w where com: "commit_authenticated (co_window s) (cr_counter r) = (True, w)"
        using ok commit_fresh_iff [of "co_window s" "cr_counter r"] by (metis prod.exhaust_sel)
      then have "control_opens_as dec d s r pt w"
        using True parse ok Some by (simp add: control_opens_as_def)
      with open_control_accepts [OF this] assms ok show ?thesis by auto
    qed
  qed
qed

text \<open>
  C36. The opener's single refusal: a call either opens the record it parsed for its own tuple,
  with the authenticated plaintext, type and counter, and marks the counter; or it reveals no
  plaintext, type or counter and leaves the opener unchanged. A configured opener with memory
  available reports the same \<open>UnauthenticatedRecord\<close> for every refused input, so that the peer
  cannot tell a framing, tuple, replay or tag failure apart.
\<close>

theorem control_open_contract:
  assumes "open_control_record al dec d s = (res, s')"
  shows "((\<exists>r pt w. control_opens_as dec d s r pt w \<and> al \<and>
      res = \<lparr>co_status = RecordOpened, co_message_type = cr_message_type r,
        co_counter = cr_counter r, co_plaintext = pt\<rparr> \<and> s' = s\<lparr>co_window := w\<rparr>)
    \<or> (co_status res \<noteq> RecordOpened \<and> co_plaintext res = [] \<and> co_message_type res = CmInvalid \<and>
       co_counter res = 0 \<and> s' = s))
    \<and> (control_tuple_valid (co_tuple s) \<and> co_has_cipher s \<and> al \<and> co_status res \<noteq> RecordOpened \<longrightarrow>
       co_status res = UnauthenticatedRecord)"
proof (rule conjI)
  show "control_tuple_valid (co_tuple s) \<and> co_has_cipher s \<and> al \<and> co_status res \<noteq> RecordOpened \<longrightarrow>
       co_status res = UnauthenticatedRecord"
    using assms by (auto simp: open_control_record_def Let_def
        split: if_splits prod.splits option.splits)
qed (rule open_control_cases [OF assms])

lemma open_control_commits:
  assumes "open_control_record al dec d s = (res, s')"
  shows "case control_opened_counter res of None \<Rightarrow> co_window s' = co_window s
    | Some n \<Rightarrow> commit_authenticated (co_window s) n = (True, co_window s')"
  using open_control_cases [OF assms]
  by (auto simp: control_opened_counter_def control_opens_as_def)

lemma control_nonce_eq:
  "length prefix = 4 \<Longrightarrow> compose_authenticated_control_nonce_v1 prefix cnt = prefix @ be_bytes 8 cnt"
  by (simp add: compose_authenticated_control_nonce_v1_def const_defs store_u64_eq copy_into_def)

text \<open>
  Nonce and replay discipline of the control channel: over any sequence of seal calls on a
  new sealer the nonces given to the cipher are pairwise distinct, and over any sequence of
  envelopes the counters a new opener accepts are pairwise distinct.
\<close>

theorem control_channel_discipline:
  assumes "length (ck_nonce_prefix key) = 4"
  shows "distinct (map (compose_authenticated_control_nonce_v1 (ck_nonce_prefix key))
      (List.map_filter control_burned_counter
        (fst (run_outputs control_seal_step calls (make_control_sealer key imported 0)))))
    \<and> distinct (List.map_filter control_opened_counter
        (fst (run_outputs (open_control_record al dec) envelopes (make_control_opener key imported))))"
proof
  obtain rs s where run: "run_outputs control_seal_step calls (make_control_sealer key imported 0) = (rs, s)"
    by fastforce
  have "distinct (List.map_filter control_burned_counter rs)"
    using control_counters.burned_counters [OF run] by (auto simp: make_control_sealer_def)
  moreover have "inj (compose_authenticated_control_nonce_v1 (ck_nonce_prefix key))"
    using assms by (auto intro!: injI simp: control_nonce_eq intro: f64.image_inj)
  ultimately show "distinct (map (compose_authenticated_control_nonce_v1 (ck_nonce_prefix key))
      (List.map_filter control_burned_counter
        (fst (run_outputs control_seal_step calls (make_control_sealer key imported 0)))))"
    using run by (simp add: distinct_map inj_on_subset [OF _ subset_UNIV])
  show "distinct (List.map_filter control_opened_counter
        (fst (run_outputs (open_control_record al dec) envelopes (make_control_opener key imported))))"
    using rw.reported_distinct [where win = co_window and A = "{}"
        and step = "open_control_record al dec" and counter_of = control_opened_counter
        and s = "make_control_opener key imported" and ms = envelopes, OF _ open_control_commits]
    by (simp add: make_control_opener_def window_rel_empty)
qed

section \<open>Sealing and opening\<close>

lemma seal_control_sealed:
  assumes "seal_control_record al enc m pt s = (res, s')" and "cs_status res = RecordSealed"
    and "gcm_correct enc dec"
    and "cs_counter_available s \<Longrightarrow> cs_next_counter s \<le> kMaximumAuthenticatedControlCounter"
  obtains r where "control_record_ok r" and "cs_envelope res = control_record_bytes r"
    and "cr_tuple r = cs_tuple s" and "cr_message_type r = m" and "cr_counter r = cs_counter res"
    and "dec (compose_authenticated_control_nonce_v1 (cs_nonce_prefix s) (cs_counter res))
      (cr_authenticated_header r) (cr_ciphertext r) (cr_tag r) = Some pt"
proof -
  let ?h = "control_header (cs_tuple s) m (cs_next_counter s) (of_nat (length pt))"
  let ?n = "compose_authenticated_control_nonce_v1 (cs_nonce_prefix s) (cs_next_counter s)"
  have tv: "control_tuple_valid (cs_tuple s)" "control_message_type_valid m"
    and len: "length pt \<le> 65536" and av: "cs_counter_available s"
    and sc: "cs_counter res = cs_next_counter s"
    using assms(1,2) by (auto simp: seal_control_record_def Let_def const_defs not_less
        split: if_splits option.splits prod.splits)
  have hdr: "encode_control_header (cs_tuple s) m (cs_next_counter s) (of_nat (length pt))
      (take 40 (replicate (56 + length pt) 0)) = ?h"
    by (rule encode_control_header_eq) simp
  obtain ct tg where enc: "enc ?n ?h pt = Some (ct, tg)"
    and dg: "cs_envelope res = copy_into (copy_into (copy_into (replicate (56 + length pt) 0) 0 ?h)
        40 ct) (40 + length pt) tg"
    using assms(1,2) hdr by (auto simp: seal_control_record_def Let_def const_defs add.commute
        split: if_splits option.splits prod.splits)
  have ct: "length ct = length pt" "length tg = 16" "dec ?n ?h ct tg = Some pt"
    using assms(3) enc unfolding gcm_correct_def by blast+
  let ?r = "\<lparr>cr_tuple = cs_tuple s, cr_message_type = m, cr_counter = cs_next_counter s,
      cr_authenticated_header = ?h, cr_ciphertext = ct, cr_tag = tg\<rparr>"
  have "control_record_ok ?r"
    using tv len ct assms(4) [OF av] by (simp add: control_record_ok_def const_defs)
  moreover have "cs_envelope res = control_record_bytes ?r"
    using ct by (simp add: dg copy_into_def control_record_bytes_def)
  ultimately show thesis using that [of ?r] sc ct by simp
qed

text \<open>
  C37. A sealed control record opens at a peer with the same key whose window has not seen its
  counter: the peer recovers exactly the message type, counter and plaintext.
\<close>

theorem control_seal_open_roundtrip:
  assumes "gcm_correct enc dec" and "seal_control_record al enc m pt a = (res, a')"
    and "cs_status res = RecordSealed"
    and "cs_counter_available a \<longrightarrow> cs_next_counter a \<le> kMaximumAuthenticatedControlCounter"
    and "co_tuple b = cs_tuple a" and "co_nonce_prefix b = cs_nonce_prefix a" and "co_has_cipher b"
    and "window_rel (co_window b) A" and "spec_classify A (cs_counter res) = Fresh"
  shows "fst (open_control_record True dec (cs_envelope res) b) =
    \<lparr>co_status = RecordOpened, co_message_type = m, co_counter = cs_counter res, co_plaintext = pt\<rparr>"
proof -
  obtain r where r: "control_record_ok r" "cs_envelope res = control_record_bytes r"
    "cr_tuple r = cs_tuple a" "cr_message_type r = m" "cr_counter r = cs_counter res"
    "dec (compose_authenticated_control_nonce_v1 (cs_nonce_prefix a) (cs_counter res))
      (cr_authenticated_header r) (cr_ciphertext r) (cr_tag r) = Some pt"
    using assms(4) by (auto intro: seal_control_sealed [OF assms(2,3,1)])
  obtain ok w where com: "commit_authenticated (co_window b) (cs_counter res) = (ok, w)" by fastforce
  then have "commit_authenticated (co_window b) (cs_counter res) = (True, w)"
    using commit_refines(1) [OF assms(8) com] assms(9) by simp
  then have "control_opens_as dec (cs_envelope res) b r pt w"
    using r assms(5-7) parse_control_record_bytes [OF r(1)]
    by (simp add: control_opens_as_def control_record_ok_def)
  from open_control_accepts [OF this] r(4,5) show ?thesis by simp
qed

definition example_control_key :: control_traffic_key where
  "example_control_key = \<lparr>ck_tuple = \<lparr>ct_connection_id = 5, ct_session_generation = 2, ct_key_epoch = 1,
     ct_direction = CdHostToAndroid\<rparr>, ck_aes_256_key = [], ck_nonce_prefix = [1, 2, 3, 4]\<rparr>"

lemma example_control_seal:
  "cs_status (fst (seal_control_record True example_encrypt LeaseOffer [9, 8]
     (make_control_sealer example_control_key True 0))) = RecordSealed"
  by (simp add: seal_control_record_def make_control_sealer_def example_encrypt_def
      example_control_key_def control_tuple_valid_def control_direction_valid_def
      kMaximumAuthenticatedControlCounter_def const_defs Let_def)

theorem control_seal_open_roundtrip_witness:
  "\<exists>res :: control_seal_result. cs_status res = RecordSealed \<and>
     co_plaintext (fst (open_control_record True example_decrypt (cs_envelope res)
       (make_control_opener example_control_key True))) = [9, 8]"
proof -
  let ?a = "make_control_sealer example_control_key True 0"
  let ?b = "make_control_opener example_control_key True"
  obtain res a' where run: "seal_control_record True example_encrypt LeaseOffer [9, 8] ?a = (res, a')"
    by fastforce
  then have sealed: "cs_status res = RecordSealed" using example_control_seal by simp
  have "cs_counter_available ?a \<longrightarrow> cs_next_counter ?a \<le> kMaximumAuthenticatedControlCounter"
    "co_tuple ?b = cs_tuple ?a" "co_nonce_prefix ?b = cs_nonce_prefix ?a" "co_has_cipher ?b"
    "window_rel (co_window ?b) {}" "spec_classify {} (cs_counter res) = Fresh"
    by (simp_all add: make_control_sealer_def make_control_opener_def window_rel_empty
        spec_classify_def example_control_key_def control_tuple_valid_def control_direction_valid_def)
  from control_seal_open_roundtrip [OF example_gcm_correct run sealed this] sealed
  show ?thesis by (intro exI [of _ res]) simp
qed

theorem control_channel_discipline_witness:
  "distinct (List.map_filter control_opened_counter (fst (run_outputs
     (open_control_record True example_decrypt) [[], []] (make_control_opener example_control_key True))))"
  using control_channel_discipline [of example_control_key "[]" True True example_decrypt "[[], []]"]
  by (simp add: example_control_key_def)

theorem control_open_contract_witness:
  "\<exists>res s'. open_control_record True example_decrypt [] (make_control_opener example_control_key True)
     = (res, s') \<and> co_plaintext res = []"
proof -
  obtain res s' where run: "open_control_record True example_decrypt []
      (make_control_opener example_control_key True) = (res, s')"
    by fastforce
  have "\<not> control_opens_as example_decrypt [] s r pt w" for s r pt w
    by (simp add: control_opens_as_def parse_control_iff)
  then show ?thesis using control_open_contract [OF run] run by blast
qed

end
