(* ===== verification/Lease_Gate.thy ===== *)
theory Lease_Gate
  imports Prelude
begin

text \<open>
  \<^verbatim>\<open>UsageLeaseGate\<close> (\<^verbatim>\<open>shared/include/vfdual/usage_lease_gate.hpp\<close>,
  \<^verbatim>\<open>shared/src/usage_lease_gate.cpp\<close>): the fail-closed gate that opens the data plane only while a
  verified, correctly bound and chained usage lease covers the trusted time. The mutex makes
  each method atomic, so a method is one transition. Shown: a permit always rests on a
  submitted ticket for the gate's own binding whose window of at most ten seconds covers the
  time; closing and clock rollback are final; the leases in force form one hash-linked chain of
  disjoint windows; and a good first ticket does open the gate for its whole window.
\<close>

section \<open>Data\<close>

definition kUsageLeaseProtocolVersion :: u32 where "kUsageLeaseProtocolVersion = 2"
definition kMaximumUsageLeaseTtlSeconds :: u64 where "kMaximumUsageLeaseTtlSeconds = 10"
definition kUsageLeaseServerAheadGraceSeconds :: u64 where "kUsageLeaseServerAheadGraceSeconds = 2"
definition kUsageLeaseType :: string where "kUsageLeaseType = ''vf-dual-machine-usage-lease-v1''"
definition kUsageLeaseIssuer :: string where "kUsageLeaseIssuer = ''visionforge-dual-machine-service''"
definition kUsageLeaseAudience :: string where
  "kUsageLeaseAudience = ''visionforge-dual-machine-data-plane''"
definition kUsageLeaseActivePhase :: string where "kUsageLeaseActivePhase = ''active''"
definition kIdentifierCharacters :: nat where "kIdentifierCharacters = 32"
definition kSha256Characters :: nat where "kSha256Characters = 64"
definition kEmptyPreviousTicketSha256 :: string where
  "kEmptyPreviousTicketSha256 = replicate 64 (CHR ''0'')"

record usage_lease_binding =
  binding_entitlement_id :: string
  binding_pair_id :: string
  binding_session_id :: string
  binding_protocol_version :: u32
  binding_revocation_version :: u64
  binding_host_key_sha256 :: string
  binding_android_key_sha256 :: string
  binding_channel_binding_sha256 :: string

record usage_lease_claims =
  claim_type :: string
  claim_issuer :: string
  claim_audience :: string
  claim_entitlement_id :: string
  claim_pair_id :: string
  claim_session_id :: string
  claim_protocol_version :: u32
  claim_revocation_version :: u64
  claim_host_key_sha256 :: string
  claim_android_key_sha256 :: string
  claim_channel_binding_sha256 :: string
  previous_ticket_sha256 :: string
  claim_sequence :: u64
  claim_phase :: string
  authorization_kind :: string
  is_permanent :: bool
  remaining_seconds :: u64
  lease_id :: string
  issued_at_epoch :: u64
  not_before_epoch :: u64
  expires_at_epoch :: u64

text \<open>\<^verbatim>\<open>VerifiedUsageLease\<close>, and the private \<^verbatim>\<open>StoredLease\<close> with the same two members.\<close>

record usage_lease =
  claims :: usage_lease_claims
  ticket_sha256 :: string

datatype usage_lease_admission =
    AcceptedCurrent | StagedFuture | AcceptedIdempotent
  | RejectedGateClosed | RejectedClaims | RejectedBinding | RejectedTime | RejectedSequence
  | RejectedPreviousTicket | RejectedOverlap | RejectedGap | RejectedFutureCapacity

datatype usage_lease_gate_state =
    InvalidBinding | GateEmpty | GateActive | GateStopped | GateRevoked | GateExpired
  | TrustedTimeRollback

record usage_lease_gate_snapshot =
  snap_state :: usage_lease_gate_state
  snap_permits_data_plane :: bool
  snap_future_ticket_staged :: bool
  snap_current_ticket_sha256 :: string
  snap_future_ticket_sha256 :: string
  snap_sequence :: u64
  snap_not_before_epoch :: u64
  snap_expires_at_epoch :: u64

record usage_lease_gate =
  gate_binding :: usage_lease_binding
  gate_state :: usage_lease_gate_state
  gate_current :: "usage_lease option"
  gate_future :: "usage_lease option"
  last_trusted_now_epoch :: u64

section \<open>Operations\<close>

definition lower_hex_char :: "char \<Rightarrow> bool" where
  "lower_hex_char c \<longleftrightarrow>
     (let n = of_char c :: nat in (48 \<le> n \<and> n \<le> 57) \<or> (97 \<le> n \<and> n \<le> 102))"

definition is_lower_hex :: "string \<Rightarrow> nat \<Rightarrow> bool" where
  "is_lower_hex s expected \<longleftrightarrow> length s = expected \<and> list_all lower_hex_char s"

definition is_nonzero_lower_hex :: "string \<Rightarrow> nat \<Rightarrow> bool" where
  "is_nonzero_lower_hex s expected \<longleftrightarrow>
     is_lower_hex s expected \<and> list_ex (\<lambda>c. c \<noteq> CHR ''0'') s"

definition binding_valid :: "usage_lease_binding \<Rightarrow> bool" where
  "binding_valid b \<longleftrightarrow>
     is_nonzero_lower_hex (binding_entitlement_id b) kIdentifierCharacters \<and>
     is_nonzero_lower_hex (binding_pair_id b) kIdentifierCharacters \<and>
     is_nonzero_lower_hex (binding_session_id b) kIdentifierCharacters \<and>
     binding_protocol_version b = kUsageLeaseProtocolVersion \<and>
     0 < binding_revocation_version b \<and>
     is_nonzero_lower_hex (binding_host_key_sha256 b) kSha256Characters \<and>
     is_nonzero_lower_hex (binding_android_key_sha256 b) kSha256Characters \<and>
     is_nonzero_lower_hex (binding_channel_binding_sha256 b) kSha256Characters"

definition claims_valid :: "usage_lease \<Rightarrow> u64 \<Rightarrow> bool" where
  "claims_valid ticket trusted_now =
     (let c = claims ticket in
      if trusted_now = 0 \<or>
         claim_type c \<noteq> kUsageLeaseType \<or>
         claim_issuer c \<noteq> kUsageLeaseIssuer \<or>
         claim_audience c \<noteq> kUsageLeaseAudience \<or>
         \<not> is_nonzero_lower_hex (claim_entitlement_id c) kIdentifierCharacters \<or>
         \<not> is_nonzero_lower_hex (claim_pair_id c) kIdentifierCharacters \<or>
         \<not> is_nonzero_lower_hex (claim_session_id c) kIdentifierCharacters \<or>
         claim_protocol_version c \<noteq> kUsageLeaseProtocolVersion \<or>
         claim_revocation_version c = 0 \<or>
         \<not> is_nonzero_lower_hex (claim_host_key_sha256 c) kSha256Characters \<or>
         \<not> is_nonzero_lower_hex (claim_android_key_sha256 c) kSha256Characters \<or>
         \<not> is_nonzero_lower_hex (claim_channel_binding_sha256 c) kSha256Characters \<or>
         \<not> is_lower_hex (previous_ticket_sha256 c) kSha256Characters \<or>
         \<not> is_nonzero_lower_hex (ticket_sha256 ticket) kSha256Characters \<or>
         claim_phase c \<noteq> kUsageLeaseActivePhase \<or>
         issued_at_epoch c = 0 \<or>
         not_before_epoch c < issued_at_epoch c \<or>
         (trusted_now < issued_at_epoch c \<and>
          kUsageLeaseServerAheadGraceSeconds < issued_at_epoch c - trusted_now) \<or>
         expires_at_epoch c \<le> not_before_epoch c
      then False
      else expires_at_epoch c - not_before_epoch c \<le> kMaximumUsageLeaseTtlSeconds)"

definition binding_matches :: "usage_lease_binding \<Rightarrow> usage_lease_claims \<Rightarrow> bool" where
  "binding_matches b c \<longleftrightarrow>
     claim_entitlement_id c = binding_entitlement_id b \<and>
     claim_pair_id c = binding_pair_id b \<and>
     claim_session_id c = binding_session_id b \<and>
     claim_protocol_version c = binding_protocol_version b \<and>
     claim_revocation_version c = binding_revocation_version b \<and>
     claim_host_key_sha256 c = binding_host_key_sha256 b \<and>
     claim_android_key_sha256 c = binding_android_key_sha256 b \<and>
     claim_channel_binding_sha256 c = binding_channel_binding_sha256 b"

definition terminal :: "usage_lease_gate_state \<Rightarrow> bool" where
  "terminal st \<longleftrightarrow>
     st = InvalidBinding \<or> st = GateStopped \<or> st = GateRevoked \<or> st = TrustedTimeRollback"

definition make_lease_gate :: "usage_lease_binding \<Rightarrow> usage_lease_gate" where
  "make_lease_gate b =
     \<lparr>gate_binding = b, gate_state = (if binding_valid b then GateEmpty else InvalidBinding),
      gate_current = None, gate_future = None, last_trusted_now_epoch = 0\<rparr>"

definition close_locked :: "usage_lease_gate_state \<Rightarrow> usage_lease_gate \<Rightarrow> usage_lease_gate" where
  "close_locked st g = g\<lparr>gate_current := None, gate_future := None, gate_state := st\<rparr>"

definition expire_locked :: "usage_lease_gate \<Rightarrow> usage_lease_gate" where
  "expire_locked g =
     (let g = (case gate_future g of
                 None \<Rightarrow> g
               | Some f \<Rightarrow> g\<lparr>gate_current := Some f, gate_future := None\<rparr>)
      in g\<lparr>gate_state := GateExpired\<rparr>)"

definition state_only_snapshot :: "usage_lease_gate \<Rightarrow> usage_lease_gate_snapshot" where
  "state_only_snapshot g =
     \<lparr>snap_state = gate_state g, snap_permits_data_plane = False,
      snap_future_ticket_staged = False, snap_current_ticket_sha256 = [],
      snap_future_ticket_sha256 = [], snap_sequence = 0, snap_not_before_epoch = 0,
      snap_expires_at_epoch = 0\<rparr>"

definition current_snapshot :: "bool \<Rightarrow> bool \<Rightarrow> usage_lease_gate \<Rightarrow> usage_lease_gate_snapshot" where
  "current_snapshot permits staged g =
     (let s = (state_only_snapshot g)
            \<lparr>snap_permits_data_plane := permits, snap_future_ticket_staged := staged\<rparr>;
          s = (case gate_current g of
                 None \<Rightarrow> s
               | Some l \<Rightarrow>
                   s\<lparr>snap_current_ticket_sha256 := ticket_sha256 l,
                     snap_sequence := claim_sequence (claims l),
                     snap_not_before_epoch := not_before_epoch (claims l),
                     snap_expires_at_epoch := expires_at_epoch (claims l)\<rparr>)
      in case gate_future g of
           None \<Rightarrow> s
         | Some f \<Rightarrow> s\<lparr>snap_future_ticket_sha256 := ticket_sha256 f\<rparr>)"

definition evaluate_locked ::
  "u64 \<Rightarrow> usage_lease_gate \<Rightarrow> usage_lease_gate_snapshot \<times> usage_lease_gate" where
  "evaluate_locked trusted_now g =
     (if terminal (gate_state g) then (state_only_snapshot g, g)
      else if trusted_now = 0 then
        let g = (if last_trusted_now_epoch g \<noteq> 0 then close_locked TrustedTimeRollback g else g)
        in (state_only_snapshot g, g)
      else if last_trusted_now_epoch g \<noteq> 0 \<and> trusted_now < last_trusted_now_epoch g then
        let g = close_locked TrustedTimeRollback g in (state_only_snapshot g, g)
      else
        let g = g\<lparr>last_trusted_now_epoch := trusted_now\<rparr> in
        case gate_current g of
          None \<Rightarrow> (state_only_snapshot g, g)
        | Some current \<Rightarrow>
            if gate_state g = GateExpired then (current_snapshot False False g, g)
            else if gate_state g \<noteq> GateActive then (state_only_snapshot g, g)
            else if expires_at_epoch (claims current) \<le> trusted_now then
              (case gate_future g of
                 Some f \<Rightarrow>
                   if not_before_epoch (claims f) \<le> trusted_now \<and>
                      trusted_now < expires_at_epoch (claims f)
                   then
                     let g = g\<lparr>gate_current := Some f, gate_future := None\<rparr> in
                     (current_snapshot
                        (not_before_epoch (claims f) \<le> trusted_now \<and>
                         trusted_now < expires_at_epoch (claims f)) False g, g)
                   else let g = expire_locked g in (current_snapshot False False g, g)
               | None \<Rightarrow> let g = expire_locked g in (current_snapshot False False g, g))
            else
              (current_snapshot
                 (not_before_epoch (claims current) \<le> trusted_now \<and>
                  trusted_now < expires_at_epoch (claims current))
                 (gate_future g \<noteq> None) g, g))"

definition evaluate_gate ::
  "u64 \<Rightarrow> usage_lease_gate \<Rightarrow> usage_lease_gate_snapshot \<times> usage_lease_gate" where
  "evaluate_gate trusted_now g = evaluate_locked trusted_now g"

definition stop_gate :: "usage_lease_gate \<Rightarrow> usage_lease_gate" where
  "stop_gate g = (if gate_state g \<noteq> GateRevoked then close_locked GateStopped g else g)"

definition revoke_gate :: "usage_lease_gate \<Rightarrow> usage_lease_gate" where
  "revoke_gate g = close_locked GateRevoked g"

text \<open>The two admission branches of \<^verbatim>\<open>submit_verified_ticket\<close>: the first ticket, and every later one.\<close>

definition admit_first ::
  "usage_lease \<Rightarrow> u64 \<Rightarrow> usage_lease_gate \<Rightarrow> usage_lease_admission \<times> usage_lease_gate" where
  "admit_first ticket trusted_now g =
     (let c = claims ticket in
      if claim_sequence c \<noteq> 0 then (RejectedSequence, g)
      else if previous_ticket_sha256 c \<noteq> kEmptyPreviousTicketSha256
      then (RejectedPreviousTicket, g)
      else if expires_at_epoch c \<le> trusted_now \<or>
          (trusted_now < not_before_epoch c \<and>
           kUsageLeaseServerAheadGraceSeconds < not_before_epoch c - trusted_now)
      then (RejectedTime, g)
      else
        (if trusted_now < not_before_epoch c then StagedFuture else AcceptedCurrent,
         g\<lparr>gate_current := Some ticket, gate_state := GateActive\<rparr>))"

definition admit_next ::
  "usage_lease \<Rightarrow> u64 \<Rightarrow> usage_lease \<Rightarrow> usage_lease_gate \<Rightarrow> usage_lease_admission \<times> usage_lease_gate" where
  "admit_next ticket trusted_now current g =
     (let c = claims ticket in
      if ticket = current then (AcceptedIdempotent, g)
      else if gate_future g = Some ticket then (AcceptedIdempotent, g)
      else if claim_sequence (claims current) = - 1 \<or>
          claim_sequence c \<noteq> claim_sequence (claims current) + 1
      then (RejectedSequence, g)
      else if previous_ticket_sha256 c \<noteq> ticket_sha256 current
      then (RejectedPreviousTicket, g)
      else if not_before_epoch c < expires_at_epoch (claims current) then (RejectedOverlap, g)
      else if gate_state g = GateExpired then
        if trusted_now < not_before_epoch c \<or> expires_at_epoch c \<le> trusted_now
        then (RejectedTime, g)
        else (AcceptedCurrent, g\<lparr>gate_current := Some ticket, gate_state := GateActive\<rparr>)
      else if gate_future g \<noteq> None then (RejectedFutureCapacity, g)
      else if expires_at_epoch (claims current) < not_before_epoch c then (RejectedGap, g)
      else if not_before_epoch c \<le> trusted_now then (RejectedTime, g)
      else (StagedFuture, g\<lparr>gate_future := Some ticket\<rparr>))"

definition submit_verified_ticket ::
  "usage_lease \<Rightarrow> u64 \<Rightarrow> usage_lease_gate \<Rightarrow> usage_lease_admission \<times> usage_lease_gate" where
  "submit_verified_ticket ticket trusted_now g =
     (let (_, g) = evaluate_locked trusted_now g in
      if terminal (gate_state g) then (RejectedGateClosed, g)
      else if \<not> claims_valid ticket trusted_now then (RejectedClaims, g)
      else if \<not> binding_matches (gate_binding g) (claims ticket) then (RejectedBinding, g)
      else if gate_state g = GateEmpty then admit_first ticket trusted_now g
      else
        case gate_current g of
          None \<Rightarrow> (RejectedGateClosed, g)
        | Some current \<Rightarrow> admit_next ticket trusted_now current g)"

section \<open>Invariant and promises\<close>

text \<open>A lease the gate may hold, and the relation between consecutive leases.\<close>

definition lease_ok :: "usage_lease_binding \<Rightarrow> usage_lease set \<Rightarrow> usage_lease \<Rightarrow> bool" where
  "lease_ok b T l \<longleftrightarrow> l \<in> T \<and> binding_matches b (claims l) \<and> (\<exists>t. claims_valid l t)"

definition lease_follows :: "usage_lease \<Rightarrow> usage_lease \<Rightarrow> bool" where
  "lease_follows l f \<longleftrightarrow>
     claim_sequence (claims l) \<noteq> - 1 \<and> claim_sequence (claims f) = claim_sequence (claims l) + 1 \<and>
     previous_ticket_sha256 (claims f) = ticket_sha256 l \<and>
     expires_at_epoch (claims l) \<le> not_before_epoch (claims f)"

text \<open>The leases that can come into force, starting from a first ticket and linked by hash.\<close>

inductive lease_chain :: "usage_lease_binding \<Rightarrow> usage_lease set \<Rightarrow> usage_lease \<Rightarrow> bool"
  for b T where
  first: "lease_ok b T l \<Longrightarrow> claim_sequence (claims l) = 0 \<Longrightarrow>
    previous_ticket_sha256 (claims l) = kEmptyPreviousTicketSha256 \<Longrightarrow> lease_chain b T l"
| renewal: "lease_chain b T l \<Longrightarrow> lease_ok b T f \<Longrightarrow> lease_follows l f \<Longrightarrow> lease_chain b T f"

inductive_cases lease_chainE: "lease_chain b T l"

lemma lease_chain_ok: "lease_chain b T l \<Longrightarrow> lease_ok b T l"
  by (cases rule: lease_chain.cases)

definition lease_gate_inv :: "usage_lease_binding \<Rightarrow> usage_lease set \<Rightarrow> usage_lease_gate \<Rightarrow> bool" where
  "lease_gate_inv b T g \<longleftrightarrow>
     gate_binding g = b \<and> (\<not> terminal (gate_state g) \<longrightarrow> binding_valid b) \<and>
     (\<forall>l. gate_current g = Some l \<longrightarrow> lease_chain b T l) \<and>
     (\<forall>f. gate_future g = Some f \<longrightarrow> lease_ok b T f \<and>
        (\<exists>l. gate_current g = Some l \<and> lease_follows l f \<and>
           not_before_epoch (claims f) = expires_at_epoch (claims l))) \<and>
     (gate_state g = GateActive \<or> gate_state g = GateExpired \<longleftrightarrow> gate_current g \<noteq> None) \<and>
     (gate_future g \<noteq> None \<longrightarrow> gate_state g = GateActive)"

definition lease_gate_below :: "usage_lease_gate \<Rightarrow> usage_lease_gate \<Rightarrow> bool" where
  "lease_gate_below g g' \<longleftrightarrow>
     gate_binding g' = gate_binding g \<and>
     (terminal (gate_state g) \<longrightarrow> terminal (gate_state g')) \<and>
     last_trusted_now_epoch g \<le> last_trusted_now_epoch g' \<and>
     (\<forall>l. gate_current g = Some l \<longrightarrow> terminal (gate_state g') \<or>
        (\<exists>l'. gate_current g' = Some l' \<and> lease_follows\<^sup>*\<^sup>* l l'))"

lemma make_lease_gate_inv: "lease_gate_inv b T (make_lease_gate b)"
  by (simp add: lease_gate_inv_def make_lease_gate_def terminal_def)

lemma lease_gate_below_refl: "lease_gate_below g g"
  by (auto simp: lease_gate_below_def)

lemma lease_gate_below_trans:
  "lease_gate_below g h \<Longrightarrow> lease_gate_below h k \<Longrightarrow> lease_gate_below g k"
  unfolding lease_gate_below_def by (metis order.trans rtranclp_trans)

lemma close_locked_inv:
  "lease_gate_inv b T g \<Longrightarrow> terminal st \<Longrightarrow> lease_gate_inv b T (close_locked st g)"
  by (auto simp: lease_gate_inv_def close_locked_def terminal_def)

lemma close_locked_below: "terminal st \<Longrightarrow> lease_gate_below g (close_locked st g)"
  by (simp add: lease_gate_below_def close_locked_def)

text \<open>The one place where a staged lease takes over, by renewal or by expiry.\<close>

lemma promote_ok:
  assumes "lease_gate_inv b T g" and "gate_future g = Some f" and "st = GateActive \<or> st = GateExpired"
  shows "lease_gate_inv b T (g\<lparr>gate_current := Some f, gate_future := None, gate_state := st\<rparr>)"
    and "lease_gate_below g (g\<lparr>gate_current := Some f, gate_future := None, gate_state := st\<rparr>)"
  using assms
  by (auto simp: lease_gate_inv_def lease_gate_below_def terminal_def intro: lease_chain.renewal)

lemma inv_time: "lease_gate_inv b T (g\<lparr>last_trusted_now_epoch := t\<rparr>) = lease_gate_inv b T g"
  by (simp add: lease_gate_inv_def)

lemma below_time:
  "last_trusted_now_epoch g \<le> t \<Longrightarrow> lease_gate_below (g\<lparr>last_trusted_now_epoch := t\<rparr>) h \<Longrightarrow>
     lease_gate_below g h"
  by (auto simp: lease_gate_below_def)

lemma expire_locked_ok:
  assumes "lease_gate_inv b T g" and "gate_state g = GateActive"
  shows "lease_gate_inv b T (expire_locked g) \<and> lease_gate_below g (expire_locked g)"
proof (cases "gate_future g")
  case None
  then show ?thesis
    using assms by (auto simp: expire_locked_def lease_gate_inv_def lease_gate_below_def terminal_def)
next
  case (Some f)
  then show ?thesis
    using promote_ok [OF assms(1) Some, of GateExpired] by (simp add: expire_locked_def)
qed

text \<open>
  The state an evaluation leaves: the gate closes, or it records the time and then keeps its
  lease, renews it from the staged one, or expires.
\<close>

definition advance_lease :: "u64 \<Rightarrow> usage_lease_gate \<Rightarrow> usage_lease_gate" where
  "advance_lease now g =
     (case gate_current g of
        None \<Rightarrow> g
      | Some c \<Rightarrow>
          if gate_state g \<noteq> GateActive \<or> now < expires_at_epoch (claims c) then g
          else (case gate_future g of
                  None \<Rightarrow> expire_locked g
                | Some f \<Rightarrow>
                    if not_before_epoch (claims f) \<le> now \<and> now < expires_at_epoch (claims f)
                    then g\<lparr>gate_current := Some f, gate_future := None\<rparr>
                    else expire_locked g))"

lemma evaluate_locked_state:
  "snd (evaluate_locked now g) =
     (if terminal (gate_state g) \<or> (now = 0 \<and> last_trusted_now_epoch g = 0) then g
      else if now = 0 \<or> (last_trusted_now_epoch g \<noteq> 0 \<and> now < last_trusted_now_epoch g)
      then close_locked TrustedTimeRollback g
      else advance_lease now (g\<lparr>last_trusted_now_epoch := now\<rparr>))"
  by (auto simp: evaluate_locked_def advance_lease_def Let_def not_less split: option.splits)

lemma advance_lease_ok:
  assumes "lease_gate_inv b T g"
  shows "lease_gate_inv b T (advance_lease now g) \<and> lease_gate_below g (advance_lease now g)"
proof -
  have "lease_gate_inv b T (g\<lparr>gate_current := Some f, gate_future := None\<rparr>) \<and>
      lease_gate_below g (g\<lparr>gate_current := Some f, gate_future := None\<rparr>)"
    if "gate_future g = Some f" "gate_state g = GateActive" for f
  proof -
    have "g\<lparr>gate_current := Some f, gate_future := None, gate_state := GateActive\<rparr>
        = g\<lparr>gate_current := Some f, gate_future := None\<rparr>"
      using that(2) by (intro usage_lease_gate.equality) simp_all
    then show ?thesis using promote_ok [OF assms that(1), of GateActive] by simp
  qed
  then show ?thesis
    using assms expire_locked_ok [OF assms] lease_gate_below_refl
    by (simp add: advance_lease_def split: option.split)
qed

lemma evaluate_locked_ok:
  assumes "lease_gate_inv b T g"
  shows "lease_gate_inv b T (snd (evaluate_locked now g)) \<and>
    lease_gate_below g (snd (evaluate_locked now g))"
proof -
  let ?g = "g\<lparr>last_trusted_now_epoch := now\<rparr>"
  have "lease_gate_inv b T (advance_lease now ?g) \<and> lease_gate_below g (advance_lease now ?g)"
    if "last_trusted_now_epoch g \<le> now"
    using advance_lease_ok [of b T ?g now] below_time [OF that] assms by (simp add: inv_time)
  then show ?thesis
    using assms close_locked_inv [OF assms] close_locked_below [of TrustedTimeRollback g]
      lease_gate_below_refl
    by (auto simp: evaluate_locked_state terminal_def)
qed

text \<open>What a permit means for the gate it leaves behind.\<close>

lemma evaluate_permits:
  assumes "snap_permits_data_plane (fst (evaluate_locked now g))"
  shows "\<exists>l. gate_current (snd (evaluate_locked now g)) = Some l \<and>
    not_before_epoch (claims l) \<le> now \<and> now < expires_at_epoch (claims l) \<and>
    last_trusted_now_epoch (snd (evaluate_locked now g)) = now \<and>
    \<not> terminal (gate_state (snd (evaluate_locked now g)))"
  using assms
  by (auto simp: evaluate_locked_def Let_def state_only_snapshot_def current_snapshot_def terminal_def
      split: if_splits option.splits)

section \<open>The gate as an event system\<close>

datatype lease_event = Submit usage_lease u64 | Evaluate u64 | Stop | Revoke

fun lease_handle :: "lease_event \<Rightarrow> usage_lease_gate \<Rightarrow> usage_lease_gate" where
  "lease_handle (Submit t now) g = snd (submit_verified_ticket t now g)"
| "lease_handle (Evaluate now) g = snd (evaluate_gate now g)"
| "lease_handle Stop g = stop_gate g"
| "lease_handle Revoke g = revoke_gate g"

fun submits_from :: "usage_lease set \<Rightarrow> lease_event \<Rightarrow> bool" where
  "submits_from T (Submit t now) = (t \<in> T)"
| "submits_from T _ = True"

text \<open>The three ways a ticket is admitted.\<close>

lemma admit_ok:
  assumes "lease_gate_inv b T g" and "lease_ok b T t" and "\<not> terminal (gate_state g)"
  shows "gate_state g = GateEmpty \<and> claim_sequence (claims t) = 0 \<and>
        previous_ticket_sha256 (claims t) = kEmptyPreviousTicketSha256 \<or>
      (\<exists>c. gate_state g = GateExpired \<and> gate_current g = Some c \<and> lease_follows c t) \<Longrightarrow>
      lease_gate_inv b T (g\<lparr>gate_current := Some t, gate_state := GateActive\<rparr>) \<and>
      lease_gate_below g (g\<lparr>gate_current := Some t, gate_state := GateActive\<rparr>)"
    and "gate_state g \<noteq> GateEmpty \<Longrightarrow> gate_state g \<noteq> GateExpired \<Longrightarrow> gate_current g = Some c \<Longrightarrow>
      lease_follows c t \<Longrightarrow> not_before_epoch (claims t) = expires_at_epoch (claims c) \<Longrightarrow>
      lease_gate_inv b T (g\<lparr>gate_future := Some t\<rparr>) \<and> lease_gate_below g (g\<lparr>gate_future := Some t\<rparr>)"
  using assms
  by (auto simp: lease_gate_inv_def lease_gate_below_def terminal_def
      intro: lease_chain.renewal lease_chain.first)

lemma admit_first_ok:
  assumes "lease_gate_inv b T g" and "lease_ok b T t" and "gate_state g = GateEmpty"
  shows "lease_gate_inv b T (snd (admit_first t now g)) \<and> lease_gate_below g (snd (admit_first t now g))"
  using admit_ok(1) [OF assms(1,2)] assms lease_gate_below_refl
  by (simp add: admit_first_def Let_def terminal_def)

lemma admit_next_ok:
  assumes "lease_gate_inv b T g" and "lease_ok b T t" and "\<not> terminal (gate_state g)"
    and "gate_state g \<noteq> GateEmpty" and "gate_current g = Some c"
  shows "lease_gate_inv b T (snd (admit_next t now c g)) \<and> lease_gate_below g (snd (admit_next t now c g))"
proof -
  let ?stay = "lease_gate_inv b T g \<and> lease_gate_below g g"
  have stay: ?stay using assms(1) lease_gate_below_refl by simp
  have new: "lease_gate_inv b T (g\<lparr>gate_current := Some t, gate_state := GateActive\<rparr>) \<and>
      lease_gate_below g (g\<lparr>gate_current := Some t, gate_state := GateActive\<rparr>)"
    if "gate_state g = GateExpired" "lease_follows c t"
    using admit_ok(1) [OF assms(1-3)] that assms(5) by blast
  have staged: "lease_gate_inv b T (g\<lparr>gate_future := Some t\<rparr>) \<and> lease_gate_below g (g\<lparr>gate_future := Some t\<rparr>)"
    if "gate_state g \<noteq> GateExpired" "lease_follows c t"
      "not_before_epoch (claims t) = expires_at_epoch (claims c)"
    using admit_ok(2) [OF assms(1-4) that(1) assms(5) that(2,3)] .
  show ?thesis
    using stay new staged by (simp add: admit_next_def Let_def lease_follows_def not_less)
qed

lemma submit_ok:
  assumes "lease_gate_inv b T g" and "t \<in> T"
  shows "lease_gate_inv b T (snd (submit_verified_ticket t now g)) \<and>
    lease_gate_below g (snd (submit_verified_ticket t now g))"
proof -
  define g1 where "g1 = snd (evaluate_locked now g)"
  have g1: "lease_gate_inv b T g1" "lease_gate_below g g1"
    using evaluate_locked_ok [OF assms(1)] by (simp_all add: g1_def)
  have ok: "lease_ok b T t" if "claims_valid t now" "binding_matches (gate_binding g1) (claims t)"
    using that assms(2) g1(1) by (auto simp: lease_ok_def lease_gate_inv_def)
  have "lease_gate_inv b T (snd (submit_verified_ticket t now g)) \<and>
      lease_gate_below g1 (snd (submit_verified_ticket t now g))"
    unfolding submit_verified_ticket_def case_prod_unfold Let_def g1_def [symmetric]
    using g1(1) lease_gate_below_refl ok admit_first_ok [OF g1(1)] admit_next_ok [OF g1(1)]
    by (simp split: option.split)
  then show ?thesis using g1(2) lease_gate_below_trans by blast
qed

lemma lease_handle_ok:
  assumes "lease_gate_inv b T g" and "submits_from T e"
  shows "lease_gate_inv b T (lease_handle e g)" and "lease_gate_below g (lease_handle e g)"
  using assms submit_ok evaluate_locked_ok close_locked_inv close_locked_below lease_gate_below_refl
  by (cases e; simp add: evaluate_gate_def stop_gate_def revoke_gate_def terminal_def)+

interpretation leases: event_system "\<lambda>g. g = make_lease_gate b" "submits_from T" lease_handle
  "lease_gate_inv b T" lease_gate_below
  by unfold_locales
    (auto intro: make_lease_gate_inv lease_handle_ok lease_gate_below_refl lease_gate_below_trans)

section \<open>Properties\<close>

definition submitted :: "lease_event list \<Rightarrow> usage_lease set" where
  "submitted es = {t. \<exists>now. Submit t now \<in> set es}"

lemma submits_from_submitted: "list_all (submits_from (submitted es)) es"
proof -
  have "submits_from (submitted es) e" if "e \<in> set es" for e
    by (cases e) (use that in \<open>auto simp: submitted_def\<close>)
  then show ?thesis by (simp add: list_all_iff)
qed

lemma lease_gate_run_inv:
  "lease_gate_inv b (submitted es) (fold lease_handle es (make_lease_gate b))"
  by (rule leases.inv_run) (simp_all add: submits_from_submitted)

lemma lease_gate_run_below:
  "lease_gate_below (fold lease_handle es (make_lease_gate b)) (fold lease_handle (es @ fs) (make_lease_gate b))"
  by (rule leases.below_run_split [where T = UNIV]) (simp_all add: list_all_iff, metis submits_from.elims(3) UNIV_I)

lemma claims_valid_ttl:
  "claims_valid l t \<Longrightarrow> not_before_epoch (claims l) < expires_at_epoch (claims l) \<and>
     expires_at_epoch (claims l) - not_before_epoch (claims l) \<le> kMaximumUsageLeaseTtlSeconds"
  by (auto simp: claims_valid_def Let_def split: if_splits)

text \<open>
  C7. Fail-closed: whatever sequence of calls a gate has seen, an evaluation permits the data
  plane only if the binding is well formed and the time lies in the window, of at most ten
  seconds, of a submitted lease that names exactly this binding, had valid claims, and is linked
  by sequence number and ticket hash to a first ticket.
\<close>

theorem permit_rests_on_chained_lease:
  assumes "snap_permits_data_plane (fst (evaluate_gate now (fold lease_handle es (make_lease_gate b))))"
  shows "binding_valid b \<and> (\<exists>l. lease_chain b (submitted es) l \<and> binding_matches b (claims l) \<and>
    not_before_epoch (claims l) \<le> now \<and> now < expires_at_epoch (claims l) \<and>
    expires_at_epoch (claims l) - not_before_epoch (claims l) \<le> kMaximumUsageLeaseTtlSeconds)"
proof -
  define g where "g = snd (evaluate_locked now (fold lease_handle es (make_lease_gate b)))"
  have inv: "lease_gate_inv b (submitted es) g"
    unfolding g_def using evaluate_locked_ok [OF lease_gate_run_inv] by blast
  obtain l where l: "gate_current g = Some l" "not_before_epoch (claims l) \<le> now"
    "now < expires_at_epoch (claims l)" "\<not> terminal (gate_state g)"
    using evaluate_permits assms unfolding g_def evaluate_gate_def by blast
  have chain: "lease_chain b (submitted es) l" using inv l(1) by (simp add: lease_gate_inv_def)
  then have "lease_ok b (submitted es) l" by (rule lease_chain_ok)
  with inv l chain show ?thesis
    using claims_valid_ttl by (auto simp: lease_gate_inv_def lease_ok_def)
qed

lemma closed_evaluate:
  "terminal (gate_state g) \<Longrightarrow> \<not> snap_permits_data_plane (fst (evaluate_gate now g)) \<and>
     snd (evaluate_gate now g) = g"
  by (simp add: evaluate_gate_def evaluate_locked_def state_only_snapshot_def)

lemma closed_submit:
  "terminal (gate_state g) \<Longrightarrow> submit_verified_ticket t now g = (RejectedGateClosed, g)"
  by (simp add: submit_verified_ticket_def evaluate_locked_def)

lemma stop_closes: "terminal (gate_state (stop_gate g))"
  by (simp add: stop_gate_def close_locked_def terminal_def)

lemma revoke_closes: "terminal (gate_state (revoke_gate g))"
  by (simp add: revoke_gate_def close_locked_def terminal_def)

lemma rollback_closes:
  assumes "now < last_trusted_now_epoch g"
  shows "terminal (gate_state (snd (evaluate_gate now g)))"
proof -
  have "last_trusted_now_epoch g \<noteq> 0" using assms by auto
  with assms show ?thesis
    by (auto simp: evaluate_gate_def evaluate_locked_state close_locked_def terminal_def)
qed

text \<open>
  Closing is final: after a stop, a revocation, or an evaluation at a time earlier than one
  already trusted, no later evaluation permits the data plane and every later ticket is refused.
\<close>

theorem closing_is_final:
  assumes "e = Stop \<or> e = Revoke \<or> (\<exists>t. e = Evaluate t \<and>
      t < last_trusted_now_epoch (fold lease_handle es (make_lease_gate b)))"
  shows "\<not> snap_permits_data_plane (fst (evaluate_gate now (fold lease_handle (es @ e # fs) (make_lease_gate b))))
    \<and> fst (submit_verified_ticket ticket now (fold lease_handle (es @ e # fs) (make_lease_gate b)))
      = RejectedGateClosed"
proof -
  let ?g = "fold lease_handle es (make_lease_gate b)"
  have "terminal (gate_state (lease_handle e ?g))"
    using assms rollback_closes stop_closes revoke_closes by auto
  moreover have "lease_gate_below (fold lease_handle (es @ [e]) (make_lease_gate b))
      (fold lease_handle ((es @ [e]) @ fs) (make_lease_gate b))"
    by (rule lease_gate_run_below)
  ultimately have "terminal (gate_state (fold lease_handle (es @ e # fs) (make_lease_gate b)))"
    by (simp add: lease_gate_below_def)
  then show ?thesis using closed_evaluate closed_submit by simp
qed

text \<open>
  Renewal keeps one line of leases: from any point of a run to any later point, the lease in
  force either stays, or is reached through leases each of which follows its predecessor (next
  sequence number, predecessor's ticket hash, window starting no earlier than the predecessor's
  end), or the gate has closed; and the trusted time never goes back.
\<close>

theorem renewal_keeps_chain:
  assumes "gate_current (fold lease_handle es (make_lease_gate b)) = Some l"
  shows "(terminal (gate_state (fold lease_handle (es @ fs) (make_lease_gate b))) \<or>
     (\<exists>l'. gate_current (fold lease_handle (es @ fs) (make_lease_gate b)) = Some l' \<and>
        lease_follows\<^sup>*\<^sup>* l l')) \<and>
    last_trusted_now_epoch (fold lease_handle es (make_lease_gate b))
      \<le> last_trusted_now_epoch (fold lease_handle (es @ fs) (make_lease_gate b))"
  using lease_gate_run_below [of es b fs] assms by (simp add: lease_gate_below_def del: fold_append)

lemma terminal_simps [simp]:
  "\<not> terminal GateEmpty" "\<not> terminal GateActive" "\<not> terminal GateExpired"
  by (simp_all add: terminal_def)

lemma first_ticket_state:
  assumes "binding_valid b" and "claims_valid t now" and "binding_matches b (claims t)"
    and "claim_sequence (claims t) = 0"
    and "previous_ticket_sha256 (claims t) = kEmptyPreviousTicketSha256"
    and "not_before_epoch (claims t) \<le> now" and "now < expires_at_epoch (claims t)"
  shows "submit_verified_ticket t now (make_lease_gate b) =
    (AcceptedCurrent, \<lparr>gate_binding = b, gate_state = GateActive, gate_current = Some t,
       gate_future = None, last_trusted_now_epoch = now\<rparr>)"
proof -
  have "now \<noteq> 0" using assms(2) by (auto simp: claims_valid_def)
  with assms show ?thesis
    by (simp add: submit_verified_ticket_def make_lease_gate_def evaluate_locked_def admit_first_def
        Let_def not_less not_le)
qed

text \<open>
  The gate does open and stays open across a renewal: a valid first ticket whose window
  covers the present is accepted, its valid successor is staged, and from then on every
  evaluation at a non-decreasing time before the successor's end permits the data plane.
\<close>

theorem renewed_lease_keeps_gate_open:
  assumes "binding_valid b" and "claims_valid t now" and "binding_matches b (claims t)"
    and "claim_sequence (claims t) = 0"
    and "previous_ticket_sha256 (claims t) = kEmptyPreviousTicketSha256"
    and "not_before_epoch (claims t) \<le> now" and "now < expires_at_epoch (claims t)"
    and "claims_valid f now" and "binding_matches b (claims f)" and "lease_follows t f"
    and "not_before_epoch (claims f) = expires_at_epoch (claims t)"
    and "now \<le> later" and "later < expires_at_epoch (claims f)"
  shows "fst (submit_verified_ticket t now (make_lease_gate b)) = AcceptedCurrent
    \<and> fst (submit_verified_ticket f now (snd (submit_verified_ticket t now (make_lease_gate b)))) = StagedFuture
    \<and> snap_permits_data_plane (fst (evaluate_gate later (snd (submit_verified_ticket f now
        (snd (submit_verified_ticket t now (make_lease_gate b)))))))"
proof -
  let ?g = "\<lparr>gate_binding = b, gate_state = GateActive, gate_current = Some t,
       gate_future = None, last_trusted_now_epoch = now\<rparr>"
  have nz: "now \<noteq> 0" and nz': "later \<noteq> 0"
    using assms(2,12) by (auto simp: claims_valid_def)
  note first = first_ticket_state [OF assms(1-7)]
  have ne: "f \<noteq> t" using assms(10) by (auto simp: lease_follows_def)
  have nbf: "now < not_before_epoch (claims f)" using assms(7,11) by simp
  have staged: "submit_verified_ticket f now ?g = (StagedFuture, ?g\<lparr>gate_future := Some f\<rparr>)"
  proof -
    have "\<not> expires_at_epoch (claims t) \<le> now" "\<not> expires_at_epoch (claims t) \<le> now"
      "\<not> not_before_epoch (claims f) \<le> now"
      using assms(7) nbf by simp_all
    with assms ne nz show ?thesis
      by (simp add: submit_verified_ticket_def evaluate_locked_def admit_next_def lease_follows_def
          Let_def)
  qed
  have le: "not_before_epoch (claims t) \<le> later" using assms(6,12) by (rule order.trans)
  have "\<not> later < now" using assms(12) by simp
  with first staged assms(11,13) nz' le show ?thesis
    by (cases "expires_at_epoch (claims t) \<le> later")
      (simp_all add: evaluate_gate_def evaluate_locked_def current_snapshot_def Let_def)
qed

text \<open>Two concrete chained tickets.\<close>

definition example_binding :: usage_lease_binding where
  "example_binding =
     \<lparr>binding_entitlement_id = replicate 32 CHR ''a'', binding_pair_id = replicate 32 CHR ''b'',
      binding_session_id = replicate 32 CHR ''c'', binding_protocol_version = 2,
      binding_revocation_version = 1, binding_host_key_sha256 = replicate 64 CHR ''1'',
      binding_android_key_sha256 = replicate 64 CHR ''2'',
      binding_channel_binding_sha256 = replicate 64 CHR ''3''\<rparr>"

definition example_lease :: "u64 \<Rightarrow> string \<Rightarrow> string \<Rightarrow> u64 \<Rightarrow> usage_lease" where
  "example_lease sequence previous hash start =
     \<lparr>claims = \<lparr>claim_type = kUsageLeaseType, claim_issuer = kUsageLeaseIssuer,
        claim_audience = kUsageLeaseAudience, claim_entitlement_id = replicate 32 CHR ''a'',
        claim_pair_id = replicate 32 CHR ''b'', claim_session_id = replicate 32 CHR ''c'',
        claim_protocol_version = 2, claim_revocation_version = 1,
        claim_host_key_sha256 = replicate 64 CHR ''1'',
        claim_android_key_sha256 = replicate 64 CHR ''2'',
        claim_channel_binding_sha256 = replicate 64 CHR ''3'', previous_ticket_sha256 = previous,
        claim_sequence = sequence, claim_phase = kUsageLeaseActivePhase, authorization_kind = [],
        is_permanent = False, remaining_seconds = 0, lease_id = [], issued_at_epoch = 100,
        not_before_epoch = start, expires_at_epoch = start + 10\<rparr>, ticket_sha256 = hash\<rparr>"

definition example_first :: usage_lease where
  "example_first = example_lease 0 kEmptyPreviousTicketSha256 (replicate 64 CHR ''d'') 100"

definition example_second :: usage_lease where
  "example_second = example_lease 1 (replicate 64 CHR ''d'') (replicate 64 CHR ''e'') 110"

lemma hex_replicate [simp]:
  "is_lower_hex (replicate n c) m \<longleftrightarrow> n = m \<and> (n = 0 \<or> lower_hex_char c)"
  "is_nonzero_lower_hex (replicate n c) m \<longleftrightarrow> n = m \<and> n \<noteq> 0 \<and> lower_hex_char c \<and> c \<noteq> CHR ''0''"
  by (auto simp: is_lower_hex_def is_nonzero_lower_hex_def list_all_iff list_ex_iff)

lemma example_hex_chars [simp]:
  "lower_hex_char CHR ''0''" "lower_hex_char CHR ''1''" "lower_hex_char CHR ''2''"
  "lower_hex_char CHR ''3''" "lower_hex_char CHR ''a''" "lower_hex_char CHR ''b''"
  "lower_hex_char CHR ''c''" "lower_hex_char CHR ''d''" "lower_hex_char CHR ''e''"
  by (simp_all add: lower_hex_char_def)

lemmas lease_consts = kUsageLeaseProtocolVersion_def kMaximumUsageLeaseTtlSeconds_def
  kUsageLeaseServerAheadGraceSeconds_def kIdentifierCharacters_def kSha256Characters_def

lemma example_lease_facts:
  "binding_valid example_binding" "claims_valid example_first 103" "claims_valid example_second 103"
  "binding_matches example_binding (claims example_first)"
  "binding_matches example_binding (claims example_second)"
  "lease_follows example_first example_second"
  by (simp_all add: binding_valid_def claims_valid_def binding_matches_def lease_follows_def
      example_binding_def example_first_def example_second_def example_lease_def lease_consts
      kEmptyPreviousTicketSha256_def Let_def)

theorem renewed_lease_keeps_gate_open_witness:
  "snap_permits_data_plane (fst (evaluate_gate 115 (snd (submit_verified_ticket example_second 103
     (snd (submit_verified_ticket example_first 103 (make_lease_gate example_binding)))))))"
  using renewed_lease_keeps_gate_open [of example_binding example_first 103 example_second 115]
    example_lease_facts
  by (simp add: example_first_def example_second_def example_lease_def)

lemma example_first_state:
  "fold lease_handle [Submit example_first 103] (make_lease_gate example_binding) =
     \<lparr>gate_binding = example_binding, gate_state = GateActive, gate_current = Some example_first,
      gate_future = None, last_trusted_now_epoch = 103\<rparr>"
  using first_ticket_state [OF example_lease_facts(1,2,4)]
  by (simp add: example_first_def example_lease_def)

theorem permit_rests_on_chained_lease_witness:
  "snap_permits_data_plane (fst (evaluate_gate 105
     (fold lease_handle [Submit example_first 103] (make_lease_gate example_binding))))
   \<and> (\<exists>l. lease_chain example_binding (submitted [Submit example_first 103]) l \<and>
        not_before_epoch (claims l) \<le> 105 \<and> 105 < expires_at_epoch (claims l))"
proof -
  have "snap_permits_data_plane (fst (evaluate_gate 105
      (fold lease_handle [Submit example_first 103] (make_lease_gate example_binding))))"
    unfolding example_first_state
    by (simp add: evaluate_gate_def evaluate_locked_def current_snapshot_def Let_def
        example_first_def example_lease_def)
  with permit_rests_on_chained_lease [OF this] show ?thesis by blast
qed

theorem closing_is_final_witness:
  "fst (submit_verified_ticket example_second 104
     (fold lease_handle ([Submit example_first 103] @ Stop # []) (make_lease_gate example_binding)))
   = RejectedGateClosed"
  using closing_is_final [where e = Stop and es = "[Submit example_first 103]" and b = example_binding
      and fs = "[]" and ticket = example_second and now = 104]
  by simp

theorem renewal_keeps_chain_witness:
  "103 \<le> last_trusted_now_epoch (fold lease_handle ([Submit example_first 103] @ [Evaluate 105])
     (make_lease_gate example_binding))"
proof -
  have "gate_current (fold lease_handle [Submit example_first 103] (make_lease_gate example_binding))
      = Some example_first"
    unfolding example_first_state by simp
  from renewal_keeps_chain [OF this, of "[Evaluate 105]"] show ?thesis
    by (simp only: example_first_state usage_lease_gate.select_convs)
qed

end
