(* ===== verification/Authorization_Gate.thy ===== *)
theory Authorization_Gate
  imports Lease_Gate
begin

text \<open>
  \<^verbatim>\<open>HostDataPlaneAuthorizationGate\<close> (\<^verbatim>\<open>shared/src/host_data_plane_authorization_gate.cpp\<close>): the host
  composes the peer binding of a confirmed handshake with the usage-lease gate and derives the
  trusted time from a monotonic clock anchored at the last accepted ticket. The clock is not code
  of the repository: every operation that reads it takes the reading as a parameter, \<open>None\<close> when
  the source is empty or throws. Shown: a permit rests on the installed binding and a chained
  lease that covers the derived time; any clock failure, rollback, stop or revocation closes the
  gate until a new binding is installed.
\<close>

record host_gate =
  host_lease_gate :: "usage_lease_gate option"
  anchor_trusted_epoch :: u64
  anchor_monotonic_milliseconds :: u64
  peer_confirmed :: bool
  trusted_time_anchored :: bool
  monotonic_clock_rollback :: bool

record host_gate_snapshot =
  hs_peer_confirmed :: bool
  hs_trusted_time_anchored :: bool
  hs_monotonic_clock_rollback :: bool
  hs_permits_data_plane :: bool
  hs_lease_state :: usage_lease_gate_state
  hs_trusted_now_epoch :: u64
  hs_sequence :: u64
  hs_expires_at_epoch :: u64

definition make_host_gate :: host_gate where
  "make_host_gate =
     \<lparr>host_lease_gate = None, anchor_trusted_epoch = 0, anchor_monotonic_milliseconds = 0,
      peer_confirmed = False, trusted_time_anchored = False, monotonic_clock_rollback = False\<rparr>"

definition admission_accepts_current :: "usage_lease_admission \<Rightarrow> bool" where
  "admission_accepts_current a \<longleftrightarrow> a = AcceptedCurrent \<or> a = AcceptedIdempotent \<or> a = StagedFuture"

definition install_confirmed_peer_binding ::
  "usage_lease_binding \<Rightarrow> host_gate \<Rightarrow> bool \<times> host_gate" where
  "install_confirmed_peer_binding binding h =
     (let (initial, candidate) = evaluate_gate 0 (make_lease_gate binding) in
      if snap_state initial \<noteq> GateEmpty then
        (False, h\<lparr>host_lease_gate := None, anchor_trusted_epoch := 0,
           anchor_monotonic_milliseconds := 0, peer_confirmed := False,
           trusted_time_anchored := False, monotonic_clock_rollback := False\<rparr>)
      else
        (True, h\<lparr>host_lease_gate := Some candidate, anchor_trusted_epoch := 0,
           anchor_monotonic_milliseconds := 0, peer_confirmed := True,
           trusted_time_anchored := False, monotonic_clock_rollback := False\<rparr>))"

definition revoke_locked :: "host_gate \<Rightarrow> host_gate" where
  "revoke_locked h = h\<lparr>host_lease_gate := map_option revoke_gate (host_lease_gate h)\<rparr>"

text \<open>
  The derivation of the trusted time, shared by the two operations that need it: the error is
  reported together with the gate it leaves, revoked and with the rollback flag set as the code
  does.
\<close>

definition derive_from_anchor :: "u64 option \<Rightarrow> host_gate \<Rightarrow> u64 option \<times> host_gate" where
  "derive_from_anchor clock h =
     (case clock of
        None \<Rightarrow> (None, revoke_locked h)
      | Some monotonic_now \<Rightarrow>
          if monotonic_now < anchor_monotonic_milliseconds h
          then (None, revoke_locked (h\<lparr>monotonic_clock_rollback := True\<rparr>))
          else
            let elapsed = (monotonic_now - anchor_monotonic_milliseconds h) div 1000 in
            if - 1 - anchor_trusted_epoch h < elapsed then (None, revoke_locked h)
            else (Some (anchor_trusted_epoch h + elapsed), h))"

definition derive_trusted_now_locked :: "u64 option \<Rightarrow> host_gate \<Rightarrow> u64 option \<times> host_gate" where
  "derive_trusted_now_locked clock h =
     (if \<not> trusted_time_anchored h then (None, h) else derive_from_anchor clock h)"

definition host_submit_verified_ticket ::
  "usage_lease \<Rightarrow> u64 \<Rightarrow> u64 option \<Rightarrow> host_gate \<Rightarrow> usage_lease_admission \<times> host_gate" where
  "host_submit_verified_ticket ticket trusted_now clock h =
     (case host_lease_gate h of
        None \<Rightarrow> (RejectedGateClosed, h)
      | Some g \<Rightarrow>
          if \<not> peer_confirmed h \<or> monotonic_clock_rollback h \<or> trusted_now = 0
          then (RejectedGateClosed, h)
          else
            case clock of
              None \<Rightarrow> (RejectedGateClosed, revoke_locked h)
            | Some monotonic_now \<Rightarrow>
                let (derived, h') =
                  (if trusted_time_anchored h then derive_from_anchor clock h else (Some 0, h))
                in
                case derived of
                  None \<Rightarrow> (RejectedGateClosed, h')
                | Some derived_now \<Rightarrow>
                    if trusted_time_anchored h \<and> trusted_now < derived_now
                    then (RejectedTime, revoke_locked h')
                    else
                      let (admission, g) = submit_verified_ticket ticket trusted_now g;
                          h' = h'\<lparr>host_lease_gate := Some g\<rparr>
                      in (admission,
                          if admission_accepts_current admission
                          then h'\<lparr>anchor_trusted_epoch := trusted_now,
                                  anchor_monotonic_milliseconds := monotonic_now,
                                  trusted_time_anchored := True\<rparr>
                          else h'))"

definition host_snapshot_locked :: "u64 option \<Rightarrow> host_gate \<Rightarrow> host_gate_snapshot \<times> host_gate" where
  "host_snapshot_locked clock h =
     (let result =
        \<lparr>hs_peer_confirmed = peer_confirmed h, hs_trusted_time_anchored = trusted_time_anchored h,
         hs_monotonic_clock_rollback = monotonic_clock_rollback h,
         hs_permits_data_plane = False, hs_lease_state = InvalidBinding,
         hs_trusted_now_epoch = 0, hs_sequence = 0, hs_expires_at_epoch = 0\<rparr>
      in
      if \<not> peer_confirmed h \<or> host_lease_gate h = None \<or> \<not> trusted_time_anchored h \<or>
         monotonic_clock_rollback h
      then (result, h)
      else
        case derive_trusted_now_locked clock h of
          (None, h) \<Rightarrow> (result\<lparr>hs_monotonic_clock_rollback := monotonic_clock_rollback h\<rparr>, h)
        | (Some trusted_now, h) \<Rightarrow>
            (case host_lease_gate h of
               None \<Rightarrow> (result, h)
             | Some g \<Rightarrow>
                 let (lease, g) = evaluate_gate trusted_now g in
                 (result\<lparr>hs_trusted_now_epoch := trusted_now,
                         hs_lease_state := snap_state lease,
                         hs_permits_data_plane := snap_permits_data_plane lease,
                         hs_sequence := snap_sequence lease,
                         hs_expires_at_epoch := snap_expires_at_epoch lease\<rparr>,
                  h\<lparr>host_lease_gate := Some g\<rparr>)))"

definition host_permits_data_plane :: "u64 option \<Rightarrow> host_gate \<Rightarrow> bool \<times> host_gate" where
  "host_permits_data_plane clock h =
     (let (s, h) = host_snapshot_locked clock h in (hs_permits_data_plane s, h))"

definition host_stop :: "host_gate \<Rightarrow> host_gate" where
  "host_stop h = h\<lparr>host_lease_gate := map_option stop_gate (host_lease_gate h)\<rparr>"

definition host_revoke :: "host_gate \<Rightarrow> host_gate" where
  "host_revoke h = revoke_locked h"

definition host_reset :: "host_gate \<Rightarrow> host_gate" where
  "host_reset h =
     (host_stop h)\<lparr>host_lease_gate := None, anchor_trusted_epoch := 0,
       anchor_monotonic_milliseconds := 0, peer_confirmed := False,
       trusted_time_anchored := False, monotonic_clock_rollback := False\<rparr>"

section \<open>Sessions\<close>

datatype host_event =
    Install usage_lease_binding
  | Host_Submit usage_lease u64 "u64 option"
  | Host_Permit "u64 option"
  | Host_Stop
  | Host_Revoke
  | Host_Reset

fun host_handle :: "host_event \<Rightarrow> host_gate \<Rightarrow> host_gate" where
  "host_handle (Install b) h = snd (install_confirmed_peer_binding b h)"
| "host_handle (Host_Submit t now clock) h = snd (host_submit_verified_ticket t now clock h)"
| "host_handle (Host_Permit clock) h = snd (host_permits_data_plane clock h)"
| "host_handle Host_Stop h = host_stop h"
| "host_handle Host_Revoke h = host_revoke h"
| "host_handle Host_Reset h = host_reset h"

text \<open>The session a sequence of calls is in: the installed binding and the tickets submitted since.\<close>

fun session_event :: "host_event \<Rightarrow> (usage_lease_binding \<times> usage_lease set) option \<Rightarrow>
    (usage_lease_binding \<times> usage_lease set) option" where
  "session_event (Install b) _ = (if binding_valid b then Some (b, {}) else None)"
| "session_event (Host_Submit t now clock) s = map_option (\<lambda>(b, T). (b, insert t T)) s"
| "session_event Host_Reset _ = None"
| "session_event _ s = s"

definition host_session :: "host_event list \<Rightarrow> (usage_lease_binding \<times> usage_lease set) option" where
  "host_session es = fold session_event es None"

definition host_rel :: "(usage_lease_binding \<times> usage_lease set) option \<Rightarrow> host_gate \<Rightarrow> bool" where
  "host_rel s h \<longleftrightarrow>
     (case host_lease_gate h of None \<Rightarrow> s = None
      | Some g \<Rightarrow> (\<exists>b T. s = Some (b, T) \<and> lease_gate_inv b T g))"

lemma lease_ok_mono: "lease_ok b T l \<Longrightarrow> T \<subseteq> T' \<Longrightarrow> lease_ok b T' l"
  by (auto simp: lease_ok_def)

lemma lease_chain_mono: "lease_chain b T l \<Longrightarrow> T \<subseteq> T' \<Longrightarrow> lease_chain b T' l"
  by (induction rule: lease_chain.induct) (blast intro: lease_chain.intros lease_ok_mono)+

lemma lease_gate_inv_mono: "lease_gate_inv b T g \<Longrightarrow> T \<subseteq> T' \<Longrightarrow> lease_gate_inv b T' g"
  unfolding lease_gate_inv_def using lease_chain_mono lease_ok_mono by blast

lemma revoke_gate_inv: "lease_gate_inv b T g \<Longrightarrow> lease_gate_inv b T (revoke_gate g)"
  by (simp add: revoke_gate_def close_locked_inv terminal_def)

lemma stop_gate_inv: "lease_gate_inv b T g \<Longrightarrow> lease_gate_inv b T (stop_gate g)"
  by (simp add: stop_gate_def close_locked_inv terminal_def)

lemma revoke_locked_rel: "host_rel s h \<Longrightarrow> host_rel s (revoke_locked h)"
  by (auto simp: host_rel_def revoke_locked_def intro: revoke_gate_inv split: option.splits)

lemma derive_from_anchor_cases:
  assumes "derive_from_anchor clock h = (d, h')"
  obtains m where "clock = Some m" and "h' = h" and "anchor_monotonic_milliseconds h \<le> m"
    and "(m - anchor_monotonic_milliseconds h) div 1000 \<le> - 1 - anchor_trusted_epoch h"
    and "d = Some (anchor_trusted_epoch h + (m - anchor_monotonic_milliseconds h) div 1000)"
  | "d = None" and "h' = revoke_locked h"
  | "d = None" and "h' = revoke_locked (h\<lparr>monotonic_clock_rollback := True\<rparr>)"
  using assms
  by (auto simp: derive_from_anchor_def Let_def not_less split: option.splits if_splits)

lemma install_rel: "host_rel (session_event (Install b) s) (snd (install_confirmed_peer_binding b h))"
  by (auto simp: install_confirmed_peer_binding_def host_rel_def evaluate_gate_def evaluate_locked_def
      make_lease_gate_def state_only_snapshot_def lease_gate_inv_def terminal_def)

lemma derive_rel:
  assumes "host_rel s h" and "derive_from_anchor clock h = (d, h')"
  shows "host_rel s h'"
  using assms(2)
proof (cases rule: derive_from_anchor_cases)
  case 3
  have "host_rel s (h\<lparr>monotonic_clock_rollback := True\<rparr>)" using assms(1) by (simp add: host_rel_def)
  with 3 show ?thesis by (simp add: revoke_locked_rel)
qed (use assms(1) revoke_locked_rel in auto)

lemma host_rel_grow: "host_rel s h \<Longrightarrow> host_rel (session_event (Host_Submit t now clock) s) h"
  by (auto simp: host_rel_def intro: lease_gate_inv_mono split: option.splits)

text \<open>A submission that reaches the lease gate, and every one that does not.\<close>

lemma host_submit_cases:
  assumes "host_submit_verified_ticket t now clock h = (a, h')"
  obtains "a = RejectedGateClosed \<or> a = RejectedTime"
    and "h' = h \<or> h' = revoke_locked h \<or> h' = revoke_locked (h\<lparr>monotonic_clock_rollback := True\<rparr>)"
  | g g' m where "host_lease_gate h = Some g" and "submit_verified_ticket t now g = (a, g')"
    and "clock = Some m"
    and "h' = h\<lparr>host_lease_gate := Some g'\<rparr> \<or>
      h' = h\<lparr>host_lease_gate := Some g', anchor_trusted_epoch := now,
             anchor_monotonic_milliseconds := m, trusted_time_anchored := True\<rparr>"
proof (cases "host_lease_gate h")
  case None
  with assms that(1) show thesis by (simp add: host_submit_verified_ticket_def)
next
  case (Some g)
  show thesis
  proof (cases "\<not> peer_confirmed h \<or> monotonic_clock_rollback h \<or> now = 0 \<or> clock = None")
    case True
    with assms Some have "a = RejectedGateClosed" "h' = h \<or> h' = revoke_locked h"
      by (auto simp: host_submit_verified_ticket_def split: if_splits option.splits)
    with that(1) show thesis by blast
  next
    case False
    then obtain m where m: "clock = Some m" by auto
    obtain d h1 where d: "(if trusted_time_anchored h then derive_from_anchor clock h else (Some 0, h)) = (d, h1)"
      by fastforce
    obtain a' g' where sub: "submit_verified_ticket t now g = (a', g')" by fastforce
    have run: "(a, h') = (case d of None \<Rightarrow> (RejectedGateClosed, h1) | Some n \<Rightarrow>
        if trusted_time_anchored h \<and> now < n then (RejectedTime, revoke_locked h1)
        else (a', let h1 = h1\<lparr>host_lease_gate := Some g'\<rparr> in
          if admission_accepts_current a'
          then h1\<lparr>anchor_trusted_epoch := now, anchor_monotonic_milliseconds := m,
                  trusted_time_anchored := True\<rparr>
          else h1))"
      using assms Some False d [unfolded m] sub
      by (cases d) (auto simp: host_submit_verified_ticket_def m Let_def)
    show thesis
    proof (cases d)
      case None
      then have "h1 = revoke_locked h \<or> h1 = revoke_locked (h\<lparr>monotonic_clock_rollback := True\<rparr>)"
        using d by (auto split: if_splits elim: derive_from_anchor_cases)
      with None run that(1) show thesis by simp
    next
      case (Some n)
      then have "h1 = h" using d by (auto split: if_splits elim: derive_from_anchor_cases)
      then show thesis
        using run Some that(1) that(2) [OF \<open>host_lease_gate h = Some g\<close> _ m, of g'] sub
        by (auto simp: Let_def split: if_splits)
    qed
  qed
qed

lemma host_submit_rel:
  assumes "host_rel s h"
  shows "host_rel (session_event (Host_Submit t now clock) s) (snd (host_submit_verified_ticket t now clock h))"
proof -
  obtain a h' where run: "host_submit_verified_ticket t now clock h = (a, h')" by fastforce
  from run have "host_rel (session_event (Host_Submit t now clock) s) h'"
  proof (cases rule: host_submit_cases)
    case 1
    have "host_rel s (h\<lparr>monotonic_clock_rollback := True\<rparr>)" using assms by (simp add: host_rel_def)
    then have "host_rel s h'" using 1(2) assms revoke_locked_rel by auto
    then show ?thesis by (rule host_rel_grow)
  next
    case (2 g g' m)
    obtain b T where bT: "s = Some (b, T)" "lease_gate_inv b T g"
      using assms 2(1) by (auto simp: host_rel_def)
    have "lease_gate_inv b (insert t T) g" using bT(2) by (rule lease_gate_inv_mono) auto
    then have "lease_gate_inv b (insert t T) g'" using submit_ok [of b "insert t T" g t now] 2(2) by simp
    with 2(4) bT(1) show ?thesis by (auto simp: host_rel_def)
  qed
  then show ?thesis using run by simp
qed

lemma host_permits_cases:
  assumes "host_permits_data_plane clock h = (p, h')"
  obtains "\<not> p" and "h' = h \<or> h' = revoke_locked h \<or> h' = revoke_locked (h\<lparr>monotonic_clock_rollback := True\<rparr>)"
  | g m now where "host_lease_gate h = Some g" and "clock = Some m" and "peer_confirmed h"
    and "trusted_time_anchored h" and "\<not> monotonic_clock_rollback h"
    and "anchor_monotonic_milliseconds h \<le> m"
    and "(m - anchor_monotonic_milliseconds h) div 1000 \<le> - 1 - anchor_trusted_epoch h"
    and "now = anchor_trusted_epoch h + (m - anchor_monotonic_milliseconds h) div 1000"
    and "p = snap_permits_data_plane (fst (evaluate_gate now g))"
    and "h' = h\<lparr>host_lease_gate := Some (snd (evaluate_gate now g))\<rparr>"
proof (cases "\<not> peer_confirmed h \<or> host_lease_gate h = None \<or> \<not> trusted_time_anchored h \<or>
    monotonic_clock_rollback h")
  case True
  with assms have "\<not> p" "h' = h"
    by (auto simp: host_permits_data_plane_def host_snapshot_locked_def Let_def)
  with that(1) show thesis by blast
next
  case False
  then obtain g where g: "host_lease_gate h = Some g" by auto
  obtain d h1 where d: "derive_from_anchor clock h = (d, h1)" by fastforce
  have dt: "derive_trusted_now_locked clock h = (d, h1)"
    using False d by (simp add: derive_trusted_now_locked_def)
  from d show thesis
  proof (cases rule: derive_from_anchor_cases)
    case (1 m)
    with False g dt assms that(2) [OF g 1(1)] show thesis
      by (auto simp: host_permits_data_plane_def host_snapshot_locked_def Let_def case_prod_unfold)
  next
    case 2
    with False dt assms have "\<not> p" "h' = revoke_locked h"
      by (auto simp: host_permits_data_plane_def host_snapshot_locked_def Let_def)
    with that(1) show thesis by blast
  next
    case 3
    with False dt assms have "\<not> p" "h' = revoke_locked (h\<lparr>monotonic_clock_rollback := True\<rparr>)"
      by (auto simp: host_permits_data_plane_def host_snapshot_locked_def Let_def)
    with that(1) show thesis by blast
  qed
qed

lemma host_permits_rel:
  assumes "host_rel s h"
  shows "host_rel s (snd (host_permits_data_plane clock h))"
proof -
  obtain p h' where run: "host_permits_data_plane clock h = (p, h')" by fastforce
  from run have "host_rel s h'"
  proof (cases rule: host_permits_cases)
    case 1
    have "host_rel s (h\<lparr>monotonic_clock_rollback := True\<rparr>)" using assms by (simp add: host_rel_def)
    then show ?thesis using 1(2) assms revoke_locked_rel by auto
  next
    case (2 g m now)
    then show ?thesis
      using assms evaluate_locked_ok by (auto simp: host_rel_def evaluate_gate_def)
  qed
  then show ?thesis using run by simp
qed

lemma host_handle_rel: "host_rel s h \<Longrightarrow> host_rel (session_event e s) (host_handle e h)"
proof (cases e)
  case (Install b)
  then show ?thesis using install_rel by (simp del: session_event.simps)
next
  case (Host_Submit t now clock)
  assume "host_rel s h"
  with Host_Submit show ?thesis using host_submit_rel by (simp del: session_event.simps)
next
  case (Host_Permit clock)
  assume "host_rel s h"
  with Host_Permit show ?thesis using host_permits_rel by simp
next
  case Host_Stop
  assume "host_rel s h"
  with Host_Stop show ?thesis
    by (auto simp: host_rel_def host_stop_def intro: stop_gate_inv split: option.splits)
next
  case Host_Revoke
  assume "host_rel s h"
  with Host_Revoke show ?thesis using revoke_locked_rel by (simp add: host_revoke_def)
next
  case Host_Reset
  then show ?thesis by (simp add: host_rel_def host_reset_def)
qed

lemma host_run_rel: "host_rel s h \<Longrightarrow> host_rel (fold session_event es s) (fold host_handle es h)"
  by (induction es arbitrary: s h) (simp_all add: host_handle_rel del: session_event.simps host_handle.simps)

text \<open>
  C6. The host opens the data plane only within its contract: whatever calls and clock
  readings came before, a permit at clock reading \<open>m\<close> means that a well-formed binding is
  installed, that the clock has not run back behind the anchor, and that a ticket submitted in this
  same session, bound to exactly that peer and chained to a first ticket, covers the time
  derived from the anchor.
\<close>

theorem host_permit_contract:
  assumes "fst (host_permits_data_plane (Some m) h)" and "h = fold host_handle es make_host_gate"
  shows "\<exists>b T l. host_session es = Some (b, T) \<and> binding_valid b \<and> lease_chain b T l \<and>
    binding_matches b (claims l) \<and> anchor_monotonic_milliseconds h \<le> m \<and>
    not_before_epoch (claims l) \<le>
      anchor_trusted_epoch h + (m - anchor_monotonic_milliseconds h) div 1000 \<and>
    anchor_trusted_epoch h + (m - anchor_monotonic_milliseconds h) div 1000
      < expires_at_epoch (claims l)"
proof -
  have rel: "host_rel (host_session es) h"
    unfolding host_session_def assms(2)
    by (rule host_run_rel) (simp add: host_rel_def make_host_gate_def)
  obtain h' where run: "host_permits_data_plane (Some m) h = (True, h')"
    using assms(1) by (metis (full_types) prod.exhaust_sel)
  from run show ?thesis
  proof (cases rule: host_permits_cases)
    case (2 g m' now)
    obtain b T where bT: "host_session es = Some (b, T)" "lease_gate_inv b T g"
      using rel 2(1) by (auto simp: host_rel_def)
    let ?g = "snd (evaluate_locked now g)"
    have inv: "lease_gate_inv b T ?g" using evaluate_locked_ok [OF bT(2)] by blast
    obtain l where l: "gate_current ?g = Some l" "not_before_epoch (claims l) \<le> now"
      "now < expires_at_epoch (claims l)" "\<not> terminal (gate_state ?g)"
      using evaluate_permits 2(9) unfolding evaluate_gate_def by blast
    then have "lease_chain b T l" "binding_valid b" using inv by (auto simp: lease_gate_inv_def)
    moreover from this have "binding_matches b (claims l)" using lease_chain_ok by (simp add: lease_ok_def)
    ultimately show ?thesis using bT(1) l 2 by auto
  qed simp
qed

section \<open>Closing\<close>

definition host_closed :: "host_gate \<Rightarrow> bool" where
  "host_closed h \<longleftrightarrow> (case host_lease_gate h of None \<Rightarrow> True | Some g \<Rightarrow> terminal (gate_state g))"

fun keeps_session :: "host_event \<Rightarrow> bool" where
  "keeps_session (Install _) = False"
| "keeps_session Host_Reset = False"
| "keeps_session _ = True"

lemma revoke_locked_closed: "host_closed (revoke_locked h)"
  by (simp add: host_closed_def revoke_locked_def revoke_closes split: option.split)

lemma closed_host_handle:
  assumes "host_closed h" and "keeps_session e"
  shows "host_closed (host_handle e h)"
proof (cases e)
  case (Host_Submit t now clock)
  obtain a h' where run: "host_submit_verified_ticket t now clock h = (a, h')" by fastforce
  from run have "host_closed h'"
  proof (cases rule: host_submit_cases)
    case (2 g g' m)
    then have "g' = g" "terminal (gate_state g)"
      using assms(1) closed_submit by (auto simp: host_closed_def)
    with 2 show ?thesis by (auto simp: host_closed_def)
  qed (use assms(1) revoke_locked_closed in auto)
  with run Host_Submit show ?thesis by simp
next
  case (Host_Permit clock)
  obtain p h' where run: "host_permits_data_plane clock h = (p, h')" by fastforce
  from run have "host_closed h'"
  proof (cases rule: host_permits_cases)
    case (2 g m now)
    then show ?thesis using assms(1) closed_evaluate by (simp add: host_closed_def)
  qed (use assms(1) revoke_locked_closed in auto)
  with run Host_Permit show ?thesis by simp
qed (use assms stop_closes revoke_locked_closed in
    \<open>auto simp: host_stop_def host_revoke_def host_closed_def split: option.splits\<close>)

interpretation host: event_system "\<lambda>_. True" keeps_session host_handle "\<lambda>_. True"
  "\<lambda>g h. host_closed g \<longrightarrow> host_closed h"
  by unfold_locales (auto simp: closed_host_handle)

lemma closed_host_refuses: "host_closed h \<Longrightarrow> \<not> fst (host_permits_data_plane clock h)"
proof -
  assume closed: "host_closed h"
  obtain p h' where run: "host_permits_data_plane clock h = (p, h')" by fastforce
  from run have "\<not> p"
    by (cases rule: host_permits_cases) (use closed closed_evaluate in \<open>auto simp: host_closed_def\<close>)
  with run show ?thesis by simp
qed

text \<open>The failures of an anchored session: an unreadable or rolled-back clock, and a stale server time.\<close>

definition session_open :: "host_gate \<Rightarrow> bool" where
  "session_open h \<longleftrightarrow> trusted_time_anchored h \<and> peer_confirmed h \<and> \<not> monotonic_clock_rollback h"

fun breaks_session :: "host_event \<Rightarrow> host_gate \<Rightarrow> bool" where
  "breaks_session Host_Stop h = True"
| "breaks_session Host_Revoke h = True"
| "breaks_session (Host_Permit clock) h =
     (session_open h \<and> (case clock of None \<Rightarrow> True | Some m \<Rightarrow> m < anchor_monotonic_milliseconds h))"
| "breaks_session (Host_Submit t now clock) h =
     (session_open h \<and> now \<noteq> 0 \<and>
      (case clock of None \<Rightarrow> True
       | Some m \<Rightarrow> m < anchor_monotonic_milliseconds h \<or>
           now < anchor_trusted_epoch h + (m - anchor_monotonic_milliseconds h) div 1000))"
| "breaks_session _ h = False"

lemma clock_failure:
  assumes "case clock of None \<Rightarrow> True | Some m \<Rightarrow> m < anchor_monotonic_milliseconds h"
  shows "\<exists>h1. derive_from_anchor clock h = (None, h1) \<and> host_closed h1"
  using assms revoke_locked_closed by (auto simp: derive_from_anchor_def split: option.splits)

lemma permit_failure_closes:
  assumes "session_open h"
    and "case clock of None \<Rightarrow> True | Some m \<Rightarrow> m < anchor_monotonic_milliseconds h"
  shows "host_closed (snd (host_permits_data_plane clock h))"
proof (cases "host_lease_gate h")
  case None
  then show ?thesis
    by (simp add: host_permits_data_plane_def host_snapshot_locked_def Let_def host_closed_def)
next
  case (Some g)
  obtain h1 where "derive_from_anchor clock h = (None, h1)" "host_closed h1"
    using clock_failure [OF assms(2)] by blast
  with Some assms(1) show ?thesis
    by (simp add: session_open_def host_permits_data_plane_def host_snapshot_locked_def Let_def
        derive_trusted_now_locked_def)
qed

lemma submit_failure_closes:
  assumes "breaks_session (Host_Submit t now clock) h"
  shows "host_closed (snd (host_submit_verified_ticket t now clock h))"
proof (cases "host_lease_gate h = None \<or> clock = None")
  case True
  then consider "host_lease_gate h = None" | g where "host_lease_gate h = Some g" "clock = None"
    by fastforce
  then show ?thesis
    using assms revoke_locked_closed
    by cases (simp_all add: host_submit_verified_ticket_def session_open_def,
        simp add: host_closed_def)
next
  case False
  then obtain g m where gm: "host_lease_gate h = Some g" "clock = Some m" by auto
  obtain d h1 where d: "derive_from_anchor (Some m) h = (d, h1)" by fastforce
  from d have "(d = None \<and> host_closed h1) \<or> (\<exists>n. d = Some n \<and> now < n)"
    by (cases rule: derive_from_anchor_cases)
      (use assms gm revoke_locked_closed in auto)
  with gm d assms show ?thesis
    using revoke_locked_closed
    by (auto simp: host_submit_verified_ticket_def session_open_def)
qed

lemma breaks_session_closes: "breaks_session e h \<Longrightarrow> host_closed (host_handle e h)"
  using submit_failure_closes permit_failure_closes stop_closes revoke_locked_closed
  by (cases e) (auto simp: host_stop_def host_revoke_def host_closed_def [of "host_stop h"]
      host_closed_def [of "h\<lparr>host_lease_gate := map_option stop_gate (host_lease_gate h)\<rparr>"]
      simp del: breaks_session.simps(4) split: option.split)

text \<open>
  Every failure closes the session for good: once the host is stopped or revoked, or an
  anchored session meets an unreadable clock, a clock behind the anchor or a ticket whose server
  time lies behind the derived one, no later permit check succeeds, whatever tickets follow, until
  a new peer binding is installed or the gate is reset.
\<close>

theorem host_failure_closes_session:
  assumes "breaks_session e h" and "list_all keeps_session fs"
  shows "\<not> fst (host_permits_data_plane clock (fold host_handle (e # fs) h))"
  using breaks_session_closes [OF assms(1)] host.below_fold [where s = "host_handle e h" and es = fs] assms(2)
  by (intro closed_host_refuses) simp

text \<open>A concrete session: install, submit the first ticket, check, lose the clock, check again.\<close>

definition example_host_events :: "host_event list" where
  "example_host_events = [Install example_binding, Host_Submit example_first 103 (Some 5000)]"

lemma example_host_state:
  "fold host_handle example_host_events make_host_gate =
     \<lparr>host_lease_gate = Some \<lparr>gate_binding = example_binding, gate_state = GateActive,
        gate_current = Some example_first, gate_future = None, last_trusted_now_epoch = 103\<rparr>,
      anchor_trusted_epoch = 103, anchor_monotonic_milliseconds = 5000, peer_confirmed = True,
      trusted_time_anchored = True, monotonic_clock_rollback = False\<rparr>"
proof -
  have "submit_verified_ticket example_first 103 (make_lease_gate example_binding) =
      (AcceptedCurrent, \<lparr>gate_binding = example_binding, gate_state = GateActive,
        gate_current = Some example_first, gate_future = None, last_trusted_now_epoch = 103\<rparr>)"
    using first_ticket_state [OF example_lease_facts(1,2,4)]
    by (simp add: example_first_def example_lease_def)
  moreover have "install_confirmed_peer_binding example_binding make_host_gate =
      (True, make_host_gate\<lparr>host_lease_gate := Some (make_lease_gate example_binding),
        peer_confirmed := True\<rparr>)"
    using example_lease_facts(1)
    by (simp add: install_confirmed_peer_binding_def evaluate_gate_def evaluate_locked_def
        make_lease_gate_def state_only_snapshot_def make_host_gate_def)
  ultimately show ?thesis
    by (simp add: example_host_events_def host_submit_verified_ticket_def make_host_gate_def
        admission_accepts_current_def)
qed

theorem host_permit_contract_witness:
  "\<exists>b T l. host_session example_host_events = Some (b, T) \<and> lease_chain b T l \<and>
     not_before_epoch (claims l) \<le> 105 \<and> 105 < expires_at_epoch (claims l)"
proof -
  have "fst (host_permits_data_plane (Some 7500) (fold host_handle example_host_events make_host_gate))"
    unfolding example_host_state
    by (simp add: host_permits_data_plane_def host_snapshot_locked_def derive_trusted_now_locked_def
        derive_from_anchor_def evaluate_gate_def evaluate_locked_def current_snapshot_def
        example_first_def example_lease_def Let_def)
  from host_permit_contract [OF this refl] show ?thesis by (simp add: example_host_state) blast
qed

theorem host_failure_closes_session_witness:
  "\<not> fst (host_permits_data_plane (Some 7500) (fold host_handle
      [Host_Permit (Some 4000), Host_Submit example_second 104 (Some 6000)]
      (fold host_handle example_host_events make_host_gate)))"
  using host_failure_closes_session [of "Host_Permit (Some 4000)"
      "fold host_handle example_host_events make_host_gate"
      "[Host_Submit example_second 104 (Some 6000)]" "Some 7500"]
  by (simp add: example_host_state session_open_def del: fold_simps)

end
