(* ===== verification/Annex_B.thy ===== *)
theory Annex_B
  imports Prelude
begin

text \<open>
  H.264 byte-stream inspection: the start-code scanner and access-unit splitter of
  \<^verbatim>\<open>shared/src/h264_annex_b_access_units.cpp\<close> and the NAL-type tests of
  \<^verbatim>\<open>shared/include/vfdual/h264_access_unit.hpp\<close>. The loops are recursive functions on the byte
  offset with the distance to the end as their measure; the splitter's loop is a fold over the
  NAL ranges. The scanner is shown to tile the stream, the exponential-Golomb test to read one
  bit, the splitter to be the grouping of \<open>reference_units\<close>, and the NAL-type mask to agree
  with the scanner.
\<close>

section \<open>The start-code scanner\<close>

record nal_range =
  nal_start :: nat
  nal_payload_start :: nat
  nal_end :: nat

definition three_at :: "bytes \<Rightarrow> nat \<Rightarrow> bool" where
  "three_at input offset \<longleftrightarrow>
     offset + 3 \<le> length input \<and> input ! offset = 0 \<and> input ! (offset + 1) = 0 \<and>
     input ! (offset + 2) = 1"

definition four_at :: "bytes \<Rightarrow> nat \<Rightarrow> bool" where
  "four_at input offset \<longleftrightarrow>
     offset + 4 \<le> length input \<and> input ! offset = 0 \<and> input ! (offset + 1) = 0 \<and>
     input ! (offset + 2) = 0 \<and> input ! (offset + 3) = 1"

text \<open>The size of the start code at an offset; the C++ routine returns it through a pointer.\<close>

definition is_start_code :: "bytes \<Rightarrow> nat \<Rightarrow> nat option" where
  "is_start_code input offset =
     (if three_at input offset then Some 3
      else if four_at input offset then Some 4
      else None)"

text \<open>The inner loop: on to the next start code, or to where the look-ahead no longer fits.\<close>

function scan_payload :: "bytes \<Rightarrow> nat \<Rightarrow> nat" where
  "scan_payload input offset =
     (if offset + 3 \<le> length input \<and> is_start_code input offset = None
      then scan_payload input (offset + 1) else offset)"
  by pat_completeness auto
termination by (relation "measure (\<lambda>(input, offset). length input - offset)") auto

declare scan_payload.simps [simp del]

lemma scan_payload_ge: "offset \<le> scan_payload input offset"
  by (induction input offset rule: scan_payload.induct) (subst scan_payload.simps, auto)

lemma is_start_code_cases:
  assumes "is_start_code input offset = Some n"
  obtains (three) "n = 3" "three_at input offset"
  | (four) "n = 4" "four_at input offset" "three_at input (offset + 1)"
  using assms
  by (auto simp: is_start_code_def three_at_def four_at_def eval_nat_numeral split: if_splits)

lemma is_start_code_fits: "is_start_code input offset = Some n \<Longrightarrow> offset + n \<le> length input"
  by (erule is_start_code_cases) (auto simp: three_at_def four_at_def)

lemma is_start_code_pos: "is_start_code input offset = Some n \<Longrightarrow> 0 < n"
  by (erule is_start_code_cases) auto

definition payload_end :: "bytes \<Rightarrow> nat \<Rightarrow> nat" where
  "payload_end input payload_start =
     (let offset = scan_payload input payload_start in
      if length input < offset + 3 then length input else offset)"

lemma payload_end_ge: "p \<le> length input \<Longrightarrow> p \<le> payload_end input p"
  using scan_payload_ge [of p input] by (auto simp: payload_end_def Let_def)

lemma payload_end_le: "payload_end input p \<le> length input"
  by (auto simp: payload_end_def Let_def)

function find_nals_from :: "bytes \<Rightarrow> nat \<Rightarrow> nal_range list" where
  "find_nals_from input offset =
     (if length input < offset + 3 then []
      else case is_start_code input offset of
             None \<Rightarrow> find_nals_from input (offset + 1)
           | Some start_code_size \<Rightarrow>
               let payload_start = offset + start_code_size;
                   stop = payload_end input payload_start
               in \<lparr>nal_start = offset, nal_payload_start = payload_start, nal_end = stop\<rparr> #
                  find_nals_from input stop)"
  by pat_completeness auto
termination
proof (relation "measure (\<lambda>(input, offset). length input - offset)", goal_cases)
  case (3 input offset n p stop)
  have "offset < p" using is_start_code_pos [OF 3(2)] 3(3) by simp
  moreover have "p \<le> stop" using payload_end_ge is_start_code_fits [OF 3(2)] 3(3,4) by simp
  ultimately show ?case using 3(1) by simp
qed auto

declare find_nals_from.simps [simp del]

definition find_nals :: "bytes \<Rightarrow> nal_range list" where
  "find_nals input = find_nals_from input 0"

section \<open>The first macroblock address of a slice\<close>

text \<open>The emulation-prevention filter, from the second payload byte on.\<close>

fun strip_emulation :: "u32 \<Rightarrow> bytes \<Rightarrow> bytes" where
  "strip_emulation zero_count [] = []"
| "strip_emulation zero_count (v # vs) =
     (if 2 \<le> zero_count \<and> v = 3 then strip_emulation 0 vs
      else v # strip_emulation (if v = 0 then zero_count + 1 else 0) vs)"

definition rbsp_after_nal_header :: "bytes \<Rightarrow> bytes" where
  "rbsp_after_nal_header nal_payload =
     (if length nal_payload \<le> 1 then [] else strip_emulation 0 (drop 1 nal_payload))"

definition read_bit :: "bytes \<Rightarrow> nat \<Rightarrow> bool option" where
  "read_bit rbsp bit_offset =
     (if length rbsp * 8 \<le> bit_offset then None
      else Some (drop_bit (7 - bit_offset mod 8) (rbsp ! (bit_offset div 8)) AND 1 \<noteq> 0))"

function read_leading_zeroes :: "bytes \<Rightarrow> nat \<Rightarrow> nat \<Rightarrow> (nat \<times> nat) option" where
  "read_leading_zeroes rbsp bit_offset leading_zeroes =
     (case read_bit rbsp bit_offset of
        None \<Rightarrow> None
      | Some True \<Rightarrow> Some (bit_offset + 1, leading_zeroes)
      | Some False \<Rightarrow>
          if 31 < leading_zeroes + 1 then None
          else read_leading_zeroes rbsp (bit_offset + 1) (leading_zeroes + 1))"
  by pat_completeness auto
termination
  by (relation "measure (\<lambda>(rbsp, bit_offset, _). length rbsp * 8 - bit_offset)")
     (auto simp: read_bit_def split: if_splits)

declare read_leading_zeroes.simps [simp del]

fun read_suffix :: "bytes \<Rightarrow> nat \<Rightarrow> nat \<Rightarrow> u32 \<Rightarrow> u32 option" where
  "read_suffix rbsp bit_offset 0 suffix = Some suffix"
| "read_suffix rbsp bit_offset (Suc n) suffix =
     (case read_bit rbsp bit_offset of
        None \<Rightarrow> None
      | Some b \<Rightarrow> read_suffix rbsp (bit_offset + 1) n (push_bit 1 suffix OR (if b then 1 else 0)))"

definition first_mb_is_zero :: "bytes \<Rightarrow> bool" where
  "first_mb_is_zero nal_payload =
     (let rbsp = rbsp_after_nal_header nal_payload in
      if rbsp = [] then False
      else case read_leading_zeroes rbsp 0 0 of
             None \<Rightarrow> False
           | Some (bit_offset, leading_zeroes) \<Rightarrow>
               (case read_suffix rbsp bit_offset leading_zeroes 0 of
                  None \<Rightarrow> False
                | Some suffix \<Rightarrow>
                    let first_mb = (push_bit leading_zeroes 1 - 1) + ucast suffix :: u64
                    in first_mb = 0))"

section \<open>The access-unit splitter\<close>

record split_state =
  access_units :: "bytes list"
  pending_prefix :: bytes
  current_unit :: bytes
  current_has_vcl :: bool

definition range_bytes :: "bytes \<Rightarrow> nal_range \<Rightarrow> bytes" where
  "range_bytes input nal = take (nal_end nal - nal_start nal) (drop (nal_start nal) input)"

definition append_range :: "bytes \<Rightarrow> bytes \<Rightarrow> nal_range \<Rightarrow> bytes" where
  "append_range destination input nal = destination @ range_bytes input nal"

definition nal_payload :: "bytes \<Rightarrow> nal_range \<Rightarrow> bytes" where
  "nal_payload input nal =
     take (nal_end nal - nal_payload_start nal) (drop (nal_payload_start nal) input)"

definition nal_type :: "bytes \<Rightarrow> nal_range \<Rightarrow> u8" where
  "nal_type input nal = hd (nal_payload input nal) AND 0x1f"

definition is_vcl :: "bytes \<Rightarrow> nal_range \<Rightarrow> bool" where
  "is_vcl input nal \<longleftrightarrow> 1 \<le> nal_type input nal \<and> nal_type input nal \<le> 5"

definition starts_picture :: "bytes \<Rightarrow> nal_range \<Rightarrow> bool" where
  "starts_picture input nal \<longleftrightarrow>
     is_vcl input nal \<and> first_mb_is_zero (nal_payload input nal)"

definition split_step :: "bytes \<Rightarrow> nal_range \<Rightarrow> split_state \<Rightarrow> split_state" where
  "split_step input nal s =
     (if nal_end nal \<le> nal_payload_start nal then s
      else
        let s = (if is_vcl input nal \<and> current_has_vcl s \<and> starts_picture input nal
                 then s\<lparr>access_units := access_units s @ [current_unit s],
                        current_unit := [], current_has_vcl := False\<rparr>
                 else s)
        in if is_vcl input nal then
             let s = (if \<not> current_has_vcl s \<and> pending_prefix s \<noteq> []
                      then s\<lparr>current_unit := current_unit s @ pending_prefix s,
                             pending_prefix := []\<rparr>
                      else s)
             in s\<lparr>current_unit := append_range (current_unit s) input nal,
                  current_has_vcl := True\<rparr>
           else s\<lparr>pending_prefix := append_range (pending_prefix s) input nal\<rparr>)"

definition split_h264_annex_b_access_units :: "bytes \<Rightarrow> bytes list" where
  "split_h264_annex_b_access_units elementary_stream =
     (let s = fold (split_step elementary_stream) (find_nals elementary_stream)
            \<lparr>access_units = [], pending_prefix = [], current_unit = [], current_has_vcl = False\<rparr>
      in if current_has_vcl s then access_units s @ [current_unit s] else access_units s)"

section \<open>Tests for the NAL types of one access unit\<close>

definition mask_step :: "bytes \<Rightarrow> nat \<Rightarrow> u32 \<Rightarrow> u32" where
  "mask_step access_unit index acc =
     (let four_byte_start = index + 4 < length access_unit \<and> access_unit ! index = 0 \<and>
            access_unit ! (index + 1) = 0 \<and> access_unit ! (index + 2) = 0 \<and>
            access_unit ! (index + 3) = 1;
          three_byte_start = \<not> four_byte_start \<and> access_unit ! index = 0 \<and>
            access_unit ! (index + 1) = 0 \<and> access_unit ! (index + 2) = 1
      in if \<not> four_byte_start \<and> \<not> three_byte_start then acc
         else
           let nal_index = index + (if four_byte_start then 4 else 3) in
           if length access_unit \<le> nal_index then acc
           else acc OR push_bit (unat (access_unit ! nal_index AND 0x1f)) 1)"

definition h264_annex_b_nal_type_mask :: "bytes \<Rightarrow> u32" where
  "h264_annex_b_nal_type_mask access_unit =
     fold (mask_step access_unit) [0..<length access_unit - 3] 0"

function avcc_contains_idr_from :: "bytes \<Rightarrow> nat \<Rightarrow> bool" where
  "avcc_contains_idr_from access_unit offset =
     (if length access_unit < offset + 4 then False
      else
        let nal_size = (push_bit 24 (ucast (access_unit ! offset)) OR
              push_bit 16 (ucast (access_unit ! (offset + 1))) OR
              push_bit 8 (ucast (access_unit ! (offset + 2))) OR
              ucast (access_unit ! (offset + 3)) :: u32);
            offset = offset + 4
        in if nal_size = 0 \<or> length access_unit - offset < unat nal_size then False
           else if access_unit ! offset AND 0x1f = 5 then True
           else avcc_contains_idr_from access_unit (offset + unat nal_size))"
  by pat_completeness auto
termination
  by (relation "measure (\<lambda>(access_unit, offset). length access_unit - offset)") auto

declare avcc_contains_idr_from.simps [simp del]

definition h264_avcc_contains_idr :: "bytes \<Rightarrow> bool" where
  "h264_avcc_contains_idr access_unit = avcc_contains_idr_from access_unit 0"

definition h264_access_unit_contains_idr :: "bytes \<Rightarrow> bool" where
  "h264_access_unit_contains_idr access_unit \<longleftrightarrow>
     h264_annex_b_nal_type_mask access_unit AND push_bit 5 1 \<noteq> 0 \<or>
     h264_avcc_contains_idr access_unit"

section \<open>The ranges tile the stream\<close>

lemma scan_payload_None:
  "p \<le> j \<Longrightarrow> j < scan_payload input p \<Longrightarrow> is_start_code input j = None"
proof (induction input p rule: scan_payload.induct)
  case (1 input p)
  show ?case
  proof (cases "p + 3 \<le> length input \<and> is_start_code input p = None")
    case True
    then have "scan_payload input p = scan_payload input (p + 1)" by (subst scan_payload.simps) simp
    with 1 True show ?thesis by (cases "j = p") auto
  next
    case False
    then have "scan_payload input p = p" by (subst scan_payload.simps) (simp only: if_False)
    with 1 show ?thesis by simp
  qed
qed

lemma scan_payload_stops:
  "scan_payload input p + 3 \<le> length input \<Longrightarrow> is_start_code input (scan_payload input p) \<noteq> None"
proof (induction input p rule: scan_payload.induct)
  case (1 input p)
  then show ?case by (subst scan_payload.simps, subst (asm) (2) scan_payload.simps) auto
qed

lemma payload_end_stops:
  assumes "payload_end input p \<noteq> length input"
  shows "payload_end input p + 3 \<le> length input" "is_start_code input (payload_end input p) \<noteq> None"
  using assms scan_payload_stops [of input p] by (auto simp: payload_end_def Let_def split: if_splits)

lemma is_start_code_fits3: "is_start_code input j \<noteq> None \<Longrightarrow> j + 3 \<le> length input"
  by (auto simp: is_start_code_def three_at_def four_at_def split: if_splits)

lemma payload_end_None:
  assumes "p \<le> j" "j < payload_end input p"
  shows "is_start_code input j = None"
proof (cases "j < scan_payload input p")
  case True
  then show ?thesis using assms by (simp add: scan_payload_None)
next
  case False
  then have "\<not> j + 3 \<le> length input" using assms(2)
    by (auto simp: payload_end_def Let_def split: if_splits)
  then show ?thesis using is_start_code_fits3 by blast
qed

lemma find_nals_from_None:
  "is_start_code input j = None \<Longrightarrow> find_nals_from input j = find_nals_from input (j + 1)"
  by (subst find_nals_from.simps) (auto simp: find_nals_from.simps [of input "Suc j"])

lemma find_nals_from_Some:
  assumes "is_start_code input j = Some n"
  shows "find_nals_from input j =
    \<lparr>nal_start = j, nal_payload_start = j + n, nal_end = payload_end input (j + n)\<rparr> #
    find_nals_from input (payload_end input (j + n))"
  using assms is_start_code_fits3 [of input j]
  by (subst find_nals_from.simps) (simp add: Let_def)

lemma find_nals_from_past: "length input < j + 3 \<Longrightarrow> find_nals_from input j = []"
  by (simp add: find_nals_from.simps)

lemma find_nals_induct [case_names Past Skip Nal]:
  assumes "\<And>j. length input < j + 3 \<Longrightarrow> P j"
    and "\<And>j. is_start_code input j = None \<Longrightarrow> P (j + 1) \<Longrightarrow> P j"
    and "\<And>j n. is_start_code input j = Some n \<Longrightarrow> P (payload_end input (j + n)) \<Longrightarrow> P j"
  shows "P j"
proof (induction "length input - j" arbitrary: j rule: less_induct)
  case less
  show ?case
  proof (cases "length input < j + 3")
    case True
    then show ?thesis by (rule assms(1))
  next
    case False
    show ?thesis
    proof (cases "is_start_code input j")
      case None
      have "P (j + 1)" using False by (intro less) simp
      with None show ?thesis by (rule assms(2))
    next
      case (Some n)
      have "j < payload_end input (j + n)"
        using payload_end_ge [OF is_start_code_fits [OF Some]] is_start_code_pos [OF Some] by simp
      then have "P (payload_end input (j + n))" using False by (intro less) simp
      with Some show ?thesis by (rule assms(3))
    qed
  qed
qed

lemma find_nals_from_tile:
  "concat (map (range_bytes input) (find_nals_from input j)) =
     (case find_nals_from input j of [] \<Rightarrow> [] | nal # _ \<Rightarrow> drop (nal_start nal) input)"
proof (induction j rule: find_nals_induct [where input = input])
  case (Past j)
  then show ?case by (simp add: find_nals_from_past)
next
  case (Skip j)
  then show ?case by (simp add: find_nals_from_None)
next
  case (Nal j n)
  let ?e = "payload_end input (j + n)"
  have le: "j \<le> ?e" using payload_end_ge [OF is_start_code_fits [OF Nal(1)]] by simp
  have "concat (map (range_bytes input) (find_nals_from input ?e)) = drop ?e input"
  proof (cases "?e = length input")
    case True
    then show ?thesis by (simp add: find_nals_from_past)
  next
    case False
    then obtain m where "is_start_code input ?e = Some m" using payload_end_stops(2) by blast
    from find_nals_from_Some [OF this] Nal(2) show ?thesis by simp
  qed
  moreover have "take (?e - j) (drop j input) @ drop ?e input = drop j input"
    using append_take_drop_id [of "?e - j" "drop j input"] le by simp
  ultimately show ?case
    by (simp add: find_nals_from_Some [OF Nal(1)] range_bytes_def [of input "nal_range_ext _ _ _ _"])
qed

lemma find_nals_from_shape:
  "list_all (\<lambda>nal. is_start_code input (nal_start nal) = Some (nal_payload_start nal - nal_start nal) \<and>
      nal_start nal < nal_payload_start nal \<and>
      nal_payload_start nal \<le> nal_end nal \<and> nal_end nal \<le> length input \<and>
      (\<forall>j. nal_payload_start nal \<le> j \<longrightarrow> j < nal_end nal \<longrightarrow> is_start_code input j = None))
    (find_nals_from input j)"
proof (induction j rule: find_nals_induct [where input = input])
  case (Nal j n)
  then show ?case
    using payload_end_ge [OF is_start_code_fits [OF Nal(1)]] payload_end_le [of input "j + n"]
      payload_end_None [of "j + n" _ input] is_start_code_pos [OF Nal(1)]
    by (simp add: find_nals_from_Some [OF Nal(1)])
qed (simp_all add: find_nals_from_past find_nals_from_None)

lemma find_nals_from_first:
  "j \<le> k \<Longrightarrow> is_start_code input k \<noteq> None \<Longrightarrow>
     find_nals_from input j \<noteq> [] \<and> nal_start (hd (find_nals_from input j)) \<le> k"
proof (induction j rule: find_nals_induct [where input = input])
  case (Past j)
  then show ?case using is_start_code_fits3 [of input k] by simp
next
  case (Skip j)
  then show ?case by (cases "j = k") (simp_all add: find_nals_from_None)
next
  case (Nal j n)
  then show ?case by (simp add: find_nals_from_Some)
qed

text \<open>
  The scanner finds every NAL unit: the ranges tile the stream from the first start code to
  its end, so that no byte from there on is lost or repeated; each range begins with a start
  code and holds none in its payload; and the first range begins at the first start code.
\<close>

theorem find_nals_tile:
  fixes input :: bytes
  defines "nals \<equiv> find_nals input"
  shows "concat (map (range_bytes input) nals) =
       (case nals of [] \<Rightarrow> [] | nal # _ \<Rightarrow> drop (nal_start nal) input) \<and>
     (\<forall>nal \<in> set nals. is_start_code input (nal_start nal) = Some (nal_payload_start nal - nal_start nal) \<and>
        (\<forall>j. nal_payload_start nal \<le> j \<longrightarrow> j < nal_end nal \<longrightarrow> is_start_code input j = None)) \<and>
     (\<forall>j. is_start_code input j \<noteq> None \<longrightarrow> nals \<noteq> [] \<and> nal_start (hd nals) \<le> j)"
  unfolding nals_def find_nals_def
  using find_nals_from_tile [of input 0] find_nals_from_shape [of input 0]
    find_nals_from_first [of 0 _ input]
  by (auto simp: list_all_iff)

theorem find_nals_tile_witness:
  "concat (map (range_bytes [9, 0, 0, 1, 0x65, 0, 0, 0, 1, 0x41])
     (find_nals [9, 0, 0, 1, 0x65, 0, 0, 0, 1, 0x41])) = [0, 0, 1, 0x65, 0, 0, 0, 1, 0x41]"
  using find_nals_tile [of "[9, 0, 0, 1, 0x65, 0, 0, 0, 1, 0x41]"]
  by (auto simp: find_nals_def find_nals_from.simps scan_payload.simps payload_end_def
      is_start_code_def three_at_def four_at_def Let_def)

section \<open>The first macroblock is one bit\<close>

lemma rbsp_Cons:
  "1 < length p \<Longrightarrow> \<exists>vs. rbsp_after_nal_header p = p ! 1 # vs"
  by (cases p rule: remdups_adj.cases) (simp_all add: rbsp_after_nal_header_def)

lemma read_leading_zeroes_ge:
  "read_leading_zeroes rbsp j l = Some (k, n) \<Longrightarrow> l \<le> 31 \<Longrightarrow> l \<le> n \<and> n \<le> 31"
proof (induction rbsp j l rule: read_leading_zeroes.induct)
  case (1 rbsp j l)
  then show ?case
    by (subst (asm) (2) read_leading_zeroes.simps) (force split: option.splits bool.splits if_splits)
qed

lemma golomb_nonzero:
  fixes suffix :: u32
  assumes "0 < n" "n \<le> 31"
  shows "(push_bit n 1 - 1) + ucast suffix \<noteq> (0 :: u64)"
proof
  assume z: "(push_bit n 1 - 1) + ucast suffix = (0 :: u64)"
  have le: "(2::nat) ^ n \<le> 2 ^ 31" using assms by (intro power_increasing) simp_all
  then have "unat (of_nat (2 ^ n) :: u64) = 2 ^ n" by (intro unat_of_nat_small) simp
  then have p: "unat (2 ^ n :: u64) = 2 ^ n" by simp
  have "(1 :: u64) \<le> 2 ^ n" by (simp add: word_le_nat_alt p)
  then have m: "unat (2 ^ n - 1 :: u64) = 2 ^ n - 1"
    by (simp add: unat_sub p)
  have "unat (ucast suffix :: u64) < 2 ^ 32"
    using unsigned_less [of suffix, where ?'a = nat]
    by (simp add: unsigned_ucast_eq take_bit_nat_eq_self)
  then have "unat ((2 ^ n - 1) + ucast suffix :: u64) =
      (2 ^ n - 1) + unat (ucast suffix :: u64)"
    using le m by (subst unat_add_lem [THEN iffD1]) (auto simp: m)
  moreover have "2 \<le> (2::nat) ^ n" using assms(1) self_le_power [of 2 n] by simp
  ultimately show False using z by simp
qed

lemma bit_7_test: "drop_bit 7 v AND 1 \<noteq> 0 \<longleftrightarrow> bit v 7" for v :: u8
  by (simp add: bit_iff_odd_drop_bit and_one_eq odd_iff_mod_2_eq_one)

text \<open>
  The exponential-Golomb decoder that decides whether a slice starts a picture reads one bit
  in effect: a slice starts a picture exactly when its payload goes on after the NAL header and
  the top bit of the byte after the header is set, whatever the emulation-prevention bytes and
  however the code word goes on.
\<close>

theorem first_mb_is_zero_iff:
  "first_mb_is_zero p \<longleftrightarrow> 1 < length p \<and> bit (p ! 1) 7"
proof (cases "1 < length p")
  case False
  then show ?thesis by (simp add: first_mb_is_zero_def rbsp_after_nal_header_def)
next
  case True
  define b where "b = p ! 1"
  from True obtain vs where rbsp: "rbsp_after_nal_header p = b # vs"
    using rbsp_Cons unfolding b_def by blast
  have first: "read_bit (b # vs) 0 = Some (bit (b) 7)"
    by (simp add: read_bit_def bit_7_test)
  show ?thesis
  proof (cases "bit (b) 7")
    case set: True
    have "read_leading_zeroes (b # vs) 0 0 = Some (1, 0)"
      by (subst read_leading_zeroes.simps) (simp add: first set)
    then show ?thesis using True set by (simp add: first_mb_is_zero_def rbsp b_def)
  next
    case unset: False
    have "read_leading_zeroes (b # vs) 0 0 = read_leading_zeroes (b # vs) 1 1"
      by (subst read_leading_zeroes.simps) (simp add: first unset)
    then have "0 < n \<and> n \<le> 31" if "read_leading_zeroes (b # vs) 0 0 = Some (k, n)" for k n
      using read_leading_zeroes_ge [of "b # vs" 1 1 k n] that by simp
    then show ?thesis using unset golomb_nonzero
      by (auto simp: first_mb_is_zero_def rbsp Let_def b_def split: option.splits)
  qed
qed

section \<open>What the splitter returns\<close>

text \<open>
  The reference grouping. The stream is cut in front of every NAL that opens an access unit: the
  first coded slice, and every later slice that starts a picture. A unit is the non-slice NALs
  of the previous cut followed by the slices of its own cut.
\<close>

fun cut_before :: "('a \<Rightarrow> bool) \<Rightarrow> 'a list \<Rightarrow> 'a list \<times> 'a list list" where
  "cut_before opens [] = ([], [])"
| "cut_before opens (x # xs) =
     (let (pre, cuts) = cut_before opens xs in
      if opens x then ([], (x # pre) # cuts) else (x # pre, cuts))"

definition select_bytes :: "(nal_range \<Rightarrow> bool) \<Rightarrow> bytes \<Rightarrow> nal_range list \<Rightarrow> bytes" where
  "select_bytes P input nals = concat (map (range_bytes input) (filter P nals))"

definition reference_units :: "bytes \<Rightarrow> nal_range list \<Rightarrow> bytes list" where
  "reference_units input nals =
     (let slice = is_vcl input; pre = takeWhile (Not \<circ> slice) nals in
      case dropWhile (Not \<circ> slice) nals of
        [] \<Rightarrow> []
      | v # vs \<Rightarrow>
          let (follow, cuts) = cut_before (starts_picture input) vs; cuts = (v # follow) # cuts
          in map2 (\<lambda>before own. select_bytes (Not \<circ> slice) input before @
                                 select_bytes slice input own) (pre # cuts) cuts)"

lemma cut_before_concat: "cut_before opens xs = (pre, cuts) \<Longrightarrow> pre @ concat cuts = xs"
  by (induction xs arbitrary: pre cuts) (auto split: prod.splits if_splits)

lemma select_bytes_simps [simp]:
  "select_bytes P input [] = []"
  "select_bytes P input (x # xs) =
     (if P x then range_bytes input x else []) @ select_bytes P input xs"
  "select_bytes P input (xs @ ys) = select_bytes P input xs @ select_bytes P input ys"
  by (simp_all add: select_bytes_def)

definition finish :: "split_state \<Rightarrow> bytes list" where
  "finish s = (if current_has_vcl s then access_units s @ [current_unit s] else access_units s)"

lemma fold_skip_empty:
  "fold (split_step input) nals s =
     fold (split_step input) (filter (\<lambda>nal. nal_payload_start nal < nal_end nal) nals) s"
  by (induction nals arbitrary: s) (simp_all add: split_step_def not_less)

lemma starts_picture_vcl: "starts_picture input nal \<Longrightarrow> is_vcl input nal"
  by (simp add: starts_picture_def)

lemma split_fold_open:
  assumes "list_all (\<lambda>nal. nal_payload_start nal < nal_end nal) nals"
    and "current_has_vcl s" and "cut_before (starts_picture input) nals = (follow, cuts)"
  shows "finish (fold (split_step input) nals s) =
    access_units s @ (current_unit s @ select_bytes (is_vcl input) input follow) #
    map2 (\<lambda>before own. before @ select_bytes (is_vcl input) input own)
      ((pending_prefix s @ select_bytes (Not \<circ> is_vcl input) input follow) #
       map (select_bytes (Not \<circ> is_vcl input) input) cuts) cuts"
  using assms
proof (induction nals arbitrary: s follow cuts)
  case Nil
  then show ?case by (simp add: finish_def)
next
  case (Cons nal nals)
  obtain follow' cuts' where cut: "cut_before (starts_picture input) nals = (follow', cuts')"
    by fastforce
  let ?t = "split_step input nal s"
  have ne: "\<not> nal_end nal \<le> nal_payload_start nal" using Cons.prems(1) by simp
  have opn: "current_has_vcl ?t"
    using ne Cons.prems(2) by (simp add: split_step_def Let_def)
  note ih = Cons.IH [OF _ opn cut]
  consider (other) "\<not> is_vcl input nal" | (slice) "is_vcl input nal" "\<not> starts_picture input nal"
    | (pict) "is_vcl input nal" "starts_picture input nal" by blast
  then show ?case
  proof cases
    case other
    then have "\<not> starts_picture input nal" using starts_picture_vcl by blast
    then have mc: "follow = nal # follow'" "cuts = cuts'" using Cons.prems(3) cut by simp_all
    have "?t = s\<lparr>pending_prefix := pending_prefix s @ range_bytes input nal\<rparr>"
      using other ne by (simp add: split_step_def Let_def append_range_def)
    then show ?thesis using ih Cons.prems(1) other by (simp add: mc)
  next
    case slice
    then have mc: "follow = nal # follow'" "cuts = cuts'" using Cons.prems(3) cut by simp_all
    have "?t = s\<lparr>current_unit := current_unit s @ range_bytes input nal\<rparr>"
      using slice ne Cons.prems(2) by (simp add: split_step_def Let_def append_range_def)
    then show ?thesis using ih Cons.prems(1) slice by (simp add: mc)
  next
    case pict
    then have mc: "follow = []" "cuts = (nal # follow') # cuts'" using Cons.prems(3) cut by simp_all
    have "access_units ?t = access_units s @ [current_unit s]"
      "current_unit ?t = pending_prefix s @ range_bytes input nal" "pending_prefix ?t = []"
      using pict ne Cons.prems(2) by (simp_all add: split_step_def Let_def append_range_def)
    then show ?thesis using ih Cons.prems(1) pict by (simp add: mc)
  qed
qed

lemma split_fold_prefix:
  assumes "list_all (\<lambda>nal. nal_payload_start nal < nal_end nal \<and> \<not> is_vcl input nal) nals"
    and "\<not> current_has_vcl s"
  shows "fold (split_step input) nals s =
    s\<lparr>pending_prefix := pending_prefix s @ select_bytes (Not \<circ> is_vcl input) input nals\<rparr>"
  using assms
  by (induction nals arbitrary: s) (simp_all add: split_step_def append_range_def not_le [symmetric])

text \<open>
  C38. The splitter returns the reference grouping of the non-empty NAL units: every coded slice is
  kept, in order and byte for byte, and a new unit begins exactly at the first slice and at every
  later slice that starts a picture. Parameter sets and other non-slice units travel in front of
  the next unit; those after the last unit's first slice are not returned.
\<close>

theorem split_is_reference:
  "split_h264_annex_b_access_units input =
     reference_units input (filter (\<lambda>nal. nal_payload_start nal < nal_end nal) (find_nals input))"
proof -
  let ?nals = "filter (\<lambda>nal. nal_payload_start nal < nal_end nal) (find_nals input)"
  let ?pre = "takeWhile (Not \<circ> is_vcl input) ?nals"
  let ?s = "\<lparr>access_units = [], pending_prefix = [], current_unit = [], current_has_vcl = False\<rparr>"
  have split: "split_h264_annex_b_access_units input = finish (fold (split_step input) ?nals ?s)"
    by (simp add: split_h264_annex_b_access_units_def finish_def Let_def
        fold_skip_empty [of input "find_nals input"])
  have nals: "fold (split_step input) ?nals ?s =
      fold (split_step input) (dropWhile (Not \<circ> is_vcl input) ?nals)
        (fold (split_step input) ?pre ?s)"
    by (rule fold_takeWhile_dropWhile)
  have pre: "fold (split_step input) ?pre ?s =
      ?s\<lparr>pending_prefix := select_bytes (Not \<circ> is_vcl input) input ?pre\<rparr>"
    by (subst split_fold_prefix) (auto simp: list_all_iff dest: set_takeWhileD)
  show ?thesis
  proof (cases "dropWhile (Not \<circ> is_vcl input) ?nals")
    case Nil
    then show ?thesis
      unfolding split nals pre by (simp only: Nil) (simp add: reference_units_def finish_def Nil)
  next
    case (Cons v vs)
    have v: "is_vcl input v" using hd_dropWhile [of "Not \<circ> is_vcl input" ?nals] Cons by simp
    have sub: "set (v # vs) \<subseteq> set ?nals" unfolding Cons [symmetric] using set_dropWhileD by fast
    obtain follow cuts where cut: "cut_before (starts_picture input) vs = (follow, cuts)"
      by fastforce
    let ?t = "split_step input v (?s\<lparr>pending_prefix := select_bytes (Not \<circ> is_vcl input) input ?pre\<rparr>)"
    have t: "?t = \<lparr>access_units = [], pending_prefix = [], current_unit =
        select_bytes (Not \<circ> is_vcl input) input ?pre @ range_bytes input v, current_has_vcl = True\<rparr>"
      using v sub by (simp add: split_step_def append_range_def Let_def)
    have "finish (fold (split_step input) ?nals ?s) = finish (fold (split_step input) vs ?t)"
      unfolding nals pre Cons by simp
    also have "\<dots> = (select_bytes (Not \<circ> is_vcl input) input ?pre @ range_bytes input v @
          select_bytes (is_vcl input) input follow) #
        map2 (\<lambda>before own. before @ select_bytes (is_vcl input) input own)
          (map (select_bytes (Not \<circ> is_vcl input) input) ((v # follow) # cuts)) cuts"
      unfolding t using sub v by (subst split_fold_open [OF _ _ cut]) (auto simp: list_all_iff)
    also have "\<dots> = reference_units input ?nals"
      unfolding map2_map_left using v by (simp add: reference_units_def Cons cut Let_def)
    finally show ?thesis unfolding split .
  qed
qed

section \<open>The NAL-type mask agrees with the scanner\<close>

lemma three_at_not_four: "three_at input j \<Longrightarrow> \<not> four_at input j"
  by (simp add: three_at_def four_at_def)

lemma three_at_apart:
  assumes "three_at input j" "j < k" "k < j + 3"
  shows "\<not> three_at input k"
proof -
  from assms(2,3) consider "k = j + 1" | "k = j + 2" by linarith
  then show ?thesis using assms(1) by cases (auto simp: three_at_def numeral_3_eq_3)
qed

lemma payload_starts:
  "nal_payload_start ` set (find_nals_from input j) = {k + 3 | k. j \<le> k \<and> three_at input k}"
proof (induction j rule: find_nals_induct [where input = input])
  case (Past j)
  then show ?case by (auto simp: find_nals_from_past three_at_def)
next
  case (Skip j)
  then have "\<not> three_at input j" by (auto simp: is_start_code_def split: if_splits)
  then have "j \<le> k \<and> three_at input k \<longleftrightarrow> j + 1 \<le> k \<and> three_at input k" for k
    by (metis Suc_eq_plus1 Suc_leD Suc_leI le_neq_implies_less)
  with Skip show ?case by (simp add: find_nals_from_None)
next
  case (Nal j n)
  let ?p = "j + n"
  let ?e = "payload_end input ?p"
  obtain c where c: "?p = c + 3" "three_at input c" "j \<le> c" "\<And>k. j \<le> k \<Longrightarrow> k < c \<Longrightarrow> \<not> three_at input k"
    using Nal(1)
  proof (cases rule: is_start_code_cases)
    case three
    then show ?thesis by (intro that [of j]) auto
  next
    case four
    then have "\<not> three_at input j" using three_at_not_four by blast
    then have "\<not> three_at input k" if "j \<le> k" "k < j + 1" for k
      using that by (metis Suc_eq_plus1 le_antisym less_Suc_eq_le)
    with four show ?thesis by (intro that [of "j + 1"]) auto
  qed
  have "j \<le> k \<and> three_at input k \<longleftrightarrow> k = c \<or> ?e \<le> k \<and> three_at input k" for k
  proof -
    have pe: "?p \<le> ?e" by (rule payload_end_ge [OF is_start_code_fits [OF Nal(1)]])
    have "\<not> three_at input k" if k: "j \<le> k" "k \<noteq> c" "k < ?e"
    proof -
      consider "k < c" | "c < k" "k < c + 3" | "?p \<le> k" using k(2) c(1) by fastforce
      then show ?thesis
      proof cases
        case 3
        then have "is_start_code input k = None" using k(3) by (rule payload_end_None)
        then show ?thesis by (auto simp: is_start_code_def split: if_splits)
      qed (use c k three_at_apart in auto)
    qed
    then show ?thesis using c pe by (metis add_leD1 le_trans not_le)
  qed
  then have "{k + 3 | k. j \<le> k \<and> three_at input k} = insert ?p {k + 3 | k. ?e \<le> k \<and> three_at input k}"
    using c(1) by auto
  with Nal(2) show ?case by (simp add: find_nals_from_Some [OF Nal(1)])
qed

lemma mask_step_bit:
  assumes "index + 3 < length au" "t < 32"
  shows "bit (mask_step au index m) t \<longleftrightarrow> bit m t \<or>
    (\<exists>k \<in> {index, index + 1}. three_at au k \<and> k + 3 < length au \<and>
       (k = index \<or> four_at au index) \<and> unat (au ! (k + 3) AND 0x1f) = t)"
proof -
  let ?four = "index + 4 < length au \<and> four_at au index"
  let ?ty = "\<lambda>k. unat (au ! k AND 0x1f)"
  have "mask_step au index m =
      (if ?four then m OR push_bit (?ty (index + 4)) 1
       else if three_at au index then m OR push_bit (?ty (index + 3)) 1 else m)"
    using assms(1) by (auto simp: mask_step_def Let_def four_at_def three_at_def)
  moreover have "four_at au index \<Longrightarrow> three_at au (index + 1) \<and> \<not> three_at au index"
    using three_at_not_four [of au index]
    by (auto simp: four_at_def three_at_def eval_nat_numeral)
  ultimately show ?thesis
    using assms by (auto simp: bit_or_iff bit_exp_iff add.commute [of 4 index])
qed

lemma mask_fold_bit:
  assumes "t < 32" "list_all (\<lambda>j. j + 3 < length au) js"
  shows "bit (fold (mask_step au) js m) t \<longleftrightarrow> bit m t \<or>
    (\<exists>j \<in> set js. \<exists>k \<in> {j, j + 1}. three_at au k \<and> k + 3 < length au \<and>
       (k = j \<or> four_at au j) \<and> unat (au ! (k + 3) AND 0x1f) = t)"
  using assms(2)
proof (induction js arbitrary: m)
  case (Cons j js)
  then show ?case
    by (simp only: list.pred_inject fold_simps mask_step_bit [OF _ assms(1)] list.set
        bex_simps disj_assoc)
qed simp

lemma mask_bit:
  assumes "t < 32"
  shows "bit (h264_annex_b_nal_type_mask au) t \<longleftrightarrow>
    (\<exists>k. three_at au k \<and> k + 3 < length au \<and> unat (au ! (k + 3) AND 0x1f) = t)"
    (is "_ \<longleftrightarrow> (\<exists>k. ?P k)")
proof -
  have "bit (h264_annex_b_nal_type_mask au) t \<longleftrightarrow>
      (\<exists>j \<in> {0..<length au - 3}. \<exists>k \<in> {j, j + 1}. three_at au k \<and> k + 3 < length au \<and>
       (k = j \<or> four_at au j) \<and> unat (au ! (k + 3) AND 0x1f) = t)"
    unfolding h264_annex_b_nal_type_mask_def
    by (subst mask_fold_bit [OF assms]) (auto simp: list_all_iff)
  also have "\<dots> \<longleftrightarrow> (\<exists>k. ?P k)"
  proof
    assume "\<exists>k. ?P k"
    then obtain k where "?P k" ..
    then show "\<exists>j \<in> {0..<length au - 3}. \<exists>k \<in> {j, j + 1}. three_at au k \<and> k + 3 < length au \<and>
       (k = j \<or> four_at au j) \<and> unat (au ! (k + 3) AND 0x1f) = t"
      by (intro bexI [of _ k]) auto
  qed blast
  finally show ?thesis .
qed

definition nal_types :: "bytes \<Rightarrow> nat set" where
  "nal_types input = (\<lambda>nal. unat (nal_type input nal)) `
     {nal \<in> set (find_nals input). nal_payload_start nal < nal_end nal}"

lemma payload_end_gt: "p < length input \<Longrightarrow> is_start_code input p = None \<Longrightarrow> p < payload_end input p"
  using scan_payload_ge [of "p + 1" input]
  by (auto simp: payload_end_def Let_def scan_payload.simps [of input p])

lemma nal_type_nth:
  assumes "nal_payload_start nal < nal_end nal" "nal_end nal \<le> length input"
  shows "nal_type input nal = input ! nal_payload_start nal AND 0x1f"
  using assms by (simp add: nal_type_def nal_payload_def hd_drop_conv_nth)

lemma nal_end_payload_end: "nal \<in> set (find_nals_from input j) \<Longrightarrow>
    nal_end nal = payload_end input (nal_payload_start nal)"
  by (induction j rule: find_nals_induct [where input = input])
     (auto simp: find_nals_from_past find_nals_from_None find_nals_from_Some)

lemma nal_types_iff:
  assumes "0 < t"
  shows "t \<in> nal_types input \<longleftrightarrow>
    (\<exists>k. three_at input k \<and> k + 3 < length input \<and> unat (input ! (k + 3) AND 0x1f) = t)"
proof
  assume "t \<in> nal_types input"
  then obtain nal where nal: "nal \<in> set (find_nals input)" "nal_payload_start nal < nal_end nal"
    "t = unat (nal_type input nal)" by (auto simp: nal_types_def)
  have le: "nal_end nal \<le> length input"
    using find_nals_from_shape [of input 0] nal(1) by (simp add: list_all_iff find_nals_def)
  obtain k where "nal_payload_start nal = k + 3" "three_at input k"
    using imageI [OF nal(1), of nal_payload_start] unfolding find_nals_def payload_starts by blast
  then show "\<exists>k. three_at input k \<and> k + 3 < length input \<and> unat (input ! (k + 3) AND 0x1f) = t"
    using nal le nal_type_nth [OF nal(2) le] by (intro exI [of _ k]) simp
next
  assume "\<exists>k. three_at input k \<and> k + 3 < length input \<and> unat (input ! (k + 3) AND 0x1f) = t"
  then obtain k where k: "three_at input k" "k + 3 < length input"
    "unat (input ! (k + 3) AND 0x1f) = t" by blast
  have "k + 3 \<in> nal_payload_start ` set (find_nals input)"
    unfolding find_nals_def payload_starts using k(1) by blast
  then obtain nal where nal: "nal \<in> set (find_nals input)" "nal_payload_start nal = k + 3" by auto
  have "input ! (k + 3) \<noteq> 0" using k(3) assms by (metis and_zero_eq unsigned_0 less_irrefl zero_and_eq)
  then have "is_start_code input (k + 3) = None"
    by (simp add: is_start_code_def three_at_def four_at_def)
  then have gt: "nal_payload_start nal < nal_end nal"
    using payload_end_gt [OF k(2)] nal nal_end_payload_end [of nal input 0]
    by (simp add: find_nals_def)
  have "nal_end nal \<le> length input"
    using find_nals_from_shape [of input 0] nal(1) by (simp add: list_all_iff find_nals_def)
  then show "t \<in> nal_types input"
    using gt nal k(3) nal_type_nth [OF gt] unfolding nal_types_def by (intro image_eqI [of _ _ nal]) auto
qed

text \<open>
  The two H.264 inspectors agree: for every NAL type except the unspecified type 0 the mask
  computed byte by byte has the type's bit exactly when the scanner finds a non-empty NAL unit
  of that type, although the mask's loop also looks inside start codes and payloads.
\<close>

theorem mask_agrees_with_scanner:
  assumes "0 < t" "t < 32"
  shows "bit (h264_annex_b_nal_type_mask input) t \<longleftrightarrow> t \<in> nal_types input"
  using assms by (simp add: mask_bit nal_types_iff)

theorem mask_agrees_with_scanner_witness:
  "bit (h264_annex_b_nal_type_mask [0, 0, 0, 1, 0x65, 0x88]) 5 \<longleftrightarrow>
     5 \<in> nal_types [0, 0, 0, 1, 0x65, 0x88]"
  using mask_agrees_with_scanner [of 5 "[0, 0, 0, 1, 0x65, 0x88]"] by simp

end
