(* ===== verification/Usage_Contract.thy ===== *)
theory Usage_Contract
  imports Prelude
begin

text \<open>
  The statements both machines sign for the usage-authorization server
  (\<^verbatim>\<open>shared/include/vfdual/usage_authorization_contract.hpp\<close>,
  \<^verbatim>\<open>shared/src/usage_authorization_contract.cpp\<close>): the field checks, the JSON writer and the seven
  payload builders. A \<^verbatim>\<open>std::string\<close> is a list of characters, \<^verbatim>\<open>std::nullopt\<close> is \<open>None\<close>. The
  payloads are shown to be canonical JSON objects with increasing keys, and to determine the
  statement: no two different statements, of one kind or of two, have the same signed bytes.
\<close>

section \<open>Constants\<close>

definition kUsageAuthorizationProtocolVersion :: u32 where
  [const_defs]: "kUsageAuthorizationProtocolVersion = 2"
definition kActivationConfirmDomain :: string where
  "kActivationConfirmDomain = ''visionforge-dual-machine-card-activate-v1''"
definition kUsageStartChallengeDomain :: string where
  "kUsageStartChallengeDomain = ''visionforge-dual-machine-usage-start-challenge-v1''"
definition kUsageStartDomain :: string where
  "kUsageStartDomain = ''visionforge-dual-machine-usage-start-v1''"
definition kUsageStartCancelDomain :: string where
  "kUsageStartCancelDomain = ''visionforge-dual-machine-usage-start-cancel-v1''"
definition kUsageHeartbeatDomain :: string where
  "kUsageHeartbeatDomain = ''visionforge-dual-machine-usage-heartbeat-v1''"
definition kUsageStopDomain :: string where
  "kUsageStopDomain = ''visionforge-dual-machine-usage-stop-v1''"
definition kEntitlementStatusDomain :: string where
  "kEntitlementStatusDomain = ''visionforge-dual-machine-entitlement-status-v1''"

definition kHex128Characters :: nat where [const_defs]: "kHex128Characters = 32"
definition kSha256Characters :: nat where [const_defs]: "kSha256Characters = 64"
definition kMaximumDeviceCodeCharacters :: nat where
  [const_defs]: "kMaximumDeviceCodeCharacters = 128"
definition kMaximumClientVersionCharacters :: nat where
  [const_defs]: "kMaximumClientVersionCharacters = 80"
definition kInitialActivationMode :: string where "kInitialActivationMode = ''activate''"
definition kReactivationMode :: string where "kReactivationMode = ''reactivate''"
definition kDeviceBindingActivationMode :: string where
  "kDeviceBindingActivationMode = ''bind_device''"

section \<open>The proofs\<close>

record activation_confirmation_proof =
  ac_activation_mode :: string
  ac_android_client_version :: string
  ac_android_device_code :: string
  ac_android_device_profile_sha256 :: string
  ac_android_key_sha256 :: string
  ac_challenge_id :: string
  ac_challenge_token_sha256 :: string
  ac_host_client_version :: string
  ac_host_device_code :: string
  ac_host_key_sha256 :: string
  ac_pair_id :: string
  ac_protocol_version :: u32
  ac_request_id :: string
  ac_target_entitlement_id :: string

record usage_start_challenge_proof =
  sc_channel_binding_sha256 :: string
  sc_entitlement_id :: string
  sc_pair_id :: string
  sc_protocol_version :: u32
  sc_request_id :: string
  sc_request_nonce :: string
  sc_revocation_version :: u64

record usage_start_proof =
  us_android_frames_total :: u64
  us_android_runtime_ready :: bool
  us_channel_binding_sha256 :: string
  us_entitlement_id :: string
  us_host_frames_total :: u64
  us_host_runtime_ready :: bool
  us_pair_id :: string
  us_protocol_version :: u32
  us_request_id :: string
  us_request_nonce :: string
  us_revocation_version :: u64
  us_start_challenge_id :: string
  us_start_challenge_token_sha256 :: string

record usage_start_cancel_proof =
  ca_channel_binding_sha256 :: string
  ca_entitlement_id :: string
  ca_pair_id :: string
  ca_protocol_version :: u32
  ca_request_id :: string
  ca_request_nonce :: string
  ca_revocation_version :: u64
  ca_start_request_id :: string

record usage_heartbeat_proof =
  hb_android_frames_total :: u64
  hb_channel_binding_sha256 :: string
  hb_entitlement_id :: string
  hb_host_frames_total :: u64
  hb_pair_id :: string
  hb_previous_lease_sha256 :: string
  hb_protocol_version :: u32
  hb_request_id :: string
  hb_request_nonce :: string
  hb_revocation_version :: u64
  hb_sequence :: u64
  hb_session_id :: string

record usage_stop_proof =
  st_channel_binding_sha256 :: string
  st_entitlement_id :: string
  st_pair_id :: string
  st_previous_lease_sha256 :: string
  st_protocol_version :: u32
  st_request_id :: string
  st_request_nonce :: string
  st_revocation_version :: u64
  st_session_id :: string

record entitlement_status_proof =
  es_entitlement_id :: string
  es_pair_id :: string
  es_protocol_version :: u32
  es_request_nonce :: string
  es_revocation_version :: u64

section \<open>Field checks\<close>

text \<open>The range test \<^verbatim>\<open>character >= low && character <= high\<close>.\<close>

definition char_between :: "char \<Rightarrow> char \<Rightarrow> char \<Rightarrow> bool" where
  "char_between low high c \<longleftrightarrow> of_char low \<le> (of_char c :: nat) \<and> (of_char c :: nat) \<le> of_char high"

fun lower_hex_loop :: "bool \<Rightarrow> string \<Rightarrow> bool" where
  "lower_hex_loop nonzero [] = nonzero"
| "lower_hex_loop nonzero (c # cs) =
     (if \<not> (char_between CHR ''0'' CHR ''9'' c \<or> char_between CHR ''a'' CHR ''f'' c) then False
      else lower_hex_loop (nonzero \<or> c \<noteq> CHR ''0'') cs)"

definition is_nonzero_lower_hex :: "string \<Rightarrow> nat \<Rightarrow> bool" where
  "is_nonzero_lower_hex v expected =
     (if length v \<noteq> expected then False else lower_hex_loop False v)"

definition is_activation_target_valid :: "string \<Rightarrow> string \<Rightarrow> bool" where
  "is_activation_target_valid activation_mode target_entitlement_id =
     (if activation_mode = kInitialActivationMode then target_entitlement_id = []
      else (activation_mode = kReactivationMode \<or> activation_mode = kDeviceBindingActivationMode) \<and>
        is_nonzero_lower_hex target_entitlement_id kHex128Characters)"

fun device_code_loop :: "string \<Rightarrow> bool" where
  "device_code_loop [] = True"
| "device_code_loop (c # cs) =
     (if \<not> (char_between CHR ''A'' CHR ''Z'' c \<or> char_between CHR ''0'' CHR ''9'' c \<or>
             c = CHR ''.'' \<or> c = CHR ''_'' \<or> c = CHR '':'' \<or> c = CHR ''-'')
      then False else device_code_loop cs)"

definition is_device_code :: "string \<Rightarrow> bool" where
  "is_device_code v =
     (if v = [] \<or> kMaximumDeviceCodeCharacters < length v then False else device_code_loop v)"

fun client_version_loop :: "bool \<Rightarrow> string \<Rightarrow> bool" where
  "client_version_loop digit_seen [] = digit_seen"
| "client_version_loop digit_seen (c # cs) =
     (if char_between CHR ''0'' CHR ''9'' c then client_version_loop True cs
      else if c \<noteq> CHR ''.'' \<and> c \<noteq> CHR ''-'' \<and> c \<noteq> CHR ''+'' \<and> c \<noteq> CHR ''_'' \<and>
          \<not> char_between CHR ''A'' CHR ''Z'' c \<and> \<not> char_between CHR ''a'' CHR ''z'' c
      then False else client_version_loop digit_seen cs)"

definition is_client_version :: "string \<Rightarrow> bool" where
  "is_client_version v =
     (if v = [] \<or> kMaximumClientVersionCharacters < length v then False
      else client_version_loop False v)"

definition common_usage_fields_valid :: "string \<Rightarrow> string \<Rightarrow> u32 \<Rightarrow> u64 \<Rightarrow> bool" where
  "common_usage_fields_valid entitlement_id pair_id protocol_version revocation_version \<longleftrightarrow>
     is_nonzero_lower_hex entitlement_id kHex128Characters \<and>
     is_nonzero_lower_hex pair_id kHex128Characters \<and>
     protocol_version = kUsageAuthorizationProtocolVersion \<and> 0 < revocation_version"

section \<open>The JSON writer\<close>

definition kHex :: string where "kHex = ''0123456789abcdef''"

definition escape_char :: "char \<Rightarrow> string" where
  "escape_char c =
     (if c = CHR 0x22 then [CHR 0x5C, CHR 0x22]
      else if c = CHR 0x5C then [CHR 0x5C, CHR 0x5C]
      else if c = CHR 0x08 then [CHR 0x5C, CHR ''b'']
      else if c = CHR 0x0C then [CHR 0x5C, CHR ''f'']
      else if c = CHR 0x0A then [CHR 0x5C, CHR ''n'']
      else if c = CHR 0x0D then [CHR 0x5C, CHR ''r'']
      else if c = CHR 0x09 then [CHR 0x5C, CHR ''t'']
      else if of_char c < (0x20 :: nat)
        then [CHR 0x5C, CHR ''u'', CHR ''0'', CHR ''0'', kHex ! (of_char c div 16 mod 16),
              kHex ! (of_char c mod 16)]
      else [c])"

definition quoted :: "string \<Rightarrow> string" where
  "quoted v = [CHR 0x22] @ concat (map escape_char v) @ [CHR 0x22]"

text \<open>\<^verbatim>\<open>std::to_chars\<close> of an unsigned integer in base ten.\<close>

fun to_chars :: "nat \<Rightarrow> string" where
  "to_chars n = (if n < 10 then [char_of (48 + n)]
     else to_chars (n div 10) @ [char_of (48 + n mod 10)])"

declare to_chars.simps [simp del]

definition append_string_field :: "string \<Rightarrow> string \<Rightarrow> string \<Rightarrow> bool \<Rightarrow> string" where
  "append_string_field destination key v first =
     (let destination = (if \<not> first then destination @ [CHR '','' ] else destination)
      in destination @ quoted key @ [CHR '':''] @ quoted v)"

definition append_unsigned_field :: "string \<Rightarrow> string \<Rightarrow> u64 \<Rightarrow> bool \<Rightarrow> string" where
  "append_unsigned_field destination key v first =
     (let destination = (if \<not> first then destination @ [CHR '',''] else destination)
      in destination @ quoted key @ [CHR '':''] @ to_chars (unat v))"

definition append_boolean_field :: "string \<Rightarrow> string \<Rightarrow> bool \<Rightarrow> bool \<Rightarrow> string" where
  "append_boolean_field destination key v first =
     (let destination = (if \<not> first then destination @ [CHR '',''] else destination)
      in destination @ quoted key @ [CHR '':''] @ (if v then ''true'' else ''false''))"

section \<open>The payload builders\<close>

definition build_activation_confirmation_payload ::
  "activation_confirmation_proof \<Rightarrow> string option" where
  "build_activation_confirmation_payload pr =
     (if \<not> is_activation_target_valid (ac_activation_mode pr) (ac_target_entitlement_id pr) \<or>
         \<not> is_client_version (ac_android_client_version pr) \<or>
         \<not> is_device_code (ac_android_device_code pr) \<or>
         \<not> is_nonzero_lower_hex (ac_android_device_profile_sha256 pr) kSha256Characters \<or>
         \<not> is_nonzero_lower_hex (ac_android_key_sha256 pr) kSha256Characters \<or>
         \<not> is_nonzero_lower_hex (ac_challenge_id pr) kHex128Characters \<or>
         \<not> is_nonzero_lower_hex (ac_challenge_token_sha256 pr) kSha256Characters \<or>
         \<not> is_client_version (ac_host_client_version pr) \<or>
         \<not> is_device_code (ac_host_device_code pr) \<or>
         \<not> is_nonzero_lower_hex (ac_host_key_sha256 pr) kSha256Characters \<or>
         \<not> is_nonzero_lower_hex (ac_pair_id pr) kHex128Characters \<or>
         ac_protocol_version pr \<noteq> kUsageAuthorizationProtocolVersion \<or>
         \<not> is_nonzero_lower_hex (ac_request_id pr) kHex128Characters
      then None
      else
        let payload = ''{'';
            payload = append_string_field payload ''activation_mode'' (ac_activation_mode pr) True;
            payload = append_string_field payload ''android_client_version''
              (ac_android_client_version pr) False;
            payload = append_string_field payload ''android_device_code''
              (ac_android_device_code pr) False;
            payload = append_string_field payload ''android_device_profile_sha256''
              (ac_android_device_profile_sha256 pr) False;
            payload = append_string_field payload ''android_key_sha256''
              (ac_android_key_sha256 pr) False;
            payload = append_string_field payload ''challenge_id'' (ac_challenge_id pr) False;
            payload = append_string_field payload ''challenge_token_sha256''
              (ac_challenge_token_sha256 pr) False;
            payload = append_string_field payload ''domain'' kActivationConfirmDomain False;
            payload = append_string_field payload ''host_client_version''
              (ac_host_client_version pr) False;
            payload = append_string_field payload ''host_device_code''
              (ac_host_device_code pr) False;
            payload = append_string_field payload ''host_key_sha256'' (ac_host_key_sha256 pr) False;
            payload = append_string_field payload ''pair_id'' (ac_pair_id pr) False;
            payload = append_unsigned_field payload ''protocol_version''
              (ucast (ac_protocol_version pr)) False;
            payload = append_string_field payload ''request_id'' (ac_request_id pr) False;
            payload = append_string_field payload ''target_entitlement_id''
              (ac_target_entitlement_id pr) False
        in Some (payload @ ''}''))"

definition build_usage_start_challenge_payload ::
  "usage_start_challenge_proof \<Rightarrow> string option" where
  "build_usage_start_challenge_payload pr =
     (if \<not> common_usage_fields_valid (sc_entitlement_id pr) (sc_pair_id pr)
           (sc_protocol_version pr) (sc_revocation_version pr) \<or>
         \<not> is_nonzero_lower_hex (sc_channel_binding_sha256 pr) kSha256Characters \<or>
         \<not> is_nonzero_lower_hex (sc_request_id pr) kHex128Characters \<or>
         \<not> is_nonzero_lower_hex (sc_request_nonce pr) kHex128Characters
      then None
      else
        let payload = ''{'';
            payload = append_string_field payload ''channel_binding_sha256''
              (sc_channel_binding_sha256 pr) True;
            payload = append_string_field payload ''domain'' kUsageStartChallengeDomain False;
            payload = append_string_field payload ''entitlement_id'' (sc_entitlement_id pr) False;
            payload = append_string_field payload ''pair_id'' (sc_pair_id pr) False;
            payload = append_unsigned_field payload ''protocol_version''
              (ucast (sc_protocol_version pr)) False;
            payload = append_string_field payload ''request_id'' (sc_request_id pr) False;
            payload = append_string_field payload ''request_nonce'' (sc_request_nonce pr) False;
            payload = append_unsigned_field payload ''revocation_version''
              (sc_revocation_version pr) False
        in Some (payload @ ''}''))"

definition build_usage_start_payload ::
  "usage_start_proof \<Rightarrow> string option" where
  "build_usage_start_payload pr =
     (if \<not> common_usage_fields_valid (us_entitlement_id pr) (us_pair_id pr)
           (us_protocol_version pr) (us_revocation_version pr) \<or>
         \<not> us_android_runtime_ready pr \<or>
         \<not> us_host_runtime_ready pr \<or>
         \<not> is_nonzero_lower_hex (us_channel_binding_sha256 pr) kSha256Characters \<or>
         \<not> is_nonzero_lower_hex (us_request_id pr) kHex128Characters \<or>
         \<not> is_nonzero_lower_hex (us_request_nonce pr) kHex128Characters \<or>
         \<not> is_nonzero_lower_hex (us_start_challenge_id pr) kHex128Characters \<or>
         \<not> is_nonzero_lower_hex (us_start_challenge_token_sha256 pr) kSha256Characters
      then None
      else
        let payload = ''{'';
            payload = append_unsigned_field payload ''android_frames_total''
              (us_android_frames_total pr) True;
            payload = append_boolean_field payload ''android_runtime_ready''
              (us_android_runtime_ready pr) False;
            payload = append_string_field payload ''channel_binding_sha256''
              (us_channel_binding_sha256 pr) False;
            payload = append_string_field payload ''domain'' kUsageStartDomain False;
            payload = append_string_field payload ''entitlement_id'' (us_entitlement_id pr) False;
            payload = append_unsigned_field payload ''host_frames_total''
              (us_host_frames_total pr) False;
            payload = append_boolean_field payload ''host_runtime_ready''
              (us_host_runtime_ready pr) False;
            payload = append_string_field payload ''pair_id'' (us_pair_id pr) False;
            payload = append_unsigned_field payload ''protocol_version''
              (ucast (us_protocol_version pr)) False;
            payload = append_string_field payload ''request_id'' (us_request_id pr) False;
            payload = append_string_field payload ''request_nonce'' (us_request_nonce pr) False;
            payload = append_unsigned_field payload ''revocation_version''
              (us_revocation_version pr) False;
            payload = append_string_field payload ''start_challenge_id''
              (us_start_challenge_id pr) False;
            payload = append_string_field payload ''start_challenge_token_sha256''
              (us_start_challenge_token_sha256 pr) False
        in Some (payload @ ''}''))"

definition build_usage_start_cancel_payload ::
  "usage_start_cancel_proof \<Rightarrow> string option" where
  "build_usage_start_cancel_payload pr =
     (if \<not> common_usage_fields_valid (ca_entitlement_id pr) (ca_pair_id pr)
           (ca_protocol_version pr) (ca_revocation_version pr) \<or>
         \<not> is_nonzero_lower_hex (ca_channel_binding_sha256 pr) kSha256Characters \<or>
         \<not> is_nonzero_lower_hex (ca_request_id pr) kHex128Characters \<or>
         \<not> is_nonzero_lower_hex (ca_request_nonce pr) kHex128Characters \<or>
         \<not> is_nonzero_lower_hex (ca_start_request_id pr) kHex128Characters
      then None
      else
        let payload = ''{'';
            payload = append_string_field payload ''channel_binding_sha256''
              (ca_channel_binding_sha256 pr) True;
            payload = append_string_field payload ''domain'' kUsageStartCancelDomain False;
            payload = append_string_field payload ''entitlement_id'' (ca_entitlement_id pr) False;
            payload = append_string_field payload ''pair_id'' (ca_pair_id pr) False;
            payload = append_unsigned_field payload ''protocol_version''
              (ucast (ca_protocol_version pr)) False;
            payload = append_string_field payload ''request_id'' (ca_request_id pr) False;
            payload = append_string_field payload ''request_nonce'' (ca_request_nonce pr) False;
            payload = append_unsigned_field payload ''revocation_version''
              (ca_revocation_version pr) False;
            payload = append_string_field payload ''start_request_id''
              (ca_start_request_id pr) False
        in Some (payload @ ''}''))"

definition build_usage_heartbeat_payload ::
  "usage_heartbeat_proof \<Rightarrow> string option" where
  "build_usage_heartbeat_payload pr =
     (if \<not> common_usage_fields_valid (hb_entitlement_id pr) (hb_pair_id pr)
           (hb_protocol_version pr) (hb_revocation_version pr) \<or>
         hb_sequence pr = 0 \<or>
         \<not> is_nonzero_lower_hex (hb_channel_binding_sha256 pr) kSha256Characters \<or>
         \<not> is_nonzero_lower_hex (hb_previous_lease_sha256 pr) kSha256Characters \<or>
         \<not> is_nonzero_lower_hex (hb_request_id pr) kHex128Characters \<or>
         \<not> is_nonzero_lower_hex (hb_request_nonce pr) kHex128Characters \<or>
         \<not> is_nonzero_lower_hex (hb_session_id pr) kHex128Characters
      then None
      else
        let payload = ''{'';
            payload = append_unsigned_field payload ''android_frames_total''
              (hb_android_frames_total pr) True;
            payload = append_string_field payload ''channel_binding_sha256''
              (hb_channel_binding_sha256 pr) False;
            payload = append_string_field payload ''domain'' kUsageHeartbeatDomain False;
            payload = append_string_field payload ''entitlement_id'' (hb_entitlement_id pr) False;
            payload = append_unsigned_field payload ''host_frames_total''
              (hb_host_frames_total pr) False;
            payload = append_string_field payload ''pair_id'' (hb_pair_id pr) False;
            payload = append_string_field payload ''previous_lease_sha256''
              (hb_previous_lease_sha256 pr) False;
            payload = append_unsigned_field payload ''protocol_version''
              (ucast (hb_protocol_version pr)) False;
            payload = append_string_field payload ''request_id'' (hb_request_id pr) False;
            payload = append_string_field payload ''request_nonce'' (hb_request_nonce pr) False;
            payload = append_unsigned_field payload ''revocation_version''
              (hb_revocation_version pr) False;
            payload = append_unsigned_field payload ''sequence'' (hb_sequence pr) False;
            payload = append_string_field payload ''session_id'' (hb_session_id pr) False
        in Some (payload @ ''}''))"

definition build_usage_stop_payload ::
  "usage_stop_proof \<Rightarrow> string option" where
  "build_usage_stop_payload pr =
     (if \<not> common_usage_fields_valid (st_entitlement_id pr) (st_pair_id pr)
           (st_protocol_version pr) (st_revocation_version pr) \<or>
         \<not> is_nonzero_lower_hex (st_channel_binding_sha256 pr) kSha256Characters \<or>
         \<not> is_nonzero_lower_hex (st_previous_lease_sha256 pr) kSha256Characters \<or>
         \<not> is_nonzero_lower_hex (st_request_id pr) kHex128Characters \<or>
         \<not> is_nonzero_lower_hex (st_request_nonce pr) kHex128Characters \<or>
         \<not> is_nonzero_lower_hex (st_session_id pr) kHex128Characters
      then None
      else
        let payload = ''{'';
            payload = append_string_field payload ''channel_binding_sha256''
              (st_channel_binding_sha256 pr) True;
            payload = append_string_field payload ''domain'' kUsageStopDomain False;
            payload = append_string_field payload ''entitlement_id'' (st_entitlement_id pr) False;
            payload = append_string_field payload ''pair_id'' (st_pair_id pr) False;
            payload = append_string_field payload ''previous_lease_sha256''
              (st_previous_lease_sha256 pr) False;
            payload = append_unsigned_field payload ''protocol_version''
              (ucast (st_protocol_version pr)) False;
            payload = append_string_field payload ''request_id'' (st_request_id pr) False;
            payload = append_string_field payload ''request_nonce'' (st_request_nonce pr) False;
            payload = append_unsigned_field payload ''revocation_version''
              (st_revocation_version pr) False;
            payload = append_string_field payload ''session_id'' (st_session_id pr) False
        in Some (payload @ ''}''))"

definition build_entitlement_status_payload ::
  "entitlement_status_proof \<Rightarrow> string option" where
  "build_entitlement_status_payload pr =
     (if \<not> common_usage_fields_valid (es_entitlement_id pr) (es_pair_id pr)
           (es_protocol_version pr) (es_revocation_version pr) \<or>
         \<not> is_nonzero_lower_hex (es_request_nonce pr) kHex128Characters
      then None
      else
        let payload = ''{'';
            payload = append_string_field payload ''domain'' kEntitlementStatusDomain True;
            payload = append_string_field payload ''entitlement_id'' (es_entitlement_id pr) False;
            payload = append_string_field payload ''pair_id'' (es_pair_id pr) False;
            payload = append_unsigned_field payload ''protocol_version''
              (ucast (es_protocol_version pr)) False;
            payload = append_string_field payload ''request_nonce'' (es_request_nonce pr) False;
            payload = append_unsigned_field payload ''revocation_version''
              (es_revocation_version pr) False
        in Some (payload @ ''}''))"

section \<open>The writer is uniquely readable\<close>

text \<open>A reader for one JSON string literal, the inverse of \<open>quoted\<close> without its first quote.\<close>

definition hex_digit :: "char \<Rightarrow> nat" where
  "hex_digit c = (if of_char c < (58 :: nat) then of_char c - 48 else of_char c - 87)"

definition unescape :: "char \<Rightarrow> char" where
  "unescape e =
     (if e = CHR ''b'' then CHR 0x08 else if e = CHR ''f'' then CHR 0x0C
      else if e = CHR ''n'' then CHR 0x0A else if e = CHR ''r'' then CHR 0x0D
      else if e = CHR ''t'' then CHR 0x09 else e)"

fun read_literal :: "string \<Rightarrow> (string \<times> string) option" where
  "read_literal [] = None"
| "read_literal (c # cs) =
     (if c = CHR 0x22 then Some ([], cs)
      else if c = CHR 0x5C then
        (case cs of
           [] \<Rightarrow> None
         | e # r \<Rightarrow>
             if e = CHR ''u'' then
               (case r of
                  a # b # x # y # r' \<Rightarrow>
                    map_option (apfst ((#) (char_of (16 * hex_digit x + hex_digit y)))) (read_literal r')
                | _ \<Rightarrow> None)
             else map_option (apfst ((#) (unescape e))) (read_literal r))
      else map_option (apfst ((#) c)) (read_literal cs))"

lemma hex_digit_kHex: "k < 16 \<Longrightarrow> hex_digit (kHex ! k) = k"
proof -
  have "list_all (\<lambda>k. hex_digit (kHex ! k) = k) [0..<16]" by code_simp
  then show "k < 16 \<Longrightarrow> ?thesis" by (simp add: list_all_iff)
qed

lemma char_of_hex:
  assumes "of_char c < (32 :: nat)"
  shows "char_of (16 * (of_char c div 16 mod 16) + of_char c mod 16 :: nat) = c"
proof -
  have "of_char c div 16 mod 16 = (of_char c div 16 :: nat)" using assms by simp
  then show ?thesis by (simp only: mult_div_mod_eq char_of_char)
qed

lemma read_literal_escape:
  "read_literal (escape_char c @ cs) = map_option (apfst ((#) c)) (read_literal cs)"
proof (cases "c \<in> set [CHR 0x22, CHR 0x5C, CHR 0x08, CHR 0x0C, CHR 0x0A, CHR 0x0D, CHR 0x09]")
  case True
  then show ?thesis by (auto simp: escape_char_def unescape_def)
next
  case False
  show ?thesis
  proof (cases "of_char c < (32 :: nat)")
    case True
    then have "escape_char c = [CHR 0x5C, CHR ''u'', CHR ''0'', CHR ''0'',
        kHex ! (of_char c div 16 mod 16), kHex ! (of_char c mod 16)]"
      using False by (simp add: escape_char_def)
    then show ?thesis using char_of_hex [OF True] by (simp add: hex_digit_kHex)
  next
    case plain: False
    then have "escape_char c = [c]" using False by (simp add: escape_char_def)
    then show ?thesis using False by simp
  qed
qed

lemma read_literal_escaped: "read_literal (concat (map escape_char v) @ CHR 0x22 # r) = Some (v, r)"
  by (induction v) (simp_all add: read_literal_escape)

lemma quoted_unique:
  assumes "quoted v @ r = quoted v' @ r'"
  shows "v = v' \<and> r = r'"
proof -
  have "read_literal (concat (map escape_char v) @ CHR 0x22 # r) =
      read_literal (concat (map escape_char v') @ CHR 0x22 # r')"
    using assms by (simp add: quoted_def)
  then show ?thesis by (simp add: read_literal_escaped)
qed

definition is_digit :: "char \<Rightarrow> bool" where
  "is_digit c \<longleftrightarrow> of_char c \<in> {48..57 :: nat}"

definition digits_value :: "string \<Rightarrow> nat" where
  "digits_value cs = foldl (\<lambda>a c. 10 * a + (of_char c - 48)) 0 cs"

lemma to_chars_digits: "list_all is_digit (to_chars n)"
proof (induction n rule: to_chars.induct)
  case (1 n)
  have "n mod 10 < 10" by simp
  with 1 show ?case by (subst to_chars.simps) (auto simp: is_digit_def [of "char_of _"])
qed

lemma to_chars_value: "digits_value (to_chars n) = n"
proof (induction n rule: to_chars.induct)
  case (1 n)
  then show ?case
    by (subst to_chars.simps) (auto simp: digits_value_def)
qed

lemma to_chars_nonempty: "to_chars n \<noteq> []"
  by (subst to_chars.simps) simp

lemma to_chars_unique:
  assumes "to_chars n @ r = to_chars m @ r'" "r \<noteq> []" "\<not> is_digit (hd r)" "r' \<noteq> []" "\<not> is_digit (hd r')"
  shows "n = m \<and> r = r'"
proof -
  have "takeWhile is_digit (to_chars k @ t) = to_chars k" if "t \<noteq> []" "\<not> is_digit (hd t)" for k t
    using to_chars_digits [of k] that by (cases t) (auto simp: list_all_iff)
  from this [OF assms(2,3)] this [OF assms(4,5)] assms(1) have "to_chars n = to_chars m" by metis
  then show ?thesis using assms(1) to_chars_value by (metis same_append_eq)
qed

section \<open>Canonical objects\<close>

datatype json_value = JString string | JUnsigned u64 | JBoolean bool

type_synonym json_field = "string \<times> json_value"

fun render_value :: "json_value \<Rightarrow> string" where
  "render_value (JString v) = quoted v"
| "render_value (JUnsigned v) = to_chars (unat v)"
| "render_value (JBoolean v) = (if v then ''true'' else ''false'')"

fun render_fields :: "bool \<Rightarrow> json_field list \<Rightarrow> string" where
  "render_fields first [] = ''}''"
| "render_fields first ((key, v) # members) =
     (if first then [] else '','') @ quoted key @ '':'' @ render_value v @ render_fields False members"

definition json_object :: "json_field list \<Rightarrow> string" where
  "json_object members = ''{'' @ render_fields True members"

lemma render_fields_end:
  "render_fields False members \<noteq> [] \<and> hd (render_fields False members) \<in> {CHR '','', CHR ''}''}"
  by (cases members) auto

lemma hd_quoted [simp]: "quoted v \<noteq> []" "hd (quoted v @ r) = CHR 0x22"
  by (simp_all add: quoted_def)

lemma not_digits: "\<not> is_digit CHR 0x22" "\<not> is_digit CHR ''t''" "\<not> is_digit CHR ''f''"
  by (simp_all add: is_digit_def)

lemma hd_to_chars: "is_digit (hd (to_chars n @ r))"
  using to_chars_digits [of n] to_chars_nonempty [of n] by (cases "to_chars n") auto

lemma render_value_unique:
  assumes "render_value v @ r = render_value v' @ r'"
    and "r \<noteq> []" "hd r \<in> {CHR '','', CHR ''}''}" "r' \<noteq> []" "hd r' \<in> {CHR '','', CHR ''}''}"
  shows "v = v' \<and> r = r'"
proof -
  have nd: "\<not> is_digit (hd r)" "\<not> is_digit (hd r')" using assms(3,5) by (auto simp: is_digit_def)
  have hds: "hd (render_value v @ r) = hd (render_value v' @ r')" using assms(1) by simp
  show ?thesis
  proof (cases v; cases v')
    fix a b assume "v = JString a" "v' = JString b"
    then show ?thesis using quoted_unique [of a r b r'] assms(1) by simp
  next
    fix a b assume "v = JUnsigned a" "v' = JUnsigned b"
    then show ?thesis
      using to_chars_unique [OF _ assms(2) nd(1) assms(4) nd(2), of "unat a" "unat b"] assms(1)
      by (simp add: word_unat_eq_iff)
  next
    fix a b assume "v = JBoolean a" "v' = JBoolean b"
    then show ?thesis using assms(1) by (auto split: if_splits)
  next
    fix a b assume "v = JString a" "v' = JUnsigned b"
    then show ?thesis using hds hd_to_chars [of "unat b" r'] not_digits by (auto split: if_splits)
  next
    fix a b assume "v = JUnsigned a" "v' = JString b"
    then show ?thesis using hds hd_to_chars [of "unat a" r] not_digits by (auto split: if_splits)
  next
    fix a b assume "v = JUnsigned a" "v' = JBoolean b"
    then show ?thesis using hds hd_to_chars [of "unat a" r] not_digits by (auto split: if_splits)
  next
    fix a b assume "v = JBoolean a" "v' = JUnsigned b"
    then show ?thesis using hds hd_to_chars [of "unat b" r'] not_digits by (auto split: if_splits)
  qed (use hds in \<open>auto split: if_splits\<close>)
qed

lemma render_fields_unique: "render_fields b fs = render_fields b gs \<Longrightarrow> fs = gs"
proof (induction b fs arbitrary: gs rule: render_fields.induct)
  case (1 b)
  then show ?case by (cases gs) (auto simp: quoted_def split: if_splits)
next
  case (2 b key v fs)
  from "2.prems" obtain key' v' gs' where gs: "gs = (key', v') # gs'"
    by (cases gs) (auto simp: quoted_def split: if_splits)
  then have "quoted key @ '':'' @ render_value v @ render_fields False fs =
      quoted key' @ '':'' @ render_value v' @ render_fields False gs'"
    using "2.prems" by (auto split: if_splits)
  from quoted_unique [OF this] have key: "key = key'"
    and rest: "render_value v @ render_fields False fs = render_value v' @ render_fields False gs'"
    by simp_all
  from render_value_unique [OF rest] render_fields_end [of fs] render_fields_end [of gs']
  have "v = v'" "render_fields False fs = render_fields False gs'" by auto
  with "2.IH" key gs show ?case by blast
qed

lemma json_object_unique: "json_object fs = json_object gs \<Longrightarrow> fs = gs"
  using render_fields_unique by (simp add: json_object_def)

section \<open>The statements as field lists\<close>

definition ac_fields :: "activation_confirmation_proof \<Rightarrow> json_field list" where
  "ac_fields pr =
     [(''activation_mode'', JString (ac_activation_mode pr)),
      (''android_client_version'', JString (ac_android_client_version pr)),
      (''android_device_code'', JString (ac_android_device_code pr)),
      (''android_device_profile_sha256'', JString (ac_android_device_profile_sha256 pr)),
      (''android_key_sha256'', JString (ac_android_key_sha256 pr)),
      (''challenge_id'', JString (ac_challenge_id pr)),
      (''challenge_token_sha256'', JString (ac_challenge_token_sha256 pr)),
      (''domain'', JString kActivationConfirmDomain),
      (''host_client_version'', JString (ac_host_client_version pr)),
      (''host_device_code'', JString (ac_host_device_code pr)),
      (''host_key_sha256'', JString (ac_host_key_sha256 pr)),
      (''pair_id'', JString (ac_pair_id pr)),
      (''protocol_version'', JUnsigned (ucast (ac_protocol_version pr))),
      (''request_id'', JString (ac_request_id pr)),
      (''target_entitlement_id'', JString (ac_target_entitlement_id pr))]"

definition sc_fields :: "usage_start_challenge_proof \<Rightarrow> json_field list" where
  "sc_fields pr =
     [(''channel_binding_sha256'', JString (sc_channel_binding_sha256 pr)),
      (''domain'', JString kUsageStartChallengeDomain),
      (''entitlement_id'', JString (sc_entitlement_id pr)),
      (''pair_id'', JString (sc_pair_id pr)),
      (''protocol_version'', JUnsigned (ucast (sc_protocol_version pr))),
      (''request_id'', JString (sc_request_id pr)),
      (''request_nonce'', JString (sc_request_nonce pr)),
      (''revocation_version'', JUnsigned (sc_revocation_version pr))]"

definition us_fields :: "usage_start_proof \<Rightarrow> json_field list" where
  "us_fields pr =
     [(''android_frames_total'', JUnsigned (us_android_frames_total pr)),
      (''android_runtime_ready'', JBoolean (us_android_runtime_ready pr)),
      (''channel_binding_sha256'', JString (us_channel_binding_sha256 pr)),
      (''domain'', JString kUsageStartDomain),
      (''entitlement_id'', JString (us_entitlement_id pr)),
      (''host_frames_total'', JUnsigned (us_host_frames_total pr)),
      (''host_runtime_ready'', JBoolean (us_host_runtime_ready pr)),
      (''pair_id'', JString (us_pair_id pr)),
      (''protocol_version'', JUnsigned (ucast (us_protocol_version pr))),
      (''request_id'', JString (us_request_id pr)),
      (''request_nonce'', JString (us_request_nonce pr)),
      (''revocation_version'', JUnsigned (us_revocation_version pr)),
      (''start_challenge_id'', JString (us_start_challenge_id pr)),
      (''start_challenge_token_sha256'', JString (us_start_challenge_token_sha256 pr))]"

definition ca_fields :: "usage_start_cancel_proof \<Rightarrow> json_field list" where
  "ca_fields pr =
     [(''channel_binding_sha256'', JString (ca_channel_binding_sha256 pr)),
      (''domain'', JString kUsageStartCancelDomain),
      (''entitlement_id'', JString (ca_entitlement_id pr)),
      (''pair_id'', JString (ca_pair_id pr)),
      (''protocol_version'', JUnsigned (ucast (ca_protocol_version pr))),
      (''request_id'', JString (ca_request_id pr)),
      (''request_nonce'', JString (ca_request_nonce pr)),
      (''revocation_version'', JUnsigned (ca_revocation_version pr)),
      (''start_request_id'', JString (ca_start_request_id pr))]"

definition hb_fields :: "usage_heartbeat_proof \<Rightarrow> json_field list" where
  "hb_fields pr =
     [(''android_frames_total'', JUnsigned (hb_android_frames_total pr)),
      (''channel_binding_sha256'', JString (hb_channel_binding_sha256 pr)),
      (''domain'', JString kUsageHeartbeatDomain),
      (''entitlement_id'', JString (hb_entitlement_id pr)),
      (''host_frames_total'', JUnsigned (hb_host_frames_total pr)),
      (''pair_id'', JString (hb_pair_id pr)),
      (''previous_lease_sha256'', JString (hb_previous_lease_sha256 pr)),
      (''protocol_version'', JUnsigned (ucast (hb_protocol_version pr))),
      (''request_id'', JString (hb_request_id pr)),
      (''request_nonce'', JString (hb_request_nonce pr)),
      (''revocation_version'', JUnsigned (hb_revocation_version pr)),
      (''sequence'', JUnsigned (hb_sequence pr)),
      (''session_id'', JString (hb_session_id pr))]"

definition st_fields :: "usage_stop_proof \<Rightarrow> json_field list" where
  "st_fields pr =
     [(''channel_binding_sha256'', JString (st_channel_binding_sha256 pr)),
      (''domain'', JString kUsageStopDomain),
      (''entitlement_id'', JString (st_entitlement_id pr)),
      (''pair_id'', JString (st_pair_id pr)),
      (''previous_lease_sha256'', JString (st_previous_lease_sha256 pr)),
      (''protocol_version'', JUnsigned (ucast (st_protocol_version pr))),
      (''request_id'', JString (st_request_id pr)),
      (''request_nonce'', JString (st_request_nonce pr)),
      (''revocation_version'', JUnsigned (st_revocation_version pr)),
      (''session_id'', JString (st_session_id pr))]"

definition es_fields :: "entitlement_status_proof \<Rightarrow> json_field list" where
  "es_fields pr =
     [(''domain'', JString kEntitlementStatusDomain),
      (''entitlement_id'', JString (es_entitlement_id pr)),
      (''pair_id'', JString (es_pair_id pr)),
      (''protocol_version'', JUnsigned (ucast (es_protocol_version pr))),
      (''request_nonce'', JString (es_request_nonce pr)),
      (''revocation_version'', JUnsigned (es_revocation_version pr))]"

datatype usage_statement =
    Activation activation_confirmation_proof
  | Start_Challenge usage_start_challenge_proof
  | Start usage_start_proof
  | Start_Cancel usage_start_cancel_proof
  | Heartbeat usage_heartbeat_proof
  | Stop usage_stop_proof
  | Entitlement_Status entitlement_status_proof

fun signed_payload :: "usage_statement \<Rightarrow> string option" where
  "signed_payload (Activation pr) = build_activation_confirmation_payload pr"
| "signed_payload (Start_Challenge pr) = build_usage_start_challenge_payload pr"
| "signed_payload (Start pr) = build_usage_start_payload pr"
| "signed_payload (Start_Cancel pr) = build_usage_start_cancel_payload pr"
| "signed_payload (Heartbeat pr) = build_usage_heartbeat_payload pr"
| "signed_payload (Stop pr) = build_usage_stop_payload pr"
| "signed_payload (Entitlement_Status pr) = build_entitlement_status_payload pr"

fun statement_members :: "usage_statement \<Rightarrow> json_field list" where
  "statement_members (Activation pr) = ac_fields pr"
| "statement_members (Start_Challenge pr) = sc_fields pr"
| "statement_members (Start pr) = us_fields pr"
| "statement_members (Start_Cancel pr) = ca_fields pr"
| "statement_members (Heartbeat pr) = hb_fields pr"
| "statement_members (Stop pr) = st_fields pr"
| "statement_members (Entitlement_Status pr) = es_fields pr"

fun statement_domain :: "usage_statement \<Rightarrow> string" where
  "statement_domain (Activation pr) = kActivationConfirmDomain"
| "statement_domain (Start_Challenge pr) = kUsageStartChallengeDomain"
| "statement_domain (Start pr) = kUsageStartDomain"
| "statement_domain (Start_Cancel pr) = kUsageStartCancelDomain"
| "statement_domain (Heartbeat pr) = kUsageHeartbeatDomain"
| "statement_domain (Stop pr) = kUsageStopDomain"
| "statement_domain (Entitlement_Status pr) = kEntitlementStatusDomain"

lemmas writer_defs = append_string_field_def append_unsigned_field_def append_boolean_field_def
  json_object_def

lemmas field_defs = ac_fields_def sc_fields_def us_fields_def ca_fields_def hb_fields_def
  st_fields_def es_fields_def

lemma payload_of_fields: "signed_payload p = Some s \<Longrightarrow> s = json_object (statement_members p)"
proof (cases p)
  case (Activation pr)
  then show "signed_payload p = Some s \<Longrightarrow> ?thesis"
    by (simp add: build_activation_confirmation_payload_def writer_defs ac_fields_def Let_def
        split: if_splits)
next
  case (Start_Challenge pr)
  then show "signed_payload p = Some s \<Longrightarrow> ?thesis"
    by (simp add: build_usage_start_challenge_payload_def writer_defs sc_fields_def Let_def
        split: if_splits)
next
  case (Start pr)
  then show "signed_payload p = Some s \<Longrightarrow> ?thesis"
    by (simp add: build_usage_start_payload_def writer_defs us_fields_def Let_def
        split: if_splits)
next
  case (Start_Cancel pr)
  then show "signed_payload p = Some s \<Longrightarrow> ?thesis"
    by (simp add: build_usage_start_cancel_payload_def writer_defs ca_fields_def Let_def
        split: if_splits)
next
  case (Heartbeat pr)
  then show "signed_payload p = Some s \<Longrightarrow> ?thesis"
    by (simp add: build_usage_heartbeat_payload_def writer_defs hb_fields_def Let_def
        split: if_splits)
next
  case (Stop pr)
  then show "signed_payload p = Some s \<Longrightarrow> ?thesis"
    by (simp add: build_usage_stop_payload_def writer_defs st_fields_def Let_def
        split: if_splits)
next
  case (Entitlement_Status pr)
  then show "signed_payload p = Some s \<Longrightarrow> ?thesis"
    by (simp add: build_entitlement_status_payload_def writer_defs es_fields_def Let_def
        split: if_splits)
qed

lemma ucast_32_64_inject: "(ucast a :: u64) = ucast b \<longleftrightarrow> a = b" for a b :: u32
  by transfer (simp add: take_bit_eq_mod)

lemma members_domain: "map_of (statement_members p) ''domain'' = Some (JString (statement_domain p))"
  by (cases p) (simp_all add: field_defs)

lemma domains_differ:
  "statement_domain p = statement_domain q \<Longrightarrow> (case p of
      Activation _ \<Rightarrow> \<exists>r. q = Activation r | Start_Challenge _ \<Rightarrow> \<exists>r. q = Start_Challenge r
    | Start _ \<Rightarrow> \<exists>r. q = Start r | Start_Cancel _ \<Rightarrow> \<exists>r. q = Start_Cancel r
    | Heartbeat _ \<Rightarrow> \<exists>r. q = Heartbeat r | Stop _ \<Rightarrow> \<exists>r. q = Stop r
    | Entitlement_Status _ \<Rightarrow> \<exists>r. q = Entitlement_Status r)"
  by (cases p; cases q)
     (simp_all add: kActivationConfirmDomain_def kUsageStartChallengeDomain_def kUsageStartDomain_def
       kUsageStartCancelDomain_def kUsageHeartbeatDomain_def kUsageStopDomain_def
       kEntitlementStatusDomain_def)

lemma members_inject:
  assumes "statement_members p = statement_members q"
  shows "p = q"
proof -
  have "statement_domain p = statement_domain q"
    using assms members_domain [of p] members_domain [of q] by simp
  from domains_differ [OF this] assms show ?thesis
    by (cases p) (auto simp: field_defs ucast_32_64_inject)
qed

text \<open>
  C40. The bytes both machines sign determine what they state: if two statements, of the same or of
  different kinds, are accepted by their builders and give the same payload, they are the same
  statement, field by field. In particular a signature made for one purpose is never valid bytes
  for another.
\<close>

theorem signed_payload_unambiguous:
  "signed_payload p = Some s \<Longrightarrow> signed_payload q = Some s \<Longrightarrow> p = q"
  by (metis payload_of_fields json_object_unique members_inject)

text \<open>A concrete accepted statement.\<close>

definition example_status :: entitlement_status_proof where
  "example_status =
     \<lparr>es_entitlement_id = replicate 32 CHR ''a'', es_pair_id = replicate 32 CHR ''b'',
      es_protocol_version = 2, es_request_nonce = replicate 32 CHR ''c'',
      es_revocation_version = 7\<rparr>"

lemma lower_hex_replicate: "c \<in> {CHR ''a'', CHR ''b'', CHR ''c''} \<Longrightarrow> is_nonzero_lower_hex (replicate 32 c) 32"
  by (auto simp: is_nonzero_lower_hex_def numeral_eq_Suc char_between_def)

lemma example_status_accepted:
  "signed_payload (Entitlement_Status example_status) =
     Some (json_object (statement_members (Entitlement_Status example_status)))"
proof -
  have "signed_payload (Entitlement_Status example_status) \<noteq> None"
    by (simp add: build_entitlement_status_payload_def common_usage_fields_valid_def example_status_def
        kHex128Characters_def kUsageAuthorizationProtocolVersion_def lower_hex_replicate Let_def)
  then show ?thesis using payload_of_fields by blast
qed

theorem signed_payload_unambiguous_witness:
  "signed_payload (Entitlement_Status example_status) \<noteq>
     signed_payload (Entitlement_Status (example_status\<lparr>es_revocation_version := 8\<rparr>))"
proof
  assume eq: "signed_payload (Entitlement_Status example_status) =
     signed_payload (Entitlement_Status (example_status\<lparr>es_revocation_version := 8\<rparr>))"
  from signed_payload_unambiguous [OF example_status_accepted example_status_accepted [unfolded eq]]
  show False by (simp add: example_status_def)
qed

text \<open>Keys are compared as the byte strings they are.\<close>

definition key_less :: "string \<Rightarrow> string \<Rightarrow> bool" where
  "key_less a b \<longleftrightarrow> (map of_char a, map of_char b) \<in> lexord {(x :: nat, y). x < y}"

text \<open>
  Every accepted statement is written as one canonical JSON object without white space: its
  keys are in strictly increasing lexicographic order, as the server's canonical form requires,
  its domain member is the one of its kind, and every string member reads back to the value it
  was written from.
\<close>

theorem signed_payload_canonical:
  assumes "signed_payload p = Some s"
  shows "s = json_object (statement_members p) \<and>
    sorted_wrt key_less (map fst (statement_members p)) \<and>
    map_of (statement_members p) ''domain'' = Some (JString (statement_domain p)) \<and>
    read_literal (tl (quoted v) @ rest) = Some (v, rest)"
proof -
  have "sorted_wrt key_less (map fst (statement_members p))"
    by (cases p) (simp_all add: field_defs key_less_def)
  moreover have "read_literal (tl (quoted v) @ rest) = Some (v, rest)"
    by (simp add: quoted_def read_literal_escaped)
  ultimately show ?thesis using payload_of_fields [OF assms] members_domain [of p] by blast
qed

theorem signed_payload_canonical_witness:
  "map_of (statement_members (Entitlement_Status example_status)) ''domain'' =
     Some (JString kEntitlementStatusDomain)"
  using signed_payload_canonical [OF example_status_accepted] by simp

end
