(* ===== verification/Core_Wire.thy ===== *)
theory Core_Wire
  imports Wire_Codec
begin

text \<open>
  The sender side of the end-to-end core library (\<^verbatim>\<open>e2e_core\<close>): the 20-byte wire header
  (\<^verbatim>\<open>src/wire_protocol.cpp\<close>), the transport contract that names a header's violation
  (\<^verbatim>\<open>src/video_transport_contract.cpp\<close>), the frame identity
  (\<^verbatim>\<open>include/vf/host/domain/frame_identity.hpp\<close>) and the datagram fragmenter
  (\<^verbatim>\<open>src/host/infrastructure/datagram_fragmenter.cpp\<close>). A thrown exception is the left summand of
  the result, by the exception's class.
\<close>

datatype core_error =
  Invalid_Argument | Length_Error | Logic_Error | Overflow_Error

section \<open>Constants and data\<close>

definition kWireHeaderSize :: nat where [const_defs]: "kWireHeaderSize = 20"
definition kDataMagic :: bytes where "kDataMagic = [0x56, 0x46, 0x32, 0x47]"
definition kRepeatMagic :: bytes where "kRepeatMagic = [0x56, 0x46, 0x32, 0x52]"
definition kVideoPayloadBytes :: nat where [const_defs]: "kVideoPayloadBytes = 1344"
definition kMaxAccessUnitBytes :: nat where [const_defs]: "kMaxAccessUnitBytes = 2 * 1024 * 1024"
definition kMaxFragments :: u16 where
  "kMaxFragments = of_nat ((kMaxAccessUnitBytes + kVideoPayloadBytes - 1) div kVideoPayloadBytes)"
definition kMaxStreamEpoch :: u64 where "kMaxStreamEpoch = 0x7FFFFFFFFFFFFFFF"

lemma kMaxFragments_eq: "kMaxFragments = 1561" "unat kMaxFragments = 1561"
  by (simp_all add: kMaxFragments_def const_defs)

datatype packet_kind = Data | Repeat

record wire_header =
  wh_kind :: packet_kind
  wh_stream_epoch :: u64
  wh_frame_sequence :: u32
  wh_fragment_index :: u16
  wh_fragment_count :: u16

definition wire_header_valid :: "wire_header \<Rightarrow> bool" where
  "wire_header_valid h =
     (if wh_stream_epoch h = 0 \<or> kMaxStreamEpoch < wh_stream_epoch h \<or> wh_fragment_count h = 0 \<or>
         kMaxFragments < wh_fragment_count h then False
      else if wh_fragment_count h \<le> wh_fragment_index h then False
      else if wh_kind h = Repeat \<and> (wh_fragment_index h \<noteq> 0 \<or> wh_fragment_count h \<noteq> 1) then False
      else True)"

section \<open>The header codec\<close>

definition read_u16 :: "bytes \<Rightarrow> nat \<Rightarrow> u16" where
  "read_u16 input offset = (push_bit 8 (ucast (input ! offset)) OR ucast (input ! (offset + 1)))"

definition read_u32 :: "bytes \<Rightarrow> nat \<Rightarrow> u32" where
  "read_u32 input offset = load_indices input offset 0 [0..<4]"

definition read_u64 :: "bytes \<Rightarrow> nat \<Rightarrow> u64" where
  "read_u64 input offset = load_indices input offset 0 [0..<8]"

definition write_u16 :: "bytes \<Rightarrow> nat \<Rightarrow> u16 \<Rightarrow> bytes" where
  "write_u16 buffer offset v = (buffer[offset := ucast (drop_bit 8 v)])[offset + 1 := ucast v]"

text \<open>The loops that store the low byte last-position first and shift the value down.\<close>

fun write_down :: "bytes \<Rightarrow> nat \<Rightarrow> 'a::len word \<Rightarrow> nat list \<Rightarrow> bytes" where
  "write_down buffer offset v [] = buffer"
| "write_down buffer offset v (i # is) =
     write_down (buffer[offset + i := ucast v]) offset (drop_bit 8 v) is"

definition write_u32 :: "bytes \<Rightarrow> nat \<Rightarrow> u32 \<Rightarrow> bytes" where
  "write_u32 buffer offset v = write_down buffer offset v [3, 2, 1, 0]"

definition write_u64 :: "bytes \<Rightarrow> nat \<Rightarrow> u64 \<Rightarrow> bytes" where
  "write_u64 buffer offset v = write_down buffer offset v [7, 6, 5, 4, 3, 2, 1, 0]"

definition parse_wire_header :: "bytes \<Rightarrow> wire_header option" where
  "parse_wire_header input =
     (if length input < kWireHeaderSize then None
      else
        let read = (\<lambda>kind. \<lparr>wh_kind = kind, wh_stream_epoch = read_u64 input 4,
              wh_frame_sequence = read_u32 input 12, wh_fragment_index = read_u16 input 16,
              wh_fragment_count = read_u16 input 18\<rparr>)
        in if take (length kDataMagic) input = kDataMagic then
             (if wire_header_valid (read Data) then Some (read Data) else None)
           else if take (length kRepeatMagic) input = kRepeatMagic then
             (if wire_header_valid (read Repeat) then Some (read Repeat) else None)
           else None)"

definition serialize_wire_header :: "wire_header \<Rightarrow> core_error + bytes" where
  "serialize_wire_header h =
     (if \<not> wire_header_valid h then Inl Invalid_Argument
      else
        let buffer = replicate kWireHeaderSize 0;
            magic = (if wh_kind h = Data then kDataMagic else kRepeatMagic);
            buffer = copy_into buffer 0 magic;
            buffer = write_u64 buffer 4 (wh_stream_epoch h);
            buffer = write_u32 buffer 12 (wh_frame_sequence h);
            buffer = write_u16 buffer 16 (wh_fragment_index h);
            buffer = write_u16 buffer 18 (wh_fragment_count h)
        in Inr buffer)"

definition packet_kind_name :: "packet_kind \<Rightarrow> string" where
  "packet_kind_name kind = (if kind = Data then ''data'' else ''repeat'')"

section \<open>The transport contract\<close>

definition kProtocolVersion :: u32 where "kProtocolVersion = 2"
definition kMinimumStreamEpoch :: u64 where "kMinimumStreamEpoch = 1"
definition kMaximumStreamEpoch :: u64 where "kMaximumStreamEpoch = kMaxStreamEpoch"
definition kMaximumFrameSequence :: u32 where "kMaximumFrameSequence = - 1"
definition kMaximumFragmentCount :: u16 where "kMaximumFragmentCount = kMaxFragments"
definition kHeaderBytes :: nat where "kHeaderBytes = kWireHeaderSize"

datatype contract_violation =
    No_Violation | ZeroEpoch | EpochOutOfRange | ZeroFragmentCount | TooManyFragments
  | FragmentIndexOutOfRange | RepeatShapeInvalid

definition requires_epoch_rollover :: "u32 \<Rightarrow> bool" where
  "requires_epoch_rollover sequence \<longleftrightarrow> sequence = kMaximumFrameSequence"

definition transport_validate :: "wire_header \<Rightarrow> contract_violation" where
  "transport_validate h =
     (if wh_stream_epoch h < kMinimumStreamEpoch then ZeroEpoch
      else if kMaximumStreamEpoch < wh_stream_epoch h then EpochOutOfRange
      else if wh_fragment_count h = 0 then ZeroFragmentCount
      else if kMaximumFragmentCount < wh_fragment_count h then TooManyFragments
      else if wh_fragment_count h \<le> wh_fragment_index h then FragmentIndexOutOfRange
      else if wh_kind h = Repeat \<and> (wh_fragment_index h \<noteq> 0 \<or> wh_fragment_count h \<noteq> 1)
      then RepeatShapeInvalid
      else No_Violation)"

fun violation_name :: "contract_violation \<Rightarrow> string" where
  "violation_name No_Violation = ''NONE''"
| "violation_name ZeroEpoch = ''ZERO_EPOCH''"
| "violation_name EpochOutOfRange = ''EPOCH_OUT_OF_RANGE''"
| "violation_name ZeroFragmentCount = ''ZERO_FRAGMENT_COUNT''"
| "violation_name TooManyFragments = ''TOO_MANY_FRAGMENTS''"
| "violation_name FragmentIndexOutOfRange = ''FRAGMENT_INDEX_OUT_OF_RANGE''"
| "violation_name RepeatShapeInvalid = ''REPEAT_SHAPE_INVALID''"

section \<open>Frame identities and the fragmenter\<close>

record frame_identity =
  fi_stream_epoch :: u64
  fi_frame_sequence :: u32

definition frame_identity_valid :: "frame_identity \<Rightarrow> bool" where
  "frame_identity_valid i \<longleftrightarrow> 0 < fi_stream_epoch i \<and> fi_stream_epoch i \<le> kMaxStreamEpoch"

definition newer_than :: "frame_identity \<Rightarrow> frame_identity \<Rightarrow> bool" where
  "newer_than i j \<longleftrightarrow> fi_stream_epoch j < fi_stream_epoch i \<or>
     (fi_stream_epoch i = fi_stream_epoch j \<and> fi_frame_sequence j < fi_frame_sequence i)"

definition kMaximumUdpDatagramBytes :: nat where [const_defs]: "kMaximumUdpDatagramBytes = 65507"

record fragmentation_config =
  max_datagram_bytes :: nat
  cfg_max_fragments :: u16
  cfg_max_access_unit_bytes :: nat

text \<open>The default member initializers of \<^verbatim>\<open>FragmentationConfig\<close>.\<close>

definition default_fragmentation_config :: fragmentation_config where
  "default_fragmentation_config =
     \<lparr>max_datagram_bytes = 1200, cfg_max_fragments = kMaxFragments,
      cfg_max_access_unit_bytes = 2 * 1024 * 1024\<rparr>"

definition payload_capacity :: "fragmentation_config \<Rightarrow> nat" where
  "payload_capacity config = max_datagram_bytes config - kWireHeaderSize"

text \<open>The constructor: the fragmenter is its configuration, once that is accepted.\<close>

definition make_fragmenter :: "fragmentation_config \<Rightarrow> core_error + fragmentation_config" where
  "make_fragmenter config =
     (if max_datagram_bytes config \<le> kWireHeaderSize \<or>
         kMaximumUdpDatagramBytes < max_datagram_bytes config \<or>
         cfg_max_fragments config = 0 \<or> kMaxFragments < cfg_max_fragments config \<or>
         cfg_max_access_unit_bytes config = 0 \<or>
         payload_capacity config * unat (cfg_max_fragments config) <
           cfg_max_access_unit_bytes config
      then Inl Invalid_Argument else Inr config)"

text \<open>One round of the loop, and the loop over the remaining indices.\<close>

definition fragment_datagram :: "fragmentation_config \<Rightarrow> frame_identity \<Rightarrow> bytes \<Rightarrow> u16 \<Rightarrow> u16 \<Rightarrow>
    core_error + bytes" where
  "fragment_datagram config ident access_unit fragment_count index =
     (let offset = unat index * payload_capacity config;
          payload_bytes = min (payload_capacity config) (length access_unit - offset);
          header = \<lparr>wh_kind = Data, wh_stream_epoch = fi_stream_epoch ident,
            wh_frame_sequence = fi_frame_sequence ident, wh_fragment_index = index,
            wh_fragment_count = fragment_count\<rparr>
      in if transport_validate header \<noteq> No_Violation then Inl Logic_Error
         else case serialize_wire_header header of
                Inl e \<Rightarrow> Inl e
              | Inr encoded \<Rightarrow> Inr (encoded @ take payload_bytes (drop offset access_unit)))"

fun datagram_loop :: "fragmentation_config \<Rightarrow> frame_identity \<Rightarrow> bytes \<Rightarrow> u16 \<Rightarrow> nat list \<Rightarrow>
    core_error + bytes list" where
  "datagram_loop config ident access_unit fragment_count [] = Inr []"
| "datagram_loop config ident access_unit fragment_count (index # indices) =
     (case fragment_datagram config ident access_unit fragment_count (of_nat index) of
        Inl e \<Rightarrow> Inl e
      | Inr datagram \<Rightarrow>
          (case datagram_loop config ident access_unit fragment_count indices of
             Inl e \<Rightarrow> Inl e
           | Inr datagrams \<Rightarrow> Inr (datagram # datagrams)))"

definition datagram_fragment ::
  "fragmentation_config \<Rightarrow> frame_identity \<Rightarrow> bytes \<Rightarrow> core_error + bytes list" where
  "datagram_fragment config ident access_unit =
     (if \<not> frame_identity_valid ident \<or> access_unit = [] then Inl Invalid_Argument
      else if cfg_max_access_unit_bytes config < length access_unit then Inl Length_Error
      else
        let capacity = payload_capacity config;
            fragment_count_size = (length access_unit - 1) div capacity + 1
        in if fragment_count_size = 0 \<or> unat (cfg_max_fragments config) < fragment_count_size \<or>
              65535 < fragment_count_size
           then Inl Length_Error
           else datagram_loop config ident access_unit (of_nat fragment_count_size)
                  [0..<fragment_count_size])"

definition datagram_repeat :: "frame_identity \<Rightarrow> core_error + bytes" where
  "datagram_repeat ident =
     (if \<not> frame_identity_valid ident then Inl Invalid_Argument
      else serialize_wire_header
        \<lparr>wh_kind = Repeat, wh_stream_epoch = fi_stream_epoch ident,
         wh_frame_sequence = fi_frame_sequence ident, wh_fragment_index = 0,
         wh_fragment_count = 1\<rparr>)"

section \<open>The field routines\<close>

lemma write_down_eq:
  fixes v :: "'a::len word"
  assumes "offset + n \<le> length buffer"
  shows "write_down buffer offset v (rev [0..<n]) = copy_into buffer offset (be_bytes n v)"
  using assms
proof (induction n arbitrary: v buffer)
  case 0
  then show ?case by (simp add: copy_into_def)
next
  case (Suc n)
  then show ?case
    by (simp add: copy_into_def be_bytes_Suc_snoc list_update_append_mid take_Suc_conv_app_nth
        min_def)
qed

lemma write_u16_eq: "write_u16 = store_u16"
  by (intro ext) (simp add: write_u16_def store_u16_def)

lemma write_u32_eq:
  "offset + 4 \<le> length buffer \<Longrightarrow> write_u32 buffer offset v = copy_into buffer offset (be_bytes 4 v)"
  using write_down_eq [of offset 4 buffer v] by (simp add: write_u32_def upt_widths)

lemma write_u64_eq:
  "offset + 8 \<le> length buffer \<Longrightarrow> write_u64 buffer offset v = copy_into buffer offset (be_bytes 8 v)"
  using write_down_eq [of offset 8 buffer v] by (simp add: write_u64_def upt_widths)

lemma read_eqs: "read_u16 = get_u16" "read_u32 = get_u32" "read_u64 = get_u64"
  by (intro ext; simp add: read_u16_def get_u16_def read_u32_def get_u32_def read_u64_def
      get_u64_def upt_widths)+

interpretation c16: fixed_field write_u16 read_u16 2 "be_bytes 2"
  unfolding write_u16_eq read_eqs by unfold_locales

interpretation c32: fixed_field write_u32 read_u32 4 "be_bytes 4"
  unfolding read_eqs
  by unfold_locales (simp_all add: write_u32_eq f32.load_image f32.image_inj)

interpretation c64: fixed_field write_u64 read_u64 8 "be_bytes 8"
  unfolding read_eqs
  by unfold_locales (simp_all add: write_u64_eq f64.load_image f64.image_inj)

section \<open>The header codec is canonical\<close>

definition kind_magic :: "packet_kind \<Rightarrow> bytes" where
  "kind_magic kind = (if kind = Data then kDataMagic else kRepeatMagic)"

definition wire_image :: "wire_header \<Rightarrow> bytes" where
  "wire_image h = kind_magic (wh_kind h) @ be_bytes 8 (wh_stream_epoch h) @
     be_bytes 4 (wh_frame_sequence h) @ be_bytes 2 (wh_fragment_index h) @
     be_bytes 2 (wh_fragment_count h)"

lemma length_kind_magic [simp]: "length (kind_magic kind) = 4"
  by (simp add: kind_magic_def kDataMagic_def kRepeatMagic_def)

lemma length_wire_image [simp]: "length (wire_image h) = 20"
  by (simp add: wire_image_def)

lemma serialize_eq:
  "serialize_wire_header h = (if wire_header_valid h then Inr (wire_image h) else Inl Invalid_Argument)"
  using length_kind_magic [of "wh_kind h"]
  by (simp add: serialize_wire_header_def wire_image_def kWireHeaderSize_def Let_def
      write_u16_eq store_u16_eq write_u32_eq write_u64_eq copy_into_def kind_magic_def [symmetric])

definition read_header :: "packet_kind \<Rightarrow> bytes \<Rightarrow> wire_header" where
  "read_header kind input =
     \<lparr>wh_kind = kind, wh_stream_epoch = read_u64 input 4, wh_frame_sequence = read_u32 input 12,
      wh_fragment_index = read_u16 input 16, wh_fragment_count = read_u16 input 18\<rparr>"

lemma parse_eq:
  "parse_wire_header input = Some h \<longleftrightarrow> 20 \<le> length input \<and> wire_header_valid h \<and>
     take 4 input = kind_magic (wh_kind h) \<and> h = read_header (wh_kind h) input"
proof -
  have kinds: "k = Data \<or> k = Repeat" for k by (cases k) auto
  have "kDataMagic \<noteq> kRepeatMagic" "length kDataMagic = 4" "length kRepeatMagic = 4"
    by (simp_all add: kDataMagic_def kRepeatMagic_def)
  then show ?thesis
    using kinds [of "wh_kind h"]
    by (auto simp: parse_wire_header_def kWireHeaderSize_def kind_magic_def read_header_def Let_def
        split: if_splits)
qed

lemma read_header_image: "read_header (wh_kind h) (wire_image h @ rest) = h"
proof -
  let ?i = "wire_image h @ rest"
  let ?m = "kind_magic (wh_kind h)" and ?e = "be_bytes 8 (wh_stream_epoch h)"
    and ?s = "be_bytes 4 (wh_frame_sequence h)" and ?x = "be_bytes 2 (wh_fragment_index h)"
  have "read_u64 ?i 4 = wh_stream_epoch h"
    by (rule c64.load_at [where pre = ?m]) (simp_all add: wire_image_def)
  moreover have "read_u32 ?i 12 = wh_frame_sequence h"
    by (rule c32.load_at [where pre = "?m @ ?e"]) (simp_all add: wire_image_def)
  moreover have "read_u16 ?i 16 = wh_fragment_index h"
    by (rule c16.load_at [where pre = "?m @ ?e @ ?s"]) (simp_all add: wire_image_def)
  moreover have "read_u16 ?i 18 = wh_fragment_count h"
    by (rule c16.load_at [where pre = "?m @ ?e @ ?s @ ?x"]) (simp_all add: wire_image_def)
  ultimately show ?thesis by (simp add: read_header_def)
qed

lemma image_read_header:
  assumes "20 \<le> length input" and "take 4 input = kind_magic kind"
  shows "wire_image (read_header kind input) = take 20 input"
proof -
  have split: "take 20 input = take 4 (drop 0 input) @ take 8 (drop 4 input)
      @ take 4 (drop 12 input) @ take 2 (drop 16 input) @ take 2 (drop 18 input)"
    by (simp flip: take_add append_assoc add: drop_drop)
  show ?thesis
    unfolding split wire_image_def read_header_def
    using assms by (simp add: c16.load_image c32.load_image c64.load_image)
qed

lemma parse_image: "wire_header_valid h \<Longrightarrow> parse_wire_header (wire_image h @ rest) = Some h"
  unfolding parse_eq by (simp add: read_header_image) (simp add: wire_image_def)

lemma validate_iff_valid: "transport_validate h = No_Violation \<longleftrightarrow> wire_header_valid h"
  by (auto simp: transport_validate_def wire_header_valid_def kMinimumStreamEpoch_def
      kMaximumStreamEpoch_def kMaximumFragmentCount_def split: if_splits)

text \<open>
  The wire-header parser of the core library accepts exactly the datagrams that begin with the
  serialization of the header it returns, and a header can be serialized exactly when the
  transport contract finds no violation in it.
\<close>

theorem wire_header_canonical:
  "(parse_wire_header input = Some h \<longleftrightarrow>
      (\<exists>encoded rest. serialize_wire_header h = Inr encoded \<and> input = encoded @ rest)) \<and>
   ((\<exists>encoded. serialize_wire_header h = Inr encoded) \<longleftrightarrow> transport_validate h = No_Violation)"
proof -
  have "parse_wire_header input = Some h \<longleftrightarrow> wire_header_valid h \<and> (\<exists>rest. input = wire_image h @ rest)"
  proof
    assume p: "parse_wire_header input = Some h"
    then have "take 20 input = wire_image h" unfolding parse_eq using image_read_header by metis
    then show "wire_header_valid h \<and> (\<exists>rest. input = wire_image h @ rest)"
      using p append_take_drop_id [of 20 input] unfolding parse_eq by metis
  qed (auto simp: parse_image)
  then show ?thesis by (auto simp: serialize_eq validate_iff_valid)
qed

section \<open>The fragmenter\<close>

lemma make_fragmenter_Inr:
  assumes "make_fragmenter config = Inr f"
  shows "f = config" "0 < payload_capacity f" "0 < unat (cfg_max_fragments f)"
    "unat (cfg_max_fragments f) \<le> 1561"
    "cfg_max_access_unit_bytes f \<le> payload_capacity f * unat (cfg_max_fragments f)"
    "kWireHeaderSize + payload_capacity f = max_datagram_bytes f"
proof -
  have ok: "f = config" "kWireHeaderSize < max_datagram_bytes config" "cfg_max_fragments config \<noteq> 0"
    "cfg_max_fragments config \<le> kMaxFragments"
    "cfg_max_access_unit_bytes config \<le> payload_capacity config * unat (cfg_max_fragments config)"
    using assms by (auto simp: make_fragmenter_def not_less not_le split: if_splits)
  then show "f = config" "0 < payload_capacity f" "0 < unat (cfg_max_fragments f)"
    "unat (cfg_max_fragments f) \<le> 1561"
    "cfg_max_access_unit_bytes f \<le> payload_capacity f * unat (cfg_max_fragments f)"
    "kWireHeaderSize + payload_capacity f = max_datagram_bytes f"
    using kMaxFragments_eq
    by (simp_all add: payload_capacity_def word_le_nat_alt unat_gt_0)
qed

definition data_header :: "frame_identity \<Rightarrow> nat \<Rightarrow> nat \<Rightarrow> wire_header" where
  "data_header ident n k =
     \<lparr>wh_kind = Data, wh_stream_epoch = fi_stream_epoch ident,
      wh_frame_sequence = fi_frame_sequence ident, wh_fragment_index = of_nat k,
      wh_fragment_count = of_nat n\<rparr>"

definition nth_datagram :: "nat \<Rightarrow> frame_identity \<Rightarrow> bytes \<Rightarrow> nat \<Rightarrow> nat \<Rightarrow> bytes" where
  "nth_datagram capacity ident access_unit n k =
     wire_image (data_header ident n k) @ take capacity (drop (k * capacity) access_unit)"

lemma data_header_valid:
  assumes "frame_identity_valid ident" "k < n" "n \<le> 1561"
  shows "wire_header_valid (data_header ident n k)"
proof -
  have "unat (of_nat n :: u16) = n" "unat (of_nat k :: u16) = k"
    using assms by (simp_all add: unat_of_nat_small)
  then show ?thesis
    using assms kMaxFragments_eq
    by (simp add: wire_header_valid_def data_header_def frame_identity_valid_def word_le_nat_alt
        word_less_nat_alt not_less unat_eq_zero [symmetric] del: unat_eq_zero)
qed

lemma fragment_datagram_eq:
  assumes "frame_identity_valid ident" "k < n" "n \<le> 1561"
  shows "fragment_datagram config ident au (of_nat n) (of_nat k) =
    Inr (nth_datagram (payload_capacity config) ident au n k)"
proof -
  have "unat (of_nat k :: u16) = k" using assms by (simp add: unat_of_nat_small)
  moreover have "take (min c (length au - d)) (drop d au) = take c (drop d au)" for c d
    by (cases "c \<le> length au - d") (simp_all add: min_def)
  ultimately show ?thesis
    using data_header_valid [OF assms]
    by (simp add: fragment_datagram_def data_header_def [symmetric] validate_iff_valid serialize_eq
        nth_datagram_def Let_def)
qed

lemma datagram_loop_eq:
  assumes "frame_identity_valid ident" "n \<le> 1561" "\<forall>k \<in> set ks. k < n"
  shows "datagram_loop config ident au (of_nat n) ks =
    Inr (map (nth_datagram (payload_capacity config) ident au n) ks)"
  using assms(3) by (induction ks) (simp_all add: fragment_datagram_eq [OF assms(1) _ assms(2)])

lemma datagram_fragment_eq:
  assumes "make_fragmenter config = Inr f" and "frame_identity_valid ident"
    and "au \<noteq> []" and "length au \<le> cfg_max_access_unit_bytes f"
  defines "n \<equiv> (length au - 1) div payload_capacity f + 1"
  shows "datagram_fragment f ident au = Inr (map (nth_datagram (payload_capacity f) ident au n) [0..<n])"
    "n \<le> unat (cfg_max_fragments f)"
proof -
  note f = make_fragmenter_Inr [OF assms(1)]
  have "length au \<le> unat (cfg_max_fragments f) * payload_capacity f"
    using assms(4) f(5) by (simp add: mult.commute)
  then have "length au - 1 < unat (cfg_max_fragments f) * payload_capacity f" using assms(3) by (cases au) auto
  then show n: "n \<le> unat (cfg_max_fragments f)"
    by (simp add: n_def div_less_iff_less_mult f(2) Suc_leI)
  show "datagram_fragment f ident au = Inr (map (nth_datagram (payload_capacity f) ident au n) [0..<n])"
    using assms(2-4) n f(4) datagram_loop_eq [of ident n "[0..<n]" f au]
    unfolding datagram_fragment_def Let_def n_def [symmetric] by (simp add: not_less) (simp add: n_def)
qed

text \<open>
  A fragmenter whose configuration was accepted never fails on an access unit within its
  limit: it returns datagrams within the datagram limit whose headers parse to the frame's
  identity with index and count, and whose payloads, none of them empty, concatenate to the unit.
\<close>

theorem datagram_fragment_total:
  assumes "make_fragmenter config = Inr f" and "frame_identity_valid ident"
    and "au \<noteq> []" and "length au \<le> cfg_max_access_unit_bytes f"
  shows "\<exists>ds. datagram_fragment f ident au = Inr ds \<and> concat (map (drop kWireHeaderSize) ds) = au \<and>
    (\<forall>k < length ds. parse_wire_header (ds ! k) = Some (data_header ident (length ds) k) \<and>
       kWireHeaderSize < length (ds ! k) \<and> length (ds ! k) \<le> max_datagram_bytes f)"
proof -
  note f = make_fragmenter_Inr [OF assms(1)]
  let ?c = "payload_capacity f"
  define n where "n = (length au - 1) div ?c + 1"
  define ds where "ds = map (nth_datagram ?c ident au n) [0..<n]"
  have run: "datagram_fragment f ident au = Inr ds" and n: "n \<le> unat (cfg_max_fragments f)"
    using datagram_fragment_eq [OF assms] by (simp_all add: n_def ds_def)
  have cover: "length au \<le> n * ?c"
    using dividend_less_div_times [OF f(2), of "length au - 1"] by (simp add: n_def)
  have full: "k * ?c < length au" if "k < n" for k
    using that assms(3) f(2) by (simp add: n_def less_Suc_eq_le less_eq_div_iff_mult_less_eq)
      (cases au; simp)
  have "concat (map (drop kWireHeaderSize) ds) = concat (map (\<lambda>k. take ?c (drop (k * ?c) au)) [0..<n])"
    by (simp add: ds_def nth_datagram_def kWireHeaderSize_def comp_def)
  then have cc: "concat (map (drop kWireHeaderSize) ds) = au" using cover by (simp add: concat_slices)
  have "parse_wire_header (ds ! k) = Some (data_header ident (length ds) k) \<and>
       kWireHeaderSize < length (ds ! k) \<and> length (ds ! k) \<le> max_datagram_bytes f" if "k < length ds" for k
    using that data_header_valid [OF assms(2), of k n] n f(2,4,6) full [of k]
    by (simp add: ds_def nth_datagram_def parse_image kWireHeaderSize_def)
  with run cc show ?thesis by blast
qed

definition small_config :: fragmentation_config where
  "small_config = \<lparr>max_datagram_bytes = 22, cfg_max_fragments = 4, cfg_max_access_unit_bytes = 8\<rparr>"

theorem datagram_fragment_total_witness:
  "\<exists>ds. datagram_fragment small_config \<lparr>fi_stream_epoch = 3, fi_frame_sequence = 5\<rparr> [1, 2, 3] = Inr ds \<and>
     concat (map (drop kWireHeaderSize) ds) = [1, 2, 3]"
proof -
  have mk: "make_fragmenter small_config = Inr small_config"
    by (simp add: make_fragmenter_def small_config_def payload_capacity_def const_defs kMaxFragments_eq)
  have "frame_identity_valid \<lparr>fi_stream_epoch = 3, fi_frame_sequence = 5\<rparr>"
    by (simp add: frame_identity_valid_def kMaxStreamEpoch_def)
  from datagram_fragment_total [OF mk this, of "[1, 2, 3]"] show ?thesis
    by (auto simp: small_config_def)
qed

text \<open>
  The default configuration is refused by the fragmenter's own constructor: 1561 fragments of
  1180 bytes do not hold the 2 MiB access unit the same defaults promise, so a fragmenter, or a
  host runtime built on it, that is constructed without an explicit configuration throws.
\<close>

theorem default_config_refused:
  "make_fragmenter default_fragmentation_config = Inl Invalid_Argument"
  by (simp add: make_fragmenter_def default_fragmentation_config_def payload_capacity_def const_defs
      kMaxFragments_eq)

end
