(* ===== verification/Core_Reassembly.thy ===== *)
theory Core_Reassembly
  imports Core_Wire
begin

text \<open>
  The receiver side of the end-to-end core library: \<^verbatim>\<open>vf::AccessUnitReassembler\<close>
  (\<^verbatim>\<open>e2e_core/include/vf/reassembly.hpp\<close>, \<^verbatim>\<open>e2e_core/src/reassembly.cpp\<close>), which assembles frames of
  the committed stream epoch and of at most one candidate epoch. The ordered map of frames is an
  association list; a loop that erases while iterating is \<open>erase_loop\<close>. A
  \<^verbatim>\<open>steady_clock::time_point\<close> is an integer number of nanoseconds.
\<close>

type_synonym time_point = int

definition milliseconds :: "int \<Rightarrow> int" where
  "milliseconds n = n * 1000000"

section \<open>Data\<close>

record reassembly_config =
  rc_max_inflight_frames :: nat
  rc_max_total_bytes :: nat
  rc_max_access_unit_bytes :: nat
  rc_frame_timeout :: int
  rc_retired_epoch_capacity :: nat

definition default_reassembly_config :: reassembly_config where
  "default_reassembly_config =
     \<lparr>rc_max_inflight_frames = 16, rc_max_total_bytes = 8 * 1024 * 1024,
      rc_max_access_unit_bytes = 2 * 1024 * 1024, rc_frame_timeout = 500,
      rc_retired_epoch_capacity = 8\<rparr>"

datatype ingest_code =
    Accepted | Complete | IngestDuplicate | Conflict | IngestInvalid | RetiredEpoch | ResourceLimit
  | CandidateRejected | GapDetected | IngestRepeat

record ingest_result =
  ir_code :: ingest_code
  ir_stream_epoch :: u64
  ir_frame_sequence :: u32
  ir_access_unit :: bytes
  ir_requires_epoch_commit :: bool

type_synonym frame_key = "u64 \<times> u32"

record core_frame =
  cf_fragment_count :: u16
  cf_fragments :: "bytes option list"
  cf_received_fragments :: u16
  cf_bytes :: nat
  cf_created_at :: time_point

record core_reassembler =
  cr_config :: reassembly_config
  cr_current_epoch :: "u64 option"
  cr_candidate_epoch :: "u64 option"
  cr_candidate_ready :: bool
  cr_frames :: "(frame_key \<times> core_frame) list"
  cr_total_bytes :: nat
  cr_gap_detected :: bool

definition make_core_reassembler :: "reassembly_config \<Rightarrow> core_error + core_reassembler" where
  "make_core_reassembler config =
     (if rc_max_inflight_frames config = 0 \<or> rc_max_total_bytes config = 0 \<or>
         rc_max_access_unit_bytes config = 0 \<or> rc_retired_epoch_capacity config = 0 \<or>
         rc_frame_timeout config \<le> 0 \<or>
         rc_max_total_bytes config < rc_max_access_unit_bytes config
      then Inl Invalid_Argument
      else Inr \<lparr>cr_config = config, cr_current_epoch = None, cr_candidate_epoch = None,
                cr_candidate_ready = False, cr_frames = [], cr_total_bytes = 0,
                cr_gap_detected = False\<rparr>)"

section \<open>Epochs and erasure\<close>

definition cr_is_retired :: "u64 \<Rightarrow> core_reassembler \<Rightarrow> bool" where
  "cr_is_retired epoch r \<longleftrightarrow> (case cr_current_epoch r of None \<Rightarrow> False | Some c \<Rightarrow> epoch < c)"

definition cr_is_candidate :: "u64 \<Rightarrow> core_reassembler \<Rightarrow> bool" where
  "cr_is_candidate epoch r \<longleftrightarrow> (case cr_current_epoch r of None \<Rightarrow> True | Some c \<Rightarrow> c < epoch)"

definition has_frames_for_epoch :: "u64 \<Rightarrow> core_reassembler \<Rightarrow> bool" where
  "has_frames_for_epoch epoch r \<longleftrightarrow> list_ex (\<lambda>(key, f). fst key = epoch) (cr_frames r)"

fun erase_loop :: "(frame_key \<Rightarrow> core_frame \<Rightarrow> bool) \<Rightarrow> (frame_key \<times> core_frame) list \<Rightarrow> nat \<Rightarrow>
    (frame_key \<times> core_frame) list \<times> nat" where
  "erase_loop dead [] bytes_left = ([], bytes_left)"
| "erase_loop dead ((key, f) # rest) bytes_left =
     (if dead key f then erase_loop dead rest (bytes_left - cf_bytes f)
      else let (rest, bytes_left) = erase_loop dead rest bytes_left in ((key, f) # rest, bytes_left))"

definition erase_frames :: "(frame_key \<Rightarrow> core_frame \<Rightarrow> bool) \<Rightarrow> core_reassembler \<Rightarrow> core_reassembler" where
  "erase_frames dead r =
     (let (frames, bytes_left) = erase_loop dead (cr_frames r) (cr_total_bytes r)
      in r\<lparr>cr_frames := frames, cr_total_bytes := bytes_left\<rparr>)"

definition erase_frame :: "frame_key \<Rightarrow> core_reassembler \<Rightarrow> core_reassembler" where
  "erase_frame key r =
     (case map_of (cr_frames r) key of
        None \<Rightarrow> r
      | Some f \<Rightarrow> r\<lparr>cr_total_bytes := cr_total_bytes r - cf_bytes f,
                    cr_frames := AList.delete key (cr_frames r)\<rparr>)"

definition erase_epoch :: "u64 \<Rightarrow> core_reassembler \<Rightarrow> core_reassembler" where
  "erase_epoch epoch r =
     (let r = erase_frames (\<lambda>key f. fst key = epoch) r in
      if cr_candidate_epoch r = Some epoch
      then r\<lparr>cr_candidate_epoch := None, cr_candidate_ready := False\<rparr> else r)"

definition erase_noncurrent_epochs :: "core_reassembler \<Rightarrow> core_reassembler" where
  "erase_noncurrent_epochs r =
     (erase_frames (\<lambda>key f. cr_current_epoch r \<noteq> Some (fst key)) r)
       \<lparr>cr_candidate_epoch := None, cr_candidate_ready := False\<rparr>"

definition erase_older_epochs :: "u64 \<Rightarrow> core_reassembler \<Rightarrow> core_reassembler" where
  "erase_older_epochs epoch r = erase_frames (\<lambda>key f. fst key < epoch) r"

definition discard_inflight :: "core_reassembler \<Rightarrow> core_reassembler" where
  "discard_inflight r = r\<lparr>cr_frames := [], cr_total_bytes := 0, cr_candidate_epoch := None,
     cr_candidate_ready := False\<rparr>"

definition select_candidate_epoch :: "u64 \<Rightarrow> core_reassembler \<Rightarrow> bool \<times> core_reassembler" where
  "select_candidate_epoch epoch r =
     (case cr_candidate_epoch r of
        None \<Rightarrow> (True, r\<lparr>cr_candidate_epoch := Some epoch, cr_candidate_ready := False\<rparr>)
      | Some candidate \<Rightarrow>
          if candidate = epoch then (\<not> cr_candidate_ready r, r)
          else if cr_candidate_ready r \<or> epoch < candidate then (False, r)
          else
            let r = erase_epoch candidate r
            in (True, r\<lparr>cr_candidate_epoch := Some epoch, cr_candidate_ready := False\<rparr>))"

definition frame_expired :: "time_point \<Rightarrow> core_reassembler \<Rightarrow> core_frame \<Rightarrow> bool" where
  "frame_expired now r f \<longleftrightarrow> cf_created_at f \<le> now \<and>
     milliseconds (rc_frame_timeout (cr_config r)) \<le> now - cf_created_at f"

definition cr_expire :: "time_point \<Rightarrow> core_reassembler \<Rightarrow> core_reassembler" where
  "cr_expire now r =
     (let gap = list_ex (\<lambda>(key, f). frame_expired now r f \<and> cr_current_epoch r = Some (fst key))
            (cr_frames r);
          r = erase_frames (\<lambda>key f. frame_expired now r f) r;
          r = (if gap then r\<lparr>cr_gap_detected := True\<rparr> else r)
      in case cr_candidate_epoch r of
           None \<Rightarrow> r
         | Some candidate \<Rightarrow>
             if \<not> cr_candidate_ready r \<and> \<not> has_frames_for_epoch candidate r
             then r\<lparr>cr_candidate_epoch := None\<rparr> else r)"

section \<open>Candidate commit and rejection\<close>

definition reject_candidate_epoch :: "u64 \<Rightarrow> core_reassembler \<Rightarrow> core_reassembler" where
  "reject_candidate_epoch epoch r =
     (if cr_candidate_epoch r \<noteq> Some epoch then r else erase_epoch epoch r)"

definition commit_candidate_epoch :: "u64 \<Rightarrow> core_reassembler \<Rightarrow> bool \<times> core_reassembler" where
  "commit_candidate_epoch epoch r =
     (if cr_candidate_epoch r \<noteq> Some epoch \<or> \<not> cr_candidate_ready r \<or>
         (case cr_current_epoch r of None \<Rightarrow> False | Some c \<Rightarrow> epoch \<le> c)
      then (False, r)
      else
        let r = r\<lparr>cr_current_epoch := Some epoch, cr_candidate_epoch := None,
                  cr_candidate_ready := False\<rparr>;
            r = erase_older_epochs epoch r
        in (True, r\<lparr>cr_gap_detected := False\<rparr>))"

section \<open>Ingest\<close>

definition ingest_reply :: "ingest_code \<Rightarrow> wire_header \<Rightarrow> ingest_result" where
  "ingest_reply code h =
     \<lparr>ir_code = code, ir_stream_epoch = wh_stream_epoch h, ir_frame_sequence = wh_frame_sequence h,
      ir_access_unit = [], ir_requires_epoch_commit = False\<rparr>"

definition candidate_failure :: "wire_header \<Rightarrow> core_reassembler \<Rightarrow> ingest_result \<times> core_reassembler" where
  "candidate_failure h r =
     (ingest_reply CandidateRejected h, reject_candidate_epoch (wh_stream_epoch h) r)"

definition resource_failure ::
  "wire_header \<Rightarrow> bool \<Rightarrow> core_reassembler \<Rightarrow> ingest_result \<times> core_reassembler" where
  "resource_failure h candidate r =
     (if candidate then candidate_failure h r
      else (ingest_reply ResourceLimit h, discard_inflight r))"

definition header_key :: "wire_header \<Rightarrow> frame_key" where
  "header_key h = (wh_stream_epoch h, wh_frame_sequence h)"

text \<open>From the second resource check on: store the payload and deliver a complete frame.\<close>

definition ingest_store :: "wire_header \<Rightarrow> bytes \<Rightarrow> bool \<Rightarrow> core_frame \<Rightarrow> core_reassembler \<Rightarrow>
    ingest_result \<times> core_reassembler" where
  "ingest_store h payload candidate f r =
     (if rc_max_access_unit_bytes (cr_config r) - cf_bytes f < length payload \<or>
         rc_max_total_bytes (cr_config r) - cr_total_bytes r < length payload
      then resource_failure h candidate r
      else
        let f = f\<lparr>cf_fragments := (cf_fragments f)[unat (wh_fragment_index h) := Some payload],
                  cf_received_fragments := cf_received_fragments f + 1,
                  cf_bytes := cf_bytes f + length payload\<rparr>;
            r = r\<lparr>cr_frames := AList.update (header_key h) f (cr_frames r),
                  cr_total_bytes := cr_total_bytes r + length payload\<rparr>
        in if cf_received_fragments f \<noteq> cf_fragment_count f then (ingest_reply Accepted h, r)
           else
             let access_unit = concat (map the (cf_fragments f));
                 r = erase_frame (header_key h) r;
                 r = (if candidate then r\<lparr>cr_candidate_ready := True\<rparr> else r)
             in ((ingest_reply Complete h)\<lparr>ir_access_unit := access_unit,
                   ir_requires_epoch_commit := candidate\<rparr>, r))"

text \<open>From the slot lookup on: the frame of the header's key is in the map.\<close>

definition ingest_slot :: "wire_header \<Rightarrow> bytes \<Rightarrow> bool \<Rightarrow> core_frame \<Rightarrow> core_reassembler \<Rightarrow>
    ingest_result \<times> core_reassembler" where
  "ingest_slot h payload candidate f r =
     (case cf_fragments f ! unat (wh_fragment_index h) of
        Some stored \<Rightarrow>
          if stored = payload then (ingest_reply IngestDuplicate h, r)
          else if candidate then candidate_failure h r
          else (ingest_reply Conflict h, erase_frame (header_key h) r)
      | None \<Rightarrow>
          let r = (if \<not> candidate \<and>
                      rc_max_total_bytes (cr_config r) - cr_total_bytes r < length payload
                   then erase_noncurrent_epochs r else r)
          in ingest_store h payload candidate f r)"

definition new_frame :: "wire_header \<Rightarrow> time_point \<Rightarrow> core_frame" where
  "new_frame h now =
     \<lparr>cf_fragment_count = wh_fragment_count h,
      cf_fragments = replicate (unat (wh_fragment_count h)) None,
      cf_received_fragments = 0, cf_bytes = 0, cf_created_at = now\<rparr>"

text \<open>From the frame lookup on.\<close>

definition ingest_frame :: "wire_header \<Rightarrow> bytes \<Rightarrow> bool \<Rightarrow> time_point \<Rightarrow> core_reassembler \<Rightarrow>
    ingest_result \<times> core_reassembler" where
  "ingest_frame h payload candidate now r =
     (case map_of (cr_frames r) (header_key h) of
        None \<Rightarrow>
          let full = rc_max_inflight_frames (cr_config r) \<le> length (cr_frames r);
              r = (if full \<and> \<not> candidate then erase_noncurrent_epochs r else r)
          in if full \<and> rc_max_inflight_frames (cr_config r) \<le> length (cr_frames r)
             then resource_failure h candidate r
             else
               let f = new_frame h now in
               ingest_slot h payload candidate f
                 (r\<lparr>cr_frames := AList.update (header_key h) f (cr_frames r)\<rparr>)
      | Some f \<Rightarrow>
          if cf_fragment_count f \<noteq> wh_fragment_count h then
            (if candidate then candidate_failure h r
             else (ingest_reply Conflict h, erase_frame (header_key h) r))
          else ingest_slot h payload candidate f r)"

text \<open>From the packet-kind test on.\<close>

definition ingest_kind :: "wire_header \<Rightarrow> bytes \<Rightarrow> time_point \<Rightarrow> core_reassembler \<Rightarrow>
    ingest_result \<times> core_reassembler" where
  "ingest_kind h payload now r =
     (if wh_kind h = Repeat then
        (if payload \<noteq> [] \<or> cr_current_epoch r \<noteq> Some (wh_stream_epoch h)
         then (ingest_reply IngestInvalid h, r) else (ingest_reply IngestRepeat h, r))
      else if payload = [] \<or> rc_max_access_unit_bytes (cr_config r) < length payload
      then (ingest_reply IngestInvalid h, r)
      else
        let candidate = cr_is_candidate (wh_stream_epoch h) r;
            (selected, r) = (if candidate then select_candidate_epoch (wh_stream_epoch h) r
                             else (True, r))
        in if \<not> selected then (ingest_reply CandidateRejected h, r)
           else ingest_frame h payload candidate now r)"

definition ingest :: "wire_header \<Rightarrow> bytes \<Rightarrow> time_point \<Rightarrow> core_reassembler \<Rightarrow>
    ingest_result \<times> core_reassembler" where
  "ingest h payload now r =
     (if \<not> wire_header_valid h
      then (\<lparr>ir_code = IngestInvalid, ir_stream_epoch = 0, ir_frame_sequence = 0,
             ir_access_unit = [], ir_requires_epoch_commit = False\<rparr>, r)
      else
        let r = cr_expire now r in
        if cr_is_retired (wh_stream_epoch h) r then (ingest_reply RetiredEpoch h, r)
        else if cr_gap_detected r \<and> cr_current_epoch r = Some (wh_stream_epoch h)
        then (ingest_reply GapDetected h, discard_inflight (r\<lparr>cr_gap_detected := False\<rparr>))
        else ingest_kind h payload now r)"

section \<open>The invariant\<close>

text \<open>
  \<open>H\<close> is the set of all header-payload pairs handed to \<^verbatim>\<open>ingest\<close>. A stored fragment is one of them,
  under the frame's own key and count and in the slot its header names.
\<close>

definition slot_from :: "(wire_header \<times> bytes) set \<Rightarrow> frame_key \<Rightarrow> u16 \<Rightarrow> nat \<Rightarrow> bytes \<Rightarrow> bool" where
  "slot_from H key n k payload \<longleftrightarrow>
     (\<exists>h. (h, payload) \<in> H \<and> header_key h = key \<and> wh_fragment_count h = n \<and>
        unat (wh_fragment_index h) = k)"

definition stored :: "bytes option list \<Rightarrow> bytes list" where
  "stored slots = List.map_filter id slots"

lemma stored_simps [simp]:
  "stored [] = []" "stored (None # slots) = stored slots" "stored (Some p # slots) = p # stored slots"
  "stored (slots @ slots') = stored slots @ stored slots'"
  by (simp_all add: stored_def List.map_filter_def)

lemma stored_replicate [simp]: "stored (replicate n None) = []"
  by (induction n) simp_all

lemma stored_update:
  assumes "k < length slots" "slots ! k = None"
  shows "length (stored (slots[k := Some p])) = Suc (length (stored slots))"
    "sum_list (map length (stored (slots[k := Some p]))) = sum_list (map length (stored slots)) + length p"
  using assms by (simp_all add: upd_conv_take_nth_drop)
    (metis (no_types, lifting) add.commute append_Cons append_take_drop_id append_Nil
      id_take_nth_drop length_append stored_simps sum_list_append map_append)+

lemma length_stored_le: "length (stored slots) \<le> length slots"
  by (simp add: stored_def List.map_filter_def length_filter_le)

lemma stored_full: "length (stored slots) = length slots \<Longrightarrow> slots = map Some (stored slots)"
proof (induction slots)
  case (Cons s slots)
  then show ?case using length_stored_le [of slots] by (cases s) auto
qed simp

definition core_frame_ok ::
  "(wire_header \<times> bytes) set \<Rightarrow> reassembly_config \<Rightarrow> frame_key \<Rightarrow> core_frame \<Rightarrow> bool" where
  "core_frame_ok H config key f \<longleftrightarrow>
     length (cf_fragments f) = unat (cf_fragment_count f) \<and>
     unat (cf_received_fragments f) = length (stored (cf_fragments f)) \<and>
     cf_received_fragments f < cf_fragment_count f \<and>
     cf_bytes f = sum_list (map length (stored (cf_fragments f))) \<and>
     cf_bytes f \<le> rc_max_access_unit_bytes config \<and>
     (\<forall>k < length (cf_fragments f). \<forall>p. cf_fragments f ! k = Some p \<longrightarrow>
        slot_from H key (cf_fragment_count f) k p)"

definition core_bytes :: "(frame_key \<times> core_frame) list \<Rightarrow> nat" where
  "core_bytes frames = sum_list (map (cf_bytes \<circ> snd) frames)"

definition epochs_ok :: "core_reassembler \<Rightarrow> bool" where
  "epochs_ok r \<longleftrightarrow>
     (\<forall>c e. cr_candidate_epoch r = Some c \<longrightarrow> cr_current_epoch r = Some e \<longrightarrow> e < c) \<and>
     (\<forall>key \<in> fst ` set (cr_frames r).
        cr_current_epoch r = Some (fst key) \<or> cr_candidate_epoch r = Some (fst key))"

definition core_inv :: "(wire_header \<times> bytes) set \<Rightarrow> core_reassembler \<Rightarrow> bool" where
  "core_inv H r \<longleftrightarrow>
     distinct (map fst (cr_frames r)) \<and>
     cr_total_bytes r = core_bytes (cr_frames r) \<and>
     cr_total_bytes r \<le> rc_max_total_bytes (cr_config r) \<and>
     length (cr_frames r) \<le> rc_max_inflight_frames (cr_config r) \<and>
     (\<forall>(key, f) \<in> set (cr_frames r). core_frame_ok H (cr_config r) key f) \<and>
     epochs_ok r"

section \<open>Erasure keeps the invariant\<close>

lemma erase_loop_eq:
  "erase_loop dead frames n =
     (filter (\<lambda>(key, f). \<not> dead key f) frames, n - core_bytes (filter (\<lambda>(key, f). dead key f) frames))"
  by (induction dead frames n rule: erase_loop.induct) (simp_all add: core_bytes_def)

lemma core_bytes_filter:
  "core_bytes frames = core_bytes (filter P frames) + core_bytes (filter (\<lambda>x. \<not> P x) frames)"
  by (induction frames) (simp_all add: core_bytes_def)

lemma erase_frames_eq:
  assumes "cr_total_bytes r = core_bytes (cr_frames r)"
  shows "erase_frames dead r =
    r\<lparr>cr_frames := filter (\<lambda>(key, f). \<not> dead key f) (cr_frames r),
      cr_total_bytes := core_bytes (filter (\<lambda>(key, f). \<not> dead key f) (cr_frames r))\<rparr>"
  using core_bytes_filter [of "cr_frames r" "\<lambda>(key, f). dead key f"]
  by (simp add: erase_frames_def erase_loop_eq assms case_prod_unfold)

lemma core_bytes_filter_le: "core_bytes (filter P frames) \<le> core_bytes frames"
  using core_bytes_filter [of frames P] by simp

lemma core_inv_subset:
  assumes "core_inv H r" and "cr_frames r' = filter P (cr_frames r)"
    and "cr_total_bytes r' = core_bytes (cr_frames r')" and "cr_config r' = cr_config r"
    and "epochs_ok r'"
  shows "core_inv H r'"
  using assms core_bytes_filter_le [of P "cr_frames r"]
    le_trans [OF length_filter_le [of P "cr_frames r"]]
  by (auto simp: core_inv_def distinct_map_filter)

lemma delete_filter: "AList.delete key frames = filter (\<lambda>(k, _). k \<noteq> key) frames"
  by (auto simp: AList.delete_eq intro!: filter_cong)

lemma core_bytes_delete:
  assumes "distinct (map fst frames)" "map_of frames key = Some f"
  shows "core_bytes (AList.delete key frames) = core_bytes frames - cf_bytes f"
    "cf_bytes f \<le> core_bytes frames"
  using assms
proof (induction frames)
  case (Cons kf frames)
  obtain k g where kf: "kf = (k, g)" by fastforce
  {
    case 1
    show ?case
    proof (cases "k = key")
      case True
      then have "AList.delete key frames = frames"
        using 1 kf by (force simp: delete_filter intro: filter_True)
      then show ?thesis using 1 kf True by (simp add: core_bytes_def)
    next
      case False
      then have "map_of frames key = Some f" "distinct (map fst frames)" using 1 kf by auto
      with Cons.IH False kf show ?thesis by (simp add: core_bytes_def)
    qed
  next
    case 2
    show ?case using 2 kf Cons.IH(2) by (cases "k = key") (auto simp: core_bytes_def)
  }
qed simp_all

lemma epochs_ok_filter:
  assumes "epochs_ok r" "cr_frames r' = filter P (cr_frames r)"
    "cr_current_epoch r' = cr_current_epoch r" "cr_candidate_epoch r' = cr_candidate_epoch r"
  shows "epochs_ok r'"
  using assms unfolding epochs_ok_def by (auto simp: image_iff)

lemma core_inv_total: "core_inv H r \<Longrightarrow> cr_total_bytes r = core_bytes (cr_frames r)"
  by (simp add: core_inv_def)

lemma core_inv_epochs: "core_inv H r \<Longrightarrow> epochs_ok r"
  by (simp add: core_inv_def)

lemma erase_frames_inv:
  assumes inv: "core_inv H r"
  shows "core_inv H (erase_frames dead r)"
  by (rule core_inv_subset [OF inv, where P = "\<lambda>(key, f). \<not> dead key f"])
     (auto simp: erase_frames_eq [OF core_inv_total [OF inv]]
       intro: epochs_ok_filter [OF core_inv_epochs [OF inv]])

lemma erase_frames_keeps [simp]:
  "cr_config (erase_frames dead r) = cr_config r"
  "cr_current_epoch (erase_frames dead r) = cr_current_epoch r"
  "cr_candidate_epoch (erase_frames dead r) = cr_candidate_epoch r"
  "cr_candidate_ready (erase_frames dead r) = cr_candidate_ready r"
  "cr_gap_detected (erase_frames dead r) = cr_gap_detected r"
  "cr_frames (erase_frames dead r) = filter (\<lambda>(key, f). \<not> dead key f) (cr_frames r)"
  by (simp_all add: erase_frames_def erase_loop_eq)

lemma erase_frame_eq:
  assumes "core_inv H r" "map_of (cr_frames r) key = Some f"
  shows "erase_frame key r = r\<lparr>cr_frames := AList.delete key (cr_frames r),
      cr_total_bytes := core_bytes (AList.delete key (cr_frames r))\<rparr>"
  using assms core_bytes_delete [of "cr_frames r" key f]
  by (simp add: erase_frame_def core_inv_def)

lemma erase_frame_inv: "core_inv H r \<Longrightarrow> core_inv H (erase_frame key r)"
proof (cases "map_of (cr_frames r) key")
  case (Some f)
  assume inv: "core_inv H r"
  show ?thesis
    by (rule core_inv_subset [OF inv, where P = "\<lambda>(k, _). k \<noteq> key"])
       (auto simp: erase_frame_eq [OF inv Some] delete_filter
         intro: epochs_ok_filter [OF core_inv_epochs [OF inv]])
qed (simp add: erase_frame_def)

lemma erase_frame_keeps [simp]:
  "cr_config (erase_frame key r) = cr_config r"
  "cr_current_epoch (erase_frame key r) = cr_current_epoch r"
  "cr_candidate_epoch (erase_frame key r) = cr_candidate_epoch r"
  by (simp_all add: erase_frame_def split: option.splits)

lemma core_inv_flags [simp]:
  "core_inv H (r\<lparr>cr_gap_detected := b\<rparr>) \<longleftrightarrow> core_inv H r"
  "core_inv H (r\<lparr>cr_candidate_ready := b\<rparr>) \<longleftrightarrow> core_inv H r"
  by (simp_all add: core_inv_def epochs_ok_def)

lemma forget_candidate_inv:
  assumes "core_inv H r" "\<forall>key \<in> fst ` set (cr_frames r). cr_current_epoch r = Some (fst key)"
  shows "core_inv H (r\<lparr>cr_candidate_epoch := None\<rparr>)"
  using assms by (auto simp: core_inv_def epochs_ok_def)

lemma candidate_frames_gone:
  assumes "epochs_ok r" "cr_candidate_epoch r = Some c" "\<forall>key \<in> fst ` set (cr_frames r). fst key \<noteq> c"
  shows "\<forall>key \<in> fst ` set (cr_frames r). cr_current_epoch r = Some (fst key)"
  using assms unfolding epochs_ok_def by auto

lemma erase_epoch_inv: 
  assumes "core_inv H r"
  shows "core_inv H (erase_epoch epoch r)"
proof (cases "cr_candidate_epoch r = Some epoch")
  case True
  let ?r = "erase_frames (\<lambda>key f. fst key = epoch) r"
  have inv: "core_inv H ?r" by (rule erase_frames_inv [OF assms])
  have "core_inv H (?r\<lparr>cr_candidate_epoch := None\<rparr>)"
    by (intro forget_candidate_inv inv candidate_frames_gone [OF core_inv_epochs [OF inv]])
       (auto simp: True)
  then have "core_inv H (?r\<lparr>cr_candidate_epoch := None, cr_candidate_ready := False\<rparr>)" by simp
  then show ?thesis using True by (simp add: erase_epoch_def)
next
  case False
  then show ?thesis using assms by (simp add: erase_epoch_def Let_def erase_frames_inv)
qed

lemma erase_epoch_keeps [simp]:
  "cr_config (erase_epoch epoch r) = cr_config r"
  "cr_current_epoch (erase_epoch epoch r) = cr_current_epoch r"
  "cr_gap_detected (erase_epoch epoch r) = cr_gap_detected r"
  "cr_frames (erase_epoch epoch r) = filter (\<lambda>(key, f). fst key \<noteq> epoch) (cr_frames r)"
  "cr_candidate_epoch r = Some epoch \<Longrightarrow> cr_candidate_epoch (erase_epoch epoch r) = None"
  by (simp_all add: erase_epoch_def Let_def)

lemma erase_noncurrent_inv: "core_inv H r \<Longrightarrow> core_inv H (erase_noncurrent_epochs r)"
proof -
  assume "core_inv H r"
  then have "core_inv H (erase_frames (\<lambda>key f. cr_current_epoch r \<noteq> Some (fst key)) r)"
    by (rule erase_frames_inv)
  then show ?thesis
    using forget_candidate_inv [of H "erase_frames (\<lambda>key f. cr_current_epoch r \<noteq> Some (fst key)) r"]
    by (auto simp: erase_noncurrent_epochs_def)
qed

lemma erase_noncurrent_keeps [simp]:
  "cr_config (erase_noncurrent_epochs r) = cr_config r"
  "cr_current_epoch (erase_noncurrent_epochs r) = cr_current_epoch r"
  "cr_gap_detected (erase_noncurrent_epochs r) = cr_gap_detected r"
  "cr_frames (erase_noncurrent_epochs r) =
     filter (\<lambda>(key, f). cr_current_epoch r = Some (fst key)) (cr_frames r)"
  by (simp_all add: erase_noncurrent_epochs_def)

lemma discard_inflight_inv: "core_inv H (discard_inflight r)"
  by (simp add: core_inv_def discard_inflight_def core_bytes_def epochs_ok_def)

lemma discard_inflight_keeps [simp]:
  "cr_config (discard_inflight r) = cr_config r"
  "cr_current_epoch (discard_inflight r) = cr_current_epoch r"
  by (simp_all add: discard_inflight_def)

lemma set_candidate_inv:
  assumes "core_inv H r" "cr_is_candidate epoch r"
    and "\<forall>key \<in> fst ` set (cr_frames r). cr_current_epoch r = Some (fst key)"
  shows "core_inv H (r\<lparr>cr_candidate_epoch := Some epoch\<rparr>)"
  using assms by (auto simp: core_inv_def epochs_ok_def cr_is_candidate_def)

lemma select_candidate:
  assumes "core_inv H r" "cr_is_candidate epoch r" "select_candidate_epoch epoch r = (ok, r')"
  shows "core_inv H r' \<and> cr_current_epoch r' = cr_current_epoch r \<and> cr_config r' = cr_config r \<and>
    (ok \<longrightarrow> cr_candidate_epoch r' = Some epoch) \<and>
    filter (\<lambda>(key, f). cr_current_epoch r = Some (fst key)) (cr_frames r') =
      filter (\<lambda>(key, f). cr_current_epoch r = Some (fst key)) (cr_frames r) \<and>
    cr_gap_detected r' = cr_gap_detected r"
proof (cases "cr_candidate_epoch r")
  case None
  then have "\<forall>key \<in> fst ` set (cr_frames r). cr_current_epoch r = Some (fst key)"
    using core_inv_epochs [OF assms(1)] by (auto simp: epochs_ok_def)
  from set_candidate_inv [OF assms(1,2) this] None assms(3) show ?thesis
    by (auto simp: select_candidate_epoch_def)
next
  case (Some c)
  show ?thesis
  proof (cases "c = epoch \<or> cr_candidate_ready r \<or> epoch < c")
    case True
    then show ?thesis using assms Some by (auto simp: select_candidate_epoch_def split: if_splits)
  next
    case False
    let ?r = "erase_epoch c r"
    have inv: "core_inv H ?r" by (rule erase_epoch_inv [OF assms(1)])
    have ne: "cr_current_epoch r \<noteq> Some c"
      using core_inv_epochs [OF assms(1)] Some unfolding epochs_ok_def by auto
    have "\<forall>key \<in> fst ` set (cr_frames ?r). cr_current_epoch ?r = Some (fst key)"
      using core_inv_epochs [OF inv] Some by (auto simp: epochs_ok_def)
    moreover have "cr_is_candidate epoch ?r" using assms(2) by (simp add: cr_is_candidate_def)
    ultimately have inv': "core_inv H (?r\<lparr>cr_candidate_epoch := Some epoch\<rparr>)"
      using set_candidate_inv [OF inv] by blast
    have r': "ok" "r' = ?r\<lparr>cr_candidate_epoch := Some epoch, cr_candidate_ready := False\<rparr>"
      using assms(3) Some False by (auto simp: select_candidate_epoch_def)
    have "filter (\<lambda>(key, f). cr_current_epoch r = Some (fst key)) (cr_frames ?r) =
        filter (\<lambda>(key, f). cr_current_epoch r = Some (fst key)) (cr_frames r)"
      using ne by (auto simp: case_prod_unfold intro!: filter_cong)
    then show ?thesis using inv' by (simp add: r')
  qed
qed

lemma expire_inv: "core_inv H r \<Longrightarrow> core_inv H (cr_expire now r)"
proof -
  assume "core_inv H r"
  then have inv: "core_inv H (erase_frames (\<lambda>key f. frame_expired now r f) r)" (is "core_inv H ?r")
    by (rule erase_frames_inv)
  have forget: "core_inv H (?r\<lparr>cr_candidate_epoch := None\<rparr>)"
    if "cr_candidate_epoch r = Some c" "\<not> has_frames_for_epoch c ?r" for c
    using that
    by (intro forget_candidate_inv [OF inv] candidate_frames_gone [OF core_inv_epochs [OF inv], of c])
       (auto simp: has_frames_for_epoch_def list_ex_iff)
  have "has_frames_for_epoch c (?r\<lparr>cr_gap_detected := True\<rparr>) = has_frames_for_epoch c ?r" for c
    by (simp add: has_frames_for_epoch_def)
  then show ?thesis using inv forget
    by (auto simp: cr_expire_def Let_def split: option.splits)
       (metis core_inv_flags(1) core_reassembler.surjective core_reassembler.update_convs)+
qed

lemma expire_keeps [simp]:
  "cr_config (cr_expire now r) = cr_config r"
  "cr_current_epoch (cr_expire now r) = cr_current_epoch r"
  "cr_frames (cr_expire now r) = filter (\<lambda>(key, f). \<not> frame_expired now r f) (cr_frames r)"
  by (simp_all add: cr_expire_def Let_def split: option.splits)

lemma reject_inv: "core_inv H r \<Longrightarrow> core_inv H (reject_candidate_epoch epoch r)"
  by (simp add: reject_candidate_epoch_def erase_epoch_inv)

lemma reject_keeps [simp]:
  "cr_config (reject_candidate_epoch epoch r) = cr_config r"
  "cr_current_epoch (reject_candidate_epoch epoch r) = cr_current_epoch r"
  "cr_gap_detected (reject_candidate_epoch epoch r) = cr_gap_detected r"
  by (simp_all add: reject_candidate_epoch_def)

lemma commit_inv:
  assumes "core_inv H r" "commit_candidate_epoch epoch r = (ok, r')"
  shows "core_inv H r' \<and> mark_le (cr_current_epoch r) (cr_current_epoch r') \<and>
    cr_config r' = cr_config r"
proof (cases ok)
  case False
  then have "r' = r" using assms(2) by (auto simp: commit_candidate_epoch_def Let_def split: if_splits)
  then show ?thesis using assms(1) by simp
next
  case True
  then have cand: "cr_candidate_epoch r = Some epoch"
    and above: "\<And>c. cr_current_epoch r = Some c \<Longrightarrow> c < epoch"
    and r': "r' = (erase_older_epochs epoch (r\<lparr>cr_current_epoch := Some epoch,
        cr_candidate_epoch := None, cr_candidate_ready := False\<rparr>))\<lparr>cr_gap_detected := False\<rparr>"
    using assms(2)
    by (auto simp: commit_candidate_epoch_def Let_def split: if_splits option.splits)
  let ?frames = "filter (\<lambda>(key, f). \<not> fst key < epoch) (cr_frames r)"
  have fr: "cr_frames r' = ?frames" "cr_config r' = cr_config r" "cr_current_epoch r' = Some epoch"
    "cr_candidate_epoch r' = None"
    by (simp_all add: r' erase_older_epochs_def)
  have tot: "cr_total_bytes r' = core_bytes (cr_frames r')"
    using core_inv_total [OF assms(1)]
    by (simp add: r' erase_older_epochs_def erase_frames_eq)
  have "epochs_ok r'"
    using core_inv_epochs [OF assms(1)] cand above unfolding epochs_ok_def fr by force
  from core_inv_subset [OF assms(1) fr(1) tot fr(2) this] above fr show ?thesis
    by (cases "cr_current_epoch r") (auto intro: less_imp_le)
qed

section \<open>Ingest keeps the invariant and delivers what was ingested\<close>

definition delivery_ok :: "(wire_header \<times> bytes) set \<Rightarrow> wire_header \<Rightarrow> ingest_result \<Rightarrow> bool" where
  "delivery_ok H h res \<longleftrightarrow> (ir_code res = Complete \<longrightarrow>
     ir_stream_epoch res = wh_stream_epoch h \<and> ir_frame_sequence res = wh_frame_sequence h \<and>
     (\<exists>ps. length ps = unat (wh_fragment_count h) \<and> ir_access_unit res = concat ps \<and>
        (\<forall>k < length ps. slot_from H (header_key h) (wh_fragment_count h) k (ps ! k))))"

definition ingest_ok :: "(wire_header \<times> bytes) set \<Rightarrow> wire_header \<Rightarrow> core_reassembler \<Rightarrow>
    ingest_result \<times> core_reassembler \<Rightarrow> bool" where
  "ingest_ok H h r out \<longleftrightarrow> delivery_ok H h (fst out) \<and> core_inv H (snd out) \<and>
     cr_current_epoch (snd out) = cr_current_epoch r \<and> cr_config (snd out) = cr_config r"

lemma ingest_okI:
  "ir_code res \<noteq> Complete \<Longrightarrow> core_inv H r' \<Longrightarrow> cr_current_epoch r' = cr_current_epoch r \<Longrightarrow>
     cr_config r' = cr_config r \<Longrightarrow> ingest_ok H h r (res, r')"
  by (simp add: ingest_ok_def delivery_ok_def)

lemma reply_code [simp]: "ir_code (ingest_reply code h) = code"
  by (simp add: ingest_reply_def)

lemma candidate_failure_ok:
  "core_inv H r' \<Longrightarrow> cr_current_epoch r' = cr_current_epoch r \<Longrightarrow> cr_config r' = cr_config r \<Longrightarrow>
     ingest_ok H h r (candidate_failure h r')"
  unfolding candidate_failure_def by (rule ingest_okI) (simp_all add: reject_inv)

lemma resource_failure_ok:
  "core_inv H r' \<Longrightarrow> cr_current_epoch r' = cr_current_epoch r \<Longrightarrow> cr_config r' = cr_config r \<Longrightarrow>
     ingest_ok H h r (resource_failure h candidate r')"
  by (cases candidate)
     (simp_all add: resource_failure_def candidate_failure_ok ingest_okI discard_inflight_inv)

lemma core_bytes_update:
  "distinct (map fst frames) \<Longrightarrow> map_of frames key = Some f \<Longrightarrow>
     core_bytes (AList.update key g frames) + cf_bytes f = core_bytes frames + cf_bytes g"
  by (induction frames) (auto simp: core_bytes_def)

lemma length_update_mem: "map_of frames key = Some f \<Longrightarrow> length (AList.update key g frames) = length frames"
  by (induction frames) (auto split: if_splits)

lemma set_update_distinct:
  "distinct (map fst frames) \<Longrightarrow> (k, g) \<in> set (AList.update key f frames) \<Longrightarrow>
     (k = key \<and> g = f) \<or> (k \<noteq> key \<and> (k, g) \<in> set frames)"
  by (induction frames) (auto split: if_splits simp: image_iff)

lemma update_frame_inv:
  assumes inv: "core_inv H r" and f: "map_of (cr_frames r) key = Some f"
    and ok: "core_frame_ok H (cr_config r) key g"
    and fits: "cr_total_bytes r - cf_bytes f + cf_bytes g \<le> rc_max_total_bytes (cr_config r)"
  shows "core_inv H (r\<lparr>cr_frames := AList.update key g (cr_frames r),
    cr_total_bytes := cr_total_bytes r - cf_bytes f + cf_bytes g\<rparr>)"
proof -
  have d: "distinct (map fst (cr_frames r))" and tot: "cr_total_bytes r = core_bytes (cr_frames r)"
    using inv by (simp_all add: core_inv_def)
  have "cf_bytes f \<le> cr_total_bytes r" using core_bytes_delete(2) [OF d f] tot by simp
  then have "cr_total_bytes r - cf_bytes f + cf_bytes g = core_bytes (AList.update key g (cr_frames r))"
    using core_bytes_update [OF d f, of g] tot by simp
  moreover have "key \<in> fst ` set (cr_frames r)" using f by (force dest: map_of_SomeD)
  then have "fst ` set (AList.update key g (cr_frames r)) = fst ` set (cr_frames r)"
    using dom_update [of key g "cr_frames r"] by auto
  moreover have "\<forall>(k, h) \<in> set (AList.update key g (cr_frames r)). core_frame_ok H (cr_config r) k h"
  proof (clarify)
    fix k1 k2 h assume "((k1, k2), h) \<in> set (AList.update key g (cr_frames r))"
    from set_update_distinct [OF d this] show "core_frame_ok H (cr_config r) (k1, k2) h"
      using ok inv by (auto simp: core_inv_def)
  qed
  ultimately show ?thesis
    using inv fits length_update_mem [OF f] distinct_update [OF d]
    by (simp add: core_inv_def epochs_ok_def)
qed

definition put_fragment :: "wire_header \<Rightarrow> bytes \<Rightarrow> core_frame \<Rightarrow> core_frame" where
  "put_fragment h payload f =
     f\<lparr>cf_fragments := (cf_fragments f)[unat (wh_fragment_index h) := Some payload],
       cf_received_fragments := cf_received_fragments f + 1, cf_bytes := cf_bytes f + length payload\<rparr>"

text \<open>What the fragment slots satisfy right after a payload went into its empty slot.\<close>

lemma put_fragment_ok:
  assumes ok: "core_frame_ok H config (header_key h) f"
    and n: "cf_fragment_count f = wh_fragment_count h" and i: "wh_fragment_index h < wh_fragment_count h"
    and empty: "cf_fragments f ! unat (wh_fragment_index h) = None" and mem: "(h, payload) \<in> H"
  defines "g \<equiv> put_fragment h payload f"
  shows "length (cf_fragments g) = unat (wh_fragment_count h)"
    "unat (cf_received_fragments g) = length (stored (cf_fragments g))"
    "cf_received_fragments g \<le> wh_fragment_count h"
    "cf_bytes g = sum_list (map length (stored (cf_fragments g)))"
    "\<And>k p. k < length (cf_fragments g) \<Longrightarrow> cf_fragments g ! k = Some p \<Longrightarrow>
       slot_from H (header_key h) (wh_fragment_count h) k p"
proof -
  let ?i = "unat (wh_fragment_index h)"
  have len: "length (cf_fragments f) = unat (wh_fragment_count h)" and lt: "?i < length (cf_fragments f)"
    and rec: "cf_received_fragments f < wh_fragment_count h"
    using ok n i by (simp_all add: core_frame_ok_def word_less_nat_alt)
  note upd = stored_update [OF lt empty, of payload]
  have "cf_received_fragments f \<noteq> - 1" using rec by auto
  then have suc: "unat (cf_received_fragments f + 1) = Suc (unat (cf_received_fragments f))"
    by (rule unat_add_1_nowrap)
  show "length (cf_fragments g) = unat (wh_fragment_count h)" by (simp add: g_def put_fragment_def len)
  show "unat (cf_received_fragments g) = length (stored (cf_fragments g))"
    using ok upd by (simp add: g_def put_fragment_def suc core_frame_ok_def)
  show "cf_received_fragments g \<le> wh_fragment_count h"
    using rec by (simp add: g_def put_fragment_def word_le_nat_alt word_less_nat_alt suc)
  show "cf_bytes g = sum_list (map length (stored (cf_fragments g)))"
    using ok upd by (simp add: g_def put_fragment_def core_frame_ok_def)
  show "slot_from H (header_key h) (wh_fragment_count h) k p"
    if "k < length (cf_fragments g)" "cf_fragments g ! k = Some p" for k p
  proof (cases "k = ?i")
    case True
    then have "p = payload" using that lt by (simp add: g_def put_fragment_def)
    then show ?thesis using True mem by (auto simp: slot_from_def)
  next
    case False
    then show ?thesis using that ok n by (simp add: g_def put_fragment_def core_frame_ok_def)
  qed
qed

lemma ingest_store_ok:
  assumes inv: "core_inv H r" and f: "map_of (cr_frames r) (header_key h) = Some f"
    and n: "cf_fragment_count f = wh_fragment_count h" and i: "wh_fragment_index h < wh_fragment_count h"
    and empty: "cf_fragments f ! unat (wh_fragment_index h) = None" and mem: "(h, payload) \<in> H"
  shows "ingest_ok H h r (ingest_store h payload candidate f r)"
proof (cases "rc_max_access_unit_bytes (cr_config r) - cf_bytes f < length payload \<or>
    rc_max_total_bytes (cr_config r) - cr_total_bytes r < length payload")
  case True
  then show ?thesis using inv by (simp add: ingest_store_def resource_failure_ok)
next
  case False
  let ?g = "put_fragment h payload f"
  have ok: "core_frame_ok H (cr_config r) (header_key h) f"
    using inv map_of_SomeD [OF f] by (auto simp: core_inv_def)
  note g = put_fragment_ok [OF ok n i empty mem]
  have d: "distinct (map fst (cr_frames r))" and tot: "cr_total_bytes r = core_bytes (cr_frames r)"
    using inv by (simp_all add: core_inv_def)
  have le: "cf_bytes f \<le> cr_total_bytes r" using core_bytes_delete(2) [OF d f] tot by simp
  let ?r = "r\<lparr>cr_frames := AList.update (header_key h) ?g (cr_frames r),
              cr_total_bytes := cr_total_bytes r + length payload\<rparr>"
  have fields: "cf_fragment_count ?g = wh_fragment_count h" "cf_bytes ?g = cf_bytes f + length payload"
    by (simp_all add: put_fragment_def n)
  show ?thesis
  proof (cases "cf_received_fragments ?g = wh_fragment_count h")
    case partial: False
    have "core_frame_ok H (cr_config r) (header_key h) ?g"
      using g partial False ok fields
      by (auto simp: core_frame_ok_def word_le_less_eq)
    moreover have "cr_total_bytes r + length payload \<le> rc_max_total_bytes (cr_config r)"
      using inv False unfolding core_inv_def by linarith
    ultimately have "core_inv H ?r"
      using update_frame_inv [OF inv f, of ?g] le by (simp add: fields add.assoc [symmetric])
    then show ?thesis
      using False partial fields
      by (simp add: ingest_store_def put_fragment_def [symmetric] Let_def ingest_okI)
  next
    case full: True
    have gone: "erase_frame (header_key h) ?r = erase_frame (header_key h) r"
      using f le by (simp add: erase_frame_def update_conv' fields delete_update_same)
    have "cf_fragments ?g = map Some (stored (cf_fragments ?g))"
      using g(1,2) full by (intro stored_full) simp
    then have "cf_fragments ?g ! k = Some (stored (cf_fragments ?g) ! k)"
      if "k < length (stored (cf_fragments ?g))" for k
      using that by (metis nth_map)
    moreover have "map the (cf_fragments ?g) = stored (cf_fragments ?g)"
      by (subst \<open>cf_fragments ?g = _\<close>) (simp add: comp_def)
    ultimately have "\<exists>ps. length ps = unat (wh_fragment_count h) \<and>
        concat (map the (cf_fragments ?g)) = concat ps \<and>
        (\<forall>k < length ps. slot_from H (header_key h) (wh_fragment_count h) k (ps ! k))"
      using g(1,2,5) full by (intro exI [of _ "stored (cf_fragments ?g)"]) auto
    then show ?thesis
      using False full fields erase_frame_inv [OF inv, of "header_key h"]
      by (auto simp: ingest_store_def put_fragment_def [symmetric] Let_def ingest_ok_def
          delivery_ok_def gone ingest_reply_def)
  qed
qed

lemma ingest_slot_ok:
  assumes inv: "core_inv H r" and f: "map_of (cr_frames r) (header_key h) = Some f"
    and n: "cf_fragment_count f = wh_fragment_count h" and i: "wh_fragment_index h < wh_fragment_count h"
    and mem: "(h, payload) \<in> H"
    and cur: "\<not> candidate \<Longrightarrow> cr_current_epoch r = Some (wh_stream_epoch h)"
  shows "ingest_ok H h r (ingest_slot h payload candidate f r)"
proof (cases "cf_fragments f ! unat (wh_fragment_index h)")
  case (Some p)
  then show ?thesis
    using inv by (auto simp: ingest_slot_def candidate_failure_ok erase_frame_inv intro!: ingest_okI)
next
  case None
  have "map_of (cr_frames (erase_noncurrent_epochs r)) (header_key h) = Some f" if "\<not> candidate"
    using cur [OF that] f map_of_filter_in [of "cr_frames r" "header_key h" f]
    by (simp add: header_key_def)
  then have "ingest_ok H h (erase_noncurrent_epochs r)
      (ingest_store h payload candidate f (erase_noncurrent_epochs r))" if "\<not> candidate"
    using that ingest_store_ok [OF erase_noncurrent_inv [OF inv] _ n i None mem] by blast
  then show ?thesis
    using None ingest_store_ok [OF inv f n i None mem, of candidate]
    by (auto simp: ingest_slot_def Let_def ingest_ok_def)
qed

lemma new_frame_ok:
  assumes "wire_header_valid h"
  shows "core_frame_ok H config (header_key h) (new_frame h now)"
  using assms
  by (auto simp: core_frame_ok_def new_frame_def wire_header_valid_def word_gt_0 split: if_splits)

lemma update_fresh: "map_of frames key = None \<Longrightarrow> AList.update key f frames = frames @ [(key, f)]"
  by (induction frames) (auto split: if_splits)

lemma insert_frame_inv:
  assumes "core_inv H r" "map_of (cr_frames r) key = None" "core_frame_ok H (cr_config r) key f"
    and "cf_bytes f = 0" "length (cr_frames r) < rc_max_inflight_frames (cr_config r)"
    and "cr_current_epoch r = Some (fst key) \<or> cr_candidate_epoch r = Some (fst key)"
  shows "core_inv H (r\<lparr>cr_frames := AList.update key f (cr_frames r)\<rparr>)"
  using assms
  by (auto simp: core_inv_def update_fresh core_bytes_def epochs_ok_def map_of_eq_None_iff)

lemma ingest_frame_ok:
  assumes inv: "core_inv H r" and valid: "wire_header_valid h" and mem: "(h, payload) \<in> H"
    and cur: "\<not> candidate \<Longrightarrow> cr_current_epoch r = Some (wh_stream_epoch h)"
    and cand: "candidate \<Longrightarrow> cr_candidate_epoch r = Some (wh_stream_epoch h)"
  shows "ingest_ok H h r (ingest_frame h payload candidate now r)"
proof -
  have i: "wh_fragment_index h < wh_fragment_count h"
    using valid by (simp add: wire_header_valid_def split: if_splits)
  show ?thesis
  proof (cases "map_of (cr_frames r) (header_key h)")
    case (Some f)
    then show ?thesis
      using inv ingest_slot_ok [OF inv Some _ i mem cur]
      by (auto simp: ingest_frame_def candidate_failure_ok erase_frame_inv intro!: ingest_okI)
  next
    case None
    let ?full = "rc_max_inflight_frames (cr_config r) \<le> length (cr_frames r)"
    define s where "s = (if ?full \<and> \<not> candidate then erase_noncurrent_epochs r else r)"
    have s: "core_inv H s" "cr_current_epoch s = cr_current_epoch r" "cr_config s = cr_config r"
      "map_of (cr_frames s) (header_key h) = None"
      "\<not> candidate \<Longrightarrow> cr_current_epoch s = Some (wh_stream_epoch h)"
      "candidate \<Longrightarrow> cr_candidate_epoch s = Some (wh_stream_epoch h)"
      using inv erase_noncurrent_inv [OF inv] None cur cand
      by (auto simp: s_def map_of_eq_None_iff)
    have eq: "ingest_frame h payload candidate now r =
        (if ?full \<and> rc_max_inflight_frames (cr_config r) \<le> length (cr_frames s)
         then resource_failure h candidate s
         else ingest_slot h payload candidate (new_frame h now)
           (s\<lparr>cr_frames := AList.update (header_key h) (new_frame h now) (cr_frames s)\<rparr>))"
      by (simp only: ingest_frame_def None option.case Let_def s_def [symmetric] s(3))
    show ?thesis
    proof (cases "?full \<and> rc_max_inflight_frames (cr_config r) \<le> length (cr_frames s)")
      case True
      then show ?thesis using resource_failure_ok [OF s(1-3)] by (simp add: eq)
    next
      case False
      then have room: "length (cr_frames s) < rc_max_inflight_frames (cr_config s)"
        using s(3) by (auto simp: s_def not_le split: if_splits)
      let ?t = "s\<lparr>cr_frames := AList.update (header_key h) (new_frame h now) (cr_frames s)\<rparr>"
      have "core_inv H ?t"
        using s(5,6)
        by (intro insert_frame_inv [OF s(1) s(4) new_frame_ok [OF valid] _ room])
           (cases candidate; simp add: new_frame_def header_key_def)+
      moreover have "map_of (cr_frames ?t) (header_key h) = Some (new_frame h now)"
        by (simp add: update_conv')
      moreover have "cf_fragment_count (new_frame h now) = wh_fragment_count h"
        by (simp add: new_frame_def)
      ultimately have "ingest_ok H h ?t (ingest_slot h payload candidate (new_frame h now) ?t)"
        using s(5) by (intro ingest_slot_ok i mem) simp_all
      then have "ingest_ok H h r (ingest_slot h payload candidate (new_frame h now) ?t)"
        using s by (simp add: ingest_ok_def)
      then show ?thesis unfolding eq using False by (simp only: if_False)
    qed
  qed
qed

lemma ingest_kind_ok:
  assumes inv: "core_inv H r" and valid: "wire_header_valid h" and mem: "(h, payload) \<in> H"
    and live: "\<not> cr_is_retired (wh_stream_epoch h) r"
  shows "ingest_ok H h r (ingest_kind h payload now r)"
proof (cases "wh_kind h = Repeat \<or> payload = [] \<or> rc_max_access_unit_bytes (cr_config r) < length payload")
  case True
  then show ?thesis using inv by (auto simp: ingest_kind_def intro!: ingest_okI)
next
  case False
  show ?thesis
  proof (cases "cr_is_candidate (wh_stream_epoch h) r")
    case True
    obtain ok s where sel: "select_candidate_epoch (wh_stream_epoch h) r = (ok, s)" by fastforce
    note s = select_candidate [OF inv True sel]
    then have "ok \<Longrightarrow> ingest_ok H h r (ingest_frame h payload True now s)"
      using ingest_frame_ok [OF _ valid mem, of s True now] by (simp add: ingest_ok_def)
    then show ?thesis using False True sel s
      by (cases ok) (auto simp: ingest_kind_def intro!: ingest_okI)
  next
    case here: False
    then have "cr_current_epoch r = Some (wh_stream_epoch h)"
      using live by (auto simp: cr_is_candidate_def cr_is_retired_def split: option.splits)
    then show ?thesis using False here ingest_frame_ok [OF inv valid mem, of False now]
      by (simp add: ingest_kind_def)
  qed
qed

lemma ingest_ok_run:
  assumes inv: "core_inv H r" and mem: "(h, payload) \<in> H"
  shows "ingest_ok H h r (ingest h payload now r)"
proof -
  have inv': "core_inv H (cr_expire now r)" by (rule expire_inv [OF inv])
  show ?thesis
    using inv inv' ingest_kind_ok [OF inv' _ mem, of now]
    by (auto simp: ingest_def Let_def ingest_ok_def delivery_ok_def discard_inflight_inv ingest_reply_def)
qed

section \<open>Runs\<close>

datatype core_event =
    Ingest wire_header bytes time_point
  | Commit_Candidate u64
  | Reject_Candidate u64
  | Expire time_point
  | Discard_Inflight

fun core_handle :: "core_event \<Rightarrow> core_reassembler \<Rightarrow> core_reassembler" where
  "core_handle (Ingest h payload now) r = snd (ingest h payload now r)"
| "core_handle (Commit_Candidate epoch) r = snd (commit_candidate_epoch epoch r)"
| "core_handle (Reject_Candidate epoch) r = reject_candidate_epoch epoch r"
| "core_handle (Expire now) r = cr_expire now r"
| "core_handle Discard_Inflight r = discard_inflight r"

fun ingested :: "core_event \<Rightarrow> (wire_header \<times> bytes) set" where
  "ingested (Ingest h payload now) = {(h, payload)}"
| "ingested _ = {}"

definition core_below :: "core_reassembler \<Rightarrow> core_reassembler \<Rightarrow> bool" where
  "core_below r r' \<longleftrightarrow> mark_le (cr_current_epoch r) (cr_current_epoch r') \<and> cr_config r' = cr_config r"

lemma core_below_refl: "core_below r r"
  by (simp add: core_below_def)

lemma core_below_trans: "core_below r s \<Longrightarrow> core_below s t \<Longrightarrow> core_below r t"
  by (auto simp: core_below_def intro: mark_le_trans)

lemma make_core_inv: "make_core_reassembler config = Inr r \<Longrightarrow> core_inv H r"
  by (auto simp: make_core_reassembler_def core_inv_def core_bytes_def epochs_ok_def split: if_splits)

lemma core_handle_ok:
  assumes "ingested e \<subseteq> H" "core_inv H r"
  shows "core_inv H (core_handle e r) \<and> core_below r (core_handle e r)"
proof (cases e)
  case (Ingest h payload now)
  then show ?thesis using assms ingest_ok_run [of H r h payload now]
    by (simp add: ingest_ok_def core_below_def)
next
  case (Commit_Candidate epoch)
  then show ?thesis using assms commit_inv [of H r epoch] 
    by (cases "commit_candidate_epoch epoch r") (simp add: core_below_def)
qed (use assms in \<open>simp_all add: core_below_def reject_inv expire_inv discard_inflight_inv\<close>)

interpretation core: event_system "\<lambda>r. \<exists>config. make_core_reassembler config = Inr r"
  "\<lambda>e. ingested e \<subseteq> H" core_handle "core_inv H" core_below for H
  by unfold_locales
     (auto simp: make_core_inv core_handle_ok core_below_refl intro: core_below_trans)

text \<open>The payload bytes a frame really holds.\<close>

definition held_bytes :: "core_frame \<Rightarrow> nat" where
  "held_bytes f = sum_list (map length (stored (cf_fragments f)))"

lemma core_bytes_held:
  "\<forall>(key, f) \<in> set frames. core_frame_ok H config key f \<Longrightarrow>
     core_bytes frames = sum_list (map (held_bytes \<circ> snd) frames)"
  unfolding core_bytes_def
  by (rule arg_cong [of _ _ sum_list], rule map_cong) (auto simp: core_frame_ok_def held_bytes_def)

text \<open>
  C24. Whatever is ingested, committed, rejected, expired or discarded, in any order and at any
  times, a reassembler stays within the limits of its configuration: the byte account is exactly
  the number of payload bytes stored in its slots, it and the number of frames are within bounds, and
  every frame kept is incomplete, holds no more payload than an access unit may, counts its fragments
  and its bytes correctly and has one slot for each fragment announced.
\<close>

theorem core_reassembler_bounded:
  fixes es :: "core_event list"
  assumes "make_core_reassembler config = Inr r0"
  defines "r \<equiv> fold core_handle es r0"
  shows "cr_total_bytes r = sum_list (map (held_bytes \<circ> snd) (cr_frames r)) \<and>
    cr_total_bytes r \<le> rc_max_total_bytes config \<and>
    length (cr_frames r) \<le> rc_max_inflight_frames config \<and>
    list_all (\<lambda>(key, f). held_bytes f \<le> rc_max_access_unit_bytes config \<and> cf_bytes f = held_bytes f \<and>
      length (cf_fragments f) = unat (cf_fragment_count f) \<and>
      cf_received_fragments f < cf_fragment_count f \<and>
      unat (cf_received_fragments f) = length (stored (cf_fragments f))) (cr_frames r)"
proof -
  have init: "\<exists>config. make_core_reassembler config = Inr r0" using assms(1) by blast
  have "core_inv UNIV r"
    unfolding r_def using core.inv_run [OF init, of UNIV es] by (simp add: list_all_iff)
  moreover have "cr_config r = config"
  proof -
    have "core_below r0 r"
      unfolding r_def
      using core.below_fold [of UNIV r0 es] make_core_inv [OF assms(1), of UNIV] by (simp add: list_all_iff)
    moreover have "cr_config r0 = config"
      using assms(1) by (auto simp: make_core_reassembler_def split: if_splits)
    ultimately show ?thesis by (simp add: core_below_def)
  qed
  ultimately show ?thesis
    using core_bytes_held [of "cr_frames r" UNIV config]
    by (auto simp: core_inv_def core_frame_ok_def held_bytes_def list_all_iff)
qed

lemma default_config_accepted: "make_core_reassembler default_reassembly_config =
    Inr \<lparr>cr_config = default_reassembly_config, cr_current_epoch = None, cr_candidate_epoch = None,
         cr_candidate_ready = False, cr_frames = [], cr_total_bytes = 0, cr_gap_detected = False\<rparr>"
  by (simp add: make_core_reassembler_def default_reassembly_config_def)

text \<open>
  C25. A unit reported complete is made of exactly as many payloads as its header announces, all of
  them ingested under the same epoch, sequence and count, in the order of the indices their
  headers carried.
\<close>

theorem core_delivers_ingested:
  assumes "make_core_reassembler config = Inr r0"
    and "ingest h payload now (fold core_handle es r0) = (res, r')" and "ir_code res = Complete"
  shows "\<exists>ps. length ps = unat (wh_fragment_count h) \<and> ir_access_unit res = concat ps \<and>
    (\<forall>k < length ps. \<exists>h'. (h', ps ! k) \<in> insert (h, payload) (\<Union> (ingested ` set es)) \<and>
       wh_stream_epoch h' = wh_stream_epoch h \<and> wh_frame_sequence h' = wh_frame_sequence h \<and>
       wh_fragment_count h' = wh_fragment_count h \<and> unat (wh_fragment_index h') = k)"
proof -
  let ?H = "insert (h, payload) (\<Union> (ingested ` set es))"
  have "core_inv ?H (fold core_handle es r0)"
    using core.inv_run [of r0 ?H es] assms(1) by (fastforce simp: list_all_iff)
  from ingest_ok_run [OF this, of h payload now] assms(2,3) show ?thesis
    by (simp add: ingest_ok_def delivery_ok_def slot_from_def header_key_def)
qed

text \<open>
  An epoch below the committed one is refused for ever: once epoch \<open>e\<close> is committed, after any
  further events every packet of an older epoch is answered with \<^verbatim>\<open>RetiredEpoch\<close> and the committed
  epoch has not gone back.
\<close>

theorem core_retired_forever:
  fixes fs :: "core_event list"
  assumes "make_core_reassembler config = Inr r0"
    and "cr_current_epoch (fold core_handle es r0) = Some e"
    and "wire_header_valid h" and "wh_stream_epoch h < e"
  defines "r \<equiv> fold core_handle (es @ fs) r0"
  shows "ir_code (fst (ingest h payload now r)) = RetiredEpoch \<and>
    (\<exists>e'. cr_current_epoch r = Some e' \<and> e \<le> e')"
proof -
  have "core_below (fold core_handle es r0) r"
    unfolding r_def using core.below_run_split [of r0 UNIV es fs] assms(1) by (auto simp: list_all_iff)
  then obtain e' where e': "cr_current_epoch r = Some e'" "e \<le> e'"
    using assms(2) by (cases "cr_current_epoch r") (auto simp: core_below_def)
  then have "cr_is_retired (wh_stream_epoch h) (cr_expire now r)"
    using assms(4) by (simp add: cr_is_retired_def)
  then show ?thesis using e' assms(3) by (simp add: ingest_def Let_def)
qed

section \<open>A candidate epoch cannot disturb the committed one\<close>

definition frames_of :: "u64 \<Rightarrow> core_reassembler \<Rightarrow> (frame_key \<times> core_frame) list" where
  "frames_of e r = filter (\<lambda>(key, f). fst key = e) (cr_frames r)"

definition undisturbed :: "u64 \<Rightarrow> core_reassembler \<Rightarrow> core_reassembler \<Rightarrow> bool" where
  "undisturbed e r r' \<longleftrightarrow> frames_of e r' = frames_of e r \<and> cr_gap_detected r' = cr_gap_detected r \<and>
     cr_current_epoch r' = cr_current_epoch r"

lemma undisturbed_trans: "undisturbed e r s \<Longrightarrow> undisturbed e s t \<Longrightarrow> undisturbed e r t"
  by (simp add: undisturbed_def)

lemma filter_update_other:
  "fst key \<noteq> e \<Longrightarrow> filter (\<lambda>(k, f). fst k = e) (AList.update key g frames) =
     filter (\<lambda>(k, f). fst k = e) frames"
  by (induction frames) (auto split: if_splits)

lemma filter_delete_other:
  "fst key \<noteq> e \<Longrightarrow> filter (\<lambda>(k, f). fst k = e) (AList.delete key frames) =
     filter (\<lambda>(k, f). fst k = e) frames"
  by (auto simp: delete_filter intro!: filter_cong)

lemma erase_epoch_undisturbed: "epoch \<noteq> e \<Longrightarrow> undisturbed e r (erase_epoch epoch r)"
  by (auto simp: undisturbed_def frames_of_def intro!: filter_cong)

lemma candidate_failure_undisturbed:
  "wh_stream_epoch h \<noteq> e \<Longrightarrow> undisturbed e r (snd (candidate_failure h r))"
  by (simp add: candidate_failure_def reject_candidate_epoch_def erase_epoch_undisturbed)
     (simp add: undisturbed_def)

lemma put_undisturbed:
  "fst key \<noteq> e \<Longrightarrow> undisturbed e r (r\<lparr>cr_frames := AList.update key f (cr_frames r)\<rparr>)"
  by (simp add: undisturbed_def frames_of_def filter_update_other)

lemma ingest_store_undisturbed:
  assumes "wh_stream_epoch h \<noteq> e"
  shows "undisturbed e r (snd (ingest_store h payload True f r))"
proof -
  have key: "fst (header_key h) \<noteq> e" using assms by (simp add: header_key_def)
  have gone: "undisturbed e r ((erase_frame (header_key h) r)\<lparr>cr_candidate_ready := b\<rparr>)" for b r
    by (simp add: undisturbed_def frames_of_def erase_frame_def filter_delete_other [OF key]
        split: option.splits)
  have put: "undisturbed e r (r\<lparr>cr_frames := AList.update (header_key h) g (cr_frames r),
      cr_total_bytes := n\<rparr>)" for g n
    by (simp add: undisturbed_def frames_of_def filter_update_other [OF key])
  show ?thesis
    using candidate_failure_undisturbed [OF assms] put undisturbed_trans [OF put gone]
    by (simp add: ingest_store_def resource_failure_def Let_def)
qed

lemma ingest_frame_undisturbed:
  assumes "wh_stream_epoch h \<noteq> e"
  shows "undisturbed e r (snd (ingest_frame h payload True now r))"
proof -
  have key: "fst (header_key h) \<noteq> e" using assms by (simp add: header_key_def)
  have slot: "undisturbed e s (snd (ingest_slot h payload True f s))" for f s
    using candidate_failure_undisturbed [OF assms] ingest_store_undisturbed [OF assms]
    by (auto simp: ingest_slot_def undisturbed_def split: option.splits)
  show ?thesis
    using candidate_failure_undisturbed [OF assms] slot
      undisturbed_trans [OF put_undisturbed [OF key] slot]
    by (auto simp: ingest_frame_def resource_failure_def Let_def split: option.splits)
qed

text \<open>
  A packet that claims an epoch above the committed one, whatever it carries and however the
  candidate fares, leaves the committed epoch, its gap flag and all of its frames exactly as the
  expiry at that time leaves them.
\<close>

theorem candidate_isolated:
  fixes payload :: bytes and now :: time_point
  assumes "make_core_reassembler config = Inr r0"
    and "cr_current_epoch (fold core_handle es r0) = Some e"
    and "wire_header_valid h" and "e < wh_stream_epoch h"
  defines "r \<equiv> fold core_handle es r0"
  defines "r' \<equiv> snd (ingest h payload now r)"
  shows "cr_current_epoch r' = Some e \<and> frames_of e r' = frames_of e (cr_expire now r) \<and>
    cr_gap_detected r' = cr_gap_detected (cr_expire now r)"
proof -
  let ?x = "cr_expire now r"
  have inv: "core_inv UNIV ?x"
    using core.inv_run [of r0 UNIV es] assms(1) by (auto simp: list_all_iff r_def intro!: expire_inv)
  have cur: "cr_current_epoch ?x = Some e" using assms(2) by (simp add: r_def)
  have cand: "cr_is_candidate (wh_stream_epoch h) ?x"
    and live: "\<not> cr_is_retired (wh_stream_epoch h) ?x" and ne: "wh_stream_epoch h \<noteq> e"
    using cur assms(4) by (auto simp: cr_is_candidate_def cr_is_retired_def)
  obtain ok s where sel: "select_candidate_epoch (wh_stream_epoch h) ?x = (ok, s)" by fastforce
  have "undisturbed e ?x s"
    using select_candidate [OF inv cand sel] cur
    by (auto simp: undisturbed_def frames_of_def eq_commute [of e])
  then have "undisturbed e ?x (snd (ingest_frame h payload True now s))"
    using ingest_frame_undisturbed [OF ne] undisturbed_trans by blast
  then have "undisturbed e ?x (snd (ingest_kind h payload now ?x))"
    using \<open>undisturbed e ?x s\<close> cand cur ne sel
    by (auto simp: ingest_kind_def undisturbed_def)
  then show ?thesis
    using assms(3) live cur ne by (simp add: r'_def ingest_def Let_def undisturbed_def)
qed

section \<open>A concrete session\<close>

definition sample_header :: "u64 \<Rightarrow> u32 \<Rightarrow> wire_header" where
  "sample_header e s = \<lparr>wh_kind = Data, wh_stream_epoch = e, wh_frame_sequence = s,
     wh_fragment_index = 0, wh_fragment_count = 1\<rparr>"

definition sample_start :: core_reassembler where
  "sample_start = \<lparr>cr_config = default_reassembly_config, cr_current_epoch = None,
     cr_candidate_epoch = None, cr_candidate_ready = False, cr_frames = [], cr_total_bytes = 0,
     cr_gap_detected = False\<rparr>"

definition sample_events :: "core_event list" where
  "sample_events = [Ingest (sample_header 5 0) [1, 2, 3] 0, Commit_Candidate 5]"

lemma sample_make: "make_core_reassembler default_reassembly_config = Inr sample_start"
  by (simp add: default_config_accepted sample_start_def)

lemma sample_header_valid: "wire_header_valid (sample_header 3 0)" "wire_header_valid (sample_header 5 0)"
  "wire_header_valid (sample_header 7 0)"
  by (simp_all add: wire_header_valid_def sample_header_def kMaxStreamEpoch_def kMaxFragments_eq)

lemmas core_run_defs = ingest_def ingest_kind_def ingest_frame_def ingest_slot_def ingest_store_def
  cr_expire_def erase_frames_def erase_loop_eq cr_is_retired_def cr_is_candidate_def
  select_candidate_epoch_def commit_candidate_epoch_def erase_older_epochs_def erase_frame_def
  new_frame_def header_key_def sample_start_def default_reassembly_config_def ingest_reply_def
  core_bytes_def Let_def

lemma sample_complete:
  "ir_code (fst (ingest (sample_header 5 0) [1, 2, 3] 0 sample_start)) = Complete"
  "ir_access_unit (fst (ingest (sample_header 5 0) [1, 2, 3] 0 sample_start)) = [1, 2, 3]"
  by (simp_all add: core_run_defs sample_header_valid) (simp_all add: core_run_defs sample_header_def)

lemma sample_epoch: "cr_current_epoch (fold core_handle sample_events sample_start) = Some 5"
  by (simp add: sample_events_def core_run_defs sample_header_valid)
     (simp add: core_run_defs sample_header_def)

text \<open>The first of two fragments, stored and waiting for the other.\<close>

definition sample_half :: wire_header where
  "sample_half = \<lparr>wh_kind = Data, wh_stream_epoch = 5, wh_frame_sequence = 0,
     wh_fragment_index = 0, wh_fragment_count = 2\<rparr>"

lemma sample_half_frames:
  "map (stored \<circ> cf_fragments \<circ> snd) (cr_frames (fold core_handle [Ingest sample_half [7, 8, 9] 0] sample_start)) =
     [[[7, 8, 9]]]"
proof -
  have "wire_header_valid sample_half"
    by (simp add: wire_header_valid_def sample_half_def kMaxStreamEpoch_def kMaxFragments_eq)
  moreover have "replicate 2 (None :: bytes option) = [None, None]" by (simp add: numeral_2_eq_2)
  ultimately show ?thesis
    by (simp add: core_run_defs) (simp add: core_run_defs sample_half_def)
qed

theorem core_reassembler_bounded_witness:
  "cr_total_bytes (fold core_handle [Ingest sample_half [7, 8, 9] 0] sample_start) = 3 \<and>
   length (cr_frames (fold core_handle [Ingest sample_half [7, 8, 9] 0] sample_start)) = 1"
proof -
  let ?r = "fold core_handle [Ingest sample_half [7, 8, 9] 0] sample_start"
  have "map (held_bytes \<circ> snd) (cr_frames ?r) = map (sum_list \<circ> map length) [[[7, 8, 9 :: u8]]]"
    unfolding sample_half_frames [symmetric] by (simp add: held_bytes_def del: fold_simps)
  moreover have "length (cr_frames ?r) = length [[[7, 8, 9 :: u8]]]"
    unfolding sample_half_frames [symmetric] by (simp del: fold_simps)
  ultimately show ?thesis
    using core_reassembler_bounded [OF sample_make, of "[Ingest sample_half [7, 8, 9] 0]"]
    by (simp del: fold_simps)
qed

theorem core_delivers_ingested_witness:
  "\<exists>ps. length ps = 1 \<and>
     ir_access_unit (fst (ingest (sample_header 5 0) [1, 2, 3] 0 sample_start)) = concat ps"
proof -
  obtain res r' where run: "ingest (sample_header 5 0) [1, 2, 3] 0 sample_start = (res, r')" by fastforce
  then have "ingest (sample_header 5 0) [1, 2, 3] 0 (fold core_handle [] sample_start) = (res, r')"
    "ir_code res = Complete" using sample_complete by simp_all
  from core_delivers_ingested [OF sample_make this] run show ?thesis
    by (auto simp: sample_header_def)
qed

theorem core_retired_forever_witness:
  "ir_code (fst (ingest (sample_header 3 0) [9] 100 (fold core_handle (sample_events @ [Expire 50])
     sample_start))) = RetiredEpoch"
  using core_retired_forever [OF sample_make sample_epoch sample_header_valid(1), of "[9]" 100 "[Expire 50]"]
  by (simp add: sample_header_def)

theorem candidate_isolated_witness:
  "cr_current_epoch (snd (ingest (sample_header 7 0) [9] 100 (fold core_handle sample_events sample_start)))
     = Some 5"
  using candidate_isolated [OF sample_make sample_epoch sample_header_valid(3), of "[9]" 100]
  by (simp add: sample_header_def)

end
