(* ===== verification/Core_Recovery.thy ===== *)
theory Core_Recovery
  imports Core_Reassembly "HOL-Library.Sublist"
begin

text \<open>
  Recovery and command control of the core library: \<^verbatim>\<open>e2e_core/src/recovery.cpp\<close> (the resync policy
  that decides when to ask for a fresh IDR and when to rebuild the session, the gate that waits for
  a visible frame after an acknowledgement, the exact ticket, the blocker tracker) and
  \<^verbatim>\<open>e2e_core/src/host/application/control_command_coordinator.cpp\<close>, the state machine that joins
  them. A \<^verbatim>\<open>chrono\<close> duration in milliseconds is an integer, a time point an integer number of
  nanoseconds; \<^verbatim>\<open>unsigned\<close> is a 32-bit word. An operation that may throw returns a sum.
\<close>

section \<open>The repeat resync policy\<close>

datatype recovery_phase = Running | WaitingFreshIdr | RecoveryRequired | Exhausted

datatype recovery_action = NoAction | RequestIdr | RebuildSession

record resync_policy =
  rp_wait_timeout :: int
  rp_max_retries :: u32
  rp_retries :: u32
  rp_phase :: recovery_phase
  rp_deadline :: "time_point option"

definition make_resync_policy :: "int \<Rightarrow> u32 \<Rightarrow> core_error + resync_policy" where
  "make_resync_policy wait_timeout max_retries =
     (if wait_timeout \<le> 0 \<or> 3600000 < wait_timeout \<or> max_retries = 0 \<or> 1000 < max_retries
      then Inl Invalid_Argument
      else Inr \<lparr>rp_wait_timeout = wait_timeout, rp_max_retries = max_retries, rp_retries = 0,
                rp_phase = Running, rp_deadline = None\<rparr>)"

definition on_repeat :: "time_point \<Rightarrow> resync_policy \<Rightarrow> resync_policy" where
  "on_repeat now p =
     (if rp_phase p = Running
      then p\<lparr>rp_phase := WaitingFreshIdr, rp_deadline := Some (now + milliseconds (rp_wait_timeout p))\<rparr>
      else p)"

definition update_timeout :: "time_point \<Rightarrow> resync_policy \<Rightarrow> resync_policy" where
  "update_timeout now p =
     (case rp_deadline p of
        None \<Rightarrow> p
      | Some d \<Rightarrow> if rp_phase p = WaitingFreshIdr \<and> d \<le> now then p\<lparr>rp_phase := RecoveryRequired\<rparr> else p)"

definition should_accept ::
  "bool \<Rightarrow> bool \<Rightarrow> bool \<Rightarrow> time_point \<Rightarrow> resync_policy \<Rightarrow> bool \<times> resync_policy" where
  "should_accept is_idr is_repeat content_updated now p0 =
     (let p = update_timeout now p0 in
      if rp_phase p = Running then (content_updated \<and> \<not> is_repeat, p)
      else if rp_phase p \<noteq> WaitingFreshIdr then (False, p)
      else if is_idr \<and> \<not> is_repeat \<and> content_updated
      then (True, p\<lparr>rp_phase := Running, rp_retries := 0, rp_deadline := None\<rparr>)
      else (False, p))"

definition poll_action :: "time_point \<Rightarrow> resync_policy \<Rightarrow> recovery_action \<times> resync_policy" where
  "poll_action now p0 =
     (let p = update_timeout now p0 in
      if rp_phase p \<noteq> RecoveryRequired then (NoAction, p)
      else
        let p = p\<lparr>rp_retries := rp_retries p + 1\<rparr> in
        if rp_retries p < rp_max_retries p
        then (RequestIdr, p\<lparr>rp_phase := WaitingFreshIdr,
                rp_deadline := Some (now + milliseconds (rp_wait_timeout p))\<rparr>)
        else if rp_retries p = rp_max_retries p
        then (RebuildSession, p\<lparr>rp_phase := WaitingFreshIdr,
                rp_deadline := Some (now + milliseconds (rp_wait_timeout p))\<rparr>)
        else (NoAction, p\<lparr>rp_phase := Exhausted, rp_deadline := None\<rparr>))"

definition on_session_rebuilt :: "time_point \<Rightarrow> resync_policy \<Rightarrow> resync_policy" where
  "on_session_rebuilt now p =
     p\<lparr>rp_phase := WaitingFreshIdr, rp_deadline := Some (now + milliseconds (rp_wait_timeout p))\<rparr>"

datatype resync_event =
    OnRepeat time_point
  | ShouldAccept bool bool bool time_point
  | PollAction time_point
  | OnSessionRebuilt time_point

text \<open>What an event answers: whether a frame is accepted, or the action the caller is to take.\<close>

datatype resync_reply = Silent | Frame_Accepted bool | Action recovery_action

fun resync_step :: "resync_event \<Rightarrow> resync_policy \<Rightarrow> resync_reply \<times> resync_policy" where
  "resync_step (OnRepeat now) p = (Silent, on_repeat now p)"
| "resync_step (ShouldAccept idr rpt content now) p =
     (case should_accept idr rpt content now p of (b, p') \<Rightarrow> (Frame_Accepted b, p'))"
| "resync_step (PollAction now) p = (case poll_action now p of (a, p') \<Rightarrow> (Action a, p'))"
| "resync_step (OnSessionRebuilt now) p = (Silent, on_session_rebuilt now p)"

fun fresh_idr :: "resync_event \<Rightarrow> bool" where
  "fresh_idr (ShouldAccept idr rpt content now) = (idr \<and> \<not> rpt \<and> content)"
| "fresh_idr _ = False"

fun issued :: "resync_reply list \<Rightarrow> recovery_action list" where
  "issued [] = []"
| "issued (Action a # rs) = (if a = NoAction then issued rs else a # issued rs)"
| "issued (_ # rs) = issued rs"

section \<open>The post-acknowledgement visibility gate\<close>

datatype gate_decision = Allowed | Blocked | GateRecoveryRequired

record visibility_gate =
  vg_timeout :: int
  vg_armed :: bool
  vg_recovery_required :: bool
  vg_source_epoch :: u64
  vg_source_sequence :: u32
  vg_ack_time :: time_point
  vg_deadline :: time_point

definition make_visibility_gate :: "int \<Rightarrow> core_error + visibility_gate" where
  "make_visibility_gate timeout =
     (if timeout \<le> 0 then Inl Invalid_Argument
      else Inr \<lparr>vg_timeout = timeout, vg_armed = False, vg_recovery_required = False,
                vg_source_epoch = 0, vg_source_sequence = 0, vg_ack_time = 0, vg_deadline = 0\<rparr>)"

definition validate_identity :: "u64 \<Rightarrow> u64 \<Rightarrow> bool" where
  "validate_identity epoch sequence = (\<not> (epoch = 0 \<or> kMaxStreamEpoch < epoch \<or> 0xFFFFFFFF < sequence))"

definition arm_until ::
  "u64 \<Rightarrow> u32 \<Rightarrow> time_point \<Rightarrow> time_point \<Rightarrow> visibility_gate \<Rightarrow> core_error + visibility_gate" where
  "arm_until source_epoch source_sequence ack_time absolute_deadline g =
     (if \<not> validate_identity source_epoch (ucast source_sequence) then Inl Invalid_Argument
      else if absolute_deadline \<le> ack_time then Inl Invalid_Argument
      else Inr (g\<lparr>vg_source_epoch := source_epoch, vg_source_sequence := source_sequence,
                 vg_ack_time := ack_time, vg_deadline := absolute_deadline,
                 vg_recovery_required := False, vg_armed := True\<rparr>))"

definition gate_arm ::
  "u64 \<Rightarrow> u32 \<Rightarrow> time_point \<Rightarrow> time_point \<Rightarrow> visibility_gate \<Rightarrow> core_error + visibility_gate" where
  "gate_arm source_epoch source_sequence ack_time now g =
     arm_until source_epoch source_sequence ack_time (max now ack_time + milliseconds (vg_timeout g)) g"

definition gate_arm_single_epoch ::
  "u64 \<Rightarrow> time_point \<Rightarrow> time_point \<Rightarrow> visibility_gate \<Rightarrow> core_error + visibility_gate" where
  "gate_arm_single_epoch source_sequence ack_time now g =
     (if \<not> validate_identity 1 source_sequence then Inl Invalid_Argument
      else gate_arm 1 (ucast source_sequence) ack_time now g)"

definition gate_reset :: "visibility_gate \<Rightarrow> visibility_gate" where
  "gate_reset g = g\<lparr>vg_armed := False, vg_recovery_required := False, vg_source_epoch := 0,
     vg_source_sequence := 0\<rparr>"

definition gate_evaluate :: "bool \<Rightarrow> u64 \<Rightarrow> u32 \<Rightarrow> time_point \<Rightarrow> time_point \<Rightarrow> visibility_gate \<Rightarrow>
    core_error + gate_decision \<times> visibility_gate" where
  "gate_evaluate content_updated observed_epoch frame_sequence observed_at now g =
     (if \<not> validate_identity observed_epoch (ucast frame_sequence) then Inl Invalid_Argument
      else if \<not> vg_armed g then Inr (Allowed, g)
      else if vg_recovery_required g \<or> vg_deadline g \<le> now
      then Inr (GateRecoveryRequired, g\<lparr>vg_recovery_required := True\<rparr>)
      else
        let identity_advanced = vg_source_epoch g < observed_epoch \<or>
              observed_epoch = vg_source_epoch g \<and> vg_source_sequence g < frame_sequence;
            timestamp_valid = vg_ack_time g \<le> observed_at \<and> observed_at \<le> now in
        if content_updated \<and> identity_advanced \<and> timestamp_valid then Inr (Allowed, gate_reset g)
        else Inr (Blocked, g))"

definition gate_evaluate_single_epoch :: "bool \<Rightarrow> u64 \<Rightarrow> time_point \<Rightarrow> time_point \<Rightarrow> visibility_gate \<Rightarrow>
    core_error + gate_decision \<times> visibility_gate" where
  "gate_evaluate_single_epoch content_updated frame_sequence observed_at now g =
     (let epoch = (if vg_armed g then vg_source_epoch g else 1) in
      if \<not> validate_identity epoch frame_sequence then Inl Invalid_Argument
      else gate_evaluate content_updated epoch (ucast frame_sequence) observed_at now g)"

definition gate_source_epoch :: "visibility_gate \<Rightarrow> u64 option" where
  "gate_source_epoch g = (if vg_armed g then Some (vg_source_epoch g) else None)"

definition gate_source_sequence :: "visibility_gate \<Rightarrow> u32 option" where
  "gate_source_sequence g = (if vg_armed g then Some (vg_source_sequence g) else None)"

section \<open>The exact ticket\<close>

datatype ticket_result = Completed | Expired | Cancelled | Stale | WrongTicket

record exact_ticket =
  et_pending :: bool
  et_ticket_id :: u64
  et_highest_ticket_id :: u64
  et_deadline :: time_point
  et_transition_id :: u64

definition new_ticket :: exact_ticket where
  "new_ticket = \<lparr>et_pending = False, et_ticket_id = 0, et_highest_ticket_id = 0, et_deadline = 0,
     et_transition_id = 0\<rparr>"

definition ticket_begin :: "u64 \<Rightarrow> time_point \<Rightarrow> exact_ticket \<Rightarrow> core_error + exact_ticket" where
  "ticket_begin ticket_id deadline t =
     (if ticket_id = 0 then Inl Invalid_Argument
      else if et_pending t then Inl Logic_Error
      else if ticket_id \<le> et_highest_ticket_id t then Inl Invalid_Argument
      else if et_transition_id t = 0xFFFFFFFFFFFFFFFF then Inl Overflow_Error
      else Inr (t\<lparr>et_pending := True, et_ticket_id := ticket_id, et_highest_ticket_id := ticket_id,
                 et_deadline := deadline, et_transition_id := et_transition_id t + 1\<rparr>))"

text \<open>The common tail of \<^verbatim>\<open>complete\<close>, \<^verbatim>\<open>expire\<close> and \<^verbatim>\<open>cancel\<close>.\<close>

definition ticket_close :: "exact_ticket \<Rightarrow> exact_ticket" where
  "ticket_close t =
     (let t = t\<lparr>et_pending := False\<rparr> in
      if et_transition_id t \<noteq> 0xFFFFFFFFFFFFFFFF then t\<lparr>et_transition_id := et_transition_id t + 1\<rparr> else t)"

definition ticket_complete :: "u64 \<Rightarrow> time_point \<Rightarrow> exact_ticket \<Rightarrow> ticket_result \<times> exact_ticket" where
  "ticket_complete ticket_id now t =
     (if \<not> et_pending t then (Stale, t)
      else if ticket_id \<noteq> et_ticket_id t then (WrongTicket, t)
      else if et_deadline t \<le> now then (Expired, ticket_close t)
      else (Completed, ticket_close t))"

definition ticket_expire :: "time_point \<Rightarrow> exact_ticket \<Rightarrow> ticket_result \<times> exact_ticket" where
  "ticket_expire now t =
     (if \<not> et_pending t then (Stale, t)
      else if now < et_deadline t then (Stale, t)
      else (Expired, ticket_close t))"

definition ticket_cancel :: "exact_ticket \<Rightarrow> ticket_result \<times> exact_ticket" where
  "ticket_cancel t = (if \<not> et_pending t then (Stale, t) else (Cancelled, ticket_close t))"

section \<open>The blocker tracker\<close>

datatype control_blocker =
    Runnable | BlockedWaitingFreshIdr | WaitingPostAckVisibility | TicketPending | TicketDeadlineExpired
  | PostAckVisibilityTimeout | DetectedNotTrackEligible | ResponseGuardNoProgress
  | SubcountUnresolvable | TransportNotReady | CircuitOpen | RecoveryExhausted

record blocker_tracker =
  bt_current :: control_blocker
  bt_transition_id :: u64
  bt_changed_at :: time_point

definition new_blocker_tracker :: "time_point \<Rightarrow> blocker_tracker" where
  "new_blocker_tracker now = \<lparr>bt_current = Runnable, bt_transition_id = 0, bt_changed_at = now\<rparr>"

definition set_blocker :: "control_blocker \<Rightarrow> time_point \<Rightarrow> blocker_tracker \<Rightarrow> blocker_tracker" where
  "set_blocker blocker now b =
     (if blocker = bt_current b then b
      else
        let b = b\<lparr>bt_current := blocker, bt_changed_at := max (bt_changed_at b) now\<rparr> in
        if bt_transition_id b \<noteq> 0xFFFFFFFFFFFFFFFF then b\<lparr>bt_transition_id := bt_transition_id b + 1\<rparr>
        else b)"

definition blocker_age :: "time_point \<Rightarrow> blocker_tracker \<Rightarrow> int" where
  "blocker_age now b = (if now \<le> bt_changed_at b then 0 else (now - bt_changed_at b) div 1000000)"

fun blocker_name :: "control_blocker \<Rightarrow> string" where
  "blocker_name Runnable = ''RUNNABLE''"
| "blocker_name BlockedWaitingFreshIdr = ''WAITING_FRESH_IDR''"
| "blocker_name WaitingPostAckVisibility = ''WAITING_POST_ACK_VISIBILITY''"
| "blocker_name TicketPending = ''TICKET_PENDING''"
| "blocker_name TicketDeadlineExpired = ''TICKET_DEADLINE_EXPIRED''"
| "blocker_name PostAckVisibilityTimeout = ''POST_ACK_VISIBILITY_TIMEOUT''"
| "blocker_name DetectedNotTrackEligible = ''DETECTED_NOT_TRACK_ELIGIBLE''"
| "blocker_name ResponseGuardNoProgress = ''RESPONSE_GUARD_NO_PROGRESS''"
| "blocker_name SubcountUnresolvable = ''SUBCOUNT_UNRESOLVABLE''"
| "blocker_name TransportNotReady = ''TRANSPORT_NOT_READY''"
| "blocker_name CircuitOpen = ''CIRCUIT_OPEN''"
| "blocker_name RecoveryExhausted = ''RECOVERY_EXHAUSTED''"

section \<open>The control command coordinator\<close>

datatype control_observation =
    CommandStarted | AckAccepted | WrongAck | LateAck | StaleAck | VisibilityBlocked
  | VisibilityConfirmed | ObservedRecoveryRequired

record coordinator =
  cc_ticket :: exact_ticket
  cc_visibility :: visibility_gate
  cc_blockers :: blocker_tracker
  cc_source_frame :: "frame_identity option"
  cc_command_started_at :: "time_point option"

definition make_coordinator :: "int \<Rightarrow> time_point \<Rightarrow> core_error + coordinator" where
  "make_coordinator visibility_timeout now =
     (case make_visibility_gate visibility_timeout of
        Inl e \<Rightarrow> Inl e
      | Inr g \<Rightarrow> Inr \<lparr>cc_ticket = new_ticket, cc_visibility = g, cc_blockers = new_blocker_tracker now,
                  cc_source_frame = None, cc_command_started_at = None\<rparr>)"

abbreviation cc_block :: "control_blocker \<Rightarrow> time_point \<Rightarrow> coordinator \<Rightarrow> coordinator" where
  "cc_block blocker now c \<equiv> c\<lparr>cc_blockers := set_blocker blocker now (cc_blockers c)\<rparr>"

definition cc_output_allowed :: "coordinator \<Rightarrow> bool" where
  "cc_output_allowed c \<longleftrightarrow> \<not> et_pending (cc_ticket c) \<and> \<not> vg_armed (cc_visibility c) \<and>
     bt_current (cc_blockers c) = Runnable"

definition cc_begin :: "u64 \<Rightarrow> frame_identity \<Rightarrow> time_point \<Rightarrow> time_point \<Rightarrow> coordinator \<Rightarrow>
    core_error + control_observation \<times> coordinator" where
  "cc_begin ticket_id source_frame ticket_deadline now c =
     (if \<not> frame_identity_valid source_frame \<or> ticket_deadline \<le> now \<or> vg_armed (cc_visibility c) \<or>
         bt_current (cc_blockers c) \<noteq> Runnable
      then Inl Invalid_Argument
      else
        case ticket_begin ticket_id ticket_deadline (cc_ticket c) of
          Inl e \<Rightarrow> Inl e
        | Inr t \<Rightarrow>
            let c = c\<lparr>cc_ticket := t, cc_source_frame := Some source_frame,
                      cc_command_started_at := Some now\<rparr> in
            Inr (CommandStarted, cc_block TicketPending now c))"

text \<open>The acknowledgement of a completed ticket: the last lines of \<^verbatim>\<open>on_ack\<close>.\<close>

definition cc_acknowledged :: "time_point \<Rightarrow> time_point \<Rightarrow> coordinator \<Rightarrow>
    core_error + control_observation \<times> coordinator" where
  "cc_acknowledged acknowledged_at now c =
     (case cc_source_frame c of
        None \<Rightarrow> Inr (ObservedRecoveryRequired, cc_block RecoveryExhausted now c)
      | Some s \<Rightarrow>
          case gate_arm (fi_stream_epoch s) (fi_frame_sequence s) acknowledged_at now (cc_visibility c) of
            Inl e \<Rightarrow> Inl e
          | Inr g \<Rightarrow> Inr (AckAccepted, cc_block WaitingPostAckVisibility now (c\<lparr>cc_visibility := g\<rparr>)))"

definition cc_on_ack :: "u64 \<Rightarrow> time_point \<Rightarrow> time_point \<Rightarrow> coordinator \<Rightarrow>
    core_error + control_observation \<times> coordinator" where
  "cc_on_ack ticket_id acknowledged_at now c =
     (case cc_command_started_at c of
        None \<Rightarrow> Inr (StaleAck, c)
      | Some started \<Rightarrow>
          if acknowledged_at < started \<or> now < acknowledged_at then Inr (StaleAck, c)
          else
            let (result, t) = ticket_complete ticket_id now (cc_ticket c);
                c = c\<lparr>cc_ticket := t\<rparr> in
            case result of
              WrongTicket \<Rightarrow> Inr (WrongAck, c)
            | Stale \<Rightarrow> Inr (StaleAck, c)
            | Cancelled \<Rightarrow> Inr (StaleAck, c)
            | Expired \<Rightarrow> Inr (LateAck, cc_block TicketDeadlineExpired now c)
            | Completed \<Rightarrow> cc_acknowledged acknowledged_at now c)"

definition cc_observe_frame :: "frame_identity \<Rightarrow> bool \<Rightarrow> time_point \<Rightarrow> time_point \<Rightarrow> coordinator \<Rightarrow>
    core_error + control_observation \<times> coordinator" where
  "cc_observe_frame frame content_updated observed_at now c =
     (if \<not> frame_identity_valid frame \<or> now < observed_at
      then Inr (ObservedRecoveryRequired, cc_block RecoveryExhausted now c)
      else if et_pending (cc_ticket c) then Inr (VisibilityBlocked, c)
      else
        case gate_evaluate content_updated (fi_stream_epoch frame) (fi_frame_sequence frame)
               observed_at now (cc_visibility c) of
          Inl e \<Rightarrow> Inl e
        | Inr (decision, g) \<Rightarrow>
            let c = c\<lparr>cc_visibility := g\<rparr> in
            case decision of
              Allowed \<Rightarrow>
                Inr (VisibilityConfirmed, (cc_block Runnable now c)\<lparr>cc_source_frame := None,
                       cc_command_started_at := None\<rparr>)
            | Blocked \<Rightarrow> Inr (VisibilityBlocked, cc_block WaitingPostAckVisibility now c)
            | GateRecoveryRequired \<Rightarrow>
                Inr (ObservedRecoveryRequired, cc_block PostAckVisibilityTimeout now c))"

definition cc_poll :: "time_point \<Rightarrow> coordinator \<Rightarrow> core_error + control_observation \<times> coordinator" where
  "cc_poll now c =
     (if et_pending (cc_ticket c) then
        let (result, t) = ticket_expire now (cc_ticket c); c = c\<lparr>cc_ticket := t\<rparr> in
        if result = Expired
        then Inr (ObservedRecoveryRequired, cc_block TicketDeadlineExpired now c)
        else Inr (VisibilityBlocked, c)
      else
        case cc_source_frame c of
          Some s \<Rightarrow>
            if vg_armed (cc_visibility c) then cc_observe_frame s False now now c
            else Inr (if cc_output_allowed c then VisibilityConfirmed else ObservedRecoveryRequired, c)
        | None \<Rightarrow> Inr (if cc_output_allowed c then VisibilityConfirmed else ObservedRecoveryRequired, c))"

definition cc_on_recovery_verified :: "time_point \<Rightarrow> coordinator \<Rightarrow> coordinator" where
  "cc_on_recovery_verified now c =
     cc_block Runnable now
       (c\<lparr>cc_ticket := snd (ticket_cancel (cc_ticket c)), cc_visibility := gate_reset (cc_visibility c),
          cc_source_frame := None, cc_command_started_at := None\<rparr>)"

datatype control_event =
    Begin u64 frame_identity time_point time_point
  | OnAck u64 time_point time_point
  | ObserveFrame frame_identity bool time_point time_point
  | Poll time_point
  | OnRecoveryVerified time_point

datatype control_reply = Observed control_observation | Thrown core_error | Returned

text \<open>
  One call on a coordinator. The state after an exception is the old one: \<^verbatim>\<open>begin\<close> and
  \<^verbatim>\<open>observe_frame\<close> throw before their first write, and the one call that could throw after a write,
  \<^verbatim>\<open>arm\<close> inside \<^verbatim>\<open>on_ack\<close>, never does (\<open>on_ack_never_throws\<close>).
\<close>

definition reply_of :: "coordinator \<Rightarrow> core_error + control_observation \<times> coordinator \<Rightarrow>
    control_reply \<times> coordinator" where
  "reply_of c res = (case res of Inl err \<Rightarrow> (Thrown err, c) | Inr (obs, c') \<Rightarrow> (Observed obs, c'))"

fun control_step :: "control_event \<Rightarrow> coordinator \<Rightarrow> control_reply \<times> coordinator" where
  "control_step (Begin i f d now) c = reply_of c (cc_begin i f d now c)"
| "control_step (OnAck i a now) c = reply_of c (cc_on_ack i a now c)"
| "control_step (ObserveFrame f u a now) c = reply_of c (cc_observe_frame f u a now c)"
| "control_step (Poll now) c = reply_of c (cc_poll now c)"
| "control_step (OnRecoveryVerified now) c = (Returned, cc_on_recovery_verified now c)"

section \<open>The retry budget\<close>

definition retry_budget :: "nat \<Rightarrow> recovery_action list" where
  "retry_budget m = replicate (m - 1) RequestIdr @ [RebuildSession]"

lemma update_timeout_fields [simp]:
  "rp_max_retries (update_timeout now p) = rp_max_retries p"
  "rp_wait_timeout (update_timeout now p) = rp_wait_timeout p"
  "rp_retries (update_timeout now p) = rp_retries p"
  "rp_phase (update_timeout now p) = Running \<longleftrightarrow> rp_phase p = Running"
  by (auto simp: update_timeout_def split: option.splits)

lemma resync_keeps [simp]:
  "rp_max_retries (snd (resync_step e p)) = rp_max_retries p"
  "rp_wait_timeout (snd (resync_step e p)) = rp_wait_timeout p"
  by (cases e; simp add: on_repeat_def should_accept_def poll_action_def on_session_rebuilt_def Let_def)+

lemma resync_stays_blocked:
  assumes "\<not> fresh_idr e" "rp_phase p \<noteq> Running"
  shows "rp_phase (snd (resync_step e p)) \<noteq> Running" "fst (resync_step e p) \<noteq> Frame_Accepted True"
  using assms
  by (cases e; auto simp: on_repeat_def should_accept_def poll_action_def on_session_rebuilt_def Let_def)+

lemma resync_counts:
  assumes "\<not> fresh_idr e"
  shows "(rp_retries (snd (resync_step e p)) = rp_retries p \<and> issued [fst (resync_step e p)] = []) \<or>
    (rp_retries (snd (resync_step e p)) = rp_retries p + 1 \<and>
     issued [fst (resync_step e p)] =
       (if rp_retries p + 1 < rp_max_retries p then [RequestIdr]
        else if rp_retries p + 1 = rp_max_retries p then [RebuildSession] else []))"
  using assms
  by (cases e) (auto simp: on_repeat_def should_accept_def poll_action_def on_session_rebuilt_def Let_def)

lemma issued_Cons: "issued (r # rs) = issued [r] @ issued rs"
  by (cases r) simp_all

lemma budget_step:
  assumes "0 < m"
  shows "drop k (retry_budget m) =
    (if Suc k < m then [RequestIdr] else if Suc k = m then [RebuildSession] else []) @
    drop (Suc k) (retry_budget m)"
proof -
  have "length (retry_budget m) = m" using assms by (simp add: retry_budget_def)
  moreover have "retry_budget m ! k = (if Suc k < m then RequestIdr else RebuildSession)" if "k < m"
    using that by (cases "Suc k < m") (auto simp: retry_budget_def nth_append)
  ultimately show ?thesis by (cases "k < m") (auto simp: Cons_nth_drop_Suc [symmetric])
qed

lemma issued_within_budget:
  assumes "list_all (\<lambda>e. \<not> fresh_idr e) es" "0 < rp_max_retries p"
    and "unat (rp_retries p) + length es < 2 ^ 32"
  shows "prefix (issued (fst (run_outputs resync_step es p)))
    (drop (unat (rp_retries p)) (retry_budget (unat (rp_max_retries p))))"
  using assms
proof (induction es arbitrary: p)
  case Nil
  then show ?case by simp
next
  case (Cons e es)
  let ?p = "snd (resync_step e p)" and ?m = "unat (rp_max_retries p)"
  have m: "0 < ?m" using Cons.prems(2) by (simp add: unat_gt_0)
  have next_retry: "unat (rp_retries p + 1) = Suc (unat (rp_retries p))"
    using Cons.prems(3) unat_add_lem [of "rp_retries p" 1] by simp
  have run: "issued (fst (run_outputs resync_step (e # es) p)) =
      issued [fst (resync_step e p)] @ issued (fst (run_outputs resync_step es ?p))"
    by (subst issued_Cons [symmetric]) (simp add: case_prod_unfold Let_def)
  have ih: "prefix (issued (fst (run_outputs resync_step es ?p)))
      (drop (unat (rp_retries ?p)) (retry_budget ?m))" if "unat (rp_retries ?p) \<le> Suc (unat (rp_retries p))"
    using Cons.IH [of ?p] Cons.prems that by simp
  from resync_counts [of e p] Cons.prems(1) consider
    "rp_retries ?p = rp_retries p" "issued [fst (resync_step e p)] = []"
    | "rp_retries ?p = rp_retries p + 1" "issued [fst (resync_step e p)] =
       (if Suc (unat (rp_retries p)) < ?m then [RequestIdr]
        else if Suc (unat (rp_retries p)) = ?m then [RebuildSession] else [])"
    using next_retry by (auto simp: word_less_nat_alt word_unat_eq_iff split: if_splits)
  then show ?case
  proof cases
    case 1
    then show ?thesis using ih unfolding run by simp
  next
    case 2
    then have "prefix (issued (fst (run_outputs resync_step es ?p)))
        (drop (Suc (unat (rp_retries p))) (retry_budget ?m))"
      using ih next_retry by simp
    then show ?thesis
      unfolding run 2(2) by (subst budget_step [OF m]) (simp only: same_prefix_prefix)
  qed
qed


section \<open>Reachable policies\<close>

definition policy_ok :: "resync_policy \<Rightarrow> bool" where
  "policy_ok p \<longleftrightarrow> 0 < rp_wait_timeout p \<and> 0 < rp_max_retries p \<and> rp_max_retries p \<le> 1000 \<and>
     (rp_phase p = Running \<longrightarrow> rp_retries p = 0)"

definition same_limits :: "resync_policy \<Rightarrow> resync_policy \<Rightarrow> bool" where
  "same_limits p q \<longleftrightarrow> rp_wait_timeout p = rp_wait_timeout q \<and> rp_max_retries p = rp_max_retries q"

lemma policy_ok_step: "policy_ok p \<Longrightarrow> policy_ok (snd (resync_step e p))"
  by (cases e; auto simp: policy_ok_def on_repeat_def should_accept_def poll_action_def
      on_session_rebuilt_def Let_def)

lemma make_resync_policy_ok:
  assumes "make_resync_policy w m = Inr p"
  shows "policy_ok p" "rp_max_retries p = m" "rp_wait_timeout p = w" "rp_phase p = Running"
  using assms by (auto simp: make_resync_policy_def policy_ok_def word_neq_0_conv split: if_splits)

interpretation resync: event_system "\<lambda>p. \<exists>w m. make_resync_policy w m = Inr p" "\<lambda>_. True"
  "\<lambda>e p. snd (resync_step e p)" policy_ok same_limits
  by unfold_locales (auto simp: policy_ok_step same_limits_def dest: make_resync_policy_ok)

lemma resync_run_blocked:
  assumes "list_all (\<lambda>e. \<not> fresh_idr e) es" "rp_phase p \<noteq> Running"
  shows "Frame_Accepted True \<notin> set (fst (run_outputs resync_step es p))"
  using assms
  by (induction es arbitrary: p)
     (auto simp: case_prod_unfold Let_def dest: resync_stays_blocked)

lemma make_resync_policy_bounds:
  assumes "make_resync_policy w m = Inr p"
  shows "0 < w" "0 < m" "m \<le> 1000"
  using make_resync_policy_ok [OF assms] by (auto simp: policy_ok_def)

lemma repeat_start:
  assumes "make_resync_policy w m = Inr p0"
    and "p = fold (\<lambda>e p. snd (resync_step e p)) history p0" "rp_phase p = Running"
  shows "rp_phase (on_repeat now p) \<noteq> Running" "rp_retries (on_repeat now p) = 0"
    "rp_max_retries (on_repeat now p) = m" "rp_wait_timeout (on_repeat now p) = w"
    "rp_phase (on_repeat now p) = WaitingFreshIdr"
    "rp_deadline (on_repeat now p) = Some (now + milliseconds w)"
proof -
  have ok: "policy_ok p" using resync.inv_run [of p0 history] assms(1,2) by (auto simp: list_all_iff)
  have "same_limits p0 p" using resync.below_fold [of p0 history] assms(1,2)
    make_resync_policy_ok(1) [OF assms(1)] by (simp add: list_all_iff)
  then have "rp_max_retries p = m" "rp_wait_timeout p = w"
    using make_resync_policy_ok [OF assms(1)] by (simp_all add: same_limits_def)
  with ok assms(3) show "rp_phase (on_repeat now p) \<noteq> Running" "rp_retries (on_repeat now p) = 0"
    "rp_max_retries (on_repeat now p) = m" "rp_wait_timeout (on_repeat now p) = w"
    "rp_phase (on_repeat now p) = WaitingFreshIdr"
    "rp_deadline (on_repeat now p) = Some (now + milliseconds w)"
    by (auto simp: on_repeat_def policy_ok_def)
qed

text \<open>
  C21. The recovery budget: after a repeat frame stops a policy that was running, in any
  state reached by any events, and as long as no fresh non-repeated IDR arrives, no frame is
  accepted whatever else is called, and the actions the policy asks for are, in this order, at most
  one IDR request less than the retry budget and then at most one session rebuild. (The retry counter
  has 32 bits; the bound on the number of calls keeps it from wrapping.)
\<close>

theorem resync_budget:
  assumes "make_resync_policy w m = Inr p0"
    and "p = fold (\<lambda>e p. snd (resync_step e p)) history p0" "rp_phase p = Running"
    and "list_all (\<lambda>e. \<not> fresh_idr e) es" "length es < 2 ^ 32"
  shows "Frame_Accepted True \<notin> set (fst (run_outputs resync_step es (on_repeat now p))) \<and>
    prefix (issued (fst (run_outputs resync_step es (on_repeat now p))))
      (replicate (unat m - 1) RequestIdr @ [RebuildSession])"
proof
  note p = repeat_start [OF assms(1-3), of now] make_resync_policy_bounds [OF assms(1)]
  show "Frame_Accepted True \<notin> set (fst (run_outputs resync_step es (on_repeat now p)))"
    by (rule resync_run_blocked [OF assms(4) p(1)])
  show "prefix (issued (fst (run_outputs resync_step es (on_repeat now p))))
      (replicate (unat m - 1) RequestIdr @ [RebuildSession])"
    using issued_within_budget [OF assms(4), of "on_repeat now p"] p assms(5)
    by (simp add: retry_budget_def)
qed


theorem resync_budget_witness:
  "\<exists>p0. make_resync_policy 10 2 = Inr p0 \<and>
     prefix (issued (fst (run_outputs resync_step
       [PollAction 10000000, ShouldAccept False False True 10000001, PollAction 30000000] (on_repeat 0 p0))))
       [RequestIdr, RebuildSession]"
proof -
  obtain p0 where p0: "make_resync_policy 10 2 = Inr p0" by (simp add: make_resync_policy_def)
  have "rp_phase (fold (\<lambda>e p. snd (resync_step e p)) [] p0) = Running"
    using make_resync_policy_ok(4) [OF p0] by simp
  from resync_budget [OF p0 refl this, of "[PollAction 10000000,
      ShouldAccept False False True 10000001, PollAction 30000000]" 0]
  have "prefix (issued (fst (run_outputs resync_step
       [PollAction 10000000, ShouldAccept False False True 10000001, PollAction 30000000] (on_repeat 0 p0))))
       (replicate (unat (2 :: u32) - 1) RequestIdr @ [RebuildSession])"
    by (simp del: run_outputs.simps)
  then show ?thesis using p0 by (simp del: run_outputs.simps)
qed

section \<open>Exhaustion\<close>

fun spaced :: "int \<Rightarrow> time_point \<Rightarrow> time_point list \<Rightarrow> bool" where
  "spaced gap t [] = True"
| "spaced gap t (u # us) = (t + gap \<le> u \<and> spaced gap u us)"

lemma poll_due:
  assumes "rp_phase p = WaitingFreshIdr" "rp_deadline p = Some d" "d \<le> now"
  shows "poll_action now p =
    (let q = p\<lparr>rp_retries := rp_retries p + 1, rp_deadline := Some (now + milliseconds (rp_wait_timeout p))\<rparr> in
     if rp_retries q < rp_max_retries p then (RequestIdr, q)
     else if rp_retries q = rp_max_retries p then (RebuildSession, q)
     else (NoAction, p\<lparr>rp_retries := rp_retries p + 1, rp_phase := Exhausted, rp_deadline := None\<rparr>))"
  using assms by (simp add: poll_action_def update_timeout_def Let_def)

lemma polls_exhaust:
  assumes "rp_phase p = WaitingFreshIdr" "rp_deadline p = Some (t + milliseconds (rp_wait_timeout p))"
    and "spaced (milliseconds (rp_wait_timeout p)) t ts" "rp_max_retries p \<le> 1000" "0 < rp_max_retries p"
    and "unat (rp_retries p) + length ts = Suc (unat (rp_max_retries p))" "ts \<noteq> []"
  shows "fst (run_outputs poll_action ts p) =
      drop (unat (rp_retries p)) (retry_budget (unat (rp_max_retries p))) @ [NoAction] \<and>
    rp_phase (snd (run_outputs poll_action ts p)) = Exhausted"
  using assms
proof (induction ts arbitrary: p t)
  case Nil
  then show ?case by simp
next
  case (Cons u us)
  let ?r = "unat (rp_retries p)" and ?m = "unat (rp_max_retries p)"
  have m: "0 < ?m" "?m \<le> 1000" using Cons.prems(4,5) by (simp_all add: unat_gt_0 word_le_nat_alt)
  have r: "unat (rp_retries p + 1) = Suc ?r"
    using Cons.prems(6) m unat_add_lem [of "rp_retries p" 1] by simp
  have len: "length (retry_budget ?m) = ?m" using m by (simp add: retry_budget_def)
  have due: "t + milliseconds (rp_wait_timeout p) \<le> u" using Cons.prems(3) by simp
  note poll = poll_due [OF Cons.prems(1,2) due]
  show ?case
  proof (cases "?r < ?m")
    case False
    moreover have "?r + length us = ?m" using Cons.prems(6) by simp
    ultimately have "length us = 0" "?r = ?m" by linarith+
    then have "us = []" "?r = ?m" by simp_all
    moreover have "\<not> rp_retries p + 1 < rp_max_retries p" "rp_retries p + 1 \<noteq> rp_max_retries p"
      using r \<open>?r = ?m\<close> by (auto simp: word_less_nat_alt word_unat_eq_iff)
    ultimately show ?thesis using len by (simp add: poll Let_def)
  next
    case True
    then have "us \<noteq> []" using Cons.prems(6) by auto
    let ?q = "p\<lparr>rp_retries := rp_retries p + 1, rp_deadline := Some (u + milliseconds (rp_wait_timeout p))\<rparr>"
    have step: "poll_action u p = (if Suc ?r < ?m then RequestIdr else RebuildSession, ?q)"
      using True r by (auto simp: poll Let_def word_less_nat_alt word_unat_eq_iff)
    have "fst (run_outputs poll_action us ?q) = drop (Suc ?r) (retry_budget ?m) @ [NoAction] \<and>
        rp_phase (snd (run_outputs poll_action us ?q)) = Exhausted"
      using Cons.IH [of ?q u] Cons.prems True r \<open>us \<noteq> []\<close> by auto
    then show ?thesis
      using True by (subst budget_step [OF m(1)]) (auto simp: step case_prod_unfold Let_def)
  qed
qed

text \<open>
  Recovery ends: once a repeat frame has stopped the policy, polling it one more time than
  its retry budget, each poll at least one waiting time after the one before, asks for exactly one
  IDR less than the budget, then for one session rebuild, and leaves the policy exhausted.
\<close>

theorem resync_exhausts:
  assumes "make_resync_policy w m = Inr p0"
    and "p = fold (\<lambda>e p. snd (resync_step e p)) history p0" "rp_phase p = Running"
    and "spaced (milliseconds w) now ts" "length ts = unat m + 1"
  shows "fst (run_outputs poll_action ts (on_repeat now p)) =
      replicate (unat m - 1) RequestIdr @ [RebuildSession, NoAction] \<and>
    rp_phase (snd (run_outputs poll_action ts (on_repeat now p))) = Exhausted"
proof -
  have "ts \<noteq> []" using assms(5) by auto
  then show ?thesis
    using polls_exhaust [of "on_repeat now p" now ts] repeat_start [OF assms(1-3), of now]
      make_resync_policy_bounds [OF assms(1)] assms(4,5)
    by (simp add: retry_budget_def)
qed

theorem resync_exhausts_witness:
  "\<exists>p0. make_resync_policy 10 2 = Inr p0 \<and>
     fst (run_outputs poll_action [10000000, 20000000, 35000000] (on_repeat 0 p0)) =
       [RequestIdr, RebuildSession, NoAction]"
proof -
  obtain p0 where p0: "make_resync_policy 10 2 = Inr p0" by (simp add: make_resync_policy_def)
  have "rp_phase (fold (\<lambda>e p. snd (resync_step e p)) [] p0) = Running"
    using make_resync_policy_ok(4) [OF p0] by simp
  from resync_exhausts [OF p0 refl this, of 0 "[10000000, 20000000, 35000000]"] p0
  show ?thesis by (simp add: milliseconds_def del: run_outputs.simps)
qed


section \<open>The coordinator's invariant\<close>

lemma set_blocker_current [simp]: "bt_current (set_blocker blocker now b) = blocker"
  by (simp add: set_blocker_def Let_def)

lemma ticket_close_fields [simp]:
  "et_pending (ticket_close t) = False" "et_highest_ticket_id (ticket_close t) = et_highest_ticket_id t"
  by (simp_all add: ticket_close_def Let_def)

lemma wide_sequence: "\<not> 0xFFFFFFFF < (ucast (s :: u32) :: u64)"
proof -
  have "unat (ucast s :: u64) \<le> unat s" by (simp add: unsigned_ucast_eq)
  then show ?thesis using unsigned_less [of s, where 'a = nat] by (simp add: word_less_nat_alt)
qed

lemma validate_identity_frame:
  "frame_identity_valid f \<Longrightarrow> validate_identity (fi_stream_epoch f) (ucast (fi_frame_sequence f))"
  by (auto simp: validate_identity_def frame_identity_valid_def wide_sequence not_less)

text \<open>The blockers the coordinator itself sets.\<close>

fun coordinates :: "control_blocker \<Rightarrow> bool" where
  "coordinates Runnable = True"
| "coordinates WaitingPostAckVisibility = True"
| "coordinates TicketPending = True"
| "coordinates TicketDeadlineExpired = True"
| "coordinates PostAckVisibilityTimeout = True"
| "coordinates RecoveryExhausted = True"
| "coordinates _ = False"

definition cc_inv :: "coordinator \<Rightarrow> bool" where
  "cc_inv c \<longleftrightarrow> 0 < vg_timeout (cc_visibility c) \<and>
     coordinates (bt_current (cc_blockers c)) \<and>
     (et_pending (cc_ticket c) \<longrightarrow> \<not> vg_armed (cc_visibility c) \<and> cc_source_frame c \<noteq> None \<and>
        bt_current (cc_blockers c) \<noteq> Runnable) \<and>
     (vg_armed (cc_visibility c) \<longrightarrow> bt_current (cc_blockers c) \<noteq> Runnable \<and>
        cc_source_frame c = Some \<lparr>fi_stream_epoch = vg_source_epoch (cc_visibility c),
          fi_frame_sequence = vg_source_sequence (cc_visibility c)\<rparr>) \<and>
     (\<forall>s. cc_source_frame c = Some s \<longrightarrow> frame_identity_valid s) \<and>
     (bt_current (cc_blockers c) = PostAckVisibilityTimeout \<longrightarrow>
        vg_armed (cc_visibility c) \<and> vg_recovery_required (cc_visibility c)) \<and>
     (bt_current (cc_blockers c) = TicketPending \<longrightarrow> et_pending (cc_ticket c)) \<and>
     (bt_current (cc_blockers c) = WaitingPostAckVisibility \<longrightarrow> vg_armed (cc_visibility c)) \<and>
     (bt_current (cc_blockers c) = TicketDeadlineExpired \<longrightarrow>
        \<not> et_pending (cc_ticket c) \<and> \<not> vg_armed (cc_visibility c))"

lemma on_ack_never_throws:
  assumes "cc_inv c"
  shows "\<exists>res. cc_on_ack i acked now c = Inr res"
proof -
  have "\<exists>g. gate_arm (fi_stream_epoch s) (fi_frame_sequence s) acked now (cc_visibility c) = Inr g"
    if "cc_source_frame c = Some s" for s
    using that assms validate_identity_frame [of s]
    by (auto simp: gate_arm_def arm_until_def cc_inv_def milliseconds_def)
  then show ?thesis
    by (auto simp: cc_on_ack_def cc_acknowledged_def Let_def case_prod_unfold
        split: option.splits ticket_result.splits)
qed

lemma begin_inv: "cc_inv c \<Longrightarrow> cc_begin i f d now c = Inr (obs, c') \<Longrightarrow> cc_inv c'"
  by (auto simp: cc_begin_def ticket_begin_def cc_inv_def Let_def split: if_splits)

lemma on_ack_inv:
  assumes "cc_inv c" "cc_on_ack i acked now c = Inr (obs, c')"
  shows "cc_inv c'"
  using assms
  by (auto simp: cc_on_ack_def ticket_complete_def cc_acknowledged_def gate_arm_def arm_until_def cc_inv_def
      Let_def split: if_splits option.splits ticket_result.splits)

lemma gate_evaluate_Inr:
  "gate_evaluate u ep sq seen now g = Inr (decision, g') \<Longrightarrow>
     \<not> vg_armed g \<and> decision = Allowed \<and> g' = g \<or>
     vg_armed g \<and> decision = Allowed \<and> g' = gate_reset g \<or>
     vg_armed g \<and> decision = Blocked \<and> g' = g \<or>
     vg_armed g \<and> decision = GateRecoveryRequired \<and> g' = g\<lparr>vg_recovery_required := True\<rparr>"
  by (simp add: gate_evaluate_def Let_def split: if_splits)

lemma observe_frame_inv:
  assumes inv: "cc_inv c" and obs: "cc_observe_frame f u seen now c = Inr (obs, c')"
  shows "cc_inv c'"
proof (cases "\<not> frame_identity_valid f \<or> now < seen \<or> et_pending (cc_ticket c)")
  case True
  with assms show ?thesis by (auto simp: cc_observe_frame_def cc_inv_def split: if_splits)
next
  case False
  then obtain decision g where
    g: "gate_evaluate u (fi_stream_epoch f) (fi_frame_sequence f) seen now (cc_visibility c) =
      Inr (decision, g)"
    using obs by (auto simp: cc_observe_frame_def split: sum.splits)
  from gate_evaluate_Inr [OF g] show ?thesis
    using inv obs g False
    by (elim disjE conjE) (auto simp: cc_observe_frame_def cc_inv_def gate_reset_def)
qed

lemma poll_inv:
  assumes "cc_inv c" "cc_poll now c = Inr (obs, c')"
  shows "cc_inv c'"
proof (cases "et_pending (cc_ticket c)")
  case True
  with assms show ?thesis by (auto simp: cc_poll_def ticket_expire_def cc_inv_def Let_def split: if_splits)
next
  case False
  with assms observe_frame_inv [OF assms(1)] show ?thesis
    by (auto simp: cc_poll_def split: if_splits option.splits)
qed

lemma recovery_verified_inv: "cc_inv c \<Longrightarrow> cc_inv (cc_on_recovery_verified now c)"
  by (auto simp: cc_on_recovery_verified_def ticket_cancel_def gate_reset_def cc_inv_def)

lemma reply_of_inv:
  "cc_inv c \<Longrightarrow> (\<And>obs c'. res = Inr (obs, c') \<Longrightarrow> cc_inv c') \<Longrightarrow> cc_inv (snd (reply_of c res))"
  by (auto simp: reply_of_def split: sum.splits)

lemma control_step_inv: "cc_inv c \<Longrightarrow> cc_inv (snd (control_step e c))"
  by (cases e) (auto intro!: reply_of_inv recovery_verified_inv
      intro: begin_inv on_ack_inv observe_frame_inv poll_inv)


lemma make_coordinator_inv:
  assumes "make_coordinator timeout now = Inr c"
  shows "cc_inv c"
  using assms
  by (auto simp: make_coordinator_def make_visibility_gate_def new_ticket_def new_blocker_tracker_def
      cc_inv_def split: if_splits)

definition ticket_floor :: "coordinator \<Rightarrow> coordinator \<Rightarrow> bool" where
  "ticket_floor c d \<longleftrightarrow> et_highest_ticket_id (cc_ticket c) \<le> et_highest_ticket_id (cc_ticket d)"

abbreviation control_run :: "control_event list \<Rightarrow> coordinator \<Rightarrow> coordinator" where
  "control_run es c \<equiv> fold (\<lambda>e c. snd (control_step e c)) es c"

section \<open>Tickets\<close>

lemma observe_frame_ticket:
  "cc_observe_frame f u seen now c = Inr (obs, c') \<Longrightarrow> cc_ticket c' = cc_ticket c \<and> obs \<noteq> CommandStarted \<and> obs \<noteq> AckAccepted"
  by (auto simp: cc_observe_frame_def Let_def split: if_splits sum.splits gate_decision.splits)

definition begins :: "control_event \<Rightarrow> control_reply \<Rightarrow> u64 list" where
  "begins e r = (case e of Begin i f d now \<Rightarrow> if r = Observed CommandStarted then [i] else [] | _ \<Rightarrow> [])"

definition acknowledges :: "control_event \<Rightarrow> control_reply \<Rightarrow> u64 list" where
  "acknowledges e r = (case e of OnAck i a now \<Rightarrow> if r = Observed AckAccepted then [i] else [] | _ \<Rightarrow> [])"

definition pending_ids :: "coordinator \<Rightarrow> u64 list" where
  "pending_ids c = (if et_pending (cc_ticket c) then [et_ticket_id (cc_ticket c)] else [])"

lemma begin_tickets:
  fixes i :: u64
  assumes "control_step (Begin i f d now) c = (r, c')"
  shows "r = Observed CommandStarted \<and> \<not> et_pending (cc_ticket c) \<and>
      et_highest_ticket_id (cc_ticket c) < i \<and> et_highest_ticket_id (cc_ticket c') = i \<and> pending_ids c' = [i] \<or>
    r \<noteq> Observed CommandStarted \<and> c' = c"
  using assms
  by (auto simp: reply_of_def cc_begin_def ticket_begin_def pending_ids_def Let_def not_le
      split: if_splits)

lemma ack_tickets:
  fixes i :: u64
  assumes "control_step (OnAck i acked now) c = (r, c')"
  shows "et_highest_ticket_id (cc_ticket c') = et_highest_ticket_id (cc_ticket c) \<and>
    (r = Observed AckAccepted \<and> pending_ids c = [i] \<and> pending_ids c' = [] \<or>
     r \<noteq> Observed AckAccepted \<and> (pending_ids c' = pending_ids c \<or> pending_ids c' = []))"
  using assms
  by (auto simp: reply_of_def cc_on_ack_def ticket_complete_def cc_acknowledged_def pending_ids_def Let_def
      split: if_splits option.splits sum.splits)

lemma other_tickets:
  assumes "control_step e c = (r, c')" "\<And>i f d now. e \<noteq> Begin i f d now" "\<And>i a now. e \<noteq> OnAck i a now"
  shows "et_highest_ticket_id (cc_ticket c') = et_highest_ticket_id (cc_ticket c) \<and>
    (pending_ids c' = pending_ids c \<or> pending_ids c' = [])"
proof (cases e)
  case (Poll now)
  show ?thesis
  proof (cases "et_pending (cc_ticket c)")
    case True
    then show ?thesis using assms(1) Poll
      by (auto simp: reply_of_def cc_poll_def ticket_expire_def pending_ids_def Let_def split: if_splits)
  next
    case False
    have "c' = c \<or> (\<exists>s obs. cc_observe_frame s False now now c = Inr (obs, c'))"
      using assms(1) False unfolding Poll
      by (auto simp: reply_of_def cc_poll_def split: if_splits option.splits sum.splits)
    then have "cc_ticket c' = cc_ticket c" using observe_frame_ticket by blast
    then show ?thesis by (simp add: pending_ids_def)
  qed
next
  case (ObserveFrame f u seen now)
  have "c' = c \<or> (\<exists>obs. cc_observe_frame f u seen now c = Inr (obs, c'))"
    using assms(1) unfolding ObserveFrame by (auto simp: reply_of_def split: sum.splits)
  then have "cc_ticket c' = cc_ticket c" using observe_frame_ticket by blast
  then show ?thesis by (simp add: pending_ids_def)
next
  case (OnRecoveryVerified now)
  then show ?thesis using assms(1)
    by (auto simp: cc_on_recovery_verified_def ticket_cancel_def pending_ids_def)
qed (use assms in auto)

lemma ticket_step:
  assumes "control_step e c = (r, c')"
  shows "et_highest_ticket_id (cc_ticket c) \<le> et_highest_ticket_id (cc_ticket c') \<and>
    list_all (\<lambda>i. et_highest_ticket_id (cc_ticket c) < i \<and> et_highest_ticket_id (cc_ticket c') = i) (begins e r) \<and>
    subseq (acknowledges e r @ pending_ids c') (pending_ids c @ begins e r)"
proof (cases e)
  case (Begin i f d now)
  then show ?thesis using begin_tickets [OF assms [unfolded Begin]]
    by (auto simp: begins_def acknowledges_def pending_ids_def)
next
  case (OnAck i acked now)
  then show ?thesis using ack_tickets [OF assms [unfolded OnAck]]
    by (auto simp: begins_def acknowledges_def)
qed (use other_tickets [OF assms] in \<open>auto simp: begins_def acknowledges_def\<close>)

interpretation control: event_system "\<lambda>c. \<exists>timeout now. make_coordinator timeout now = Inr c" "\<lambda>_. True"
  "\<lambda>e c. snd (control_step e c)" cc_inv ticket_floor
proof unfold_locales
  show "ticket_floor c (snd (control_step e c))" for e c
    using ticket_step [of e c "fst (control_step e c)" "snd (control_step e c)"] by (simp add: ticket_floor_def)
qed (auto simp: ticket_floor_def control_step_inv dest: make_coordinator_inv)


fun trace :: "(control_event \<Rightarrow> control_reply \<Rightarrow> u64 list) \<Rightarrow> control_event list \<Rightarrow> control_reply list \<Rightarrow> u64 list" where
  "trace ids (e # es) (r # rs) = ids e r @ trace ids es rs"
| "trace ids _ _ = []"

lemma ticket_run:
  "sorted_wrt (<) (trace begins es (fst (run_outputs control_step es c))) \<and>
   list_all (\<lambda>i. et_highest_ticket_id (cc_ticket c) < i) (trace begins es (fst (run_outputs control_step es c))) \<and>
   subseq (trace acknowledges es (fst (run_outputs control_step es c)))
     (pending_ids c @ trace begins es (fst (run_outputs control_step es c)))"
proof (induction es arbitrary: c)
  case Nil
  then show ?case by simp
next
  case (Cons e es)
  obtain r c' where step: "control_step e c = (r, c')" by fastforce
  let ?rs = "fst (run_outputs control_step es c')"
  note one = ticket_step [OF step]
  note rest = Cons.IH [of c']
  have run: "fst (run_outputs control_step (e # es) c) = r # ?rs"
    by (simp add: step case_prod_unfold Let_def)
  have "length (begins e r) \<le> 1" by (simp add: begins_def split: control_event.splits)
  then have "sorted_wrt (<) (begins e r)" by (cases "begins e r") auto
  moreover have "subseq (acknowledges e r @ trace acknowledges es ?rs)
      (pending_ids c @ begins e r @ trace begins es ?rs)"
  proof -
    have "subseq (acknowledges e r @ trace acknowledges es ?rs)
        ((acknowledges e r @ pending_ids c') @ trace begins es ?rs)"
      using rest by (simp add: subseq_append')
    also have "subseq \<dots> ((pending_ids c @ begins e r) @ trace begins es ?rs)"
      by (rule list_emb_append_mono) (use one in simp_all)
    finally show ?thesis by simp
  qed
  ultimately show ?case unfolding run
    using one rest by (auto simp: sorted_wrt_append list_all_iff)
qed

text \<open>
  Tickets: over any sequence of calls on a new coordinator, the ticket ids of the commands it
  starts are strictly increasing, and the acknowledgements it accepts are a subsequence of them: no
  ticket is acknowledged that was not started, none twice, and none out of order.
\<close>

theorem tickets_exact:
  assumes "make_coordinator timeout t0 = Inr c0"
    and "fst (run_outputs control_step es c0) = rs"
  shows "sorted_wrt (<) (trace begins es rs) \<and> subseq (trace acknowledges es rs) (trace begins es rs)"
proof -
  have "pending_ids c0 = []"
    using assms(1) by (auto simp: make_coordinator_def new_ticket_def pending_ids_def split: sum.splits)
  then show ?thesis using ticket_run [of es c0] by (simp add: assms(2))
qed

text \<open>
  How output reopens: in any reachable state of the coordinator in which output is not
  allowed, a call after which it is allowed is either the verified recovery, or the observation of a
  valid frame not from the future; and if a command has been acknowledged and its visibility is
  awaited, that frame has updated content, is newer than the command's source frame, was observed
  at or after the acknowledgement, and comes before the visibility deadline; if none is awaited, a
  ticket has expired or an invalid frame was seen.
\<close>

lemma output_reopens:
  assumes "make_coordinator timeout t0 = Inr c0" "c = control_run es c0"
    and "\<not> cc_output_allowed c" "cc_output_allowed (snd (control_step e c))"
  shows "(\<exists>now. e = OnRecoveryVerified now) \<or>
    (\<exists>frame content seen now. e = ObserveFrame frame content seen now \<and> frame_identity_valid frame \<and>
       seen \<le> now \<and> \<not> et_pending (cc_ticket c) \<and>
       (if vg_armed (cc_visibility c)
        then content \<and> vg_ack_time (cc_visibility c) \<le> seen \<and> now < vg_deadline (cc_visibility c) \<and>
          \<not> vg_recovery_required (cc_visibility c) \<and>
          (\<exists>source. cc_source_frame c = Some source \<and> newer_than frame source)
        else bt_current (cc_blockers c) \<in> {TicketDeadlineExpired, RecoveryExhausted}))"
proof -
  have inv: "cc_inv c" using control.inv_run [of c0 es] assms(1,2) by (auto simp: list_all_iff)
  show ?thesis
  proof (cases e)
    case (Begin i f d now)
    then show ?thesis using assms(3,4)
      by (auto simp: reply_of_def cc_begin_def cc_output_allowed_def Let_def split: if_splits sum.splits)
  next
    case (OnAck i a now)
    then show ?thesis using assms(3,4) inv
      by (auto simp: reply_of_def cc_on_ack_def cc_acknowledged_def cc_output_allowed_def ticket_complete_def
          cc_inv_def Let_def split: if_splits option.splits sum.splits)
  next
    case (ObserveFrame f u seen now)
    have "bt_current (cc_blockers c) \<in> {TicketDeadlineExpired, RecoveryExhausted}"
      if "\<not> vg_armed (cc_visibility c)" "\<not> et_pending (cc_ticket c)"
      using that assms(3) inv by (cases "bt_current (cc_blockers c)") (simp_all add: cc_inv_def cc_output_allowed_def)
    then show ?thesis using assms(4) inv ObserveFrame
      by (auto simp: reply_of_def cc_observe_frame_def gate_evaluate_def cc_output_allowed_def cc_inv_def
          newer_than_def Let_def split: if_splits)
  next
    case (Poll now)
    then show ?thesis using assms(3,4) inv
      by (auto simp: reply_of_def cc_poll_def cc_observe_frame_def gate_evaluate_def cc_output_allowed_def
          ticket_expire_def cc_inv_def Let_def split: if_splits option.splits)
  qed auto
qed


section \<open>Failing closed\<close>

definition timed_out :: "coordinator \<Rightarrow> bool" where
  "timed_out c \<longleftrightarrow> cc_inv c \<and> vg_armed (cc_visibility c) \<and> vg_recovery_required (cc_visibility c)"

fun verifies_recovery :: "control_event \<Rightarrow> bool" where
  "verifies_recovery (OnRecoveryVerified now) = True"
| "verifies_recovery _ = False"

lemma timed_out_step:
  assumes "timed_out c" "\<not> verifies_recovery e"
  shows "timed_out (snd (control_step e c))"
proof -
  have "cc_inv (snd (control_step e c))" using assms(1) by (simp add: timed_out_def control_step_inv)
  moreover have "vg_armed (cc_visibility (snd (control_step e c))) \<and>
      vg_recovery_required (cc_visibility (snd (control_step e c)))"
  proof (cases e)
    case (Begin i f d now)
    then show ?thesis using assms(1) by (simp add: reply_of_def cc_begin_def timed_out_def)
  next
    case (OnAck i a now)
    then show ?thesis using assms(1)
      by (auto simp: reply_of_def cc_on_ack_def ticket_complete_def timed_out_def cc_inv_def split: option.splits)
  next
    case (ObserveFrame f u seen now)
    then show ?thesis using assms(1)
      by (auto simp: reply_of_def cc_observe_frame_def gate_evaluate_def timed_out_def split: sum.splits)
  next
    case (Poll now)
    then show ?thesis using assms(1)
      by (auto simp: reply_of_def cc_poll_def cc_observe_frame_def gate_evaluate_def timed_out_def cc_inv_def
          split: sum.splits option.splits)
  qed (use assms(2) in simp)
  ultimately show ?thesis by (simp add: timed_out_def)
qed

text \<open>
  C18. A visibility timeout fails closed: once the coordinator reports that the post-acknowledgement
  visibility timed out, no sequence of commands, acknowledgements, frames and polls allows output
  again; only the verified recovery does.
\<close>

theorem visibility_timeout_latched:
  assumes "make_coordinator timeout t0 = Inr c0" "c = control_run es c0"
    and "bt_current (cc_blockers c) = PostAckVisibilityTimeout"
    and "list_all (\<lambda>e. \<not> verifies_recovery e) fs"
  shows "\<not> cc_output_allowed (control_run fs c) \<and>
    cc_output_allowed (snd (control_step (OnRecoveryVerified now) (control_run fs c)))"
proof -
  have "cc_inv c" using control.inv_run [of c0 es] assms(1,2) by (auto simp: list_all_iff)
  then have "timed_out c" using assms(3) by (auto simp: timed_out_def cc_inv_def)
  then have "timed_out (control_run fs c)"
    using assms(4) by (induction fs arbitrary: c) (simp_all add: timed_out_step)
  then show ?thesis
    by (auto simp: timed_out_def cc_output_allowed_def cc_on_recovery_verified_def ticket_cancel_def
        gate_reset_def)
qed

text \<open>
  A ticket timeout does not: in every reachable state in which a command's ticket has expired
  without acknowledgement, the observation of any valid frame, the command's own source frame
  included and with its content unchanged, is answered as confirmed visibility and allows output
  again, with no verified recovery.
\<close>

theorem expired_ticket_reopens:
  assumes "make_coordinator timeout t0 = Inr c0" "c = control_run es c0"
    and "bt_current (cc_blockers c) = TicketDeadlineExpired"
    and "frame_identity_valid frame" "seen \<le> now"
  shows "\<not> cc_output_allowed c \<and>
    fst (control_step (ObserveFrame frame False seen now) c) = Observed VisibilityConfirmed \<and>
    cc_output_allowed (snd (control_step (ObserveFrame frame False seen now) c))"
proof -
  have "cc_inv c" using control.inv_run [of c0 es] assms(1,2) by (auto simp: list_all_iff)
  then have "\<not> et_pending (cc_ticket c)" "\<not> vg_armed (cc_visibility c)"
    using assms(3) by (simp_all add: cc_inv_def)
  then show ?thesis
    using assms(3-5) validate_identity_frame [OF assms(4)]
    by (simp add: reply_of_def cc_observe_frame_def gate_evaluate_def cc_output_allowed_def)
qed

section \<open>Example runs\<close>

definition example_coordinator :: coordinator where
  "example_coordinator =
     \<lparr>cc_ticket = new_ticket,
      cc_visibility = \<lparr>vg_timeout = 10, vg_armed = False, vg_recovery_required = False,
        vg_source_epoch = 0, vg_source_sequence = 0, vg_ack_time = 0, vg_deadline = 0\<rparr>,
      cc_blockers = new_blocker_tracker 0, cc_source_frame = None, cc_command_started_at = None\<rparr>"

lemma example_make: "make_coordinator 10 0 = Inr example_coordinator"
  by (simp add: make_coordinator_def make_visibility_gate_def example_coordinator_def)

definition frame_7_10 :: frame_identity where
  "frame_7_10 = \<lparr>fi_stream_epoch = 7, fi_frame_sequence = 10\<rparr>"

definition frame_7_11 :: frame_identity where
  "frame_7_11 = \<lparr>fi_stream_epoch = 7, fi_frame_sequence = 11\<rparr>"

lemmas control_run_defs = example_coordinator_def new_ticket_def new_blocker_tracker_def frame_7_10_def frame_7_11_def
  reply_of_def cc_begin_def cc_on_ack_def cc_acknowledged_def cc_observe_frame_def cc_poll_def
  cc_output_allowed_def ticket_begin_def ticket_complete_def ticket_expire_def ticket_close_def
  gate_arm_def arm_until_def gate_evaluate_def gate_reset_def validate_identity_def set_blocker_def
  frame_identity_valid_def kMaxStreamEpoch_def milliseconds_def

theorem tickets_exact_witness:
  "\<exists>rs. fst (run_outputs control_step [Begin 1 frame_7_10 20000000 1000000, OnAck 2 2000000 3000000,
       OnAck 1 2000000 3000000] example_coordinator) = rs \<and>
     subseq (trace acknowledges [Begin 1 frame_7_10 20000000 1000000, OnAck 2 2000000 3000000,
       OnAck 1 2000000 3000000] rs) (trace begins [Begin 1 frame_7_10 20000000 1000000,
       OnAck 2 2000000 3000000, OnAck 1 2000000 3000000] rs)"
  using tickets_exact [OF example_make refl] by blast

theorem visibility_timeout_latched_witness:
  "\<not> cc_output_allowed (control_run [ObserveFrame frame_7_11 True 13000001 13000001]
     (control_run [Begin 1 frame_7_10 20000000 1000000, OnAck 1 2000000 3000000, Poll 13000000]
       example_coordinator))"
  using visibility_timeout_latched [OF example_make refl, of "[Begin 1 frame_7_10 20000000 1000000,
      OnAck 1 2000000 3000000, Poll 13000000]" "[ObserveFrame frame_7_11 True 13000001 13000001]" 0]
  by (simp add: control_run_defs)

theorem expired_ticket_reopens_witness:
  "cc_output_allowed (snd (control_step (ObserveFrame frame_7_10 False 21000000 21000000)
     (control_run [Begin 1 frame_7_10 20000000 1000000, Poll 20000000] example_coordinator)))"
  using expired_ticket_reopens [OF example_make refl, of "[Begin 1 frame_7_10 20000000 1000000,
      Poll 20000000]" frame_7_10 21000000 21000000]
  by (simp add: control_run_defs)

end
