(* ===== verification/Core_Delivery.thy ===== *)
theory Core_Delivery
  imports Core_Reassembly
begin

text \<open>
  The core library end to end: the datagrams \<^verbatim>\<open>DatagramFragmenter::fragment\<close> makes of an access
  unit, parsed by \<^verbatim>\<open>parse_wire_header\<close> and ingested by \<^verbatim>\<open>AccessUnitReassembler\<close>, in any order and with
  repetitions, deliver the unit.
\<close>

section \<open>A unit and its slices\<close>

text \<open>\<open>n\<close> slices of at most \<open>c\<close> bytes, none of them empty, make up the access unit.\<close>

definition sliced :: "bytes \<Rightarrow> nat \<Rightarrow> nat \<Rightarrow> bool" where
  "sliced au c n \<longleftrightarrow> 0 < c \<and> 0 < n \<and> n \<le> 1561 \<and> length au \<le> n * c \<and> (n - 1) * c < length au"

definition unit_slice :: "bytes \<Rightarrow> nat \<Rightarrow> nat \<Rightarrow> bytes" where
  "unit_slice au c k = take c (drop (k * c) au)"

lemma unit_slice_nonempty:
  assumes "sliced au c n" "k < n"
  shows "unit_slice au c k \<noteq> []"
proof -
  have "k * c \<le> (n - 1) * c" using assms(2) by (intro mult_le_mono1) simp
  also have "\<dots> < length au" using assms(1) by (simp add: sliced_def)
  finally have "k * c < length au" .
  then show ?thesis using assms(1) by (simp add: unit_slice_def sliced_def)
qed

lemma slices_concat: "sliced au c n \<Longrightarrow> concat (map (unit_slice au c) [0..<n]) = au"
  using concat_slices [of c au n] by (simp add: unit_slice_def [abs_def] sliced_def)

definition received_slots :: "bytes \<Rightarrow> nat \<Rightarrow> nat \<Rightarrow> nat set \<Rightarrow> bytes option list" where
  "received_slots au c n D = map (\<lambda>k. if k \<in> D then Some (unit_slice au c k) else None) [0..<n]"

lemma stored_received: "stored (received_slots au c n D) = map (unit_slice au c) (filter (\<lambda>k. k \<in> D) [0..<n])"
proof -
  have "stored (map (\<lambda>k. if k \<in> D then Some (unit_slice au c k) else None) ks) =
      map (unit_slice au c) (filter (\<lambda>k. k \<in> D) ks)" for ks
    by (induction ks) simp_all
  then show ?thesis by (simp add: received_slots_def)
qed

lemma received_count:
  assumes "D \<subseteq> {0..<n}"
  shows "length (stored (received_slots au c n D)) = card D"
proof -
  have "length (filter (\<lambda>k. k \<in> D) [0..<n]) = card (set (filter (\<lambda>k. k \<in> D) [0..<n]))"
    by (simp add: distinct_card del: set_filter)
  also have "set (filter (\<lambda>k. k \<in> D) [0..<n]) = D" using assms by auto
  finally show ?thesis by (simp add: stored_received)
qed

lemma received_bytes:
  assumes "sliced au c n"
  shows "sum_list (map length (stored (received_slots au c n D))) \<le> length au"
proof -
  have "sum_list (map (length \<circ> unit_slice au c) (filter (\<lambda>k. k \<in> D) ks)) \<le>
      sum_list (map (length \<circ> unit_slice au c) ks)" for ks :: "nat list"
    by (induction ks) auto
  then have "sum_list (map length (stored (received_slots au c n D))) \<le>
      length (concat (map (unit_slice au c) [0..<n]))"
    by (simp add: stored_received length_concat)
  then show ?thesis using slices_concat [OF assms] by simp
qed

section \<open>Collecting\<close>

definition frame_of :: "frame_identity \<Rightarrow> frame_key" where
  "frame_of ident = (fi_stream_epoch ident, fi_frame_sequence ident)"

definition gathering ::
  "frame_identity \<Rightarrow> bytes \<Rightarrow> nat \<Rightarrow> nat \<Rightarrow> time_point \<Rightarrow> nat set \<Rightarrow> core_reassembler \<Rightarrow> bool" where
  "gathering ident au c n t0 D r \<longleftrightarrow>
     core_inv UNIV r \<and> cr_current_epoch r = None \<and>
     cr_candidate_epoch r = Some (fi_stream_epoch ident) \<and> \<not> cr_candidate_ready r \<and>
     \<not> cr_gap_detected r \<and> D \<subset> {0..<n} \<and> length au \<le> rc_max_access_unit_bytes (cr_config r) \<and>
     rc_max_access_unit_bytes (cr_config r) \<le> rc_max_total_bytes (cr_config r) \<and>
     (\<exists>f. cr_frames r = [(frame_of ident, f)] \<and> cf_fragment_count f = of_nat n \<and>
        cf_fragments f = received_slots au c n D \<and> t0 \<le> cf_created_at f)"

lemma header_key_data [simp]: "header_key (data_header ident n k) = frame_of ident"
  by (simp add: header_key_def data_header_def frame_of_def)

lemma data_header_index:
  assumes "n \<le> 1561" "k < n"
  shows "unat (wh_fragment_index (data_header ident n k)) = k"
    "unat (wh_fragment_count (data_header ident n k)) = n"
    "wh_fragment_index (data_header ident n k) < wh_fragment_count (data_header ident n k)"
  using assms by (simp_all add: data_header_def unat_of_nat_small word_less_nat_alt)

lemma slot_step:
  assumes sl: "sliced au c n" and k: "k < n"
    and col: "gathering ident au c n t0 D r" and fr: "cr_frames r = [(frame_of ident, f)]"
  defines "h \<equiv> data_header ident n k"
  shows "k \<in> D \<Longrightarrow> ingest_slot h (unit_slice au c k) True f r = (ingest_reply IngestDuplicate h, r)"
    and "k \<notin> D \<Longrightarrow> insert k D \<noteq> {0..<n} \<Longrightarrow> \<exists>r'. ingest_slot h (unit_slice au c k) True f r =
      (ingest_reply Accepted h, r') \<and> cr_config r' = cr_config r \<and>
      gathering ident au c n t0 (insert k D) r'"
    and "insert k D = {0..<n} \<Longrightarrow> k \<notin> D \<Longrightarrow>
      ir_code (fst (ingest_slot h (unit_slice au c k) True f r)) = Complete \<and>
      ir_access_unit (fst (ingest_slot h (unit_slice au c k) True f r)) = au \<and>
      ir_requires_epoch_commit (fst (ingest_slot h (unit_slice au c k) True f r))"
proof -
  let ?g = "put_fragment h (unit_slice au c k) f"
  have n: "n \<le> 1561" using sl by (simp add: sliced_def)
  note idx = data_header_index [OF n k, of ident, folded h_def]
  have f: "cf_fragment_count f = wh_fragment_count h" "cf_fragments f = received_slots au c n D"
    "t0 \<le> cf_created_at f" and inv: "core_inv UNIV r"
    using col fr by (auto simp: gathering_def h_def data_header_def)
  have D: "D \<subseteq> {0..<n}" using col by (auto simp: gathering_def)
  have ok: "core_frame_ok UNIV (cr_config r) (header_key h) f"
    using inv fr by (simp add: core_inv_def h_def)
  have slot: "cf_fragments f ! unat (wh_fragment_index h) = (if k \<in> D then Some (unit_slice au c k) else None)"
    using k by (simp add: f(2) idx received_slots_def)
  show "ingest_slot h (unit_slice au c k) True f r = (ingest_reply IngestDuplicate h, r)" if "k \<in> D"
    using that slot by (simp add: ingest_slot_def)
  assume new: "k \<notin> D"
  note g = put_fragment_ok [OF ok f(1) idx(3) _ UNIV_I, where payload = "unit_slice au c k"]
  have empty: "cf_fragments f ! unat (wh_fragment_index h) = None" using new slot by simp
  have frags: "cf_fragments ?g = received_slots au c n (insert k D)"
    using k by (auto simp: put_fragment_def f(2) idx received_slots_def nth_list_update
        intro!: nth_equalityI)
  have rec: "unat (cf_received_fragments ?g) = card (insert k D)"
    using g(2) [OF empty] received_count [of "insert k D" n au c] D k by (simp add: frags)
  have le: "cf_bytes ?g \<le> length au"
    using g(4) [OF empty] received_bytes [OF sl, of "insert k D"] by (simp add: frags)
  have tot: "cr_total_bytes r = cf_bytes f" using inv fr by (simp add: core_inv_def core_bytes_def)
  have room: "\<not> (rc_max_access_unit_bytes (cr_config r) - cf_bytes f < length (unit_slice au c k) \<or>
      rc_max_total_bytes (cr_config r) - cr_total_bytes r < length (unit_slice au c k))"
    using le col by (auto simp: gathering_def tot put_fragment_def)
  have cnt: "cf_fragment_count ?g = wh_fragment_count h" by (simp add: put_fragment_def f(1))
  have fin: "finite D" using D finite_subset by blast
  have all: "cf_received_fragments ?g = wh_fragment_count h \<longleftrightarrow> insert k D = {0..<n}"
  proof -
    have "cf_received_fragments ?g = wh_fragment_count h \<longleftrightarrow> card (insert k D) = n"
      using rec idx(2) by (simp add: word_unat_eq_iff)
    also have "\<dots> \<longleftrightarrow> insert k D = {0..<n}"
      using card_subset_eq [of "{0..<n}" "insert k D"] D k by auto
    finally show ?thesis .
  qed
  let ?r = "r\<lparr>cr_frames := [(frame_of ident, ?g)], cr_total_bytes := cr_total_bytes r + length (unit_slice au c k)\<rparr>"
  have run: "ingest_slot h (unit_slice au c k) True f r = ingest_store h (unit_slice au c k) True f r"
    using empty by (simp add: ingest_slot_def)
  have mem: "map_of (cr_frames r) (header_key h) = Some f" using fr by (simp add: h_def)
  show "\<exists>r'. ingest_slot h (unit_slice au c k) True f r = (ingest_reply Accepted h, r') \<and>
      cr_config r' = cr_config r \<and> gathering ident au c n t0 (insert k D) r'" if "insert k D \<noteq> {0..<n}"
  proof -
    have store: "ingest_store h (unit_slice au c k) True f r = (ingest_reply Accepted h, ?r)"
      using room all that cnt fr
      by (simp add: ingest_store_def put_fragment_def [symmetric] Let_def h_def [symmetric]) (simp add: h_def)
    have "core_inv UNIV ?r"
      using ingest_store_ok [OF inv mem f(1) idx(3) empty UNIV_I, where candidate = True and payload = "unit_slice au c k"] store
      by (simp add: ingest_ok_def)
    then have "gathering ident au c n t0 (insert k D) ?r"
      using col that k D f(3) frags cnt
      by (auto simp: gathering_def put_fragment_def h_def data_header_def)
    then show ?thesis using store run by simp
  qed
  show "ir_code (fst (ingest_slot h (unit_slice au c k) True f r)) = Complete \<and>
      ir_access_unit (fst (ingest_slot h (unit_slice au c k) True f r)) = au \<and>
      ir_requires_epoch_commit (fst (ingest_slot h (unit_slice au c k) True f r))" if "insert k D = {0..<n}"
  proof -
    have "concat (map the (cf_fragments ?g)) = concat (map (unit_slice au c) [0..<n])"
      unfolding frags received_slots_def that by (auto simp: comp_def intro!: arg_cong [of _ _ concat])
    then show ?thesis
      using room all that cnt slices_concat [OF sl] unfolding run
      by (simp add: ingest_store_def put_fragment_def [symmetric] Let_def ingest_reply_def)
  qed
qed

lemma expire_gathering:
  assumes "gathering ident au c n t0 D r"
    and "t0 \<le> now" "now < t0 + milliseconds (rc_frame_timeout (cr_config r))"
  shows "cr_expire now r = r"
proof -
  obtain f where f: "cr_frames r = [(frame_of ident, f)]" "t0 \<le> cf_created_at f"
    using assms(1) by (auto simp: gathering_def)
  have "\<not> frame_expired now r f" using assms(3) f(2) by (simp add: frame_expired_def)
  then show ?thesis
    using f assms(1)
    by (simp add: cr_expire_def erase_frames_def has_frames_for_epoch_def gathering_def frame_of_def Let_def)
qed

lemma data_fields [simp]:
  "wh_kind (data_header ident n k) = Data" "wh_stream_epoch (data_header ident n k) = fi_stream_epoch ident"
  by (simp_all add: data_header_def)

lemma slice_fits:
  assumes "sliced au c n" "length au \<le> m"
  shows "length (unit_slice au c k) \<le> m"
  using assms by (simp add: unit_slice_def)

lemma ingest_gathering:
  assumes sl: "sliced au c n" and k: "k < n" and id: "frame_identity_valid ident"
    and col: "gathering ident au c n t0 D r" and fr: "cr_frames r = [(frame_of ident, f)]"
    and now: "t0 \<le> now" "now < t0 + milliseconds (rc_frame_timeout (cr_config r))"
  shows "ingest (data_header ident n k) (unit_slice au c k) now r =
    ingest_slot (data_header ident n k) (unit_slice au c k) True f r"
proof -
  have valid: "wire_header_valid (data_header ident n k)"
    using data_header_valid [OF id k] sl by (simp add: sliced_def)
  have cnt: "cf_fragment_count f = wh_fragment_count (data_header ident n k)"
    using col fr by (auto simp: gathering_def data_header_def)
  have "length (unit_slice au c k) \<le> rc_max_access_unit_bytes (cr_config r)"
    using col by (intro slice_fits [OF sl]) (simp add: gathering_def)
  then have kind: "ingest_kind (data_header ident n k) (unit_slice au c k) now r =
      ingest_frame (data_header ident n k) (unit_slice au c k) True now r"
    using col unit_slice_nonempty [OF sl k]
    by (simp add: ingest_kind_def cr_is_candidate_def select_candidate_epoch_def gathering_def not_less)
  show ?thesis
    using col valid fr cnt kind
    by (simp add: ingest_def expire_gathering [OF col now] cr_is_retired_def ingest_frame_def
        gathering_def)
qed

lemma ingest_first:
  assumes sl: "sliced au c n" and k: "k < n" and id: "frame_identity_valid ident"
    and mk: "make_core_reassembler config = Inr r0" and fits: "length au \<le> rc_max_access_unit_bytes config"
    and now: "t0 \<le> now"
  shows "\<exists>f r. cr_frames r = [(frame_of ident, f)] \<and> cr_config r = config \<and>
    gathering ident au c n t0 {} r \<and>
    ingest (data_header ident n k) (unit_slice au c k) now r0 =
      ingest_slot (data_header ident n k) (unit_slice au c k) True f r"
proof -
  let ?h = "data_header ident n k"
  let ?f = "new_frame ?h now"
  let ?r = "r0\<lparr>cr_candidate_epoch := Some (fi_stream_epoch ident), cr_candidate_ready := False,
      cr_frames := [(frame_of ident, ?f)]\<rparr>"
  have r0: "r0 = \<lparr>cr_config = config, cr_current_epoch = None, cr_candidate_epoch = None,
      cr_candidate_ready = False, cr_frames = [], cr_total_bytes = 0, cr_gap_detected = False\<rparr>"
    and lim: "0 < rc_max_inflight_frames config"
    "rc_max_access_unit_bytes config \<le> rc_max_total_bytes config"
    using mk by (auto simp: make_core_reassembler_def split: if_splits)
  have valid: "wire_header_valid ?h" using data_header_valid [OF id k] sl by (simp add: sliced_def)
  have n: "unat (wh_fragment_count ?h) = n" "0 < n"
    using data_header_index(2) [OF _ k] sl by (simp_all add: sliced_def)
  have "core_inv UNIV ?r"
    using lim new_frame_ok [OF valid, of UNIV config now]
    by (simp add: r0 core_inv_def core_bytes_def epochs_ok_def frame_of_def new_frame_def)
  moreover have "cf_fragments ?f = received_slots au c n {}"
    by (simp add: new_frame_def n received_slots_def map_replicate_const)
  ultimately have "gathering ident au c n t0 {} ?r"
    using n lim fits now
    by (auto simp: gathering_def r0 new_frame_def) (simp add: data_header_def)
  moreover have "ingest ?h (unit_slice au c k) now r0 = ingest_slot ?h (unit_slice au c k) True ?f ?r"
    using valid lim unit_slice_nonempty [OF sl k] slice_fits [OF sl fits, of k]
    by (simp add: r0 ingest_def cr_expire_def erase_frames_def cr_is_retired_def ingest_kind_def
        cr_is_candidate_def select_candidate_epoch_def ingest_frame_def Let_def not_less)
  ultimately show ?thesis by (intro exI [of _ ?f] exI [of _ ?r]) (simp add: r0)
qed

section \<open>All fragments deliver the unit\<close>

definition receive_datagram :: "bytes \<times> time_point \<Rightarrow> core_reassembler \<Rightarrow>
    ingest_result option \<times> core_reassembler" where
  "receive_datagram arrival r =
     (case parse_wire_header (fst arrival) of
        None \<Rightarrow> (None, r)
      | Some h \<Rightarrow>
          let (res, r) = ingest h (drop kWireHeaderSize (fst arrival)) (snd arrival) r in (Some res, r))"

abbreviation delivers :: "frame_identity \<Rightarrow> bytes \<Rightarrow> ingest_result \<Rightarrow> bool" where
  "delivers ident au res \<equiv> ir_code res = Complete \<and> ir_access_unit res = au \<and>
     ir_requires_epoch_commit res"

definition arrive :: "frame_identity \<Rightarrow> bytes \<Rightarrow> nat \<Rightarrow> nat \<Rightarrow> nat \<times> time_point \<Rightarrow> core_reassembler \<Rightarrow>
    ingest_result \<times> core_reassembler" where
  "arrive ident au c n a r = ingest (data_header ident n (fst a)) (unit_slice au c (fst a)) (snd a) r"

lemma collect_run:
  assumes sl: "sliced au c n" and id: "frame_identity_valid ident"
    and "gathering ident au c n t0 D r" and "k \<notin> D" "k \<notin> fst ` set before" "k < n"
    and "insert k (D \<union> fst ` set before) = {0..<n}"
    and "list_all (\<lambda>(_, t). t0 \<le> t \<and> t < t0 + milliseconds (rc_frame_timeout (cr_config r))) (before @ [(k, now)])"
  shows "\<exists>rs res. fst (run_outputs (arrive ident au c n) (before @ [(k, now)]) r) = rs @ [res] \<and>
    list_all (\<lambda>x. ir_code x \<in> {Accepted, IngestDuplicate}) rs \<and> delivers ident au res"
  using assms(3-)
proof (induction before arbitrary: D r)
  case Nil
  obtain f where fr: "cr_frames r = [(frame_of ident, f)]" using Nil by (auto simp: gathering_def)
  have "ingest (data_header ident n k) (unit_slice au c k) now r =
      ingest_slot (data_header ident n k) (unit_slice au c k) True f r"
    using Nil by (intro ingest_gathering [OF sl _ id _ fr]) auto
  then show ?case
    using slot_step(3) [OF sl _ Nil.prems(1) fr, of k] Nil
    by (simp add: arrive_def case_prod_unfold Let_def)
next
  case (Cons a before)
  obtain j t where a: "a = (j, t)" by fastforce
  obtain f where fr: "cr_frames r = [(frame_of ident, f)]"
    using Cons.prems(1) by (auto simp: gathering_def)
  have j: "j < n" using Cons.prems(5) a by auto
  have ing: "ingest (data_header ident n j) (unit_slice au c j) t r =
      ingest_slot (data_header ident n j) (unit_slice au c j) True f r"
    using Cons.prems(6) a by (intro ingest_gathering [OF sl j id Cons.prems(1) fr]) auto
  have "\<exists>x r'. arrive ident au c n a r = (x, r') \<and> ir_code x \<in> {Accepted, IngestDuplicate} \<and>
      cr_config r' = cr_config r \<and> gathering ident au c n t0 (insert j D) r'"
  proof (cases "j \<in> D")
    case True
    then show ?thesis using slot_step(1) [OF sl j Cons.prems(1) fr] ing a Cons.prems(1)
      by (auto simp: arrive_def insert_absorb)
  next
    case False
    have "j \<noteq> k" using Cons.prems(3) unfolding a by simp
    then have "k \<notin> insert j D" using Cons.prems(2) by simp
    moreover have "k \<in> {0..<n}" using Cons.prems(4) by simp
    ultimately have "insert j D \<noteq> {0..<n}" by blast
    then obtain r' where "ingest_slot (data_header ident n j) (unit_slice au c j) True f r =
        (ingest_reply Accepted (data_header ident n j), r')" "cr_config r' = cr_config r"
      "gathering ident au c n t0 (insert j D) r'"
      using slot_step(2) [OF sl j Cons.prems(1) fr False] by blast
    then show ?thesis
      by (intro exI [of _ "ingest_reply Accepted (data_header ident n j)"] exI [of _ r'])
         (simp add: arrive_def a ing)
  qed
  then obtain x r' where x: "arrive ident au c n a r = (x, r')" "ir_code x \<in> {Accepted, IngestDuplicate}"
    "cr_config r' = cr_config r" "gathering ident au c n t0 (insert j D) r'" by blast
  have "\<exists>rs res. fst (run_outputs (arrive ident au c n) (before @ [(k, now)]) r') = rs @ [res] \<and>
      list_all (\<lambda>x. ir_code x \<in> {Accepted, IngestDuplicate}) rs \<and> delivers ident au res"
  proof (rule Cons.IH [OF x(4)])
    show "k \<notin> insert j D" "k \<notin> fst ` set before" using Cons.prems(2,3) a by auto
    show "insert k (insert j D \<union> fst ` set before) = {0..<n}" using Cons.prems(5) a by simp
    show "list_all (\<lambda>(_, t). t0 \<le> t \<and> t < t0 + milliseconds (rc_frame_timeout (cr_config r')))
        (before @ [(k, now)])" using Cons.prems(6) by (simp add: x(3))
  qed (rule Cons.prems(4))
  then obtain rs res where "fst (run_outputs (arrive ident au c n) (before @ [(k, now)]) r') = rs @ [res]"
    "list_all (\<lambda>x. ir_code x \<in> {Accepted, IngestDuplicate}) rs" "delivers ident au res" by blast
  with x show ?case
    by (intro exI [of _ "x # rs"] exI [of _ res]) (simp add: case_prod_unfold Let_def)
qed

lemma arrive_all:
  assumes sl: "sliced au c n" and id: "frame_identity_valid ident"
    and mk: "make_core_reassembler config = Inr r0" and fits: "length au \<le> rc_max_access_unit_bytes config"
    and last: "k \<notin> fst ` set before" "insert k (fst ` set before) = {0..<n}"
    and times: "list_all (\<lambda>(_, t). t0 \<le> t \<and> t < t0 + milliseconds (rc_frame_timeout config))
      (before @ [(k, now)])"
  shows "\<exists>rs res. fst (run_outputs (arrive ident au c n) (before @ [(k, now)]) r0) = rs @ [res] \<and>
    list_all (\<lambda>x. ir_code x \<in> {Accepted, IngestDuplicate}) rs \<and> delivers ident au res"
proof -
  obtain j t rest where first: "before @ [(k, now)] = (j, t) # rest"
    by (cases before) auto
  have j: "j < n" and t: "t0 \<le> t"
    using last(2) times first by (cases before; auto)+
  obtain f r where r: "cr_frames r = [(frame_of ident, f)]" "cr_config r = config"
    "gathering ident au c n t0 {} r" "ingest (data_header ident n j) (unit_slice au c j) t r0 =
      ingest_slot (data_header ident n j) (unit_slice au c j) True f r"
    using ingest_first [OF sl j id mk fits t] by blast
  have "ingest (data_header ident n j) (unit_slice au c j) t r =
      ingest_slot (data_header ident n j) (unit_slice au c j) True f r"
    using times first r(2) by (intro ingest_gathering [OF sl j id r(3,1) t]) simp
  then have "arrive ident au c n (j, t) r0 = arrive ident au c n (j, t) r"
    using r(4) by (simp add: arrive_def)
  then have "run_outputs (arrive ident au c n) (before @ [(k, now)]) r0 =
      run_outputs (arrive ident au c n) (before @ [(k, now)]) r"
    unfolding first by simp
  moreover have "k < n" using last(2) by auto
  ultimately show ?thesis
    using collect_run [OF sl id r(3), of k before now] last times r(2) by simp
qed

lemma datagram_fragment_slices:
  assumes frag: "make_fragmenter config = Inr f" and id: "frame_identity_valid ident" and ne: "au \<noteq> []"
    and fits: "length au \<le> cfg_max_access_unit_bytes f" and ds: "datagram_fragment f ident au = Inr ds"
  shows "sliced au (payload_capacity f) (length ds) \<and>
    (\<forall>j < length ds. ds ! j = nth_datagram (payload_capacity f) ident au (length ds) j)"
proof -
  note f = make_fragmenter_Inr [OF frag]
  let ?c = "payload_capacity f"
  define n where "n = (length au - 1) div ?c + 1"
  have n: "n \<le> unat (cfg_max_fragments f)"
    using ds by (simp add: datagram_fragment_def Let_def n_def not_le not_less split: if_splits)
  have "datagram_loop f ident au (of_nat n) [0..<n] = Inr ds"
    using ds unfolding datagram_fragment_def Let_def n_def [symmetric] by (simp split: if_splits)
  then have map: "ds = map (nth_datagram ?c ident au n) [0..<n]"
    using datagram_loop_eq [OF id, of n "[0..<n]" f au] n f(4) by simp
  have "length au \<le> n * ?c"
    using dividend_less_div_times [OF f(2), of "length au - 1"] by (simp add: n_def)
  moreover have "(n - 1) * ?c < length au"
    using ne by (cases au) (simp_all add: n_def le_imp_less_Suc)
  ultimately show ?thesis using n f(2,4) by (simp add: map sliced_def) (simp add: n_def)
qed

text \<open>
  The datagrams of an access unit, cut by an accepted fragmenter and arriving at a new reassembler in
  any order, some of them several times, within one frame timeout, are all parsed and accepted; the
  arrival of the last missing one, and no earlier one, reports the unit complete with exactly the
  bytes that were sent and asks for the epoch to be committed.
\<close>

lemma core_end_to_end:
  assumes frag: "make_fragmenter config = Inr f" and mk: "make_core_reassembler rconfig = Inr r0"
    and id: "frame_identity_valid ident" and ne: "au \<noteq> []"
    and fits: "length au \<le> cfg_max_access_unit_bytes f" "length au \<le> rc_max_access_unit_bytes rconfig"
    and ds: "datagram_fragment f ident au = Inr ds"
    and last: "k \<notin> fst ` set before" "insert k (fst ` set before) = {0..<length ds}"
    and times: "list_all (\<lambda>(_, t). t0 \<le> t \<and> t < t0 + milliseconds (rc_frame_timeout rconfig))
      (before @ [(k, now)])"
  shows "\<exists>rs res. fst (run_outputs receive_datagram
      (map (\<lambda>(j, t). (ds ! j, t)) (before @ [(k, now)])) r0) = map Some (rs @ [res]) \<and>
    list_all (\<lambda>x. ir_code x \<in> {Accepted, IngestDuplicate}) rs \<and>
    ir_code res = Complete \<and> ir_access_unit res = au \<and> ir_requires_epoch_commit res"
proof -
  let ?c = "payload_capacity f" and ?n = "length ds"
  have sl: "sliced au ?c ?n" and nth: "\<And>j. j < ?n \<Longrightarrow> ds ! j = nth_datagram ?c ident au ?n j"
    using datagram_fragment_slices [OF frag id ne fits(1) ds] by (auto simp: sliced_def)
  have recv: "receive_datagram (ds ! j, t) r = (Some (fst (arrive ident au ?c ?n (j, t) r)),
      snd (arrive ident au ?c ?n (j, t) r))" if "j < ?n" for j t r
    using that data_header_valid [OF id that] sl
    by (simp add: receive_datagram_def nth nth_datagram_def parse_image arrive_def unit_slice_def
        kWireHeaderSize_def sliced_def case_prod_unfold Let_def)
  have all: "\<forall>a \<in> set (before @ [(k, now)]). fst a < ?n"
  proof
    fix a assume "a \<in> set (before @ [(k, now)])"
    then have "fst a \<in> insert k (fst ` set before)" by auto
    then show "fst a < ?n" unfolding last(2) by simp
  qed
  have "fst (run_outputs receive_datagram (map (\<lambda>(j, t). (ds ! j, t)) as) r) =
      map Some (fst (run_outputs (arrive ident au ?c ?n) as r))" if "\<forall>a \<in> set as. fst a < ?n" for as r
    using that by (induction as arbitrary: r) (auto simp: recv case_prod_unfold Let_def)
  from this [OF all] show ?thesis
    using arrive_all [OF sl id mk fits(2) last times] by auto
qed

end
