(* ===== verification/Core_Host_Domain.thy ===== *)
theory Core_Host_Domain
  imports Core_Delivery "HOL-Library.Product_Lexorder"
begin

text \<open>
  The host's domain objects in the core library: the tracker of IDR requests and complete
  publications and the capture region (\<^verbatim>\<open>e2e_core/src/host_pipeline.cpp\<close>), the generator of frame
  identities (\<^verbatim>\<open>host/domain/stream_identity_generator.cpp\<close>), the ledger of decoded frames
  (\<^verbatim>\<open>host/domain/decoded_frame_metadata_ledger.cpp\<close>), the pipeline status
  (\<^verbatim>\<open>host/domain/video_pipeline_status.cpp\<close>), the delivery ledger of one access unit
  (\<^verbatim>\<open>host/application/video_delivery_ledger.cpp\<close>) and the capture orchestrator
  (\<^verbatim>\<open>host/application/host_streaming_orchestrator.cpp\<close>). Each operation of a class with a mutex is
  one atomic step.
\<close>

section \<open>Identities in order\<close>

lemma newer_than_iff: "newer_than i j \<longleftrightarrow> frame_of j < frame_of i"
  by (auto simp: newer_than_def frame_of_def less_prod_def)

lemma frame_of_inj [simp]: "frame_of i = frame_of j \<longleftrightarrow> (i :: frame_identity) = j"
  by (auto simp: frame_of_def)

section \<open>The tracker of IDR delivery\<close>

record publish_summary =
  ps_fragments_total :: nat
  ps_fragments_sent :: nat
  ps_socket_error :: bool

definition publish_complete :: "publish_summary \<Rightarrow> bool" where
  "publish_complete s \<longleftrightarrow> \<not> ps_socket_error s \<and> 0 < ps_fragments_total s \<and>
     ps_fragments_sent s = ps_fragments_total s"

record idr_tracker =
  it_idr_requested :: bool
  it_delivered_idr_count :: u64
  it_latest_observed_epoch :: "u64 option"
  it_latest_observed_sequence :: "u32 option"
  it_last_delivered_epoch :: "u64 option"
  it_last_delivered_sequence :: "u32 option"

definition new_idr_tracker :: idr_tracker where
  "new_idr_tracker = \<lparr>it_idr_requested = True, it_delivered_idr_count = 0,
     it_latest_observed_epoch = None, it_latest_observed_sequence = None,
     it_last_delivered_epoch = None, it_last_delivered_sequence = None\<rparr>"

definition tracker_request_idr :: "idr_tracker \<Rightarrow> idr_tracker" where
  "tracker_request_idr t = t\<lparr>it_idr_requested := True\<rparr>"

fun identity_is_newer :: "u64 \<Rightarrow> u32 \<Rightarrow> u64 option \<Rightarrow> u32 option \<Rightarrow> bool" where
  "identity_is_newer stream_epoch frame_sequence (Some other_epoch) (Some other_sequence) =
     (other_epoch < stream_epoch \<or> stream_epoch = other_epoch \<and> other_sequence < frame_sequence)"
| "identity_is_newer stream_epoch frame_sequence _ _ = True"

fun identity_is_same :: "u64 \<Rightarrow> u32 \<Rightarrow> u64 option \<Rightarrow> u32 option \<Rightarrow> bool" where
  "identity_is_same stream_epoch frame_sequence (Some other_epoch) (Some other_sequence) =
     (stream_epoch = other_epoch \<and> frame_sequence = other_sequence)"
| "identity_is_same stream_epoch frame_sequence _ _ = False"

definition on_access_unit :: "u64 \<Rightarrow> u32 \<Rightarrow> bool \<Rightarrow> publish_summary \<Rightarrow> idr_tracker \<Rightarrow> idr_tracker" where
  "on_access_unit stream_epoch frame_sequence is_idr summary t =
     (if \<not> is_idr then t
      else if stream_epoch = 0 \<or> kMaxStreamEpoch < stream_epoch then t\<lparr>it_idr_requested := True\<rparr>
      else
        let newer_attempt = identity_is_newer stream_epoch frame_sequence
              (it_latest_observed_epoch t) (it_latest_observed_sequence t);
            same_attempt = identity_is_same stream_epoch frame_sequence
              (it_latest_observed_epoch t) (it_latest_observed_sequence t)
        in if \<not> newer_attempt \<and> \<not> same_attempt then t
           else
             let t = (if newer_attempt
                      then t\<lparr>it_latest_observed_epoch := Some stream_epoch,
                             it_latest_observed_sequence := Some frame_sequence\<rparr>
                      else t)
             in if \<not> publish_complete summary then t\<lparr>it_idr_requested := True\<rparr>
                else if \<not> identity_is_newer stream_epoch frame_sequence
                       (it_last_delivered_epoch t) (it_last_delivered_sequence t) then t
                else
                  let t = t\<lparr>it_last_delivered_epoch := Some stream_epoch,
                            it_last_delivered_sequence := Some frame_sequence,
                            it_idr_requested := False\<rparr>
                  in if it_delivered_idr_count t \<noteq> 0xFFFFFFFFFFFFFFFF
                     then t\<lparr>it_delivered_idr_count := it_delivered_idr_count t + 1\<rparr> else t)"

section \<open>The frame identity generator\<close>

record identity_generator =
  ig_epoch :: u64
  ig_sequence :: u32
  ig_rollover_before_next :: bool

definition make_identity_generator :: "u64 \<Rightarrow> u32 \<Rightarrow> core_error + identity_generator" where
  "make_identity_generator reserved_epoch first_sequence =
     (if \<not> frame_identity_valid \<lparr>fi_stream_epoch = reserved_epoch, fi_frame_sequence = first_sequence\<rparr>
      then Inl Invalid_Argument
      else Inr \<lparr>ig_epoch = reserved_epoch, ig_sequence = first_sequence, ig_rollover_before_next = False\<rparr>)"

definition next_identity :: "identity_generator \<Rightarrow> core_error + frame_identity \<times> identity_generator" where
  "next_identity g =
     (if ig_rollover_before_next g then Inl Overflow_Error
      else Inr (\<lparr>fi_stream_epoch = ig_epoch g, fi_frame_sequence = ig_sequence g\<rparr>,
        if ig_sequence g = 0xFFFFFFFF then g\<lparr>ig_rollover_before_next := True\<rparr>
        else g\<lparr>ig_sequence := ig_sequence g + 1\<rparr>))"

definition next_sequence :: "identity_generator \<Rightarrow> u32" where
  "next_sequence g = (if ig_rollover_before_next g then 0 else ig_sequence g)"

definition rotation_required :: "identity_generator \<Rightarrow> bool" where
  "rotation_required g = ig_rollover_before_next g"

definition rotate_to :: "u64 \<Rightarrow> identity_generator \<Rightarrow> core_error + identity_generator" where
  "rotate_to reserved_epoch g =
     (if reserved_epoch \<le> ig_epoch g \<or> kMaxStreamEpoch < reserved_epoch then Inl Invalid_Argument
      else Inr \<lparr>ig_epoch = reserved_epoch, ig_sequence = 0, ig_rollover_before_next = False\<rparr>)"

section \<open>The ledger of decoded frames\<close>

record decoded_frame =
  df_identity :: frame_identity
  df_content_fingerprint :: u64
  df_is_idr :: bool
  df_is_repeat :: bool
  df_content_updated :: bool
  df_decoded_at :: time_point

datatype frame_disposition =
    Fresh | EpochAdvanced | EpochRequiresIdr | DuplicateFrame | SequenceConflict | StaleSequence
  | RetiredEpochFrame | NotFresh | InvalidFrame

record frame_ledger_result =
  fl_disposition :: frame_disposition
  fl_accepted_for_inference :: bool
  fl_epoch_changed :: bool

definition ledger_reply :: "frame_disposition \<Rightarrow> bool \<Rightarrow> frame_ledger_result" where
  "ledger_reply disposition epoch_changed =
     \<lparr>fl_disposition = disposition, fl_accepted_for_inference = False, fl_epoch_changed = epoch_changed\<rparr>"

record frame_ledger =
  fl_current_epoch :: "u64 option"
  fl_last_observed_sequence :: "u32 option"
  fl_last_observed_frame :: "decoded_frame option"
  fl_last_fresh_frame :: "decoded_frame option"
  fl_transition_id :: u64

definition new_frame_ledger :: frame_ledger where
  "new_frame_ledger = \<lparr>fl_current_epoch = None, fl_last_observed_sequence = None,
     fl_last_observed_frame = None, fl_last_fresh_frame = None, fl_transition_id = 0\<rparr>"

text \<open>The reset of a new epoch, and what follows the sequence checks.\<close>

definition advance_epoch :: "u64 \<Rightarrow> frame_ledger \<Rightarrow> frame_ledger" where
  "advance_epoch epoch l =
     \<lparr>fl_current_epoch = Some epoch, fl_last_observed_sequence = None,
      fl_last_observed_frame = None, fl_last_fresh_frame = None,
      fl_transition_id = (if fl_transition_id l \<noteq> 0xFFFFFFFFFFFFFFFF then fl_transition_id l + 1
                          else fl_transition_id l)\<rparr>"

definition record_frame :: "decoded_frame \<Rightarrow> bool \<Rightarrow> frame_ledger \<Rightarrow> frame_ledger_result \<times> frame_ledger" where
  "record_frame metadata epoch_changed l =
     (let l = l\<lparr>fl_last_observed_sequence := Some (fi_frame_sequence (df_identity metadata)),
                fl_last_observed_frame := Some metadata\<rparr> in
      if df_is_repeat metadata \<or> \<not> df_content_updated metadata
      then (ledger_reply NotFresh epoch_changed, l)
      else (\<lparr>fl_disposition = (if epoch_changed then EpochAdvanced else Fresh),
             fl_accepted_for_inference = True, fl_epoch_changed = epoch_changed\<rparr>,
            l\<lparr>fl_last_fresh_frame := Some metadata\<rparr>))"

definition same_semantics :: "decoded_frame \<Rightarrow> decoded_frame \<Rightarrow> bool" where
  "same_semantics m f \<longleftrightarrow>
     df_content_fingerprint m = df_content_fingerprint f \<and> df_is_idr m = df_is_idr f \<and>
     df_is_repeat m = df_is_repeat f \<and> df_content_updated m = df_content_updated f"

definition observe :: "decoded_frame \<Rightarrow> frame_ledger \<Rightarrow> frame_ledger_result \<times> frame_ledger" where
  "observe metadata l =
     (let ident = df_identity metadata;
          new_epoch = (case fl_current_epoch l of None \<Rightarrow> True | Some e \<Rightarrow> e < fi_stream_epoch ident)
      in if \<not> frame_identity_valid ident then (ledger_reply InvalidFrame False, l)
         else if (case fl_current_epoch l of None \<Rightarrow> False | Some e \<Rightarrow> fi_stream_epoch ident < e)
         then (ledger_reply RetiredEpochFrame False, l)
         else if new_epoch \<and> (df_is_repeat metadata \<or> \<not> df_content_updated metadata \<or> \<not> df_is_idr metadata)
         then (ledger_reply EpochRequiresIdr False, l)
         else
           let l = (if new_epoch then advance_epoch (fi_stream_epoch ident) l else l)
           in case fl_last_observed_sequence l of
                None \<Rightarrow> record_frame metadata new_epoch l
              | Some seen \<Rightarrow>
                  if fi_frame_sequence ident < seen then (ledger_reply StaleSequence new_epoch, l)
                  else if fi_frame_sequence ident = seen then
                    (case fl_last_observed_frame l of
                       None \<Rightarrow> (ledger_reply DuplicateFrame new_epoch, l)
                     | Some f \<Rightarrow>
                         (ledger_reply (if \<not> same_semantics metadata f then SequenceConflict
                                        else DuplicateFrame) new_epoch, l))
                  else record_frame metadata new_epoch l)"

section \<open>The pipeline status\<close>

datatype host_blocker =
    HostRunnable | CaptureWaiting | CaptureAccessLost | CaptureDeviceRemoved | EncoderUnavailable
  | PublishingFrame | WaitingCompleteIdrPublish | TransportFailure | HostWaitingFreshIdr
  | ReceiverResourceLimit | DecoderRestarting | PostAckVisibility | HostRecoveryExhausted

record host_status =
  hs_blocker :: host_blocker
  hs_transition_id :: u64
  hs_changed_at :: time_point
  hs_last_published_frame :: "frame_identity option"
  hs_last_decoded_frame :: "frame_identity option"
  hs_last_counted_idr :: "frame_identity option"
  hs_fully_published_idr_count :: u64

definition new_host_status :: "time_point \<Rightarrow> host_status" where
  "new_host_status now = \<lparr>hs_blocker = HostRunnable, hs_transition_id = 0, hs_changed_at = now,
     hs_last_published_frame = None, hs_last_decoded_frame = None, hs_last_counted_idr = None,
     hs_fully_published_idr_count = 0\<rparr>"

definition status_set_blocker :: "host_blocker \<Rightarrow> time_point \<Rightarrow> host_status \<Rightarrow> host_status" where
  "status_set_blocker blocker now s =
     (if blocker = hs_blocker s then s
      else
        let s = s\<lparr>hs_blocker := blocker, hs_changed_at := max (hs_changed_at s) now\<rparr> in
        if hs_transition_id s \<noteq> 0xFFFFFFFFFFFFFFFF then s\<lparr>hs_transition_id := hs_transition_id s + 1\<rparr>
        else s)"

definition beyond :: "frame_identity \<Rightarrow> frame_identity option \<Rightarrow> bool" where
  "beyond ident mark = (case mark of None \<Rightarrow> True | Some m \<Rightarrow> newer_than ident m)"

definition mark_published :: "frame_identity \<Rightarrow> bool \<Rightarrow> host_status \<Rightarrow> host_status" where
  "mark_published ident complete_idr s =
     (if \<not> frame_identity_valid ident then s
      else if hs_last_published_frame s \<noteq> None \<and> Some ident \<noteq> hs_last_published_frame s \<and>
              \<not> beyond ident (hs_last_published_frame s) then s
      else
        let s = (if beyond ident (hs_last_published_frame s)
                 then s\<lparr>hs_last_published_frame := Some ident\<rparr> else s)
        in if complete_idr \<and> beyond ident (hs_last_counted_idr s)
           then
             let s = s\<lparr>hs_last_counted_idr := Some ident\<rparr> in
             if hs_fully_published_idr_count s \<noteq> 0xFFFFFFFFFFFFFFFF
             then s\<lparr>hs_fully_published_idr_count := hs_fully_published_idr_count s + 1\<rparr> else s
           else s)"

definition mark_decoded :: "frame_identity \<Rightarrow> host_status \<Rightarrow> bool \<times> host_status" where
  "mark_decoded ident s =
     (if \<not> frame_identity_valid ident then (False, s)
      else
        case hs_last_published_frame s of
          None \<Rightarrow> (False, s)
        | Some published \<Rightarrow>
            if fi_stream_epoch ident \<noteq> fi_stream_epoch published \<or> newer_than ident published
            then (False, s)
            else
              case hs_last_decoded_frame s of
                None \<Rightarrow> (True, s\<lparr>hs_last_decoded_frame := Some ident\<rparr>)
              | Some decoded \<Rightarrow>
                  if ident = decoded then (True, s)
                  else if \<not> newer_than ident decoded then (False, s)
                  else (True, s\<lparr>hs_last_decoded_frame := Some ident\<rparr>))"

record status_snapshot =
  ss_blocker :: host_blocker
  ss_transition_id :: u64
  ss_blocker_age :: int
  ss_last_published_frame :: "frame_identity option"
  ss_last_decoded_frame :: "frame_identity option"
  ss_fully_published_idr_count :: u64

definition status_snapshot_at :: "time_point \<Rightarrow> host_status \<Rightarrow> status_snapshot" where
  "status_snapshot_at now s =
     \<lparr>ss_blocker = hs_blocker s, ss_transition_id = hs_transition_id s,
      ss_blocker_age = (if hs_changed_at s \<le> now then (now - hs_changed_at s) div 1000000 else 0),
      ss_last_published_frame = hs_last_published_frame s,
      ss_last_decoded_frame = hs_last_decoded_frame s,
      ss_fully_published_idr_count = hs_fully_published_idr_count s\<rparr>"

fun pipeline_blocker_name :: "host_blocker \<Rightarrow> string" where
  "pipeline_blocker_name HostRunnable = ''RUNNABLE''"
| "pipeline_blocker_name CaptureWaiting = ''CAPTURE_WAITING''"
| "pipeline_blocker_name CaptureAccessLost = ''CAPTURE_ACCESS_LOST''"
| "pipeline_blocker_name CaptureDeviceRemoved = ''CAPTURE_DEVICE_REMOVED''"
| "pipeline_blocker_name EncoderUnavailable = ''ENCODER_UNAVAILABLE''"
| "pipeline_blocker_name PublishingFrame = ''PUBLISHING_FRAME''"
| "pipeline_blocker_name WaitingCompleteIdrPublish = ''WAITING_COMPLETE_IDR_PUBLISH''"
| "pipeline_blocker_name TransportFailure = ''TRANSPORT_FAILURE''"
| "pipeline_blocker_name HostWaitingFreshIdr = ''WAITING_FRESH_IDR''"
| "pipeline_blocker_name ReceiverResourceLimit = ''RECEIVER_RESOURCE_LIMIT''"
| "pipeline_blocker_name DecoderRestarting = ''DECODER_RESTARTING''"
| "pipeline_blocker_name PostAckVisibility = ''POST_ACK_VISIBILITY''"
| "pipeline_blocker_name HostRecoveryExhausted = ''RECOVERY_EXHAUSTED''"

section \<open>The delivery ledger of one access unit\<close>

datatype delivery_outcome =
    DeliveryInProgress | DeliveryComplete | DeliveryFailed | DuplicateFragment | WrongFrame
  | InvalidFragment | StaleTerminal

record delivery_snapshot =
  ds_identity :: frame_identity
  ds_is_idr :: bool
  ds_fragments_total :: nat
  ds_fragments_sent :: nat
  ds_socket_error :: bool
  ds_terminal :: bool
  ds_outcome :: delivery_outcome

definition fully_published :: "delivery_snapshot \<Rightarrow> bool" where
  "fully_published d \<longleftrightarrow> ds_terminal d \<and> ds_outcome d = DeliveryComplete \<and> \<not> ds_socket_error d \<and>
     0 < ds_fragments_total d \<and> ds_fragments_sent d = ds_fragments_total d"

record delivery_ledger =
  dl_identity :: frame_identity
  dl_active :: bool
  dl_terminal :: bool
  dl_is_idr :: bool
  dl_socket_error :: bool
  dl_terminal_outcome :: delivery_outcome
  dl_sent :: "bool list"
  dl_sent_count :: nat

definition new_delivery_ledger :: delivery_ledger where
  "new_delivery_ledger = \<lparr>dl_identity = \<lparr>fi_stream_epoch = 0, fi_frame_sequence = 0\<rparr>,
     dl_active = False, dl_terminal = False, dl_is_idr = False, dl_socket_error = False,
     dl_terminal_outcome = DeliveryInProgress, dl_sent = [], dl_sent_count = 0\<rparr>"

definition delivery_begin :: "frame_identity \<Rightarrow> bool \<Rightarrow> u16 \<Rightarrow> delivery_ledger \<Rightarrow>
    core_error + delivery_ledger" where
  "delivery_begin ident is_idr fragment_count l =
     (if dl_active l \<and> \<not> dl_terminal l then Inl Logic_Error
      else if \<not> frame_identity_valid ident \<or> fragment_count = 0 \<or> kMaxFragments < fragment_count
      then Inl Invalid_Argument
      else Inr \<lparr>dl_identity = ident, dl_active = True, dl_terminal = False, dl_is_idr = is_idr,
                dl_socket_error = False, dl_terminal_outcome = DeliveryInProgress,
                dl_sent = replicate (unat fragment_count) False, dl_sent_count = 0\<rparr>)"

definition record_fragment :: "frame_identity \<Rightarrow> u16 \<Rightarrow> bool \<Rightarrow> delivery_ledger \<Rightarrow>
    delivery_outcome \<times> delivery_ledger" where
  "record_fragment ident fragment_index sent l =
     (if \<not> dl_active l \<or> dl_terminal l then (StaleTerminal, l)
      else if ident \<noteq> dl_identity l then (WrongFrame, l)
      else if dl_socket_error l then (DeliveryFailed, l)
      else if length (dl_sent l) \<le> unat fragment_index then (InvalidFragment, l)
      else if \<not> sent then (DeliveryFailed, l\<lparr>dl_socket_error := True\<rparr>)
      else if dl_sent l ! unat fragment_index then (DuplicateFragment, l)
      else
        let l = l\<lparr>dl_sent := (dl_sent l)[unat fragment_index := True],
                  dl_sent_count := dl_sent_count l + 1\<rparr>
        in (if dl_sent_count l = length (dl_sent l) then DeliveryComplete else DeliveryInProgress, l))"

definition delivery_snapshot_of :: "delivery_ledger \<Rightarrow> delivery_snapshot option" where
  "delivery_snapshot_of l =
     (if \<not> dl_active l then None
      else Some \<lparr>ds_identity = dl_identity l, ds_is_idr = dl_is_idr l,
        ds_fragments_total = length (dl_sent l), ds_fragments_sent = dl_sent_count l,
        ds_socket_error = dl_socket_error l, ds_terminal = dl_terminal l,
        ds_outcome = (if dl_terminal l then dl_terminal_outcome l else DeliveryInProgress)\<rparr>)"

definition delivery_finalize :: "frame_identity \<Rightarrow> delivery_ledger \<Rightarrow> delivery_snapshot \<times> delivery_ledger" where
  "delivery_finalize ident l =
     (if \<not> dl_active l \<or> dl_terminal l
      then (\<lparr>ds_identity = ident, ds_is_idr = False, ds_fragments_total = 0, ds_fragments_sent = 0,
             ds_socket_error = False, ds_terminal = True, ds_outcome = StaleTerminal\<rparr>, l)
      else if ident \<noteq> dl_identity l
      then (\<lparr>ds_identity = dl_identity l, ds_is_idr = dl_is_idr l,
             ds_fragments_total = length (dl_sent l), ds_fragments_sent = dl_sent_count l,
             ds_socket_error = dl_socket_error l, ds_terminal = False, ds_outcome = WrongFrame\<rparr>, l)
      else
        let l = l\<lparr>dl_terminal := True,
                  dl_terminal_outcome :=
                    (if \<not> dl_socket_error l \<and> dl_sent_count l = length (dl_sent l)
                     then DeliveryComplete else DeliveryFailed)\<rparr>
        in (the (delivery_snapshot_of l), l))"

definition delivery_reset :: "delivery_ledger \<Rightarrow> delivery_ledger" where
  "delivery_reset l = new_delivery_ledger"

section \<open>The capture orchestrator\<close>

datatype capture_status = Frame | WaitTimeout | AccessLost | DeviceRemoved | CaptureFailed

datatype capture_action =
    EncodeAndPublish | PublishRepeat | WaitForFirstFrame | RecreateDuplication
  | RebuildCaptureDevice | FailClosed

fun orchestrate :: "capture_status \<Rightarrow> bool \<Rightarrow> time_point \<Rightarrow> host_status \<Rightarrow> capture_action \<times> host_status" where
  "orchestrate Frame has_published now s =
     (EncodeAndPublish, status_set_blocker PublishingFrame now s)"
| "orchestrate WaitTimeout has_published now s =
     (if has_published then PublishRepeat else WaitForFirstFrame, status_set_blocker CaptureWaiting now s)"
| "orchestrate AccessLost has_published now s =
     (RecreateDuplication, status_set_blocker CaptureAccessLost now s)"
| "orchestrate DeviceRemoved has_published now s =
     (RebuildCaptureDevice, status_set_blocker CaptureDeviceRemoved now s)"
| "orchestrate CaptureFailed has_published now s =
     (FailClosed, status_set_blocker TransportFailure now s)"

section \<open>When an IDR request is cleared\<close>

datatype tracker_event = RequestAnIdr | OnAccessUnit u64 u32 bool publish_summary

fun tracker_handle :: "tracker_event \<Rightarrow> idr_tracker \<Rightarrow> idr_tracker" where
  "tracker_handle RequestAnIdr t = tracker_request_idr t"
| "tracker_handle (OnAccessUnit e s idr sm) t = on_access_unit e s idr sm t"

fun paired :: "'a option \<Rightarrow> 'b option \<Rightarrow> ('a \<times> 'b) option" where
  "paired (Some a) (Some b) = Some (a, b)"
| "paired _ _ = None"

definition latest_key :: "idr_tracker \<Rightarrow> (u64 \<times> u32) option" where
  "latest_key t = paired (it_latest_observed_epoch t) (it_latest_observed_sequence t)"

definition delivered_key :: "idr_tracker \<Rightarrow> (u64 \<times> u32) option" where
  "delivered_key t = paired (it_last_delivered_epoch t) (it_last_delivered_sequence t)"

lemma newer_key: "identity_is_newer e s a b \<longleftrightarrow> \<not> mark_le (Some (e, s)) (paired a b)"
  by (cases a; cases b) (auto simp: less_eq_prod_def not_le)

lemma same_key: "identity_is_same e s a b \<longleftrightarrow> paired a b = Some (e, s)"
  by (cases a; cases b) auto

abbreviation epoch_in_range :: "u64 \<Rightarrow> bool" where
  "epoch_in_range e \<equiv> e \<noteq> 0 \<and> e \<le> kMaxStreamEpoch"

lemma idr_unit_cases:
  assumes "epoch_in_range e" and t': "t' = on_access_unit e s True sm t"
  obtains (older) l where "latest_key t = Some l" "(e, s) < l" "t' = t"
    | (failed) "mark_le (latest_key t) (Some (e, s))" "latest_key t' = Some (e, s)"
        "\<not> publish_complete sm" "it_idr_requested t'" "delivered_key t' = delivered_key t"
    | (repeated) "mark_le (latest_key t) (Some (e, s))" "latest_key t' = Some (e, s)"
        "publish_complete sm" "mark_le (Some (e, s)) (delivered_key t)"
        "it_idr_requested t' = it_idr_requested t" "delivered_key t' = delivered_key t"
    | (delivered) "mark_le (latest_key t) (Some (e, s))" "latest_key t' = Some (e, s)"
        "publish_complete sm" "\<not> mark_le (Some (e, s)) (delivered_key t)"
        "\<not> it_idr_requested t'" "delivered_key t' = Some (e, s)"
proof (cases "\<exists>l. latest_key t = Some l \<and> (e, s) < l")
  case True
  then obtain l where l: "latest_key t = Some l" "(e, s) < l" by blast
  then have "\<not> identity_is_newer e s (it_latest_observed_epoch t) (it_latest_observed_sequence t)"
    "\<not> identity_is_same e s (it_latest_observed_epoch t) (it_latest_observed_sequence t)"
    unfolding newer_key same_key latest_key_def by auto
  moreover have "\<not> kMaxStreamEpoch < e" using assms(1) by (simp add: not_less)
  ultimately have "t' = t" using assms(1) by (simp add: t' on_access_unit_def)
  with l older show thesis by blast
next
  case False
  then have le: "mark_le (latest_key t) (Some (e, s))" by (cases "latest_key t") (auto simp: not_less)
  define u where "u = (if identity_is_newer e s (it_latest_observed_epoch t) (it_latest_observed_sequence t)
    then t\<lparr>it_latest_observed_epoch := Some e, it_latest_observed_sequence := Some s\<rparr> else t)"
  have same: "identity_is_same e s (it_latest_observed_epoch t) (it_latest_observed_sequence t)"
    if "\<not> identity_is_newer e s (it_latest_observed_epoch t) (it_latest_observed_sequence t)"
    using that False by (cases "latest_key t") (auto simp: newer_key same_key latest_key_def)
  have u: "latest_key u = Some (e, s)" "delivered_key u = delivered_key t"
    "it_idr_requested u = it_idr_requested t"
    using same by (auto simp: u_def same_key latest_key_def delivered_key_def)
  have run: "t' = (if \<not> publish_complete sm then u\<lparr>it_idr_requested := True\<rparr>
      else if mark_le (Some (e, s)) (delivered_key t) then u
      else let t = u\<lparr>it_last_delivered_epoch := Some e, it_last_delivered_sequence := Some s,
            it_idr_requested := False\<rparr>
        in if it_delivered_idr_count t \<noteq> 0xFFFFFFFFFFFFFFFF
           then t\<lparr>it_delivered_idr_count := it_delivered_idr_count t + 1\<rparr> else t)"
    using assms same unfolding t' on_access_unit_def Let_def u(2) [symmetric]
    by (auto simp: u_def newer_key delivered_key_def not_less)
  consider "\<not> publish_complete sm" | "publish_complete sm" "mark_le (Some (e, s)) (delivered_key t)"
    | "publish_complete sm" "\<not> mark_le (Some (e, s)) (delivered_key t)" by blast
  then show thesis
  proof cases
    case 1
    then show thesis using failed le u by (simp add: run latest_key_def delivered_key_def)
  next
    case 2
    then show thesis using repeated le u by (simp add: run)
  next
    case 3
    then show thesis using delivered le u by (simp add: run latest_key_def delivered_key_def Let_def)
  qed
qed

definition idr_history :: "tracker_event list \<Rightarrow> idr_tracker \<Rightarrow> bool" where
  "idr_history es t \<longleftrightarrow> (\<forall>e s sm. OnAccessUnit e s True sm \<in> set es \<longrightarrow> epoch_in_range e \<longrightarrow>
     mark_le (Some (e, s)) (latest_key t) \<and>
     (publish_complete sm \<longrightarrow>
        mark_le (Some (e, s)) (delivered_key t) \<or> (\<exists>l. latest_key t = Some l \<and> (e, s) < l)))"

lemma idr_historyD:
  assumes "idr_history es t" "OnAccessUnit (fst k) (snd k) True sm \<in> set es" "epoch_in_range (fst k)"
  shows "mark_le (Some k) (latest_key t) \<and> (publish_complete sm \<longrightarrow>
    mark_le (Some k) (delivered_key t) \<or> (\<exists>l. latest_key t = Some l \<and> k < l))"
  using assms unfolding idr_history_def by (metis prod.collapse)

lemma idr_history_keep:
  assumes "idr_history es t" "latest_key t' = latest_key t" "delivered_key t' = delivered_key t"
    and "\<And>e s sm. ev = OnAccessUnit e s True sm \<Longrightarrow> \<not> epoch_in_range e"
  shows "idr_history (es @ [ev]) t'"
  using assms by (auto simp: idr_history_def)

lemma idr_history_step:
  assumes "idr_history es t"
  shows "idr_history (es @ [ev]) (tracker_handle ev t)"
proof (cases "\<exists>e s sm. ev = OnAccessUnit e s True sm \<and> epoch_in_range e")
  case False
  then show ?thesis
    by (intro idr_history_keep [OF assms]; cases ev)
       (auto simp: on_access_unit_def tracker_request_idr_def latest_key_def delivered_key_def not_le not_less)
next
  case True
  then obtain e s sm where ev: "ev = OnAccessUnit e s True sm" and r: "epoch_in_range e" by blast
  have old: "mark_le (Some k) (latest_key t) \<and> (publish_complete sm' \<longrightarrow>
        mark_le (Some k) (delivered_key t) \<or> (\<exists>l. latest_key t = Some l \<and> k < l))"
    if "OnAccessUnit (fst k) (snd k) True sm' \<in> set es" "epoch_in_range (fst k)" for k sm'
    using idr_historyD [OF assms that] .
  show ?thesis
  proof (rule idr_unit_cases [OF r refl, where s = s and sm = sm and t = t])
    fix l assume "latest_key t = Some l" "(e, s) < l" "on_access_unit e s True sm t = t"
    then show ?thesis using assms by (auto simp: idr_history_def ev)
  next
    assume a: "mark_le (latest_key t) (Some (e, s))" "latest_key (on_access_unit e s True sm t) = Some (e, s)"
      "\<not> publish_complete sm" "delivered_key (on_access_unit e s True sm t) = delivered_key t"
    have "mark_le (Some k) (Some (e, s)) \<and> (publish_complete sm' \<longrightarrow>
        mark_le (Some k) (delivered_key t) \<or> k < (e, s))"
      if h: "OnAccessUnit (fst k) (snd k) True sm' \<in> set es" "epoch_in_range (fst k)" for k sm'
    proof -
      have "mark_le (Some k) (Some (e, s))" using old [OF h] mark_le_trans [OF _ a(1)] by blast
      moreover have "k < (e, s)" if "latest_key t = Some l" "k < l" for l using that a(1) by auto
      ultimately show ?thesis using old [OF h] by blast
    qed
    then show ?thesis using a by (fastforce simp: idr_history_def ev)
  next
    assume a: "mark_le (latest_key t) (Some (e, s))" "latest_key (on_access_unit e s True sm t) = Some (e, s)"
      "publish_complete sm" "mark_le (Some (e, s)) (delivered_key t)"
      "delivered_key (on_access_unit e s True sm t) = delivered_key t"
    have "mark_le (Some k) (Some (e, s))"
      if "OnAccessUnit (fst k) (snd k) True sm' \<in> set es" "epoch_in_range (fst k)" for k sm'
      using old [OF that] mark_le_trans [OF _ a(1)] by blast
    then show ?thesis using a mark_le_trans [OF _ a(4)] by (fastforce simp: idr_history_def ev)
  next
    assume a: "mark_le (latest_key t) (Some (e, s))" "latest_key (on_access_unit e s True sm t) = Some (e, s)"
      "delivered_key (on_access_unit e s True sm t) = Some (e, s)"
    have "mark_le (Some k) (Some (e, s))"
      if "OnAccessUnit (fst k) (snd k) True sm' \<in> set es" "epoch_in_range (fst k)" for k sm'
      using old [OF that] mark_le_trans [OF _ a(1)] by blast
    then show ?thesis using a by (fastforce simp: idr_history_def ev)
  qed
qed

lemma idr_history_run: "idr_history es (fold tracker_handle es new_idr_tracker)"
proof (induction es rule: rev_induct)
  case Nil
  then show ?case by (simp add: idr_history_def)
next
  case (snoc ev es)
  then show ?case using idr_history_step [OF snoc.IH, of ev] by simp
qed

text \<open>
  An IDR request is cleared only by a newer, completely published IDR: when, after any
  sequence of requests and publications, an event clears an open request, it is the complete
  publication of an IDR of a valid epoch that is at least as new as every IDR ever attempted and
  strictly newer than every IDR ever completely published.
\<close>

theorem idr_request_cleared_by_newer:
  assumes t: "t = fold tracker_handle es new_idr_tracker"
    and clears: "it_idr_requested t" "\<not> it_idr_requested (tracker_handle ev t)"
  shows "\<exists>e s sm. ev = OnAccessUnit e s True sm \<and> epoch_in_range e \<and> publish_complete sm \<and>
    (\<forall>e' s' sm'. OnAccessUnit e' s' True sm' \<in> set es \<longrightarrow> epoch_in_range e' \<longrightarrow>
       (e', s') \<le> (e, s) \<and> (publish_complete sm' \<longrightarrow> (e', s') < (e, s)))"
proof -
  obtain e s sm where ev: "ev = OnAccessUnit e s True sm" and r: "epoch_in_range e"
    using clears
    by (cases ev) (auto simp: tracker_request_idr_def on_access_unit_def not_less split: if_splits)
  have hist: "mark_le (Some k) (latest_key t) \<and> (publish_complete sm' \<longrightarrow>
        mark_le (Some k) (delivered_key t) \<or> (\<exists>l. latest_key t = Some l \<and> k < l))"
    if "OnAccessUnit (fst k) (snd k) True sm' \<in> set es" "epoch_in_range (fst k)" for k sm'
    using idr_historyD [OF idr_history_run [of es] that] unfolding t [symmetric] .
  show ?thesis
  proof (rule idr_unit_cases [OF r refl, where s = s and sm = sm and t = t])
    assume a: "mark_le (latest_key t) (Some (e, s))" "publish_complete sm"
      "\<not> mark_le (Some (e, s)) (delivered_key t)"
    have "k \<le> (e, s) \<and> (publish_complete sm' \<longrightarrow> k < (e, s))"
      if h: "OnAccessUnit (fst k) (snd k) True sm' \<in> set es" "epoch_in_range (fst k)" for k sm'
    proof -
      have "k \<le> (e, s)" using hist [OF h] mark_le_trans [OF _ a(1)] by fastforce
      moreover have "k < (e, s)" if "mark_le (Some k) (delivered_key t)"
        using that a(3) by (cases "delivered_key t") auto
      moreover have "k < (e, s)" if "latest_key t = Some l" "k < l" for l
        using that a(1) by auto
      ultimately show ?thesis using hist [OF h] by blast
    qed
    then show ?thesis using ev r a(2) by fastforce
  qed (use clears ev in simp_all)
qed

theorem idr_request_cleared_by_newer_witness:
  "\<exists>e s sm. OnAccessUnit 3 7 True \<lparr>ps_fragments_total = 1, ps_fragments_sent = 1, ps_socket_error = False\<rparr> =
      OnAccessUnit e s True sm \<and> epoch_in_range e \<and> publish_complete sm"
  using idr_request_cleared_by_newer [OF refl, of "[RequestAnIdr]" "OnAccessUnit 3 7 True
    \<lparr>ps_fragments_total = 1, ps_fragments_sent = 1, ps_socket_error = False\<rparr>"]
  by (simp add: new_idr_tracker_def tracker_request_idr_def on_access_unit_def publish_complete_def
      kMaxStreamEpoch_def)

section \<open>Identities are issued in order\<close>

definition generator_ok :: "identity_generator \<Rightarrow> bool" where
  "generator_ok g \<longleftrightarrow> frame_identity_valid \<lparr>fi_stream_epoch = ig_epoch g, fi_frame_sequence = ig_sequence g\<rparr>"

text \<open>Every identity issued so far is below the generator's floor, every later one at or above it.\<close>

definition issued_below :: "u64 \<times> u32 \<Rightarrow> identity_generator \<Rightarrow> bool" where
  "issued_below k g \<longleftrightarrow> k < (ig_epoch g, ig_sequence g) \<or>
     ig_rollover_before_next g \<and> k \<le> (ig_epoch g, ig_sequence g)"

lemma next_identity_step:
  assumes "generator_ok g" "next_identity g = Inr (ident, g')"
  shows "generator_ok g'" "frame_identity_valid ident" "issued_below (frame_of ident) g'"
    "issued_below k g \<Longrightarrow> k < frame_of ident" "issued_below k g \<Longrightarrow> issued_below k g'"
proof -
  have "ig_sequence g < ig_sequence g + 1" if "ig_sequence g \<noteq> 0xFFFFFFFF"
  proof (rule less_add_1_nowrap)
    have "(0xFFFFFFFF :: u32) = - 1" by simp
    with that show "ig_sequence g \<noteq> - 1" by metis
  qed
  then show "generator_ok g'" "frame_identity_valid ident" "issued_below (frame_of ident) g'"
    "issued_below k g \<Longrightarrow> k < frame_of ident" "issued_below k g \<Longrightarrow> issued_below k g'"
    using assms
    by (auto simp: next_identity_def generator_ok_def frame_identity_valid_def issued_below_def
        frame_of_def less_prod_def less_eq_prod_def split: if_splits)
qed

lemma rotate_to_step:
  assumes "generator_ok g" "rotate_to e g = Inr g'"
  shows "generator_ok g'" "issued_below k g \<Longrightarrow> issued_below k g'"
  using assms
  by (auto simp: rotate_to_def generator_ok_def frame_identity_valid_def issued_below_def not_le not_less
      less_prod_def less_eq_prod_def word_neq_0_conv [symmetric] split: if_splits)

lemma make_identity_generator_ok:
  "make_identity_generator e s = Inr g \<Longrightarrow> generator_ok g"
  by (auto simp: make_identity_generator_def generator_ok_def split: if_splits)

section \<open>Decoded frames are accepted in order\<close>

definition ledger_key :: "frame_ledger \<Rightarrow> (u64 \<times> u32) option" where
  "ledger_key l = paired (fl_current_epoch l) (fl_last_observed_sequence l)"

definition ledger_wf :: "frame_ledger \<Rightarrow> bool" where
  "ledger_wf l \<longleftrightarrow> (fl_current_epoch l = None \<longleftrightarrow> fl_last_observed_sequence l = None)"

lemma observe_step:
  assumes "ledger_wf l" "observe m l = (r, l')"
  shows "ledger_wf l' \<and> mark_le (ledger_key l) (ledger_key l') \<and>
    (if fl_accepted_for_inference r
     then \<not> mark_le (Some (frame_of (df_identity m))) (ledger_key l) \<and>
       ledger_key l' = Some (frame_of (df_identity m)) \<and>
       fl_current_epoch l' = Some (fi_stream_epoch (df_identity m)) \<and>
       df_content_updated m \<and> \<not> df_is_repeat m \<and>
       (fl_current_epoch l \<noteq> fl_current_epoch l' \<longrightarrow> df_is_idr m)
     else fl_current_epoch l' = fl_current_epoch l)"
proof (cases "fl_current_epoch l")
  case None
  then have "fl_last_observed_sequence l = None" using assms(1) by (simp add: ledger_wf_def)
  with None assms(2) show ?thesis
    by (auto simp: observe_def record_frame_def advance_epoch_def ledger_reply_def ledger_wf_def ledger_key_def
        frame_of_def Let_def split: if_splits)
next
  case (Some e)
  then obtain s where s: "fl_last_observed_sequence l = Some s" using assms(1) by (auto simp: ledger_wf_def)
  show ?thesis
  proof (cases "e < fi_stream_epoch (df_identity m)")
    case True
    then have "\<not> fi_stream_epoch (df_identity m) < e" by auto
    with True Some s assms(2) show ?thesis
      by (auto simp: observe_def record_frame_def advance_epoch_def ledger_reply_def ledger_wf_def ledger_key_def
          frame_of_def Let_def split: if_splits)
  next
    case False
    then show ?thesis using Some s assms(2)
      by (auto simp: observe_def record_frame_def ledger_reply_def ledger_wf_def ledger_key_def frame_of_def
          Let_def not_less less_eq_prod_def split: if_splits option.splits)
  qed
qed

fun accepted_frames :: "decoded_frame list \<Rightarrow> frame_ledger_result list \<Rightarrow> decoded_frame list" where
  "accepted_frames (m # ms) (r # rs) =
     (if fl_accepted_for_inference r then m # accepted_frames ms rs else accepted_frames ms rs)"
| "accepted_frames _ _ = []"

definition epoch_opened :: "decoded_frame list \<Rightarrow> decoded_frame \<Rightarrow> bool" where
  "epoch_opened fs f = list_ex (\<lambda>g. df_is_idr g \<and>
     fi_stream_epoch (df_identity g) = fi_stream_epoch (df_identity f) \<and>
     \<not> newer_than (df_identity g) (df_identity f)) fs"

lemma ledger_run:
  fixes ms :: "decoded_frame list"
  assumes "ledger_wf l"
  defines "fs \<equiv> accepted_frames ms (fst (run_outputs observe ms l))"
  shows "sorted_wrt (\<lambda>f g. newer_than (df_identity g) (df_identity f)) fs \<and>
    list_all (\<lambda>f. \<not> mark_le (Some (frame_of (df_identity f))) (ledger_key l)) fs \<and>
    list_all (\<lambda>f. df_content_updated f \<and> \<not> df_is_repeat f) fs \<and>
    list_all (\<lambda>f. fl_current_epoch l = Some (fi_stream_epoch (df_identity f)) \<or> epoch_opened fs f) fs"
  using assms(1) unfolding fs_def
proof (induction ms arbitrary: l)
  case Nil
  then show ?case by simp
next
  case (Cons m ms)
  obtain r l' where step: "observe m l = (r, l')" by fastforce
  let ?rest = "accepted_frames ms (fst (run_outputs observe ms l'))"
  note one = observe_step [OF Cons.prems step]
  have wf: "ledger_wf l'" using one by blast
  note rest = Cons.IH [OF wf]
  have le: "mark_le (ledger_key l) (ledger_key l')" using one by blast
  have later: "\<not> mark_le (Some (frame_of (df_identity f))) (ledger_key l)"
    if "f \<in> set ?rest" for f
    using rest that mark_le_trans [OF _ le] by (auto simp: list_all_iff)
  have run: "accepted_frames (m # ms) (fst (run_outputs observe (m # ms) l)) =
      (if fl_accepted_for_inference r then m # ?rest else ?rest)"
    by (simp add: step case_prod_unfold Let_def)
  show ?case
  proof (cases "fl_accepted_for_inference r")
    case False
    then show ?thesis using one rest later unfolding run by (auto simp: list_all_iff)
  next
    case True
    have newer: "newer_than (df_identity f) (df_identity m)" if "f \<in> set ?rest" for f
      using rest that one True by (auto simp: list_all_iff newer_than_iff not_le)
    have opened: "epoch_opened (m # ?rest) f \<or> fl_current_epoch l = Some (fi_stream_epoch (df_identity f))"
      if "f \<in> set ?rest" for f
    proof (cases "epoch_opened ?rest f")
      case False
      then have "fl_current_epoch l' = Some (fi_stream_epoch (df_identity f))"
        using rest that by (auto simp: list_all_iff)
      moreover have "\<not> newer_than (df_identity m) (df_identity f)"
        using newer [OF that] by (simp add: newer_than_iff)
      ultimately show ?thesis using one True by (auto simp: epoch_opened_def)
    qed (simp add: epoch_opened_def)
    have self: "epoch_opened (m # ?rest) m \<or> fl_current_epoch l = Some (fi_stream_epoch (df_identity m))"
      using one True by (auto simp: epoch_opened_def newer_than_iff)
    show ?thesis unfolding run using one rest later newer opened self True by (auto simp: list_all_iff)
  qed
qed

text \<open>
  Frames accepted for inference: whatever decoded frames a new ledger observes, those it
  accepts have strictly increasing identities, updated content and are no repeats, and the stream
  epoch of each was opened by an accepted IDR of that epoch that is not newer than it.
\<close>

theorem accepted_frames_in_order:
  fixes ms :: "decoded_frame list"
  defines "fs \<equiv> accepted_frames ms (fst (run_outputs observe ms new_frame_ledger))"
  shows "sorted_wrt (\<lambda>f g. newer_than (df_identity g) (df_identity f)) fs \<and>
    list_all (\<lambda>f. df_content_updated f \<and> \<not> df_is_repeat f \<and> epoch_opened fs f) fs"
proof -
  have "ledger_wf new_frame_ledger" "fl_current_epoch new_frame_ledger = None"
    by (simp_all add: ledger_wf_def new_frame_ledger_def)
  then show ?thesis using ledger_run [of new_frame_ledger ms] unfolding fs_def by (auto simp: list_all_iff)
qed

section \<open>The marks of the pipeline status\<close>

datatype status_event =
    SetBlocker host_blocker time_point
  | MarkPublished frame_identity bool
  | MarkDecoded frame_identity

fun status_handle :: "status_event \<Rightarrow> host_status \<Rightarrow> host_status" where
  "status_handle (SetBlocker b now) s = status_set_blocker b now s"
| "status_handle (MarkPublished i c) s = mark_published i c s"
| "status_handle (MarkDecoded i) s = snd (mark_decoded i s)"

abbreviation mark_key :: "frame_identity option \<Rightarrow> (u64 \<times> u32) option" where
  "mark_key \<equiv> map_option frame_of"

definition status_ok :: "host_status \<Rightarrow> bool" where
  "status_ok s \<longleftrightarrow> mark_le (mark_key (hs_last_decoded_frame s)) (mark_key (hs_last_published_frame s)) \<and>
     mark_le (mark_key (hs_last_counted_idr s)) (mark_key (hs_last_published_frame s))"

definition status_below :: "host_status \<Rightarrow> host_status \<Rightarrow> bool" where
  "status_below s u \<longleftrightarrow>
     mark_le (mark_key (hs_last_published_frame s)) (mark_key (hs_last_published_frame u)) \<and>
     mark_le (mark_key (hs_last_decoded_frame s)) (mark_key (hs_last_decoded_frame u)) \<and>
     hs_fully_published_idr_count s \<le> hs_fully_published_idr_count u \<and>
     hs_transition_id s \<le> hs_transition_id u \<and> hs_changed_at s \<le> hs_changed_at u"

lemma count_up_le: "n \<le> (if n \<noteq> 0xFFFFFFFFFFFFFFFF then n + 1 else n)" for n :: u64
proof (cases "n = 0xFFFFFFFFFFFFFFFF")
  case False
  moreover have "(0xFFFFFFFFFFFFFFFF :: u64) = - 1" by simp
  ultimately have "n < n + 1" by (metis less_add_1_nowrap)
  then show ?thesis by (simp add: order_less_imp_le)
qed simp

lemma set_blocker_marks:
  "hs_last_published_frame (status_set_blocker b now s) = hs_last_published_frame s"
  "hs_last_decoded_frame (status_set_blocker b now s) = hs_last_decoded_frame s"
  "hs_last_counted_idr (status_set_blocker b now s) = hs_last_counted_idr s"
  "hs_fully_published_idr_count (status_set_blocker b now s) = hs_fully_published_idr_count s"
  "hs_blocker (status_set_blocker b now s) = b"
  by (simp_all add: status_set_blocker_def Let_def)

lemma mark_published_marks:
  assumes "status_ok s"
  shows "status_ok (mark_published i c s) \<and> status_below s (mark_published i c s)"
proof -
  let ?P = "hs_last_published_frame s"
  consider "\<not> frame_identity_valid i" | p where "?P = Some p" "frame_of i < frame_of p"
    | "frame_identity_valid i" "?P = None \<or> (\<exists>p. ?P = Some p \<and> frame_of p \<le> frame_of i)"
    by (cases ?P) force+
  then show ?thesis
  proof cases
    case 3
    then have keep: "\<not> (?P \<noteq> None \<and> Some i \<noteq> ?P \<and> \<not> beyond i ?P)"
      by (auto simp: beyond_def newer_than_iff order_le_less)
    define s1 where "s1 = (if beyond i ?P then s\<lparr>hs_last_published_frame := Some i\<rparr> else s)"
    have pub: "hs_last_published_frame s1 = Some i"
      using 3 by (auto simp: s1_def beyond_def newer_than_iff order_le_less)
    have le: "mark_le (mark_key ?P) (Some (frame_of i))" using 3(2) by auto
    have same: "hs_last_decoded_frame s1 = hs_last_decoded_frame s" "hs_last_counted_idr s1 = hs_last_counted_idr s"
      "hs_fully_published_idr_count s1 = hs_fully_published_idr_count s"
      "hs_transition_id s1 = hs_transition_id s" "hs_changed_at s1 = hs_changed_at s"
      by (simp_all add: s1_def)
    have s1: "status_ok s1" "status_below s s1"
      using assms mark_le_trans [OF _ le] le by (simp_all add: status_ok_def status_below_def pub same)
    have "mark_published i c s = (if c \<and> beyond i (hs_last_counted_idr s1)
        then s1\<lparr>hs_last_counted_idr := Some i, hs_fully_published_idr_count :=
          (if hs_fully_published_idr_count s1 \<noteq> 0xFFFFFFFFFFFFFFFF
           then hs_fully_published_idr_count s1 + 1 else hs_fully_published_idr_count s1)\<rparr>
        else s1)"
      unfolding mark_published_def if_not_P [OF keep] s1_def [symmetric] Let_def using 3(1) by simp
    then show ?thesis
      using s1 pub count_up_le [of "hs_fully_published_idr_count s1"]
      by (auto simp: status_ok_def status_below_def intro: order_trans)
  qed (use assms in \<open>auto simp: mark_published_def status_below_def beyond_def newer_than_iff\<close>)
qed

lemma mark_decoded_marks:
  assumes "status_ok s"
  shows "status_ok (snd (mark_decoded i s)) \<and> status_below s (snd (mark_decoded i s))"
  using assms
  by (auto simp: mark_decoded_def status_ok_def status_below_def newer_than_iff not_less
      split: option.splits)

interpretation status: event_system "\<lambda>s. \<exists>now. s = new_host_status now" "\<lambda>_. True"
  status_handle status_ok status_below
proof unfold_locales
  show "status_ok s" if "\<exists>now. s = new_host_status now" for s
    using that by (auto simp: new_host_status_def status_ok_def)
  have blocker: "status_below s (status_set_blocker b now s)" for b now s
    using count_up_le [of "hs_transition_id s"] by (auto simp: status_below_def status_set_blocker_def Let_def)
  show "status_ok (status_handle e s)" "status_below s (status_handle e s)" if "status_ok s" for e s
    using that mark_published_marks [OF that] mark_decoded_marks [OF that] blocker
    by (cases e; auto simp: status_ok_def set_blocker_marks)+
  show "status_below s s" for s by (simp add: status_below_def)
  show "status_below s u" if "status_below s t" "status_below t u" for s t u
    using that by (auto simp: status_below_def intro: mark_le_trans order_trans)
qed

text \<open>
  The pipeline status only moves forward: over any sequence of calls, the last decoded frame and
  the last counted IDR never pass the last published frame, and the published and decoded marks, the
  count of complete IDRs, the transition id and the time of the last change never go back.
\<close>

theorem pipeline_marks_monotone:
  fixes es fs :: "status_event list" and now :: time_point
  defines "s \<equiv> fold status_handle es (new_host_status now)"
  shows "status_ok s \<and> status_below s (fold status_handle fs s)"
proof
  show ok: "status_ok s" unfolding s_def by (rule status.inv_run) (auto simp: list_all_iff)
  show "status_below s (fold status_handle fs s)"
    by (rule status.below_fold [OF ok]) (simp add: list_all_iff)
qed

section \<open>When a delivery is complete\<close>

definition record_all :: "(frame_identity \<times> u16 \<times> bool) list \<Rightarrow> delivery_ledger \<Rightarrow> delivery_ledger" where
  "record_all es l = fold (\<lambda>(i, k, sent) l. snd (record_fragment i k sent l)) es l"

text \<open>The callbacks that concern the ledger's frame and one of its \<open>n\<close> fragments.\<close>

definition concerning :: "frame_identity \<Rightarrow> nat \<Rightarrow> (frame_identity \<times> u16 \<times> bool) list \<Rightarrow> (nat \<times> bool) list" where
  "concerning ident n es = map (\<lambda>(i, k, sent). (unat k, sent)) (filter (\<lambda>(i, k, sent). i = ident \<and> unat k < n) es)"

lemma concerning_snoc:
  "concerning ident n (es @ [(i, k, sent)]) =
     concerning ident n es @ (if i = ident \<and> unat k < n then [(unat k, sent)] else [])"
  by (simp add: concerning_def)

lemma count_set_true:
  assumes "j < length xs" "\<not> xs ! j"
  shows "length (filter id (xs[j := True])) = Suc (length (filter id xs))"
  using assms by (induction xs arbitrary: j) (auto split: nat.splits simp: nth_Cons' list_update.simps less_Suc_eq_0_disj)

lemma count_all_true: "length (filter id xs) = length xs \<longleftrightarrow> (\<forall>k < length xs. xs ! k)"
proof (induction xs)
  case (Cons x xs)
  have "length (filter (\<lambda>a. a) xs) \<noteq> Suc (length xs)"
    using length_filter_le [of "\<lambda>a. a" xs] by linarith
  then show ?case using Cons.IH by (cases x) (auto simp: All_less_Suc2)
qed simp

definition delivering :: "frame_identity \<Rightarrow> nat \<Rightarrow> (frame_identity \<times> u16 \<times> bool) list \<Rightarrow> delivery_ledger \<Rightarrow> bool" where
  "delivering ident n es l \<longleftrightarrow> dl_active l \<and> \<not> dl_terminal l \<and> dl_identity l = ident \<and> length (dl_sent l) = n \<and>
     dl_sent_count l = length (filter id (dl_sent l)) \<and>
     dl_socket_error l = list_ex (\<lambda>(k, sent). \<not> sent) (concerning ident n es) \<and>
     (\<not> dl_socket_error l \<longrightarrow> (\<forall>k < n. dl_sent l ! k \<longleftrightarrow> (k, True) \<in> set (concerning ident n es)))"

lemma delivering_step:
  assumes "delivering ident n es l"
  shows "delivering ident n (es @ [(i, k, sent)]) (snd (record_fragment i k sent l))"
proof (cases "i = ident \<and> unat k < n \<and> \<not> dl_socket_error l")
  case False
  then show ?thesis using assms by (auto simp: delivering_def concerning_snoc record_fragment_def)
next
  case True
  note c = count_set_true [of "unat k" "dl_sent l"]
  have "\<forall>(j, b) \<in> set (concerning ident n es). b"
    using assms True by (auto simp: delivering_def list_ex_iff)
  then show ?thesis
    using assms True c
    by (auto simp: delivering_def concerning_snoc record_fragment_def Let_def nth_list_update list_ex_iff)
qed

text \<open>
  A delivery counts as published exactly when every fragment went out: for a ledger opened for a
  frame of \<open>n\<close> fragments, after any sequence of send callbacks, for this or other frames, with repeated or
  invalid fragment indices, finalizing the frame reports it fully published if and only if no
  callback for one of its fragments reported a failure and each of its fragments was reported sent.
\<close>

theorem delivery_complete_iff:
  assumes "delivery_begin ident idr n l0 = Inr l"
  shows "fully_published (fst (delivery_finalize ident (record_all es l))) \<longleftrightarrow>
    (\<forall>k < unat n. (k, True) \<in> set (concerning ident (unat n) es)) \<and>
    (\<forall>k. (k, False) \<notin> set (concerning ident (unat n) es))"
proof -
  have n: "0 < unat n" and start: "delivering ident (unat n) [] l"
    using assms by (auto simp: delivery_begin_def delivering_def concerning_def unat_gt_0 split: if_splits)
  have "delivering ident (unat n) es (record_all es l)"
  proof (induction es rule: rev_induct)
    case (snoc x xs)
    then show ?case using delivering_step [OF snoc.IH] by (cases x) (simp add: record_all_def)
  qed (use start in \<open>simp add: record_all_def\<close>)
  then have d: "dl_active (record_all es l)" "\<not> dl_terminal (record_all es l)"
    "dl_identity (record_all es l) = ident" "length (dl_sent (record_all es l)) = unat n"
    "dl_sent_count (record_all es l) = length (filter id (dl_sent (record_all es l)))"
    "dl_socket_error (record_all es l) \<longleftrightarrow> (\<exists>k. (k, False) \<in> set (concerning ident (unat n) es))"
    "\<not> dl_socket_error (record_all es l) \<Longrightarrow> (\<forall>k < unat n. dl_sent (record_all es l) ! k) \<longleftrightarrow>
       (\<forall>k < unat n. (k, True) \<in> set (concerning ident (unat n) es))"
    by (auto simp: delivering_def list_ex_iff)
  have "length (filter id (dl_sent (record_all es l))) = unat n \<longleftrightarrow> (\<forall>k < unat n. dl_sent (record_all es l) ! k)"
    using count_all_true [of "dl_sent (record_all es l)"] d(4) by simp
  then show ?thesis
    using n d by (auto simp: delivery_finalize_def delivery_snapshot_of_def fully_published_def Let_def)
qed

theorem delivery_complete_iff_witness:
  "\<exists>l. delivery_begin \<lparr>fi_stream_epoch = 1, fi_frame_sequence = 2\<rparr> True 1 new_delivery_ledger = Inr l \<and>
     fully_published (fst (delivery_finalize \<lparr>fi_stream_epoch = 1, fi_frame_sequence = 2\<rparr>
       (record_all [(\<lparr>fi_stream_epoch = 1, fi_frame_sequence = 2\<rparr>, 0, True)] l)))"
proof -
  let ?i = "\<lparr>fi_stream_epoch = 1, fi_frame_sequence = 2\<rparr> :: frame_identity"
  obtain l where l: "delivery_begin ?i True 1 new_delivery_ledger = Inr l"
    by (simp add: delivery_begin_def new_delivery_ledger_def frame_identity_valid_def kMaxStreamEpoch_def
        kMaxFragments_eq)
  then show ?thesis using delivery_complete_iff [OF l, of "[(?i, 0, True)]"] by (auto simp: concerning_def)
qed

end
