(* ===== verification/Core_Host_Runtime.thy ===== *)
theory Core_Host_Runtime
  imports Core_Host_Domain
begin

text \<open>
  The host runtime of the core library: the data-plane facade
  (\<^verbatim>\<open>e2e_core/src/host/interfaces/host_runtime_facade.cpp\<close>), which fragments an access unit, hands the
  datagrams to the transport and keeps the books, and the composition root
  (\<^verbatim>\<open>host_runtime_composition_root.cpp\<close>), which maps every capture result to an action.

  The transport port \<^verbatim>\<open>DatagramSink::send\<close> is a virtual call and so a parameter: a function
  \<open>send\<close> from a datagram and the sink's own state to an answer and the new state, \<open>None\<close> when it
  throws. Every public operation is one atomic step; calls on the facade that other threads make
  while \<^verbatim>\<open>on_capture\<close> is inside \<^verbatim>\<open>send\<close> are ordered before or after it.
\<close>

type_synonym 'k datagram_sink = "bytes \<Rightarrow> 'k \<Rightarrow> bool option \<times> 'k"

section \<open>The facade\<close>

record runtime_facade =
  rf_fragmenter :: fragmentation_config
  rf_idr_tracker :: idr_tracker

definition make_facade :: "fragmentation_config \<Rightarrow> core_error + runtime_facade" where
  "make_facade config =
     (case make_fragmenter config of
        Inl e \<Rightarrow> Inl e
      | Inr f \<Rightarrow> Inr \<lparr>rf_fragmenter = f, rf_idr_tracker = new_idr_tracker\<rparr>)"

text \<open>The \<^verbatim>\<open>try\<close> block around \<^verbatim>\<open>send\<close>: an exception counts as not sent.\<close>

definition sink_send :: "'k datagram_sink \<Rightarrow> bytes \<Rightarrow> 'k \<Rightarrow> bool \<times> 'k" where
  "sink_send send datagram k =
     (case send datagram k of (Some sent, k') \<Rightarrow> (sent, k') | (None, k') \<Rightarrow> (False, k'))"

fun publish_loop :: "'k datagram_sink \<Rightarrow> frame_identity \<Rightarrow> nat \<Rightarrow> bytes list \<Rightarrow> delivery_ledger \<Rightarrow> 'k \<Rightarrow>
    delivery_ledger \<times> 'k" where
  "publish_loop send ident index [] delivery k = (delivery, k)"
| "publish_loop send ident index (d # ds) delivery k =
     (let (sent, k) = sink_send send d k;
          delivery = snd (record_fragment ident (of_nat index) sent delivery)
      in if \<not> sent then (delivery, k) else publish_loop send ident (index + 1) ds delivery k)"

definition publish_access_unit :: "'k datagram_sink \<Rightarrow> frame_identity \<Rightarrow> bool \<Rightarrow> bytes \<Rightarrow> runtime_facade \<Rightarrow> 'k \<Rightarrow>
    (core_error + publish_summary) \<times> runtime_facade \<times> 'k" where
  "publish_access_unit send ident is_idr access_unit f k =
     (case datagram_fragment (rf_fragmenter f) ident access_unit of
        Inl e \<Rightarrow> (Inl e, f, k)
      | Inr datagrams \<Rightarrow>
          case delivery_begin ident is_idr (of_nat (length datagrams)) new_delivery_ledger of
            Inl e \<Rightarrow> (Inl e, f, k)
          | Inr delivery \<Rightarrow>
              let (delivery, k) = publish_loop send ident 0 datagrams delivery k;
                  terminal = fst (delivery_finalize ident delivery);
                  summary = \<lparr>ps_fragments_total = ds_fragments_total terminal,
                    ps_fragments_sent = ds_fragments_sent terminal,
                    ps_socket_error = ds_socket_error terminal \<or> \<not> fully_published terminal\<rparr>
              in (Inr summary,
                  f\<lparr>rf_idr_tracker := on_access_unit (fi_stream_epoch ident) (fi_frame_sequence ident)
                      is_idr summary (rf_idr_tracker f)\<rparr>, k))"

definition publish_repeat :: "'k datagram_sink \<Rightarrow> frame_identity \<Rightarrow> runtime_facade \<Rightarrow> 'k \<Rightarrow>
    (core_error + bool) \<times> 'k" where
  "publish_repeat send ident f k =
     (case datagram_repeat ident of
        Inl e \<Rightarrow> (Inl e, k)
      | Inr datagram \<Rightarrow> let (sent, k) = sink_send send datagram k in (Inr sent, k))"

definition facade_idr_requested :: "runtime_facade \<Rightarrow> bool" where
  "facade_idr_requested f = it_idr_requested (rf_idr_tracker f)"

definition facade_delivered_idr_count :: "runtime_facade \<Rightarrow> u64" where
  "facade_delivered_idr_count f = it_delivered_idr_count (rf_idr_tracker f)"

definition facade_request_idr :: "runtime_facade \<Rightarrow> runtime_facade" where
  "facade_request_idr f = f\<lparr>rf_idr_tracker := tracker_request_idr (rf_idr_tracker f)\<rparr>"

section \<open>The composition root\<close>

datatype host_runtime_code =
    FramePublished | FramePublishFailed | RepeatPublished | RepeatPublishFailed | WaitingFirstFrame
  | HostRecreateDuplication | HostRebuildCaptureDevice | HostFailClosed | InvalidEncodedFrame
  | EpochRotationRequired

record host_result =
  hc_code :: host_runtime_code
  hc_identity :: "frame_identity option"
  hc_publish :: publish_summary
  hc_status :: status_snapshot

record host_runtime =
  hr_status :: host_status
  hr_identities :: identity_generator
  hr_facade :: runtime_facade
  hr_last_published :: "frame_identity option"

definition make_host_runtime :: "u64 \<Rightarrow> time_point \<Rightarrow> fragmentation_config \<Rightarrow> core_error + host_runtime" where
  "make_host_runtime reserved_epoch now fragmentation =
     (case make_identity_generator reserved_epoch 0 of
        Inl e \<Rightarrow> Inl e
      | Inr g \<Rightarrow>
          case make_facade fragmentation of
            Inl e \<Rightarrow> Inl e
          | Inr f \<Rightarrow> Inr \<lparr>hr_status = status_set_blocker WaitingCompleteIdrPublish now (new_host_status now),
                        hr_identities = g, hr_facade = f, hr_last_published = None\<rparr>)"

definition no_publish :: publish_summary where
  "no_publish = \<lparr>ps_fragments_total = 0, ps_fragments_sent = 0, ps_socket_error = False\<rparr>"

definition host_reply :: "host_runtime_code \<Rightarrow> frame_identity option \<Rightarrow> publish_summary \<Rightarrow> time_point \<Rightarrow>
    host_runtime \<Rightarrow> host_result" where
  "host_reply code ident summary now h =
     \<lparr>hc_code = code, hc_identity = ident, hc_publish = summary,
      hc_status = status_snapshot_at now (hr_status h)\<rparr>"

abbreviation host_block :: "host_blocker \<Rightarrow> time_point \<Rightarrow> host_runtime \<Rightarrow> host_runtime" where
  "host_block b now h \<equiv> h\<lparr>hr_status := status_set_blocker b now (hr_status h)\<rparr>"

abbreviation host_want_idr :: "host_runtime \<Rightarrow> host_runtime" where
  "host_want_idr h \<equiv> h\<lparr>hr_facade := facade_request_idr (hr_facade h)\<rparr>"

text \<open>The case \<^verbatim>\<open>EncodeAndPublish\<close> of \<^verbatim>\<open>on_capture\<close>.\<close>

definition encode_and_publish :: "'k datagram_sink \<Rightarrow> bytes \<Rightarrow> bool \<Rightarrow> time_point \<Rightarrow> host_runtime \<Rightarrow> 'k \<Rightarrow>
    (core_error + host_result) \<times> host_runtime \<times> 'k" where
  "encode_and_publish send access_unit is_idr now h k =
     (if access_unit = [] then
        let h = host_block EncoderUnavailable now (host_want_idr h)
        in (Inr (host_reply InvalidEncodedFrame None no_publish now h), h, k)
      else if rotation_required (hr_identities h) then
        let h = host_block HostRecoveryExhausted now h
        in (Inr (host_reply EpochRotationRequired None no_publish now h), h, k)
      else
        case next_identity (hr_identities h) of
          Inl e \<Rightarrow> (Inl e, h, k)
        | Inr (ident, g) \<Rightarrow>
            let h = h\<lparr>hr_identities := g\<rparr>;
                (published, f, k) = publish_access_unit send ident is_idr access_unit (hr_facade h) k;
                h = h\<lparr>hr_facade := f\<rparr>
            in case published of
                 Inl e \<Rightarrow> (Inl e, h, k)
               | Inr summary \<Rightarrow>
                   if \<not> publish_complete summary then
                     let h = host_block TransportFailure now (host_want_idr h)
                     in (Inr (host_reply FramePublishFailed (Some ident) summary now h), h, k)
                   else
                     let h = h\<lparr>hr_last_published := Some ident,
                               hr_status := mark_published ident is_idr (hr_status h)\<rparr>;
                         h = host_block (if facade_idr_requested (hr_facade h)
                               then WaitingCompleteIdrPublish else HostRunnable) now h
                     in (Inr (host_reply FramePublished (Some ident) summary now h), h, k))"

text \<open>The case \<^verbatim>\<open>PublishRepeat\<close>.\<close>

definition send_repeat :: "'k datagram_sink \<Rightarrow> time_point \<Rightarrow> host_runtime \<Rightarrow> 'k \<Rightarrow>
    (core_error + host_result) \<times> host_runtime \<times> 'k" where
  "send_repeat send now h k =
     (case hr_last_published h of
        None \<Rightarrow>
          let h = host_block CaptureWaiting now h
          in (Inr (host_reply WaitingFirstFrame None no_publish now h), h, k)
      | Some ident \<Rightarrow>
          let (res, k) = publish_repeat send ident (hr_facade h) k
          in case res of
               Inl e \<Rightarrow> (Inl e, h, k)
             | Inr sent \<Rightarrow>
                 let h = host_block (if sent then WaitingCompleteIdrPublish else TransportFailure) now
                           (host_want_idr h)
                 in (Inr (host_reply (if sent then RepeatPublished else RepeatPublishFailed)
                       (hr_last_published h)
                       \<lparr>ps_fragments_total = 1, ps_fragments_sent = (if sent then 1 else 0),
                        ps_socket_error = \<not> sent\<rparr> now h), h, k))"

definition on_capture :: "'k datagram_sink \<Rightarrow> capture_status \<Rightarrow> bytes \<Rightarrow> bool \<Rightarrow> time_point \<Rightarrow> host_runtime \<Rightarrow> 'k \<Rightarrow>
    (core_error + host_result) \<times> host_runtime \<times> 'k" where
  "on_capture send capture_status access_unit is_idr now h k =
     (let (action, s) = orchestrate capture_status (hr_last_published h \<noteq> None) now (hr_status h);
          h = h\<lparr>hr_status := s\<rparr>
      in case action of
           EncodeAndPublish \<Rightarrow> encode_and_publish send access_unit is_idr now h k
         | PublishRepeat \<Rightarrow> send_repeat send now h k
         | WaitForFirstFrame \<Rightarrow> (Inr (host_reply WaitingFirstFrame None no_publish now h), h, k)
         | RecreateDuplication \<Rightarrow>
             let h = host_want_idr h
             in (Inr (host_reply HostRecreateDuplication (hr_last_published h) no_publish now h), h, k)
         | RebuildCaptureDevice \<Rightarrow>
             let h = host_want_idr h
             in (Inr (host_reply HostRebuildCaptureDevice (hr_last_published h) no_publish now h), h, k)
         | FailClosed \<Rightarrow>
             let h = host_want_idr h
             in (Inr (host_reply HostFailClosed (hr_last_published h) no_publish now h), h, k))"

definition rotate_to_reserved_epoch :: "u64 \<Rightarrow> time_point \<Rightarrow> host_runtime \<Rightarrow> core_error + host_runtime" where
  "rotate_to_reserved_epoch reserved_epoch now h =
     (case rotate_to reserved_epoch (hr_identities h) of
        Inl e \<Rightarrow> Inl e
      | Inr g \<Rightarrow>
          Inr (host_block WaitingCompleteIdrPublish now
            (host_want_idr (h\<lparr>hr_identities := g, hr_last_published := None\<rparr>))))"

definition mark_app_decoded :: "frame_identity \<Rightarrow> host_runtime \<Rightarrow> bool \<times> host_runtime" where
  "mark_app_decoded ident h =
     (let (ok, s) = mark_decoded ident (hr_status h) in (ok, h\<lparr>hr_status := s\<rparr>))"

datatype runtime_event =
    Capture capture_status bytes bool time_point
  | RotateTo u64 time_point
  | WantIdr
  | AppDecoded frame_identity

datatype host_answer = Captured "core_error + host_result" | Rotated "core_error option" | Decoded bool | Done

fun host_step :: "'k datagram_sink \<Rightarrow> runtime_event \<Rightarrow> host_runtime \<times> 'k \<Rightarrow> host_answer \<times> host_runtime \<times> 'k" where
  "host_step send (Capture c au idr now) (h, k) =
     (case on_capture send c au idr now h k of (res, h', k') \<Rightarrow> (Captured res, h', k'))"
| "host_step send (RotateTo e now) (h, k) =
     (case rotate_to_reserved_epoch e now h of
        Inl err \<Rightarrow> (Rotated (Some err), h, k)
      | Inr h' \<Rightarrow> (Rotated None, h', k))"
| "host_step send WantIdr (h, k) = (Done, host_want_idr h, k)"
| "host_step send (AppDecoded i) (h, k) =
     (case mark_app_decoded i h of (ok, h') \<Rightarrow> (Decoded ok, h', k))"

section \<open>What a publication reports\<close>

lemma sink_send_run:
  "run_outputs (sink_send send) ds k =
     (map (\<lambda>a. a = Some True) (fst (run_outputs send ds k)), snd (run_outputs send ds k))"
proof (induction ds arbitrary: k)
  case (Cons d ds)
  have "sink_send send d k = (fst (send d k) = Some True, snd (send d k))"
    by (cases "send d k") (auto simp: sink_send_def split: option.splits)
  then show ?case by (simp add: Cons case_prod_unfold Let_def)
qed simp

lemma publish_loop_run:
  assumes "dl_active l" "\<not> dl_terminal l" "dl_identity l = ident" "\<not> dl_socket_error l"
    and "dl_sent l = replicate i True @ replicate (length ds) False" "dl_sent_count l = i"
    and "i + length ds < 65536"
  shows "if list_all (\<lambda>a. a) (fst (run_outputs (sink_send send) ds k))
    then publish_loop send ident i ds l k =
      (l\<lparr>dl_sent := replicate (i + length ds) True, dl_sent_count := i + length ds\<rparr>,
       snd (run_outputs (sink_send send) ds k))
    else \<exists>l'. fst (publish_loop send ident i ds l k) = l' \<and> dl_active l' \<and> \<not> dl_terminal l' \<and>
      dl_identity l' = ident \<and> dl_socket_error l'"
  using assms
proof (induction ds arbitrary: i l k)
  case Nil
  then show ?case by simp
next
  case (Cons d ds)
  obtain sent k' where d: "sink_send send d k = (sent, k')" by fastforce
  have i: "unat (of_nat i :: u16) = i" using Cons.prems(7) by (intro unat_of_nat_small) simp
  have len: "i < length (dl_sent l)" "\<not> dl_sent l ! i" using Cons.prems(5) by (simp_all add: nth_append)
  show ?case
  proof (cases sent)
    case False
    then show ?thesis using Cons.prems(1-4) d i len
      by (simp add: record_fragment_def case_prod_unfold Let_def)
  next
    case True
    let ?l = "l\<lparr>dl_sent := replicate (Suc i) True @ replicate (length ds) False, dl_sent_count := Suc i\<rparr>"
    have upd: "(dl_sent l)[i := True] = replicate (Suc i) True @ replicate (length ds) False"
      using Cons.prems(5) by (simp add: list_update_append replicate_app_Cons_same)
    have rec: "snd (record_fragment ident (of_nat i) True l) = ?l"
      using Cons.prems(1-4,6) i len by (simp add: record_fragment_def Let_def upd)
    have loop: "publish_loop send ident i (d # ds) l k = publish_loop send ident (Suc i) ds ?l k'"
      using True by (simp add: d rec)
    have ih: "if list_all (\<lambda>a. a) (fst (run_outputs (sink_send send) ds k'))
      then publish_loop send ident (Suc i) ds ?l k' =
        (?l\<lparr>dl_sent := replicate (Suc i + length ds) True, dl_sent_count := Suc i + length ds\<rparr>,
         snd (run_outputs (sink_send send) ds k'))
      else \<exists>l'. fst (publish_loop send ident (Suc i) ds ?l k') = l' \<and> dl_active l' \<and> \<not> dl_terminal l' \<and>
        dl_identity l' = ident \<and> dl_socket_error l'"
      using Cons.prems by (intro Cons.IH) simp_all
    then show ?thesis
      using True d unfolding loop by (simp add: case_prod_unfold Let_def split: if_splits)
  qed
qed

lemma fragment_count_range:
  assumes "make_fragmenter config = Inr c" "datagram_fragment c ident au = Inr ds"
  shows "0 < length ds" "length ds \<le> 1561" "frame_identity_valid ident" "au \<noteq> []"
    "length au \<le> cfg_max_access_unit_bytes c"
proof -
  show a: "frame_identity_valid ident" "au \<noteq> []" "length au \<le> cfg_max_access_unit_bytes c"
    using assms(2) by (auto simp: datagram_fragment_def not_less split: if_splits)
  show "0 < length ds" "length ds \<le> 1561"
    using datagram_fragment_slices [OF assms(1) a assms(2)] by (auto simp: sliced_def)
qed

lemma publish_report:
  assumes mk: "make_fragmenter config = Inr c" and c: "rf_fragmenter f = c"
    and ds: "datagram_fragment c ident au = Inr ds"
  obtains summary f' k' where "publish_access_unit send ident idr au f k = (Inr summary, f', k')"
    "rf_fragmenter f' = c"
    "publish_complete summary \<longleftrightarrow> fst (run_outputs send ds k) = replicate (length ds) (Some True)"
    "publish_complete summary \<Longrightarrow> k' = snd (run_outputs send ds k)"
    "rf_idr_tracker f' = on_access_unit (fi_stream_epoch ident) (fi_frame_sequence ident) idr summary
      (rf_idr_tracker f)"
proof -
  note range = fragment_count_range [OF mk ds]
  have n: "unat (of_nat (length ds) :: u16) = length ds" using range by (intro unat_of_nat_small) simp
  obtain l where l: "delivery_begin ident idr (of_nat (length ds)) new_delivery_ledger = Inr l"
    "dl_active l" "\<not> dl_terminal l" "dl_identity l = ident" "\<not> dl_socket_error l"
    "dl_sent l = replicate 0 True @ replicate (length ds) False" "dl_sent_count l = 0"
    using range n
    by (auto simp: delivery_begin_def new_delivery_ledger_def kMaxFragments_eq word_less_nat_alt
        word_unat_eq_iff)
  obtain l' k' where loop: "publish_loop send ident 0 ds l k = (l', k')" by fastforce
  note run = publish_loop_run [OF l(2-7), where send = send and k = k, unfolded loop]
  have all: "list_all (\<lambda>a. a) (fst (run_outputs (sink_send send) ds k)) \<longleftrightarrow>
      fst (run_outputs send ds k) = replicate (length ds) (Some True)"
    by (auto simp: sink_send_run list_all_iff replicate_eqI list_eq_iff_nth_eq all_set_conv_all_nth)
  let ?t = "fst (delivery_finalize ident l')"
  let ?s = "\<lparr>ps_fragments_total = ds_fragments_total ?t, ps_fragments_sent = ds_fragments_sent ?t,
    ps_socket_error = ds_socket_error ?t \<or> \<not> fully_published ?t\<rparr>"
  have "publish_complete ?s \<longleftrightarrow> fst (run_outputs send ds k) = replicate (length ds) (Some True)"
    using run range l(2-5) unfolding all
    by (auto simp: publish_complete_def fully_published_def delivery_finalize_def delivery_snapshot_of_def
        Let_def split: if_splits)
  moreover have "k' = snd (run_outputs send ds k)"
    if "fst (run_outputs send ds k) = replicate (length ds) (Some True)"
    using run range that unfolding all by (simp add: sink_send_run)
  moreover have "publish_access_unit send ident idr au f k = (Inr ?s, f\<lparr>rf_idr_tracker :=
      on_access_unit (fi_stream_epoch ident) (fi_frame_sequence ident) idr ?s (rf_idr_tracker f)\<rparr>, k')"
    using c ds l(1) loop by (simp add: publish_access_unit_def Let_def)
  ultimately show thesis
    using c by (intro that [of ?s "f\<lparr>rf_idr_tracker := on_access_unit (fi_stream_epoch ident)
      (fi_frame_sequence ident) idr ?s (rf_idr_tracker f)\<rparr>" k']) (blast | simp)+
qed

section \<open>The runtime's invariant\<close>

definition host_inv :: "host_runtime \<Rightarrow> bool" where
  "host_inv h \<longleftrightarrow> (\<exists>config. make_fragmenter config = Inr (rf_fragmenter (hr_facade h))) \<and>
     generator_ok (hr_identities h) \<and>
     (\<forall>i. hr_last_published h = Some i \<longrightarrow> frame_identity_valid i)"

fun published_identity :: "host_answer \<Rightarrow> frame_identity option" where
  "published_identity (Captured (Inr r)) = (if hc_code r = FramePublished then hc_identity r else None)"
| "published_identity _ = None"

text \<open>What every call keeps: the invariant, and the order of the identities.\<close>

definition host_advances :: "host_runtime \<Rightarrow> host_answer \<Rightarrow> host_runtime \<Rightarrow> bool" where
  "host_advances h a h' \<longleftrightarrow> host_inv h' \<and> rf_fragmenter (hr_facade h') = rf_fragmenter (hr_facade h) \<and>
     (\<forall>key. issued_below key (hr_identities h) \<longrightarrow> issued_below key (hr_identities h')) \<and>
     (\<forall>i. published_identity a = Some i \<longrightarrow> issued_below (frame_of i) (hr_identities h') \<and>
        (\<forall>key. issued_below key (hr_identities h) \<longrightarrow> key < frame_of i))"

lemma host_advances_idle:
  assumes "host_inv h" "hr_identities h' = hr_identities h" "rf_fragmenter (hr_facade h') = rf_fragmenter (hr_facade h)"
    "hr_last_published h' = hr_last_published h" "published_identity a = None"
  shows "host_advances h a h'"
  using assms by (simp add: host_advances_def host_inv_def)

lemma publish_keeps_fragmenter:
  "publish_access_unit send ident idr au f k = (res, f', k') \<Longrightarrow> rf_fragmenter f' = rf_fragmenter f"
  by (auto simp: publish_access_unit_def Let_def case_prod_unfold split: sum.splits)

lemma encode_and_publish_advances:
  assumes inv: "host_inv h" and run: "encode_and_publish send au idr now h k = (res, h', k')"
  shows "host_advances h (Captured res) h'"
proof (cases "au = [] \<or> rotation_required (hr_identities h)")
  case True
  then show ?thesis
    using run by (intro host_advances_idle [OF inv])
      (auto simp: encode_and_publish_def facade_request_idr_def host_reply_def Let_def split: if_splits)
next
  case False
  then obtain ident g where g: "next_identity (hr_identities h) = Inr (ident, g)"
    by (auto simp: next_identity_def rotation_required_def)
  have ok: "generator_ok (hr_identities h)" using inv by (simp add: host_inv_def)
  note step = next_identity_step [OF ok g]
  obtain published f k1 where p: "publish_access_unit send ident idr au (hr_facade h) k = (published, f, k1)"
    by (metis prod_cases3)
  have ids: "hr_identities h' = g" "rf_fragmenter (hr_facade h') = rf_fragmenter (hr_facade h)"
    "hr_last_published h' = hr_last_published h \<or> hr_last_published h' = Some ident"
    "published_identity (Captured res) = Some i \<Longrightarrow> i = ident" for i
    using run False g p publish_keeps_fragmenter [OF p]
    by (auto simp: encode_and_publish_def facade_request_idr_def host_reply_def Let_def split: sum.splits if_splits)
  then show ?thesis using inv step by (auto simp: host_advances_def host_inv_def)
qed

lemma send_repeat_advances:
  assumes inv: "host_inv h" and run: "send_repeat send now h k = (res, h', k')"
  shows "host_advances h (Captured res) h'"
  using run
  by (intro host_advances_idle [OF inv])
     (auto simp: send_repeat_def facade_request_idr_def host_reply_def Let_def case_prod_unfold
      split: option.splits sum.splits)

lemma on_capture_advances:
  assumes inv: "host_inv h" and run: "on_capture send c au idr now h k = (res, h', k')"
  shows "host_advances h (Captured res) h'"
proof -
  obtain action s where o: "orchestrate c (hr_last_published h \<noteq> None) now (hr_status h) = (action, s)"
    by fastforce
  let ?h = "h\<lparr>hr_status := s\<rparr>"
  have inv': "host_inv ?h" using inv by (simp add: host_inv_def)
  have "host_advances ?h (Captured res) h'"
  proof (cases action)
    case EncodeAndPublish
    then show ?thesis using run o by (intro encode_and_publish_advances [OF inv']) (simp add: on_capture_def)
  next
    case PublishRepeat
    then show ?thesis using run o by (intro send_repeat_advances [OF inv']) (simp add: on_capture_def)
  qed (use run o in \<open>auto intro!: host_advances_idle [OF inv'] simp: on_capture_def facade_request_idr_def
      host_reply_def Let_def\<close>)
  then show ?thesis by (simp add: host_advances_def)
qed

lemma rotate_advances:
  assumes inv: "host_inv h" and run: "rotate_to_reserved_epoch e now h = Inr h'"
  shows "host_advances h (Rotated x) h'"
proof -
  obtain g where g: "rotate_to e (hr_identities h) = Inr g"
    and h': "hr_identities h' = g" "rf_fragmenter (hr_facade h') = rf_fragmenter (hr_facade h)"
      "hr_last_published h' = None"
    using run by (auto simp: rotate_to_reserved_epoch_def facade_request_idr_def split: sum.splits)
  have "generator_ok (hr_identities h)" using inv by (simp add: host_inv_def)
  from rotate_to_step [OF this g] h' inv show ?thesis by (simp add: host_advances_def host_inv_def)
qed

lemma host_step_advances:
  assumes inv: "host_inv h" and run: "host_step send e (h, k) = (a, h', k')"
  shows "host_advances h a h'"
proof (cases e)
  case (Capture c au idr now)
  then show ?thesis using run on_capture_advances [OF inv] by (auto split: prod.splits)
next
  case (RotateTo ep now)
  then show ?thesis
    using run rotate_advances [OF inv] host_advances_idle [OF inv refl refl refl]
    by (auto split: sum.splits)
next
  case WantIdr
  then show ?thesis using run by (intro host_advances_idle [OF inv]) (auto simp: facade_request_idr_def)
next
  case (AppDecoded i)
  then show ?thesis using run
    by (intro host_advances_idle [OF inv]) (auto simp: mark_app_decoded_def Let_def split: prod.splits)
qed

lemma make_host_runtime_inv:
  assumes "make_host_runtime e now config = Inr h"
  shows "host_inv h" "make_fragmenter config = Inr (rf_fragmenter (hr_facade h))"
  using assms make_identity_generator_ok
  by (auto simp: make_host_runtime_def make_facade_def host_inv_def split: sum.splits)

definition same_fragmenter :: "host_runtime \<times> 'k \<Rightarrow> host_runtime \<times> 'k \<Rightarrow> bool" where
  "same_fragmenter s t \<longleftrightarrow> rf_fragmenter (hr_facade (fst s)) = rf_fragmenter (hr_facade (fst t))"

interpretation host: event_system
  "\<lambda>s. \<exists>e now config. make_host_runtime e now config = Inr (fst s)" "\<lambda>_. True"
  "\<lambda>e s. snd (host_step send e s)" "\<lambda>s. host_inv (fst s)" same_fragmenter
  for send :: "'k datagram_sink"
proof unfold_locales
  show "host_inv (fst (snd (host_step send e s)))" "same_fragmenter s (snd (host_step send e s))"
    if "host_inv (fst s)" for e and s :: "host_runtime \<times> 'k"
    using host_step_advances [OF that, of send e "snd s" "fst (host_step send e s)"
        "fst (snd (host_step send e s))" "snd (snd (host_step send e s))"]
    by (simp_all add: host_advances_def same_fragmenter_def)
qed (auto simp: same_fragmenter_def make_host_runtime_inv(1))

section \<open>Identities of published frames\<close>

lemma published_run:
  assumes "host_inv (fst s)"
  shows "sorted_wrt (\<lambda>i j. newer_than j i)
      (List.map_filter published_identity (fst (run_outputs (host_step send) es s))) \<and>
    (\<forall>key. issued_below key (hr_identities (fst s)) \<longrightarrow>
      list_all (\<lambda>i. key < frame_of i)
        (List.map_filter published_identity (fst (run_outputs (host_step send) es s))))"
  using assms
proof (induction es arbitrary: s)
  case Nil
  then show ?case by (simp add: List.map_filter_simps)
next
  case (Cons e es)
  obtain a h' k' where step: "host_step send e s = (a, h', k')" by (metis prod_cases3)
  have adv: "host_advances (fst s) a h'"
    using host_step_advances [OF Cons.prems, of send e "snd s"] step by simp
  have inv: "host_inv (fst (h', k'))" using adv by (simp add: host_advances_def)
  note ih = Cons.IH [OF inv]
  have run: "fst (run_outputs (host_step send) (e # es) s) =
      a # fst (run_outputs (host_step send) es (h', k'))"
    by (simp add: step case_prod_unfold Let_def)
  show ?case
  proof (cases "published_identity a")
    case None
    then show ?thesis using ih adv unfolding run by (simp add: List.map_filter_simps host_advances_def)
  next
    case (Some i)
    then show ?thesis using ih adv unfolding run
      by (simp add: List.map_filter_simps host_advances_def newer_than_iff list_all_iff del: split_paired_All)
  qed
qed

text \<open>
  Identities never repeat: over any sequence of captures, epoch rotations, IDR requests and
  decode confirmations on a new runtime, with any transport, the identities of the frames it
  reports as published are strictly increasing.
\<close>

theorem published_identities_increase:
  assumes "make_host_runtime e now config = Inr h"
  shows "sorted_wrt (\<lambda>i j. newer_than j i)
    (List.map_filter published_identity (fst (run_outputs (host_step send) es (h, k))))"
  using published_run [of "(h, k)" send es] make_host_runtime_inv(1) [OF assms] by simp

section \<open>From capture to delivery\<close>

lemma frame_published:
  assumes inv: "host_inv h" and run: "on_capture send Frame au idr now h k = (Inr r, h', k')"
    and code: "hc_code r = FramePublished"
  obtains ident ds where "hc_identity r = Some ident" "frame_identity_valid ident" "au \<noteq> []"
    "hr_last_published h' = Some ident"
    "datagram_fragment (rf_fragmenter (hr_facade h)) ident au = Inr ds"
    "fst (run_outputs send ds k) = replicate (length ds) (Some True)" "k' = snd (run_outputs send ds k)"
    "ss_blocker (hc_status r) = HostRunnable \<longleftrightarrow> \<not> facade_idr_requested (hr_facade h')"
proof -
  let ?h = "h\<lparr>hr_status := status_set_blocker PublishingFrame now (hr_status h)\<rparr>"
  have enc: "encode_and_publish send au idr now ?h k = (Inr r, h', k')"
    using run by (simp add: on_capture_def)
  have ne: "au \<noteq> []" "\<not> rotation_required (hr_identities h)"
    using enc code by (auto simp: encode_and_publish_def host_reply_def Let_def split: if_splits)
  then obtain ident g where g: "next_identity (hr_identities h) = Inr (ident, g)"
    by (auto simp: next_identity_def rotation_required_def)
  have "generator_ok (hr_identities h)" using inv by (simp add: host_inv_def)
  note valid = next_identity_step(2) [OF this g]
  obtain config where mk: "make_fragmenter config = Inr (rf_fragmenter (hr_facade h))"
    using inv by (auto simp: host_inv_def)
  obtain ds where ds: "datagram_fragment (rf_fragmenter (hr_facade h)) ident au = Inr ds"
    using enc ne g
    by (cases "datagram_fragment (rf_fragmenter (hr_facade h)) ident au")
       (auto simp: encode_and_publish_def publish_access_unit_def Let_def)
  obtain summary f' k1 where p: "publish_access_unit send ident idr au (hr_facade h) k = (Inr summary, f', k1)"
    "publish_complete summary \<longleftrightarrow> fst (run_outputs send ds k) = replicate (length ds) (Some True)"
    "publish_complete summary \<Longrightarrow> k1 = snd (run_outputs send ds k)"
    using publish_report [OF mk refl ds, where send = send and idr = idr and k = k] by metis
  have fin: "publish_complete summary" "hc_identity r = Some ident" "hr_last_published h' = Some ident" "k' = k1"
    "ss_blocker (hc_status r) = HostRunnable \<longleftrightarrow> \<not> facade_idr_requested (hr_facade h')"
    using enc code ne g p(1)
    by (auto simp: encode_and_publish_def host_reply_def status_snapshot_at_def set_blocker_marks Let_def
        split: if_splits)
  then show thesis using that [OF _ valid ne(1) _ ds] p by simp
qed

text \<open>
  C2. From capture to delivery: when a reachable host runtime answers a captured access unit with
  \<^verbatim>\<open>FramePublished\<close>, it handed the datagrams the fragmenter makes of that unit under the
  published identity, at least one, in order and nothing else, to the transport, which accepted
  every one; and a new receiver to which these datagrams arrive in any
  order, possibly several times, within one frame timeout, completes exactly this access unit on the
  last of them. The frame counts as runnable only if no IDR request is open.
\<close>

theorem captured_frame_delivered:
  assumes h0: "make_host_runtime e t config = Inr h0"
    and reach: "(h, k) = fold (\<lambda>ev s. snd (host_step send ev s)) es (h0, k0)"
    and run: "on_capture send Frame au idr now h k = (Inr r, h', k')" "hc_code r = FramePublished"
    and receiver: "make_core_reassembler rconfig = Inr r0" "length au \<le> rc_max_access_unit_bytes rconfig"
  shows "\<exists>ident ds. hc_identity r = Some ident \<and> hr_last_published h' = Some ident \<and>
    datagram_fragment (rf_fragmenter (hr_facade h)) ident au = Inr ds \<and> ds \<noteq> [] \<and>
    fst (run_outputs send ds k) = replicate (length ds) (Some True) \<and> k' = snd (run_outputs send ds k) \<and>
    (ss_blocker (hc_status r) = HostRunnable \<longleftrightarrow> \<not> facade_idr_requested (hr_facade h')) \<and>
    (\<forall>before j t0 last_at. j \<notin> fst ` set before \<longrightarrow> insert j (fst ` set before) = {0..<length ds} \<longrightarrow>
      list_all (\<lambda>(_, t). t0 \<le> t \<and> t < t0 + milliseconds (rc_frame_timeout rconfig)) (before @ [(j, last_at)]) \<longrightarrow>
      (\<exists>rs res. fst (run_outputs receive_datagram
          (map (\<lambda>(j, t). (ds ! j, t)) (before @ [(j, last_at)])) r0) = map Some (rs @ [res]) \<and>
        list_all (\<lambda>x. ir_code x \<in> {Accepted, IngestDuplicate}) rs \<and>
        ir_code res = Complete \<and> ir_access_unit res = au \<and> ir_requires_epoch_commit res))"
proof -
  have "host_inv (fst (fold (\<lambda>ev s. snd (host_step send ev s)) es (h0, k0)))"
    by (rule host.inv_run) (use h0 in \<open>auto simp: list_all_iff\<close>)
  then have inv: "host_inv h" unfolding reach [symmetric] by simp
  then obtain c where mk: "make_fragmenter c = Inr (rf_fragmenter (hr_facade h))"
    by (auto simp: host_inv_def)
  obtain ident ds where p: "hc_identity r = Some ident" "frame_identity_valid ident" "au \<noteq> []"
    "datagram_fragment (rf_fragmenter (hr_facade h)) ident au = Inr ds" "hr_last_published h' = Some ident"
    "fst (run_outputs send ds k) = replicate (length ds) (Some True)" "k' = snd (run_outputs send ds k)"
    "ss_blocker (hc_status r) = HostRunnable \<longleftrightarrow> \<not> facade_idr_requested (hr_facade h')"
    by (rule frame_published [OF inv run])
  note fits = fragment_count_range(5) [OF mk p(4)]
  have ne: "ds \<noteq> []"
    using datagram_fragment_slices [OF mk p(2,3) fits p(4)] by (auto simp: sliced_def)
  show ?thesis
    using p(1,4-8) ne core_end_to_end [OF mk receiver(1) p(2,3) fits receiver(2) p(4)]
    by (intro exI [of _ ident] exI [of _ ds] conjI allI impI) blast+
qed

section \<open>Open IDR requests\<close>

lemma want_idr [simp]: "facade_idr_requested (facade_request_idr f)"
  by (simp add: facade_idr_requested_def facade_request_idr_def tracker_request_idr_def)

text \<open>
  Every failed capture leaves an IDR request open: in any state, when a capture is answered with
  anything but a completely published frame, a wait for the first frame or the demand for a new
  epoch, the IDR request is open afterwards; and after an epoch rotation it is open, no frame counts
  as published, and a capture timeout sends nothing before the first frame of the new epoch.
\<close>

theorem failed_capture_keeps_request:
  "(case on_capture send c au idr now h k of
      (Inl err, h', k') \<Rightarrow> True
    | (Inr r, h', k') \<Rightarrow>
        hc_code r \<in> {FramePublished, WaitingFirstFrame, EpochRotationRequired} \<or>
        facade_idr_requested (hr_facade h')) \<and>
   (case rotate_to_reserved_epoch ep now h of
      Inl err \<Rightarrow> True
    | Inr h' \<Rightarrow>
        facade_idr_requested (hr_facade h') \<and> hr_last_published h' = None \<and>
        (case on_capture send WaitTimeout au idr now' h' k of (res, h'', k'') \<Rightarrow>
           k'' = k \<and> (\<exists>r. res = Inr r \<and> hc_code r = WaitingFirstFrame)))"
proof
  let ?kept = "\<lambda>(res, h', k'). case res of Inl err \<Rightarrow> True
    | Inr r \<Rightarrow> hc_code r \<in> {FramePublished, WaitingFirstFrame, EpochRotationRequired} \<or>
        facade_idr_requested (hr_facade h')"
  have enc: "?kept (encode_and_publish send au idr now g k)" for g
    by (auto simp: encode_and_publish_def host_reply_def Let_def split: sum.splits prod.splits)
  have rep: "?kept (send_repeat send now g k)" for g
    by (auto simp: send_repeat_def host_reply_def Let_def split: option.splits sum.splits prod.splits)
  have "?kept (on_capture send c au idr now h k)"
    using enc rep by (cases c) (simp_all add: on_capture_def host_reply_def Let_def)
  then show "case on_capture send c au idr now h k of
      (Inl err, h', k') \<Rightarrow> True
    | (Inr r, h', k') \<Rightarrow>
        hc_code r \<in> {FramePublished, WaitingFirstFrame, EpochRotationRequired} \<or>
        facade_idr_requested (hr_facade h')"
    by (auto split: prod.splits sum.splits)
  show "case rotate_to_reserved_epoch ep now h of
      Inl err \<Rightarrow> True
    | Inr h' \<Rightarrow>
        facade_idr_requested (hr_facade h') \<and> hr_last_published h' = None \<and>
        (case on_capture send WaitTimeout au idr now' h' k of (res, h'', k'') \<Rightarrow>
           k'' = k \<and> (\<exists>r. res = Inr r \<and> hc_code r = WaitingFirstFrame))"
    by (auto simp: rotate_to_reserved_epoch_def on_capture_def host_reply_def split: sum.splits)
qed

lemma next_identity_moves:
  assumes "next_identity g = Inr (ident, g')"
  shows "g' \<noteq> g"
proof
  assume eq: "g' = g"
  have "ig_rollover_before_next g' \<or> ig_sequence g' = ig_sequence g + 1" "\<not> ig_rollover_before_next g"
    using assms by (auto simp: next_identity_def split: if_splits)
  with eq show False by simp
qed

text \<open>
  An access unit above the limit escapes the books: in every reachable state with sequence
  numbers left, capturing a unit longer than the fragmenter's limit throws, consumes a frame identity, leaves the
  IDR request as it was and the pipeline status at \<^verbatim>\<open>PUBLISHING_FRAME\<close>.
\<close>

theorem oversized_unit_escapes:
  assumes h0: "make_host_runtime e t config = Inr h0"
    and reach: "(h, k) = fold (\<lambda>ev s. snd (host_step send ev s)) es (h0, k0)"
    and "\<not> rotation_required (hr_identities h)" "cfg_max_access_unit_bytes config < length au"
  shows "\<exists>h'. on_capture send Frame au idr now h k = (Inl Length_Error, h', k) \<and>
    hr_identities h' \<noteq> hr_identities h \<and> hr_facade h' = hr_facade h \<and>
    hs_blocker (hr_status h') = PublishingFrame"
proof -
  have inv: "host_inv (fst (fold (\<lambda>ev s. snd (host_step send ev s)) es (h0, k0)))"
    by (rule host.inv_run) (use h0 in \<open>auto simp: list_all_iff\<close>)
  have "same_fragmenter (h0, k0) (fold (\<lambda>ev s. snd (host_step send ev s)) es (h0, k0))"
    by (rule host.below_fold) (use make_host_runtime_inv(1) [OF h0] in \<open>auto simp: list_all_iff\<close>)
  moreover have "rf_fragmenter (hr_facade h0) = config"
    using make_host_runtime_inv(2) [OF h0] by (auto simp: make_fragmenter_def split: if_splits)
  ultimately have c: "rf_fragmenter (hr_facade h) = config"
    unfolding reach [symmetric] by (simp add: same_fragmenter_def)
  have ok: "generator_ok (hr_identities h)" using inv unfolding reach [symmetric] by (simp add: host_inv_def)
  obtain ident g where nxt: "next_identity (hr_identities h) = Inr (ident, g)"
    using assms(3) by (auto simp: next_identity_def rotation_required_def)
  note g = nxt next_identity_moves [OF nxt]
  note valid = next_identity_step(2) [OF ok g(1)]
  have "au \<noteq> []" using assms(4) by auto
  then have "datagram_fragment config ident au = Inl Length_Error"
    using valid assms(4) by (simp add: datagram_fragment_def)
  with g assms(3) \<open>au \<noteq> []\<close> c show ?thesis
    by (simp add: on_capture_def encode_and_publish_def publish_access_unit_def set_blocker_marks)
qed

text \<open>The default fragmentation settings build no runtime.\<close>

lemma default_runtime_refused:
  "make_host_runtime reserved_epoch now default_fragmentation_config = Inl Invalid_Argument"
  by (simp add: make_host_runtime_def make_identity_generator_def make_facade_def make_fragmenter_def
      default_fragmentation_config_def payload_capacity_def const_defs kMaxFragments_eq)

section \<open>Example runs\<close>

lemma capture_publishes:
  assumes inv: "host_inv h" and "\<not> rotation_required (hr_identities h)" "au \<noteq> []"
    and "length au \<le> cfg_max_access_unit_bytes (rf_fragmenter (hr_facade h))"
    and accepts: "\<And>d k. fst (send d k) = Some True"
  shows "\<exists>r h' k'. on_capture send Frame au idr now h k = (Inr r, h', k') \<and> hc_code r = FramePublished"
proof -
  obtain config where mk: "make_fragmenter config = Inr (rf_fragmenter (hr_facade h))"
    using inv by (auto simp: host_inv_def)
  obtain ident g where g: "next_identity (hr_identities h) = Inr (ident, g)"
    using assms(2) by (auto simp: next_identity_def rotation_required_def)
  have valid: "frame_identity_valid ident" using next_identity_step(2) [OF _ g] inv by (simp add: host_inv_def)
  obtain ds where ds: "datagram_fragment (rf_fragmenter (hr_facade h)) ident au = Inr ds"
    using datagram_fragment_eq(1) [OF mk valid assms(3,4)] by blast
  have "fst (run_outputs send ds k) = replicate (length ds) (Some True)"
    by (induction ds arbitrary: k) (simp_all add: accepts case_prod_unfold Let_def)
  then obtain summary f' k1 where "publish_access_unit send ident idr au (hr_facade h) k = (Inr summary, f', k1)"
    "publish_complete summary"
    using publish_report [OF mk refl ds, where send = send and idr = idr and k = k] by metis
  with g assms(2,3) show ?thesis
    by (simp add: on_capture_def encode_and_publish_def host_reply_def Let_def)
qed

text \<open>A transport that takes every datagram and remembers it.\<close>

definition recording_sink :: "bytes list datagram_sink" where
  "recording_sink d k = (Some True, k @ [d])"

definition example_host :: host_runtime where
  "example_host = \<lparr>hr_status = status_set_blocker WaitingCompleteIdrPublish 0 (new_host_status 0),
     hr_identities = \<lparr>ig_epoch = 3, ig_sequence = 0, ig_rollover_before_next = False\<rparr>,
     hr_facade = \<lparr>rf_fragmenter = small_config, rf_idr_tracker = new_idr_tracker\<rparr>, hr_last_published = None\<rparr>"

lemma example_host_make: "make_host_runtime 3 0 small_config = Inr example_host"
  by (simp add: make_host_runtime_def make_identity_generator_def make_facade_def make_fragmenter_def
      small_config_def payload_capacity_def const_defs kMaxFragments_eq frame_identity_valid_def
      kMaxStreamEpoch_def example_host_def)

lemma example_host_ready:
  "\<not> rotation_required (hr_identities example_host)" "rf_fragmenter (hr_facade example_host) = small_config"
  by (simp_all add: example_host_def rotation_required_def)

theorem published_identities_increase_witness:
  "sorted_wrt (\<lambda>i j. newer_than j i) (List.map_filter published_identity (fst (run_outputs
     (host_step recording_sink) [Capture Frame [1, 2, 3] True 5, RotateTo 4 6, Capture Frame [4] True 7]
     (example_host, []))))"
  by (rule published_identities_increase [OF example_host_make])

lemma recording_sink_records: "run_outputs recording_sink ds k = (replicate (length ds) (Some True), k @ ds)"
  by (induction ds arbitrary: k) (simp_all add: recording_sink_def)

lemma datagram_loop_length: "datagram_loop config ident au n ks = Inr ds \<Longrightarrow> length ds = length ks"
  by (induction ks arbitrary: ds) (auto split: sum.splits)

lemma example_fragment_count:
  assumes "datagram_fragment small_config ident [1, 2, 3] = Inr ds"
  shows "length ds = 2"
proof -
  have "payload_capacity small_config = 2"
    by (simp add: small_config_def payload_capacity_def kWireHeaderSize_def)
  then have "datagram_loop small_config ident [1, 2, 3] (of_nat 2) [0..<Suc (Suc 0)] = Inr ds"
    using assms by (simp add: datagram_fragment_def Let_def del: upt_Suc split: if_splits)
  then show ?thesis using datagram_loop_length by fastforce
qed

theorem captured_frame_delivered_witness:
  "\<exists>ident ds r h'. on_capture recording_sink Frame [1, 2, 3] True 5 example_host [] = (Inr r, h', ds) \<and>
     hc_code r = FramePublished \<and> hc_identity r = Some ident \<and>
     datagram_fragment small_config ident [1, 2, 3] = Inr ds \<and> length ds = 2 \<and>
     (\<exists>rs res. fst (run_outputs receive_datagram [(ds ! 1, 0), (ds ! 1, 5), (ds ! 0, 10)] sample_start) =
          map Some (rs @ [res]) \<and>
        ir_code res = Complete \<and> ir_access_unit res = [1, 2, 3])"
proof -
  have "\<exists>r h' k'. on_capture recording_sink Frame [1, 2, 3] True 5 example_host [] = (Inr r, h', k') \<and>
      hc_code r = FramePublished"
    by (rule capture_publishes [OF make_host_runtime_inv(1) [OF example_host_make]])
       (simp_all add: example_host_ready small_config_def recording_sink_def)
  then obtain r h' k' where run: "on_capture recording_sink Frame [1, 2, 3] True 5 example_host [] = (Inr r, h', k')"
    "hc_code r = FramePublished" by blast
  have start: "(example_host, []) =
      fold (\<lambda>ev s. snd (host_step recording_sink ev s)) [] (example_host, [])" by simp
  have "length [1, 2, 3 :: u8] \<le> rc_max_access_unit_bytes default_reassembly_config"
    by (simp add: default_reassembly_config_def)
  from captured_frame_delivered [OF example_host_make start run sample_make this]
  obtain ident ds where id: "hc_identity r = Some ident"
    and "datagram_fragment (rf_fragmenter (hr_facade example_host)) ident [1, 2, 3] = Inr ds"
    and "k' = snd (run_outputs recording_sink ds [])"
    and deliver: "\<forall>before j t0 last_at. j \<notin> fst ` set before \<longrightarrow> insert j (fst ` set before) = {0..<length ds} \<longrightarrow>
      list_all (\<lambda>(_, t). t0 \<le> t \<and> t < t0 + milliseconds (rc_frame_timeout default_reassembly_config))
        (before @ [(j, last_at)]) \<longrightarrow>
      (\<exists>rs res. fst (run_outputs receive_datagram
          (map (\<lambda>(j, t). (ds ! j, t)) (before @ [(j, last_at)])) sample_start) = map Some (rs @ [res]) \<and>
        list_all (\<lambda>x. ir_code x \<in> {Accepted, IngestDuplicate}) rs \<and>
        ir_code res = Complete \<and> ir_access_unit res = [1, 2, 3] \<and> ir_requires_epoch_commit res)"
    by (elim exE conjE)
  then have ds: "datagram_fragment small_config ident [1, 2, 3] = Inr ds" and k': "k' = ds"
    by (simp_all add: example_host_ready(2) recording_sink_records)
  note len = example_fragment_count [OF ds]
  have "insert 0 (fst ` set [(1, 0), (1, 5)]) = {0..<length ds}" by (auto simp: len)
  then show ?thesis
    using run id ds k' len deliver [rule_format, of 0 "[(1, 0), (1, 5)]" 0 10]
    by (auto simp: default_reassembly_config_def milliseconds_def)
qed

theorem oversized_unit_escapes_witness:
  "\<exists>h'. on_capture recording_sink Frame (replicate 9 0) True 5 example_host [] = (Inl Length_Error, h', []) \<and>
     hs_blocker (hr_status h') = PublishingFrame"
proof -
  have start: "(example_host, []) =
      fold (\<lambda>ev s. snd (host_step recording_sink ev s)) [] (example_host, [])" by simp
  have "cfg_max_access_unit_bytes small_config < length (replicate 9 (0 :: u8))" by (simp add: small_config_def)
  from oversized_unit_escapes [OF example_host_make start example_host_ready(1) this] show ?thesis by blast
qed

end
