(* ===== verification/Desktop_Mapper.thy ===== *)
theory Desktop_Mapper
  imports Core_Wire "HOL-Library.Signed_Division"
begin

text \<open>
  Coordinates of the host's virtual desktop: the capture region of \<^verbatim>\<open>e2e_core/src/host_pipeline.cpp\<close>
  and \<^verbatim>\<open>e2e_core/src/host/domain/virtual_desktop_mapper.cpp\<close>. A \<^verbatim>\<open>std::int32_t\<close> is an integer; the
  arithmetic the code promotes to 64 bits is exact (\<open>mapper_fits_int64\<close> bounds every intermediate
  value), and each narrowing \<^verbatim>\<open>static_cast\<close> is written out: \<open>i32\<close> keeps the low 32 bits as a signed
  number, \<open>of_int\<close> to a 16-bit word the low 16. C++ division truncates: it is \<open>sdiv\<close>.
\<close>

definition i32 :: "int \<Rightarrow> int" where
  "i32 x = signed_take_bit 31 x"

definition in_int32 :: "int \<Rightarrow> bool" where
  "in_int32 x \<longleftrightarrow> - (2 ^ 31) \<le> x \<and> x < 2 ^ 31"

lemma i32_id [simp]: "in_int32 x \<Longrightarrow> i32 x = x"
  by (simp add: i32_def in_int32_def signed_take_bit_int_eq_self)

section \<open>Regions and points\<close>

record desktop_bounds =
  db_left :: int
  db_top :: int
  db_width :: int
  db_height :: int

record capture_region =
  cg_left :: int
  cg_top :: int
  cg_width :: int
  cg_height :: int

definition valid_within :: "desktop_bounds \<Rightarrow> capture_region \<Rightarrow> bool" where
  "valid_within desktop r =
     (if cg_width r \<le> 0 \<or> cg_height r \<le> 0 \<or> db_width desktop \<le> 0 \<or> db_height desktop \<le> 0 then False
      else
        let right = cg_left r + cg_width r; bottom = cg_top r + cg_height r;
            desktop_right = db_left desktop + db_width desktop;
            desktop_bottom = db_top desktop + db_height desktop
        in db_left desktop \<le> cg_left r \<and> db_top desktop \<le> cg_top r \<and> right \<le> desktop_right \<and>
           bottom \<le> desktop_bottom \<and> cg_left r < right \<and> cg_top r < bottom)"

record desktop_point =
  dp_x :: int
  dp_y :: int

record normalized_point =
  np_x :: u16
  np_y :: u16

record rendered_viewport =
  rv_left :: int
  rv_top :: int
  rv_width :: int
  rv_height :: int

section \<open>The mapper\<close>

definition kNormalizedMax :: int where "kNormalizedMax = 65535"

definition point_in_rect :: "desktop_point \<Rightarrow> int \<Rightarrow> int \<Rightarrow> int \<Rightarrow> int \<Rightarrow> bool" where
  "point_in_rect point left upper width height =
     (if width \<le> 0 \<or> height \<le> 0 then False
      else
        let right = left + width; bottom = upper + height
        in left \<le> dp_x point \<and> upper \<le> dp_y point \<and> dp_x point < right \<and> dp_y point < bottom)"

definition normalize_axis :: "int \<Rightarrow> int \<Rightarrow> int \<Rightarrow> u16" where
  "normalize_axis v origin len =
     (if len \<le> 1 then 0
      else
        let offset = v - origin; numerator = offset * kNormalizedMax + (len - 1) sdiv 2
        in of_int (numerator sdiv (len - 1)))"

definition denormalize_axis :: "u16 \<Rightarrow> int \<Rightarrow> int \<Rightarrow> int" where
  "denormalize_axis v origin len =
     (if len \<le> 1 then origin
      else
        let numerator = uint v * (len - 1) + kNormalizedMax sdiv 2
        in i32 (origin + numerator sdiv kNormalizedMax))"

definition map_axis :: "int \<Rightarrow> int \<Rightarrow> int \<Rightarrow> int \<Rightarrow> int \<Rightarrow> int" where
  "map_axis v view_origin view_length capture_origin capture_length =
     (if view_length \<le> 1 \<or> capture_length \<le> 1 then capture_origin
      else
        let offset = v - view_origin;
            numerator = offset * (capture_length - 1) + (view_length - 1) sdiv 2
        in i32 (capture_origin + numerator sdiv (view_length - 1)))"

text \<open>The constructor: the mapper is its desktop, once that is accepted.\<close>

definition make_mapper :: "desktop_bounds \<Rightarrow> core_error + desktop_bounds" where
  "make_mapper desktop =
     (if db_width desktop \<le> 0 \<or> db_height desktop \<le> 0 then Inl Invalid_Argument else Inr desktop)"

definition normalize :: "desktop_bounds \<Rightarrow> desktop_point \<Rightarrow> normalized_point option" where
  "normalize desktop point =
     (if \<not> point_in_rect point (db_left desktop) (db_top desktop) (db_width desktop) (db_height desktop)
      then None
      else Some \<lparr>np_x = normalize_axis (dp_x point) (db_left desktop) (db_width desktop),
                 np_y = normalize_axis (dp_y point) (db_top desktop) (db_height desktop)\<rparr>)"

definition denormalize :: "desktop_bounds \<Rightarrow> normalized_point \<Rightarrow> desktop_point" where
  "denormalize desktop point =
     \<lparr>dp_x = denormalize_axis (np_x point) (db_left desktop) (db_width desktop),
      dp_y = denormalize_axis (np_y point) (db_top desktop) (db_height desktop)\<rparr>"

definition viewport_to_desktop ::
  "desktop_bounds \<Rightarrow> desktop_point \<Rightarrow> rendered_viewport \<Rightarrow> capture_region \<Rightarrow> desktop_point option" where
  "viewport_to_desktop desktop app_point video region =
     (if \<not> valid_within desktop region \<or>
         \<not> point_in_rect app_point (rv_left video) (rv_top video) (rv_width video) (rv_height video)
      then None
      else
        let mapped = \<lparr>dp_x = map_axis (dp_x app_point) (rv_left video) (rv_width video)
                        (cg_left region) (cg_width region),
                      dp_y = map_axis (dp_y app_point) (rv_top video) (rv_height video)
                        (cg_top region) (cg_height region)\<rparr>
        in if \<not> point_in_rect mapped (cg_left region) (cg_top region) (cg_width region) (cg_height region)
           then None else Some mapped)"

section \<open>Rounding\<close>

lemma sdiv_nonneg: "0 \<le> a \<Longrightarrow> 0 < b \<Longrightarrow> a sdiv b = a div b" for a b :: int
  by (cases "a = 0") (simp_all add: signed_divide_int_def)

text \<open>A position \<open>a\<close> of \<open>0..n\<close>, carried to \<open>0..m\<close> with rounding, stays in range.\<close>

lemma scaled_range:
  fixes a m n :: int
  assumes "0 \<le> a" "a \<le> n" "0 < n" "0 \<le> m"
  shows "0 \<le> (a * m + n div 2) div n" "(a * m + n div 2) div n \<le> m"
proof -
  have "0 \<le> a * m" using assms by simp
  then show "0 \<le> (a * m + n div 2) div n" using assms by (simp add: pos_imp_zdiv_nonneg_iff)
  have "a * m \<le> n * m" using assms by (simp add: mult_right_mono)
  then have "(a * m + n div 2) div n \<le> (n div 2 + n * m) div n" using assms(3) by (intro zdiv_mono1) auto
  also have "\<dots> = m" using assms(3) by (simp add: div_pos_pos_trivial)
  finally show "(a * m + n div 2) div n \<le> m" .
qed

lemma scale_back:
  fixes a n :: int
  assumes "0 \<le> a" "0 < n" "n \<le> 65535"
  shows "((a * 65535 + n div 2) div n * n + 32767) div 65535 = a"
proof -
  define q where "q = (a * 65535 + n div 2) div n"
  have "q * n + (a * 65535 + n div 2) mod n = a * 65535 + n div 2" by (simp add: q_def)
  moreover have "0 \<le> (a * 65535 + n div 2) mod n" "(a * 65535 + n div 2) mod n < n"
    using assms(2) by simp_all
  ultimately have lo: "a * 65535 \<le> q * n + 32767" and hi: "q * n + 32767 < a * 65535 + 65535"
    using assms(3) by linarith+
  have "(q * n + 32767) div 65535 = a" using lo hi by (intro int_div_pos_eq [where r = "q * n + 32767 - 65535 * a"]) auto
  then show ?thesis by (simp add: q_def)
qed

lemma normalize_axis_value:
  assumes "origin \<le> v" "v < origin + len"
  shows "uint (normalize_axis v origin len) =
    (if len = 1 then 0 else ((v - origin) * 65535 + (len - 1) div 2) div (len - 1))"
proof (cases "len = 1")
  case False
  then have n: "0 < len - 1" "0 \<le> v - origin" "v - origin \<le> len - 1" using assms by simp_all
  have "take_bit 16 (((v - origin) * 65535 + (len - 1) div 2) div (len - 1)) =
      ((v - origin) * 65535 + (len - 1) div 2) div (len - 1)"
    using scaled_range [OF n(2,3,1), of 65535] by (intro take_bit_int_eq_self) simp_all
  then show ?thesis
    using n scaled_range(1) [OF n(2,3,1), of 65535]
    by (simp add: normalize_axis_def kNormalizedMax_def Let_def sdiv_nonneg unsigned_of_int)
qed (simp add: normalize_axis_def)

lemma axis_round_trip:
  assumes "origin \<le> v" "v < origin + len" "len \<le> 65536" "in_int32 v"
  shows "denormalize_axis (normalize_axis v origin len) origin len = v"
proof (cases "len = 1")
  case True
  then show ?thesis using assms(1,2) by (simp add: denormalize_axis_def)
next
  case False
  let ?n = "len - 1"
  have n: "0 < ?n" "?n \<le> 65535" "0 \<le> v - origin" "v - origin \<le> ?n" using assms False by simp_all
  have "0 \<le> ((v - origin) * 65535 + ?n div 2) div ?n * ?n + 32767"
    using scaled_range(1) [OF n(3,4,1), of 65535] n(1) by simp
  then show ?thesis
    using normalize_axis_value [OF assms(1,2)] scale_back [OF n(3,1,2)] n(1) False assms(4)
    by (simp add: denormalize_axis_def kNormalizedMax_def Let_def sdiv_nonneg)
qed

text \<open>
  Normalized coordinates round trip: on a desktop of at most 65536 pixels per axis, negative
  origins included, every desktop point inside the bounds is mapped to absolute coordinates that
  map back to exactly that point, and a point outside is refused.
\<close>

theorem normalize_round_trip:
  assumes "make_mapper d = Inr m" "db_width d \<le> 65536" "db_height d \<le> 65536"
    and "in_int32 (dp_x p)" "in_int32 (dp_y p)"
  shows "(case normalize m p of
      None \<Rightarrow> \<not> point_in_rect p (db_left d) (db_top d) (db_width d) (db_height d)
    | Some q \<Rightarrow> denormalize m q = p)"
proof -
  have m: "m = d" using assms(1) by (simp add: make_mapper_def split: if_splits)
  show ?thesis
  proof (cases "point_in_rect p (db_left d) (db_top d) (db_width d) (db_height d)")
    case True
    then have "db_left d \<le> dp_x p" "dp_x p < db_left d + db_width d" "db_top d \<le> dp_y p"
      "dp_y p < db_top d + db_height d"
      by (auto simp: point_in_rect_def Let_def split: if_splits)
    with True assms(2-5) show ?thesis
      by (simp add: m normalize_def denormalize_def axis_round_trip)
  qed (simp add: m normalize_def)
qed

theorem normalize_round_trip_witness:
  "case normalize \<lparr>db_left = -1920, db_top = 0, db_width = 3840, db_height = 1080\<rparr> \<lparr>dp_x = -7, dp_y = 33\<rparr> of
     None \<Rightarrow> False
   | Some q \<Rightarrow> denormalize \<lparr>db_left = -1920, db_top = 0, db_width = 3840, db_height = 1080\<rparr> q =
       \<lparr>dp_x = -7, dp_y = 33\<rparr>"
proof -
  let ?d = "\<lparr>db_left = -1920, db_top = 0, db_width = 3840, db_height = 1080\<rparr> :: desktop_bounds"
  let ?p = "\<lparr>dp_x = -7, dp_y = 33\<rparr> :: desktop_point"
  have "make_mapper ?d = Inr ?d" by (simp add: make_mapper_def)
  from normalize_round_trip [OF this, of ?p] show ?thesis
    by (simp add: in_int32_def point_in_rect_def split: option.splits)
qed

section \<open>From the viewport to the desktop\<close>

lemma map_axis_range:
  assumes "view_origin \<le> v" "v < view_origin + view_length" "0 < capture_length"
    and "in_int32 capture_origin" "capture_origin + capture_length \<le> 2 ^ 31"
  shows "capture_origin \<le> map_axis v view_origin view_length capture_origin capture_length"
    "map_axis v view_origin view_length capture_origin capture_length < capture_origin + capture_length"
proof -
  let ?x = "((v - view_origin) * (capture_length - 1) + (view_length - 1) div 2) div (view_length - 1)"
  have "capture_origin \<le> map_axis v view_origin view_length capture_origin capture_length \<and>
    map_axis v view_origin view_length capture_origin capture_length < capture_origin + capture_length"
  proof (cases "view_length \<le> 1 \<or> capture_length \<le> 1")
    case True
    then show ?thesis using assms(3) by (auto simp: map_axis_def)
  next
    case False
    then have n: "0 \<le> v - view_origin" "v - view_origin \<le> view_length - 1" "0 < view_length - 1"
      "0 \<le> capture_length - 1" using assms by simp_all
    note range = scaled_range [OF n]
    have "in_int32 (capture_origin + ?x)" using range assms(4,5) by (simp add: in_int32_def)
    moreover have "0 \<le> (v - view_origin) * (capture_length - 1) + (view_length - 1) div 2" using n by simp
    ultimately show ?thesis
      using False range n(3) by (simp add: map_axis_def Let_def sdiv_nonneg)
  qed
  then show "capture_origin \<le> map_axis v view_origin view_length capture_origin capture_length"
    "map_axis v view_origin view_length capture_origin capture_length < capture_origin + capture_length"
    by blast+
qed

text \<open>
  A touch in the rendered video lands in the captured region: for a capture region whose pixels
  have 32-bit coordinates, the mapping answers exactly when the region lies within the desktop and
  the point within the rendered video, and its answer is a pixel of the region, and so of the desktop.
\<close>

theorem viewport_lands_in_region:
  assumes "in_int32 (cg_left g)" "in_int32 (cg_top g)"
    and "cg_left g + cg_width g \<le> 2 ^ 31" "cg_top g + cg_height g \<le> 2 ^ 31"
  shows "(case viewport_to_desktop d p v g of
      None \<Rightarrow> \<not> (valid_within d g \<and> point_in_rect p (rv_left v) (rv_top v) (rv_width v) (rv_height v))
    | Some q \<Rightarrow> valid_within d g \<and> point_in_rect p (rv_left v) (rv_top v) (rv_width v) (rv_height v) \<and>
        point_in_rect q (cg_left g) (cg_top g) (cg_width g) (cg_height g) \<and>
        point_in_rect q (db_left d) (db_top d) (db_width d) (db_height d))"
proof (cases "valid_within d g \<and> point_in_rect p (rv_left v) (rv_top v) (rv_width v) (rv_height v)")
  case True
  let ?q = "\<lparr>dp_x = map_axis (dp_x p) (rv_left v) (rv_width v) (cg_left g) (cg_width g),
    dp_y = map_axis (dp_y p) (rv_top v) (rv_height v) (cg_top g) (cg_height g)\<rparr>"
  have g: "0 < cg_width g" "0 < cg_height g"
    using True by (auto simp: valid_within_def split: if_splits)
  have p: "rv_left v \<le> dp_x p" "dp_x p < rv_left v + rv_width v" "rv_top v \<le> dp_y p"
    "dp_y p < rv_top v + rv_height v"
    using True by (auto simp: point_in_rect_def Let_def split: if_splits)
  have q: "point_in_rect ?q (cg_left g) (cg_top g) (cg_width g) (cg_height g)"
    using map_axis_range [OF p(1,2) g(1) assms(1,3)] map_axis_range [OF p(3,4) g(2) assms(2,4)] g
    by (simp add: point_in_rect_def)
  moreover have "point_in_rect ?q (db_left d) (db_top d) (db_width d) (db_height d)"
    using q True by (auto simp: point_in_rect_def valid_within_def Let_def split: if_splits)
  ultimately show ?thesis using True by (simp add: viewport_to_desktop_def)
qed (auto simp: viewport_to_desktop_def)

theorem viewport_lands_in_region_witness:
  "\<exists>q. viewport_to_desktop \<lparr>db_left = -1920, db_top = 0, db_width = 3840, db_height = 1080\<rparr>
       \<lparr>dp_x = 100, dp_y = 50\<rparr> \<lparr>rv_left = 0, rv_top = 20, rv_width = 640, rv_height = 640\<rparr>
       \<lparr>cg_left = -320, cg_top = 220, cg_width = 640, cg_height = 640\<rparr> = Some q \<and>
     point_in_rect q (-320) 220 640 640"
proof -
  let ?d = "\<lparr>db_left = -1920, db_top = 0, db_width = 3840, db_height = 1080\<rparr> :: desktop_bounds"
  let ?g = "\<lparr>cg_left = -320, cg_top = 220, cg_width = 640, cg_height = 640\<rparr> :: capture_region"
  from viewport_lands_in_region [of ?g ?d "\<lparr>dp_x = 100, dp_y = 50\<rparr>"
      "\<lparr>rv_left = 0, rv_top = 20, rv_width = 640, rv_height = 640\<rparr>"]
  show ?thesis
    by (auto simp: in_int32_def valid_within_def point_in_rect_def split: option.splits)
qed

section \<open>No 64-bit overflow\<close>

lemma mapper_fits_int64:
  assumes "0 \<le> a" "a < 2 ^ 31" "0 \<le> b" "b < 2 ^ 31" "in_int32 origin" "0 \<le> c" "c < 2 ^ 31"
  shows "a * 65535 + c < (2 :: int) ^ 63" "a * b + c < (2 :: int) ^ 63" "\<bar>origin + a\<bar> < 2 ^ 63"
proof -
  have "a * b \<le> 2 ^ 31 * 2 ^ 31" using assms by (intro mult_mono) simp_all
  then show "a * 65535 + c < (2 :: int) ^ 63" "a * b + c < (2 :: int) ^ 63" "\<bar>origin + a\<bar> < 2 ^ 63"
    using assms by (simp_all add: in_int32_def abs_less_iff)
qed

end
