(* ===== verification/Handshake_Transcript.thy ===== *)
theory Handshake_Transcript
  imports Wire_Codec
begin

text \<open>
  The canonical transcript of the authenticated peer handshake
  (\<^verbatim>\<open>shared/include/vfdual/authenticated_peer_handshake_v1.hpp\<close> and the first half of
  \<^verbatim>\<open>shared/src/authenticated_peer_handshake_v1.cpp\<close>): the eighteen values both long-term identities
  sign, their validation, the strict TLV encoding and its parser, and the calls into the platform's
  hash provider and point validator.

  The provider (BCrypt) is a parameter: a record \<open>platform\<close> of functions giving, for each call
  sequence of the code, the statuses and outputs the provider answers with. What the code does with
  those answers is modelled; that the digest is SHA-256 is never needed here. Memory allocation is
  taken to succeed. Shown: the parser accepts exactly the encodings of valid transcripts, the
  538-byte limit is exact, the version grammar is what the loop accepts, and a transcript's bytes
  determine every one of its fields.
\<close>

section \<open>Constants\<close>

definition kAuthenticatedPeerHandshakeVersion :: u32 where "kAuthenticatedPeerHandshakeVersion = 1"
definition kPeerHandshakeSha256Bytes :: nat where "kPeerHandshakeSha256Bytes = 32"
definition kPeerHandshakeP256PublicKeyBytes :: nat where "kPeerHandshakeP256PublicKeyBytes = 65"
definition kPeerHandshakeNonceBytes :: nat where "kPeerHandshakeNonceBytes = 32"
definition kPeerHandshakeMaximumPairIdBytes :: nat where "kPeerHandshakeMaximumPairIdBytes = 64"
definition kPeerHandshakeMaximumRuntimeVersionBytes :: nat where
  "kPeerHandshakeMaximumRuntimeVersionBytes = 32"
definition kPeerHandshakeFieldCount :: nat where "kPeerHandshakeFieldCount = 18"
definition kPeerHandshakeMaximumCanonicalBytes :: nat where
  "kPeerHandshakeMaximumCanonicalBytes = 538"
definition kAuthenticatedPeerHandshakeDomain :: string where
  "kAuthenticatedPeerHandshakeDomain = ''visionforge-peer-handshake-v1''"
definition kNoFieldTag :: u8 where "kNoFieldTag = 0xFF"
definition kTlvHeaderBytes :: nat where "kTlvHeaderBytes = 5"
definition kUlongMaximum :: nat where "kUlongMaximum = 0xFFFFFFFF"

text \<open>\<^verbatim>\<open>std::numeric_limits<std::size_t>::max()\<close>, the mark of a variable-length field.\<close>

definition kSizeMaximum :: nat where "kSizeMaximum = 0xFFFFFFFFFFFFFFFF"

lemmas handshake_consts [const_defs] =
  kAuthenticatedPeerHandshakeVersion_def kPeerHandshakeSha256Bytes_def
  kPeerHandshakeP256PublicKeyBytes_def kPeerHandshakeNonceBytes_def
  kPeerHandshakeMaximumPairIdBytes_def kPeerHandshakeMaximumRuntimeVersionBytes_def
  kPeerHandshakeFieldCount_def kPeerHandshakeMaximumCanonicalBytes_def kNoFieldTag_def
  kTlvHeaderBytes_def kUlongMaximum_def kSizeMaximum_def

section \<open>Data\<close>

text \<open>
  The scoped enumerations have an underlying byte, and the code checks for values outside the
  enumerators; \<open>...Other\<close> holds such a value.
\<close>

datatype peer_handshake_role = HostRole | AndroidRole | RoleOther u8

datatype peer_handshake_transport_kind = TransportCat6 | TransportWlan | TransportOther u8

datatype pair_id_requirement =
  AllowEmptyBeforeActivation | RequireBoundPair | RequirementOther u8

datatype native_status_domain = NativeNone | BcryptNtstatus

datatype peer_handshake_error_code =
    PhNone | PhAllocationFailed | PhTranscriptTooLarge | PhTruncatedTlv | PhUnknownTag
  | PhDuplicateTag | PhOutOfOrderTag | PhMissingField | PhInvalidFieldLength | PhInvalidDomain
  | PhUnsupportedProtocolVersion | PhInvalidIdentityBinding | PhInvalidEphemeralPublicKey
  | PhInvalidNonce | PhInvalidConnectionId | PhInvalidSessionGeneration | PhInvalidTransportKind
  | PhInvalidEndpoint | PhInvalidPairId | PhInvalidRuntimeVersion | PhInvalidPairIdRequirement
  | PhInvalidRole | PhPairBindingRequired | PhEphemeralKeyConsumed | PhLocalEphemeralKeyMismatch
  | PhPendingConfirmationClosed | PhLocalFinishedNotGenerated | PhPeerFinishedFailed
  | PhPlatformCryptoUnavailable | PhCryptoProviderFailed | PhCryptoOperationFailed
  | PhHkdfOutputTooLarge

record peer_handshake_error =
  err_code :: peer_handshake_error_code
  err_native_domain :: native_status_domain
  err_native_status :: u32
  err_field_tag :: u8
  err_operation :: string

definition has_error :: "peer_handshake_error \<Rightarrow> bool" where
  "has_error e \<longleftrightarrow> err_code e \<noteq> PhNone"

text \<open>\<^verbatim>\<open>return {}\<close>: the default-constructed error.\<close>

definition no_error :: peer_handshake_error where
  "no_error = \<lparr>err_code = PhNone, err_native_domain = NativeNone, err_native_status = 0,
     err_field_tag = 0xFF, err_operation = ''''\<rparr>"

definition protocol_error :: "peer_handshake_error_code \<Rightarrow> string \<Rightarrow> u8 \<Rightarrow> peer_handshake_error" where
  "protocol_error code operation field_tag =
     \<lparr>err_code = code, err_native_domain = NativeNone, err_native_status = 0,
      err_field_tag = field_tag, err_operation = operation\<rparr>"

definition bcrypt_error ::
  "peer_handshake_error_code \<Rightarrow> u32 \<Rightarrow> string \<Rightarrow> u8 \<Rightarrow> peer_handshake_error" where
  "bcrypt_error code status operation field_tag =
     \<lparr>err_code = code, err_native_domain = BcryptNtstatus, err_native_status = status,
      err_field_tag = field_tag, err_operation = operation\<rparr>"

text \<open>An \<^verbatim>\<open>NTSTATUS\<close> is a signed 32-bit integer; success is a non-negative one.\<close>

definition bcrypt_succeeded :: "u32 \<Rightarrow> bool" where
  "bcrypt_succeeded status \<longleftrightarrow> 0 \<le> sint status"

record peer_handshake_transcript_fields =
  tf_domain :: string
  tf_protocol_version :: u32
  tf_host_identity_spki_sha256 :: bytes
  tf_android_identity_spki_sha256 :: bytes
  tf_host_ephemeral_public_key :: bytes
  tf_android_ephemeral_public_key :: bytes
  tf_host_nonce :: bytes
  tf_android_nonce :: bytes
  tf_connection_id :: u64
  tf_session_generation :: u64
  tf_transport_kind :: peer_handshake_transport_kind
  tf_host_ipv4 :: bytes
  tf_android_ipv4 :: bytes
  tf_video_port :: u16
  tf_control_port :: u16
  tf_pair_id :: string
  tf_host_runtime_version :: string
  tf_android_runtime_version :: string

text \<open>The sizes the C++ array types of the fields fix.\<close>

definition fields_typed :: "peer_handshake_transcript_fields \<Rightarrow> bool" where
  "fields_typed f \<longleftrightarrow>
     length (tf_host_identity_spki_sha256 f) = kPeerHandshakeSha256Bytes \<and>
     length (tf_android_identity_spki_sha256 f) = kPeerHandshakeSha256Bytes \<and>
     length (tf_host_ephemeral_public_key f) = kPeerHandshakeP256PublicKeyBytes \<and>
     length (tf_android_ephemeral_public_key f) = kPeerHandshakeP256PublicKeyBytes \<and>
     length (tf_host_nonce f) = kPeerHandshakeNonceBytes \<and>
     length (tf_android_nonce f) = kPeerHandshakeNonceBytes \<and>
     length (tf_host_ipv4 f) = 4 \<and> length (tf_android_ipv4 f) = 4"

record canonical_transcript =
  ctr_fields :: peer_handshake_transcript_fields
  ctr_canonical_bytes :: bytes
  ctr_transcript_sha256 :: bytes

section \<open>The provider\<close>

text \<open>What BCrypt answers to the seven calls of one digest computation.\<close>

record hash_run =
  hr_open :: u32
  hr_object_status :: u32
  hr_object_copied :: u32
  hr_object_bytes :: u32
  hr_length_status :: u32
  hr_length_copied :: u32
  hr_hash_bytes :: u32
  hr_create :: u32
  hr_hash_data :: u32
  hr_finish :: u32
  hr_digest :: bytes

text \<open>The answers to opening the P-256 provider and importing a public point.\<close>

record point_run =
  pr_open :: u32
  pr_import :: u32

text \<open>
  The answers to one key agreement: importing the peer's point into the provider of the local key,
  the agreement itself, and the export of the raw secret with the number of bytes written. Private
  keys stay inside the provider and are known by a handle.
\<close>

record agreement_run =
  ar_import :: u32
  ar_agree :: u32
  ar_derive :: u32
  ar_written :: u32
  ar_secret :: bytes

text \<open>
  \<open>pl_win32\<close> is the preprocessor condition \<^verbatim>\<open>_WIN32\<close>: without it every cryptographic call of the
  file answers \<^verbatim>\<open>platform_crypto_unavailable\<close>. The answers are functions of the call's input: the
  digests and the point check are deterministic operations, so a call repeated on the same bytes is
  answered alike. A provider that fails on one call and not on the next with the same input, and a
  failed allocation, are outside the model.
\<close>

record platform =
  pl_win32 :: bool
  pl_sha256 :: "bytes \<Rightarrow> hash_run"
  pl_hmac :: "bytes \<Rightarrow> bytes \<Rightarrow> hash_run"
  pl_point :: "bytes \<Rightarrow> point_run"
  pl_ecdh :: "nat \<Rightarrow> bytes \<Rightarrow> agreement_run"

text \<open>The common body of \<^verbatim>\<open>sha256_bytes\<close> and \<^verbatim>\<open>hmac_sha256_bytes\<close> after their size checks.\<close>

definition run_digest :: "hash_run \<Rightarrow> string \<Rightarrow> peer_handshake_error + bytes" where
  "run_digest r operation =
     (if \<not> bcrypt_succeeded (hr_open r)
      then Inl (bcrypt_error PhCryptoProviderFailed (hr_open r) operation kNoFieldTag)
      else if \<not> bcrypt_succeeded (hr_object_status r) \<or> hr_object_copied r \<noteq> 4 \<or>
              hr_object_bytes r = 0
      then Inl (bcrypt_error PhCryptoProviderFailed (hr_object_status r) operation kNoFieldTag)
      else if \<not> bcrypt_succeeded (hr_length_status r) \<or> hr_length_copied r \<noteq> 4 \<or>
              unat (hr_hash_bytes r) \<noteq> kPeerHandshakeSha256Bytes
      then Inl (bcrypt_error PhCryptoProviderFailed (hr_length_status r) operation kNoFieldTag)
      else if \<not> bcrypt_succeeded (hr_create r)
      then Inl (bcrypt_error PhCryptoOperationFailed (hr_create r) operation kNoFieldTag)
      else if \<not> bcrypt_succeeded (hr_hash_data r)
      then Inl (bcrypt_error PhCryptoOperationFailed (hr_hash_data r) operation kNoFieldTag)
      else if \<not> bcrypt_succeeded (hr_finish r)
      then Inl (bcrypt_error PhCryptoOperationFailed (hr_finish r) operation kNoFieldTag)
      else Inr (hr_digest r))"

definition sha256_bytes :: "platform \<Rightarrow> bytes \<Rightarrow> string \<Rightarrow> peer_handshake_error + bytes" where
  "sha256_bytes p input operation =
     (if \<not> pl_win32 p then Inl (protocol_error PhPlatformCryptoUnavailable operation kNoFieldTag)
      else if length input > kUlongMaximum
      then Inl (protocol_error PhCryptoOperationFailed operation kNoFieldTag)
      else run_digest (pl_sha256 p input) operation)"

definition hmac_sha256_bytes ::
  "platform \<Rightarrow> bytes \<Rightarrow> bytes \<Rightarrow> string \<Rightarrow> peer_handshake_error + bytes" where
  "hmac_sha256_bytes p key input operation =
     (if \<not> pl_win32 p then Inl (protocol_error PhPlatformCryptoUnavailable operation kNoFieldTag)
      else if length key > kUlongMaximum \<or> length input > kUlongMaximum
      then Inl (protocol_error PhCryptoOperationFailed operation kNoFieldTag)
      else run_digest (pl_hmac p key input) operation)"

section \<open>Validation\<close>

definition contains_nonzero :: "bytes \<Rightarrow> bool" where
  "contains_nonzero bs \<longleftrightarrow> list_ex (\<lambda>b. b \<noteq> 0) bs"

definition within :: "char \<Rightarrow> char \<Rightarrow> char \<Rightarrow> bool" where
  "within low high c \<longleftrightarrow>
     (of_char low :: nat) \<le> of_char c \<and> (of_char c :: nat) \<le> of_char high"

definition pair_id_character_valid :: "char \<Rightarrow> bool" where
  "pair_id_character_valid c \<longleftrightarrow>
     within (CHR ''A'') (CHR ''Z'') c \<or> within (CHR ''a'') (CHR ''z'') c \<or>
     within (CHR ''0'') (CHR ''9'') c \<or> c = CHR ''.'' \<or> c = CHR ''_'' \<or> c = CHR '':'' \<or>
     c = CHR ''-''"

function semver_loop :: "string \<Rightarrow> nat \<Rightarrow> nat \<Rightarrow> nat \<Rightarrow> bool" where
  "semver_loop v index component_start components =
     (if index > length v then components = 3
      else if index \<noteq> length v \<and> v ! index \<noteq> CHR ''.''
      then (if \<not> within (CHR ''0'') (CHR ''9'') (v ! index) then False
            else semver_loop v (index + 1) component_start components)
      else (let component_size = index - component_start in
        if component_size = 0 then False
        else if component_size > 1 \<and> v ! component_start = CHR ''0'' then False
        else semver_loop v (index + 1) (index + 1) (components + 1)))"
  by pat_completeness auto
termination by (relation "measure (\<lambda>(v, i, _). Suc (length v) - i)") auto

definition stable_semver_valid :: "string \<Rightarrow> bool" where
  "stable_semver_valid v =
     (if v = [] \<or> length v > kPeerHandshakeMaximumRuntimeVersionBytes then False
      else semver_loop v 0 0 0)"

fun pair_requirement_valid :: "pair_id_requirement \<Rightarrow> bool" where
  "pair_requirement_valid AllowEmptyBeforeActivation = True"
| "pair_requirement_valid RequireBoundPair = True"
| "pair_requirement_valid (RequirementOther _) = False"

definition validate_sec1_p256_public_key :: "platform \<Rightarrow> bytes \<Rightarrow> u8 \<Rightarrow> peer_handshake_error" where
  "validate_sec1_p256_public_key p key field_tag =
     (if hd key \<noteq> 0x04
      then protocol_error PhInvalidEphemeralPublicKey ''validate_sec1_uncompressed_prefix'' field_tag
      else if \<not> pl_win32 p
      then protocol_error PhPlatformCryptoUnavailable ''validate_p256_curve_point'' field_tag
      else if \<not> bcrypt_succeeded (pr_open (pl_point p (tl key)))
      then bcrypt_error PhCryptoProviderFailed (pr_open (pl_point p (tl key)))
             ''open_p256_point_validator'' field_tag
      else if \<not> bcrypt_succeeded (pr_import (pl_point p (tl key)))
      then protocol_error PhInvalidEphemeralPublicKey ''validate_p256_curve_point'' field_tag
      else no_error)"

fun transport_kind_valid :: "peer_handshake_transport_kind \<Rightarrow> bool" where
  "transport_kind_valid (TransportOther _) = False"
| "transport_kind_valid _ = True"

definition validate_transcript_fields ::
  "platform \<Rightarrow> peer_handshake_transcript_fields \<Rightarrow> pair_id_requirement \<Rightarrow> peer_handshake_error" where
  "validate_transcript_fields p f req =
     (if \<not> pair_requirement_valid req
      then protocol_error PhInvalidPairIdRequirement ''validate_pair_id_requirement'' kNoFieldTag
      else if tf_domain f \<noteq> kAuthenticatedPeerHandshakeDomain
      then protocol_error PhInvalidDomain ''validate_handshake_domain'' 0
      else if tf_protocol_version f \<noteq> kAuthenticatedPeerHandshakeVersion
      then protocol_error PhUnsupportedProtocolVersion ''validate_protocol_version'' 1
      else if \<not> contains_nonzero (tf_host_identity_spki_sha256 f)
      then protocol_error PhInvalidIdentityBinding ''reject_zero_host_identity_fingerprint'' 2
      else if \<not> contains_nonzero (tf_android_identity_spki_sha256 f)
      then protocol_error PhInvalidIdentityBinding ''reject_zero_android_identity_fingerprint'' 3
      else if tf_host_identity_spki_sha256 f = tf_android_identity_spki_sha256 f
      then protocol_error PhInvalidIdentityBinding ''reject_reflected_identity_fingerprint'' 3
      else
        let host_key = validate_sec1_p256_public_key p (tf_host_ephemeral_public_key f) 4;
            android_key = validate_sec1_p256_public_key p (tf_android_ephemeral_public_key f) 5 in
        if has_error host_key then host_key
        else if has_error android_key then android_key
        else if tf_host_ephemeral_public_key f = tf_android_ephemeral_public_key f
        then protocol_error PhInvalidEphemeralPublicKey ''reject_reflected_ephemeral_public_key'' 5
        else if \<not> contains_nonzero (tf_host_nonce f)
        then protocol_error PhInvalidNonce ''validate_host_nonce'' 6
        else if \<not> contains_nonzero (tf_android_nonce f)
        then protocol_error PhInvalidNonce ''validate_android_nonce'' 7
        else if tf_host_nonce f = tf_android_nonce f
        then protocol_error PhInvalidNonce ''reject_reflected_nonce'' 7
        else if tf_connection_id f = 0
        then protocol_error PhInvalidConnectionId ''validate_connection_id'' 8
        else if tf_session_generation f = 0
        then protocol_error PhInvalidSessionGeneration ''validate_session_generation'' 9
        else if \<not> transport_kind_valid (tf_transport_kind f)
        then protocol_error PhInvalidTransportKind ''validate_transport_kind'' 10
        else if tf_video_port f = 0 \<or> tf_control_port f = 0 \<or> tf_video_port f = tf_control_port f
        then protocol_error PhInvalidEndpoint ''validate_distinct_nonzero_ports'' 13
        else if length (tf_pair_id f) > kPeerHandshakeMaximumPairIdBytes \<or>
                \<not> list_all pair_id_character_valid (tf_pair_id f) \<or>
                (req = RequireBoundPair \<and> tf_pair_id f = [])
        then protocol_error PhInvalidPairId ''validate_pair_id'' 15
        else if \<not> stable_semver_valid (tf_host_runtime_version f)
        then protocol_error PhInvalidRuntimeVersion ''validate_host_runtime_version'' 16
        else if \<not> stable_semver_valid (tf_android_runtime_version f)
        then protocol_error PhInvalidRuntimeVersion ''validate_android_runtime_version'' 17
        else no_error)"

section \<open>Encoding\<close>

definition append_u16_be :: "bytes \<Rightarrow> u16 \<Rightarrow> bytes" where
  "append_u16_be out v = out @ [ucast (drop_bit 8 v)] @ [ucast v]"

fun append_shifts :: "bytes \<Rightarrow> 'a::len word \<Rightarrow> nat list \<Rightarrow> bytes" where
  "append_shifts out v [] = out"
| "append_shifts out v (shift # shifts) =
     append_shifts (out @ [ucast (drop_bit shift v)]) v shifts"

definition append_u32_be :: "bytes \<Rightarrow> u32 \<Rightarrow> bytes" where
  "append_u32_be out v = append_shifts out v [24, 16, 8, 0]"

definition append_u64_be :: "bytes \<Rightarrow> u64 \<Rightarrow> bytes" where
  "append_u64_be out v = append_shifts out v [56, 48, 40, 32, 24, 16, 8, 0]"

definition append_tlv :: "bytes \<Rightarrow> u8 \<Rightarrow> bytes \<Rightarrow> bytes" where
  "append_tlv out tag val = append_u32_be (out @ [tag]) (of_nat (length val)) @ val"

definition string_bytes :: "string \<Rightarrow> bytes" where
  "string_bytes s = map of_char s"

fun transport_kind_byte :: "peer_handshake_transport_kind \<Rightarrow> u8" where
  "transport_kind_byte TransportCat6 = 1"
| "transport_kind_byte TransportWlan = 2"
| "transport_kind_byte (TransportOther b) = b"

definition encode_transcript_fields :: "peer_handshake_transcript_fields \<Rightarrow> bytes" where
  "encode_transcript_fields f =
     (let out = append_tlv [] 0 (string_bytes (tf_domain f));
          out = append_tlv out 1 (append_u32_be [] (tf_protocol_version f));
          out = append_tlv out 2 (tf_host_identity_spki_sha256 f);
          out = append_tlv out 3 (tf_android_identity_spki_sha256 f);
          out = append_tlv out 4 (tf_host_ephemeral_public_key f);
          out = append_tlv out 5 (tf_android_ephemeral_public_key f);
          out = append_tlv out 6 (tf_host_nonce f);
          out = append_tlv out 7 (tf_android_nonce f);
          out = append_tlv out 8 (append_u64_be [] (tf_connection_id f));
          out = append_tlv out 9 (append_u64_be [] (tf_session_generation f));
          out = append_tlv out 10 [transport_kind_byte (tf_transport_kind f)];
          out = append_tlv out 11 (tf_host_ipv4 f);
          out = append_tlv out 12 (tf_android_ipv4 f);
          out = append_tlv out 13 (append_u16_be [] (tf_video_port f));
          out = append_tlv out 14 (append_u16_be [] (tf_control_port f));
          out = append_tlv out 15 (string_bytes (tf_pair_id f));
          out = append_tlv out 16 (string_bytes (tf_host_runtime_version f));
          out = append_tlv out 17 (string_bytes (tf_android_runtime_version f))
      in out)"

section \<open>Parsing\<close>

definition load_u16_be :: "bytes \<Rightarrow> u16" where
  "load_u16_be input = (push_bit 8 (ucast (input ! 0)) OR ucast (input ! 1))"

definition load_u32_be :: "bytes \<Rightarrow> u32" where
  "load_u32_be input = foldl (\<lambda>v b. push_bit 8 v OR ucast b) 0 input"

definition load_u64_be :: "bytes \<Rightarrow> u64" where
  "load_u64_be input = foldl (\<lambda>v b. push_bit 8 v OR ucast b) 0 input"

definition tlv_lengths :: "nat list" where
  "tlv_lengths = [length kAuthenticatedPeerHandshakeDomain, 4, 32, 32, 65, 65, 32, 32, 8, 8, 1, 4,
     4, 2, 2, kSizeMaximum, kSizeMaximum, kSizeMaximum]"

fun fixed_length_loop :: "bytes list \<Rightarrow> nat list \<Rightarrow> peer_handshake_error" where
  "fixed_length_loop values [] = no_error"
| "fixed_length_loop values (index # indices) =
     (if tlv_lengths ! index \<noteq> kSizeMaximum \<and> length (values ! index) \<noteq> tlv_lengths ! index
      then protocol_error PhInvalidFieldLength ''validate_fixed_tlv_length'' (of_nat index)
      else fixed_length_loop values indices)"

definition validate_tlv_lengths :: "bytes list \<Rightarrow> peer_handshake_error" where
  "validate_tlv_lengths values =
     (let fixed = fixed_length_loop values [0..<length tlv_lengths] in
      if has_error fixed then fixed
      else if length (values ! 15) > kPeerHandshakeMaximumPairIdBytes \<or>
              values ! 16 = [] \<or>
              length (values ! 16) > kPeerHandshakeMaximumRuntimeVersionBytes \<or>
              values ! 17 = [] \<or>
              length (values ! 17) > kPeerHandshakeMaximumRuntimeVersionBytes
      then protocol_error PhInvalidFieldLength ''validate_variable_tlv_length'' kNoFieldTag
      else no_error)"

definition bytes_string :: "bytes \<Rightarrow> string" where
  "bytes_string bs = map (\<lambda>b. char_of (unat b)) bs"

definition transport_kind_of_byte :: "u8 \<Rightarrow> peer_handshake_transport_kind" where
  "transport_kind_of_byte b =
     (if b = 1 then TransportCat6 else if b = 2 then TransportWlan else TransportOther b)"

text \<open>The loop over the TLVs: the values found so far, which tags were seen and the last one.\<close>

function tlv_loop ::
  "bytes \<Rightarrow> nat \<Rightarrow> bytes list \<Rightarrow> bool list \<Rightarrow> u8 option \<Rightarrow>
     peer_handshake_error + (bytes list \<times> bool list)" where
  "tlv_loop input offset values seen previous_tag =
     (if offset < length input then
        (if length input - offset < kTlvHeaderBytes
         then Inl (protocol_error PhTruncatedTlv ''parse_tlv_header'' kNoFieldTag)
         else
           let tag = input ! offset in
           if unat tag \<ge> kPeerHandshakeFieldCount
           then Inl (protocol_error PhUnknownTag ''reject_unknown_tlv_tag'' tag)
           else if seen ! unat tag
           then Inl (protocol_error PhDuplicateTag ''reject_duplicate_tlv_tag'' tag)
           else if previous_tag \<noteq> None \<and> tag < the previous_tag
           then Inl (protocol_error PhOutOfOrderTag ''reject_out_of_order_tlv_tag'' tag)
           else
             let encoded_length = load_u32_be (take 4 (drop (offset + 1) input));
                 remaining = length input - offset - kTlvHeaderBytes in
             if unat encoded_length > remaining
             then Inl (protocol_error PhTruncatedTlv ''parse_tlv_value'' tag)
             else tlv_loop input (offset + (kTlvHeaderBytes + unat encoded_length))
                    (values[unat tag :=
                       take (unat encoded_length) (drop (offset + kTlvHeaderBytes) input)])
                    (seen[unat tag := True]) (Some tag))
      else Inr (values, seen))"
  by pat_completeness auto
termination
  by (relation "measure (\<lambda>(input, offset, _). length input - offset)")
     (auto simp: kTlvHeaderBytes_def)

fun missing_loop :: "bool list \<Rightarrow> nat list \<Rightarrow> peer_handshake_error" where
  "missing_loop seen [] = no_error"
| "missing_loop seen (tag # tags) =
     (if \<not> seen ! tag
      then protocol_error PhMissingField ''reject_missing_tlv_field'' (of_nat tag)
      else missing_loop seen tags)"

definition fields_of_values :: "bytes list \<Rightarrow> peer_handshake_transcript_fields" where
  "fields_of_values values =
     \<lparr>tf_domain = bytes_string (values ! 0),
      tf_protocol_version = load_u32_be (values ! 1),
      tf_host_identity_spki_sha256 = values ! 2,
      tf_android_identity_spki_sha256 = values ! 3,
      tf_host_ephemeral_public_key = values ! 4,
      tf_android_ephemeral_public_key = values ! 5,
      tf_host_nonce = values ! 6,
      tf_android_nonce = values ! 7,
      tf_connection_id = load_u64_be (values ! 8),
      tf_session_generation = load_u64_be (values ! 9),
      tf_transport_kind = transport_kind_of_byte (hd (values ! 10)),
      tf_host_ipv4 = values ! 11,
      tf_android_ipv4 = values ! 12,
      tf_video_port = load_u16_be (values ! 13),
      tf_control_port = load_u16_be (values ! 14),
      tf_pair_id = bytes_string (values ! 15),
      tf_host_runtime_version = bytes_string (values ! 16),
      tf_android_runtime_version = bytes_string (values ! 17)\<rparr>"

definition build_canonical_peer_handshake_transcript_v1 ::
  "platform \<Rightarrow> peer_handshake_transcript_fields \<Rightarrow> pair_id_requirement \<Rightarrow>
     peer_handshake_error + canonical_transcript" where
  "build_canonical_peer_handshake_transcript_v1 p f req =
     (let error = validate_transcript_fields p f req in
      if has_error error then Inl error
      else
        let canonical = encode_transcript_fields f in
        if length canonical > kPeerHandshakeMaximumCanonicalBytes
        then Inl (protocol_error PhTranscriptTooLarge ''validate_encoded_transcript_size'' kNoFieldTag)
        else case sha256_bytes p canonical ''hash_canonical_peer_handshake_transcript'' of
            Inl error \<Rightarrow> Inl error
          | Inr digest \<Rightarrow> Inr \<lparr>ctr_fields = f, ctr_canonical_bytes = canonical,
              ctr_transcript_sha256 = digest\<rparr>)"

definition parse_canonical_peer_handshake_transcript_v1 ::
  "platform \<Rightarrow> bytes \<Rightarrow> pair_id_requirement \<Rightarrow> peer_handshake_error + canonical_transcript" where
  "parse_canonical_peer_handshake_transcript_v1 p input req =
     (if \<not> pair_requirement_valid req
      then Inl (protocol_error PhInvalidPairIdRequirement ''validate_pair_id_requirement'' kNoFieldTag)
      else if length input > kPeerHandshakeMaximumCanonicalBytes
      then Inl (protocol_error PhTranscriptTooLarge ''validate_received_transcript_size'' kNoFieldTag)
      else case tlv_loop input 0 (replicate kPeerHandshakeFieldCount [])
                  (replicate kPeerHandshakeFieldCount False) None of
          Inl error \<Rightarrow> Inl error
        | Inr (values, seen) \<Rightarrow>
            let missing = missing_loop seen [0..<length seen];
                lengths = validate_tlv_lengths values;
                f = fields_of_values values;
                invalid = validate_transcript_fields p f req in
            if has_error missing then Inl missing
            else if has_error lengths then Inl lengths
            else if has_error invalid then Inl invalid
            else if encode_transcript_fields f \<noteq> input
            then Inl (protocol_error PhOutOfOrderTag ''validate_canonical_reencoding'' kNoFieldTag)
            else (case sha256_bytes p input ''hash_received_canonical_peer_handshake_transcript'' of
                Inl error \<Rightarrow> Inl error
              | Inr digest \<Rightarrow> Inr \<lparr>ctr_fields = f, ctr_canonical_bytes = input,
                  ctr_transcript_sha256 = digest\<rparr>))"

section \<open>Bytes and strings\<close>

declare tlv_loop.simps [simp del] semver_loop.simps [simp del]

lemma append_shifts_eq: "append_shifts out v shifts = out @ map (\<lambda>s. ucast (drop_bit s v)) shifts"
  by (induction shifts arbitrary: out) simp_all

lemma append_u16_be_eq [codec_simps]: "append_u16_be out v = out @ be_bytes 2 v"
  by (simp add: append_u16_be_def be_bytes_def upt_rec)

lemma append_u32_be_eq [codec_simps]: "append_u32_be out v = out @ be_bytes 4 v"
  by (simp add: append_u32_be_def append_shifts_eq be_bytes_def upt_rec)

lemma append_u64_be_eq [codec_simps]: "append_u64_be out v = out @ be_bytes 8 v"
  by (simp add: append_u64_be_def append_shifts_eq be_bytes_def upt_rec)

lemma load_u32_be_eq [codec_simps]: "load_u32_be bs = be_value bs"
  by (simp add: load_u32_be_def be_value_def)

lemma load_u64_be_eq [codec_simps]: "load_u64_be bs = be_value bs"
  by (simp add: load_u64_be_def be_value_def)

lemma load_u16_be_eq [codec_simps]: "length bs = 2 \<Longrightarrow> load_u16_be bs = be_value bs"
  by (auto simp: load_u16_be_def be_value_def numeral_2_eq_2 length_Suc_conv)

lemma unat_of_char: "unat (of_char c :: u8) = of_char c"
proof -
  have "(of_char c :: u8) = of_nat (of_char c)" by (simp only: of_nat_of_char)
  moreover have "(of_char c :: nat) < 2 ^ LENGTH(8)" using nat_of_char_less_256 [of c] by simp
  ultimately show ?thesis by (metis unat_of_nat_small)
qed

lemma bytes_string_string_bytes [simp]: "bytes_string (string_bytes s) = s"
  by (induction s) (simp_all add: bytes_string_def string_bytes_def unat_of_char)

lemma of_char_char_of_unat: "(of_char (char_of (unat b)) :: u8) = b"
proof -
  have "(of_char (char_of (unat b)) :: u8) = of_nat (of_char (char_of (unat b)))"
    by (simp only: of_nat_of_char)
  also have "\<dots> = of_nat (unat b mod 256)" by (simp only: of_char_of)
  also have "unat b mod 256 = unat b" using unsigned_less [of b, where 'a=nat] by simp
  finally show ?thesis by simp
qed

lemma string_bytes_bytes_string [simp]: "string_bytes (bytes_string bs) = bs"
  by (induction bs) (simp_all add: bytes_string_def string_bytes_def of_char_char_of_unat)

lemma length_string_bytes [simp]: "length (string_bytes s) = length s"
  by (simp add: string_bytes_def)

lemma length_bytes_string [simp]: "length (bytes_string bs) = length bs"
  by (simp add: bytes_string_def)

lemma string_bytes_Nil [simp]: "string_bytes s = [] \<longleftrightarrow> s = []"
  by (simp add: string_bytes_def)

lemma transport_kind_byte_of_byte [simp]: "transport_kind_byte (transport_kind_of_byte b) = b"
  by (simp add: transport_kind_of_byte_def)

lemma transport_kind_of_byte_byte [simp]:
  "transport_kind_valid k \<Longrightarrow> transport_kind_of_byte (transport_kind_byte k) = k"
  by (cases k) (simp_all add: transport_kind_of_byte_def)

section \<open>The encoding as a list of values\<close>

text \<open>The values of the fields in tag order, and one TLV; the encoder concatenates them.\<close>

definition values_of_fields :: "peer_handshake_transcript_fields \<Rightarrow> bytes list" where
  "values_of_fields f =
     [string_bytes (tf_domain f), be_bytes 4 (tf_protocol_version f),
      tf_host_identity_spki_sha256 f, tf_android_identity_spki_sha256 f,
      tf_host_ephemeral_public_key f, tf_android_ephemeral_public_key f,
      tf_host_nonce f, tf_android_nonce f,
      be_bytes 8 (tf_connection_id f), be_bytes 8 (tf_session_generation f),
      [transport_kind_byte (tf_transport_kind f)], tf_host_ipv4 f, tf_android_ipv4 f,
      be_bytes 2 (tf_video_port f), be_bytes 2 (tf_control_port f),
      string_bytes (tf_pair_id f), string_bytes (tf_host_runtime_version f),
      string_bytes (tf_android_runtime_version f)]"

definition tlv :: "bytes list \<Rightarrow> nat \<Rightarrow> bytes" where
  "tlv vs k = of_nat k # be_bytes 4 (of_nat (length (vs ! k)) :: u32) @ vs ! k"

definition tlvs :: "bytes list \<Rightarrow> nat \<Rightarrow> nat \<Rightarrow> bytes" where
  "tlvs vs i j = concat (map (tlv vs) [i..<j])"

lemma append_tlv_eq:
  "append_tlv out tag v = out @ tag # be_bytes 4 (of_nat (length v) :: u32) @ v"
  by (simp add: append_tlv_def codec_simps)

lemma length_values_of_fields [simp]: "length (values_of_fields f) = 18"
  by (simp add: values_of_fields_def)

lemma encode_transcript_fields_eq:
  "encode_transcript_fields f = tlvs (values_of_fields f) 0 18"
  unfolding encode_transcript_fields_def Let_def append_tlv_eq tlvs_def tlv_def
    append_u16_be_eq append_u32_be_eq append_u64_be_eq values_of_fields_def
  by (simp add: upt_rec)

lemma length_tlv: "length (tlv vs k) = 5 + length (vs ! k)"
  by (simp add: tlv_def)

lemma length_tlvs: "length (tlvs vs i j) = (\<Sum>k\<leftarrow>[i..<j]. 5 + length (vs ! k))"
  by (simp add: tlvs_def length_concat comp_def length_tlv)

lemma tlvs_step: "i < j \<Longrightarrow> tlvs vs i j = tlv vs i @ tlvs vs (Suc i) j"
  by (simp add: tlvs_def upt_conv_Cons)

lemma length_tlvs_18: "length (tlvs vs 0 18) = 90 + (\<Sum>k\<leftarrow>[0..<18]. length (vs ! k))"
  by (simp add: length_tlvs upt_rec)

lemma length_encoding:
  "length (encode_transcript_fields f) =
     90 + length (tf_domain f) + 4 + length (tf_host_identity_spki_sha256 f) +
     length (tf_android_identity_spki_sha256 f) + length (tf_host_ephemeral_public_key f) +
     length (tf_android_ephemeral_public_key f) + length (tf_host_nonce f) +
     length (tf_android_nonce f) + 17 + length (tf_host_ipv4 f) + length (tf_android_ipv4 f) + 4 +
     length (tf_pair_id f) + length (tf_host_runtime_version f) +
     length (tf_android_runtime_version f)"
  unfolding encode_transcript_fields_eq length_tlvs_18
  by (simp add: values_of_fields_def upt_rec)

section \<open>The TLV loop\<close>

text \<open>One iteration on a well-formed TLV that continues the ascending sequence.\<close>

lemma tlv_loop_step:
  assumes input: "input = pre @ tlv vs k @ rest" and k: "k < 18"
    and len: "length (vs ! k) < 2 ^ 32" and unseen: "\<not> seen ! k"
    and order: "previous_tag = None \<or> (\<exists>t. previous_tag = Some t \<and> unat t < k)"
  shows "tlv_loop input (length pre) values seen previous_tag =
    tlv_loop input (length (pre @ tlv vs k)) (values[k := vs ! k]) (seen[k := True]) (Some (of_nat k))"
proof -
  have nth: "input ! length pre = of_nat k" by (simp add: input tlv_def)
  have tag: "unat (of_nat k :: u8) = k" by (rule unat_of_nat_small) (use k in simp)
  have enc: "load_u32_be (take 4 (drop (Suc (length pre)) input)) = of_nat (length (vs ! k))"
    by (simp add: input tlv_def codec_simps be_value_be_bytes)
  have ulen: "unat (of_nat (length (vs ! k)) :: u32) = length (vs ! k)"
    by (rule unat_of_nat_small) (use len in simp)
  have val: "take (length (vs ! k)) (drop (length pre + 5) input) = vs ! k"
    by (simp add: input tlv_def)
  have ord: "\<not> ((\<exists>y. previous_tag = Some y) \<and> (of_nat k :: u8) < the previous_tag)"
    using order by (auto simp: word_less_iff_unat tag)
  have bounds: "length pre < length input" "\<not> length input - length pre < 5"
    "\<not> length input - length pre - 5 < length (vs ! k)"
    by (simp_all add: input length_tlv)
  show ?thesis
    by (subst tlv_loop.simps)
       (use k bounds unseen ord in
         \<open>auto simp add: Let_def nth tag enc ulen val const_defs length_tlv\<close>)
qed

lemma tlvs_split: "k \<le> j \<Longrightarrow> tlvs vs 0 j = tlvs vs 0 k @ tlvs vs k j"
  using upt_add_eq_append [of 0 k "j - k"] by (simp add: tlvs_def)

lemma tlvs_snoc: "tlvs vs 0 (Suc k) = tlvs vs 0 k @ tlv vs k"
  by (simp add: tlvs_def)

text \<open>The loop reads back every value of an encoding, in order, and sees every tag.\<close>

lemma tlv_loop_encoding_from:
  assumes vs: "length vs = 18" and small: "\<And>k. k < 18 \<Longrightarrow> length (vs ! k) < 2 ^ 32"
    and k: "k \<le> 18"
  shows "tlv_loop (tlvs vs 0 18) (length (tlvs vs 0 k)) (take k vs @ replicate (18 - k) [])
    (replicate k True @ replicate (18 - k) False)
    (if k = 0 then None else Some (of_nat (k - 1))) = Inr (vs, replicate 18 True)"
  using k
proof (induction rule: inc_induct)
  case base
  then show ?case by (simp add: tlv_loop.simps vs)
next
  case (step k)
  have split: "tlvs vs 0 18 = tlvs vs 0 k @ tlv vs k @ tlvs vs (Suc k) 18"
    using tlvs_split [of k 18 vs] tlvs_step [of k 18 vs] step.hyps by simp
  have rep: "replicate (18 - k) x = x # replicate (18 - Suc k) x" for x :: 'c
    using step.hyps by (metis Suc_diff_Suc replicate_Suc)
  have unseen: "\<not> (replicate k True @ replicate (18 - k) False) ! k"
    by (simp add: rep nth_append)
  have upd: "(take k vs @ replicate (18 - k) [])[k := vs ! k] =
      take (Suc k) vs @ replicate (18 - Suc k) []"
    using step.hyps vs by (simp add: rep list_update_append take_Suc_conv_app_nth)
  have seen: "(replicate k True @ replicate (18 - k) False)[k := True] =
      replicate (Suc k) True @ replicate (18 - Suc k) False"
    by (simp add: rep list_update_append replicate_app_Cons_same)
  have order: "(if k = 0 then None else Some (of_nat (k - 1))) = None \<or>
      (\<exists>t :: u8. (if k = 0 then None else Some (of_nat (k - 1))) = Some t \<and> unat t < k)"
    using step.hyps unat_of_nat_small [of "k - 1", where 'a=8] by (cases k) auto
  from tlv_loop_step [OF split _ small unseen order] step.hyps
  have "tlv_loop (tlvs vs 0 18) (length (tlvs vs 0 k)) (take k vs @ replicate (18 - k) [])
    (replicate k True @ replicate (18 - k) False) (if k = 0 then None else Some (of_nat (k - 1))) =
    tlv_loop (tlvs vs 0 18) (length (tlvs vs 0 (Suc k))) (take (Suc k) vs @ replicate (18 - Suc k) [])
    (replicate (Suc k) True @ replicate (18 - Suc k) False) (Some (of_nat k))"
    by (simp add: upd seen tlvs_snoc)
  with step.IH show ?case by simp
qed

lemma tlv_loop_encoding:
  assumes "length vs = 18" and "\<And>k. k < 18 \<Longrightarrow> length (vs ! k) < 2 ^ 32"
  shows "tlv_loop (tlvs vs 0 18) 0 (replicate 18 []) (replicate 18 False) None =
    Inr (vs, replicate 18 True)"
  using tlv_loop_encoding_from [OF assms, of 0] by (simp add: tlvs_def)

text \<open>One successful iteration, read backwards.\<close>

lemma tlv_loop_SomeE:
  assumes "tlv_loop input offset values seen previous_tag = Inr r" and "offset < length input"
  obtains t v where "t < 18" "\<not> seen ! t"
    "\<And>u. previous_tag = Some u \<Longrightarrow> unat u \<le> t"
    "drop offset input = of_nat t # be_bytes 4 (of_nat (length v) :: u32) @ v @
       drop (offset + (5 + length v)) input"
    "tlv_loop input (offset + (5 + length v)) (values[t := v]) (seen[t := True]) (Some (of_nat t)) =
       Inr r"
proof -
  let ?tag = "input ! offset"
  let ?enc = "load_u32_be (take 4 (drop (offset + 1) input))"
  let ?v = "take (unat ?enc) (drop (offset + 5) input)"
  from assms have facts: "\<not> length input - offset < 5" "unat ?tag < 18" "\<not> seen ! unat ?tag"
    "\<not> (previous_tag \<noteq> None \<and> ?tag < the previous_tag)" "unat ?enc \<le> length input - offset - 5"
    "tlv_loop input (offset + (5 + unat ?enc)) (values[unat ?tag := ?v]) (seen[unat ?tag := True])
       (Some ?tag) = Inr r"
    by (subst (asm) tlv_loop.simps, simp add: Let_def const_defs split: if_splits)+
  have len: "length ?v = unat ?enc" using facts(5) by simp
  have four: "length (take 4 (drop (offset + 1) input)) = 4" using facts(1) by simp
  have enc: "be_bytes 4 ?enc = take 4 (drop (offset + 1) input)"
    using be_bytes_be_value [of "take 4 (drop (offset + 1) input)", where 'a=32] four
    by (simp add: codec_simps)
  have "drop offset input = ?tag # drop (offset + 1) input"
    using assms(2) by (simp add: Cons_nth_drop_Suc)
  also have "drop (offset + 1) input =
      take 4 (drop (offset + 1) input) @ drop (offset + 5) input"
    using append_take_drop_id [of 4 "drop (offset + 1) input"] by (simp add: add.commute)
  also have "drop (offset + 5) input = ?v @ drop (offset + (5 + unat ?enc)) input"
    using append_take_drop_id [of "unat ?enc" "drop (offset + 5) input"] by (simp add: ac_simps)
  finally have split: "drop offset input = ?tag # be_bytes 4 ?enc @ ?v @
      drop (offset + (5 + unat ?enc)) input"
    by (simp only: enc append.assoc append_Cons)
  show thesis
  proof (rule that [of "unat ?tag" ?v])
    show "unat u \<le> unat ?tag" if "previous_tag = Some u" for u
      using facts(4) that by (simp add: word_less_iff_unat)
    show "drop offset input = of_nat (unat ?tag) # be_bytes 4 (of_nat (length ?v) :: u32) @ ?v @
       drop (offset + (5 + length ?v)) input"
      unfolding len using split by simp
    show "tlv_loop input (offset + (5 + length ?v)) (values[unat ?tag := ?v])
        (seen[unat ?tag := True]) (Some (of_nat (unat ?tag))) = Inr r"
      unfolding len using facts(6) by simp
  qed (use facts in auto)
qed

lemma tlv_loop_end:
  "\<not> offset < length input \<Longrightarrow>
     tlv_loop input offset values seen previous_tag = Inr (values, seen)"
  by (simp add: tlv_loop.simps)

text \<open>Tags only ascend, so what a tag not above the last one holds is never changed.\<close>

lemma tlv_loop_keeps_lower:
  assumes "tlv_loop input offset values seen (Some t) = Inr (values', seen')"
    and "length seen = 18" and "length values = 18" and "seen ! unat t" and "unat t < 18"
  shows "length values' = 18 \<and> length seen' = 18 \<and>
    (\<forall>i \<le> unat t. seen' ! i = seen ! i \<and> values' ! i = values ! i)"
  using assms
proof (induction "length input - offset" arbitrary: offset "values" seen t rule: less_induct)
  case less
  show ?case
  proof (cases "offset < length input")
    case False
    with less.prems show ?thesis by (simp add: tlv_loop_end)
  next
    case True
    from less.prems(1) True obtain n v where n: "n < 18" "\<not> seen ! n" "unat t \<le> n"
      and rest: "tlv_loop input (offset + (5 + length v)) (values[n := v]) (seen[n := True])
        (Some (of_nat n)) = Inr (values', seen')"
      by (rule tlv_loop_SomeE) simp
    have un: "unat (of_nat n :: u8) = n" by (rule unat_of_nat_small) (use n in simp)
    have "unat t \<noteq> n" using n less.prems(4) by auto
    with n have lt: "unat t < n" by simp
    have "length values' = 18 \<and> length seen' = 18 \<and>
      (\<forall>i \<le> n. seen' ! i = seen[n := True] ! i \<and> values' ! i = values[n := v] ! i)"
      using less.hyps [OF _ rest] True less.prems n un by simp
    with lt show ?thesis by auto
  qed
qed

text \<open>
  The converse of reading an encoding back: once the loop ends with every tag seen, what it read
  from the point where the tags below \<open>k\<close> were behind it is exactly the TLVs \<open>k..17\<close> of the values
  it returns, one after the other and nothing else.
\<close>

lemma tlv_loop_complete:
  assumes "tlv_loop input offset values seen previous_tag = Inr (values', seen')"
    and "length seen = 18" and "length values = 18" and "k \<le> 18"
    and "previous_tag = (if k = 0 then None else Some (of_nat (k - 1)))"
    and "\<And>i. i < 18 \<Longrightarrow> seen ! i = (i < k)" and "\<And>i. i < 18 \<Longrightarrow> seen' ! i"
  shows "drop offset input = tlvs values' k 18 \<and> length values' = 18"
  using assms
proof (induction "18 - k" arbitrary: k offset "values" seen previous_tag)
  case 0
  then have k: "k = 18" by simp
  show ?case
  proof (cases "offset < length input")
    case True
    with "0.prems"(1) obtain n where "n < 18" "\<not> seen ! n" by (rule tlv_loop_SomeE)
    with "0.prems"(6) k show ?thesis by auto
  next
    case False
    with "0.prems"(1,3) k show ?thesis by (simp add: tlv_loop_end tlvs_def)
  qed
next
  case (Suc m)
  then have k: "k < 18" by simp
  have "offset < length input"
  proof (rule ccontr)
    assume "\<not> offset < length input"
    with Suc.prems(1) have "seen' = seen" by (simp add: tlv_loop_end)
    with Suc.prems(6,7) k show False by auto
  qed
  with Suc.prems(1) obtain n v where n: "n < 18" "\<not> seen ! n"
    and split: "drop offset input = of_nat n # be_bytes 4 (of_nat (length v) :: u32) @ v @
       drop (offset + (5 + length v)) input"
    and rest: "tlv_loop input (offset + (5 + length v)) (values[n := v]) (seen[n := True])
      (Some (of_nat n)) = Inr (values', seen')"
    by (rule tlv_loop_SomeE)
  have un: "unat (of_nat n :: u8) = n" by (rule unat_of_nat_small) (use n in simp)
  have low: "length values' = 18 \<and> length seen' = 18 \<and>
      (\<forall>i \<le> n. seen' ! i = seen[n := True] ! i \<and> values' ! i = values[n := v] ! i)"
    using tlv_loop_keeps_lower [OF rest] Suc.prems(2,3) n un by simp
  have "k \<le> n" using n Suc.prems(6) by auto
  have "n = k"
  proof (rule ccontr)
    assume "n \<noteq> k"
    with \<open>k \<le> n\<close> have "k < n" by simp
    with low have "seen' ! k = seen ! k" by simp
    with Suc.prems(6,7) k show False by auto
  qed
  have "drop (offset + (5 + length v)) input = tlvs values' (Suc k) 18 \<and> length values' = 18"
  proof (rule Suc.hyps(1) [OF _ rest])
    show "m = 18 - Suc k" using Suc.hyps(2) by simp
    show "seen[n := True] ! i = (i < Suc k)" if "i < 18" for i
      using that Suc.prems(2) Suc.prems(6) [OF that] \<open>n = k\<close> by (cases "i = k") auto
  qed (use Suc.prems \<open>n = k\<close> k in simp_all)
  moreover have "values' ! k = v" using low \<open>n = k\<close> k Suc.prems(3) by simp
  ultimately show ?case
    using split \<open>n = k\<close> k by (simp add: tlvs_step [of k] tlv_def)
qed

section \<open>Lengths and validity\<close>

lemma has_error_simps [simp]:
  "\<not> has_error no_error" "has_error (protocol_error c op t) \<longleftrightarrow> c \<noteq> PhNone"
  "has_error (bcrypt_error c st op t) \<longleftrightarrow> c \<noteq> PhNone"
  by (simp_all add: has_error_def no_error_def protocol_error_def bcrypt_error_def)

lemma fixed_length_loop_ok:
  "\<not> has_error (fixed_length_loop vs is) \<longleftrightarrow>
     (\<forall>i \<in> set is. tlv_lengths ! i = kSizeMaximum \<or> length (vs ! i) = tlv_lengths ! i)"
  by (induction "is") auto

lemma missing_loop_ok: "\<not> has_error (missing_loop seen ts) \<longleftrightarrow> (\<forall>t \<in> set ts. seen ! t)"
  by (induction ts) auto

lemma length_handshake_domain [simp]: "length kAuthenticatedPeerHandshakeDomain = 29"
  by (simp add: kAuthenticatedPeerHandshakeDomain_def)

lemma validate_tlv_lengths_ok:
  "\<not> has_error (validate_tlv_lengths vs) \<longleftrightarrow>
     length (vs ! 0) = 29 \<and> length (vs ! 1) = 4 \<and> length (vs ! 2) = 32 \<and> length (vs ! 3) = 32 \<and>
     length (vs ! 4) = 65 \<and> length (vs ! 5) = 65 \<and> length (vs ! 6) = 32 \<and> length (vs ! 7) = 32 \<and>
     length (vs ! 8) = 8 \<and> length (vs ! 9) = 8 \<and> length (vs ! 10) = 1 \<and> length (vs ! 11) = 4 \<and>
     length (vs ! 12) = 4 \<and> length (vs ! 13) = 2 \<and> length (vs ! 14) = 2 \<and>
     length (vs ! 15) \<le> 64 \<and> 0 < length (vs ! 16) \<and> length (vs ! 16) \<le> 32 \<and>
     0 < length (vs ! 17) \<and> length (vs ! 17) \<le> 32"
proof -
  have n: "[0..<length tlv_lengths] = [0,1,2,3,4,5,6,7,8,9,10,11,12,13,14,15,16,17]"
    by (simp add: tlv_lengths_def upt_rec)
  have "\<not> has_error (fixed_length_loop vs [0..<length tlv_lengths]) \<longleftrightarrow>
     length (vs ! 0) = 29 \<and> length (vs ! 1) = 4 \<and> length (vs ! 2) = 32 \<and> length (vs ! 3) = 32 \<and>
     length (vs ! 4) = 65 \<and> length (vs ! 5) = 65 \<and> length (vs ! 6) = 32 \<and> length (vs ! 7) = 32 \<and>
     length (vs ! 8) = 8 \<and> length (vs ! 9) = 8 \<and> length (vs ! 10) = 1 \<and> length (vs ! 11) = 4 \<and>
     length (vs ! 12) = 4 \<and> length (vs ! 13) = 2 \<and> length (vs ! 14) = 2"
    unfolding fixed_length_loop_ok n by (simp add: tlv_lengths_def kSizeMaximum_def)
  then show ?thesis
    by (auto simp: validate_tlv_lengths_def Let_def not_less const_defs)
qed

lemma list_18_eq:
  assumes "length vs = 18"
  shows "[vs!0, vs!1, vs!2, vs!3, vs!4, vs!5, vs!6, vs!7, vs!8, vs!9, vs!10, vs!11, vs!12, vs!13,
     vs!14, vs!15, vs!16, vs!17] = vs"
proof -
  have "[0..<18] = [0,1,2,3,4,5,6,7,8,9,10,11,12,13,14,15,16,17 :: nat]"
    by (simp add: upt_rec)
  with map_nth [of vs] assms show ?thesis by (simp only: list.map)
qed

lemma length_1_hd: "length xs = 1 \<Longrightarrow> [hd xs] = xs"
  by (cases xs) auto

text \<open>The values and the fields determine each other as soon as the lengths were checked.\<close>

lemma values_of_fields_of_values:
  assumes "length vs = 18" and "\<not> has_error (validate_tlv_lengths vs)"
  shows "values_of_fields (fields_of_values vs) = vs"
proof -
  note l = assms(2) [unfolded validate_tlv_lengths_ok]
  have "be_bytes 4 (be_value (vs ! 1) :: u32) = vs ! 1"
    "be_bytes 8 (be_value (vs ! 8) :: u64) = vs ! 8"
    "be_bytes 8 (be_value (vs ! 9) :: u64) = vs ! 9"
    "be_bytes 2 (be_value (vs ! 13) :: u16) = vs ! 13"
    "be_bytes 2 (be_value (vs ! 14) :: u16) = vs ! 14"
    using l be_bytes_be_value [of "vs ! 1", where 'a=32] be_bytes_be_value [of "vs ! 8", where 'a=64]
      be_bytes_be_value [of "vs ! 9", where 'a=64] be_bytes_be_value [of "vs ! 13", where 'a=16]
      be_bytes_be_value [of "vs ! 14", where 'a=16]
    by simp_all
  then show ?thesis
    unfolding values_of_fields_def fields_of_values_def
    using l list_18_eq [OF assms(1)] by (simp add: codec_simps length_1_hd)
qed

lemma fields_of_values_typed:
  "\<not> has_error (validate_tlv_lengths vs) \<Longrightarrow> fields_typed (fields_of_values vs)"
  by (simp add: validate_tlv_lengths_ok fields_typed_def fields_of_values_def const_defs)

lemma fields_of_values_of_fields:
  "transport_kind_valid (tf_transport_kind f) \<Longrightarrow> fields_of_values (values_of_fields f) = f"
  by (simp add: fields_of_values_def values_of_fields_def codec_simps be_value_be_bytes)

lemma stable_semver_lengths:
  "stable_semver_valid v \<Longrightarrow> 0 < length v \<and> length v \<le> 32"
  by (auto simp: stable_semver_valid_def const_defs split: if_splits)

text \<open>What a transcript that passes validation satisfies.\<close>

lemma validate_transcript_fields_ok:
  "\<not> has_error (validate_transcript_fields p f req) \<longleftrightarrow>
     pair_requirement_valid req \<and>
     tf_domain f = kAuthenticatedPeerHandshakeDomain \<and> tf_protocol_version f = 1 \<and>
     contains_nonzero (tf_host_identity_spki_sha256 f) \<and>
     contains_nonzero (tf_android_identity_spki_sha256 f) \<and>
     tf_host_identity_spki_sha256 f \<noteq> tf_android_identity_spki_sha256 f \<and>
     \<not> has_error (validate_sec1_p256_public_key p (tf_host_ephemeral_public_key f) 4) \<and>
     \<not> has_error (validate_sec1_p256_public_key p (tf_android_ephemeral_public_key f) 5) \<and>
     tf_host_ephemeral_public_key f \<noteq> tf_android_ephemeral_public_key f \<and>
     contains_nonzero (tf_host_nonce f) \<and> contains_nonzero (tf_android_nonce f) \<and>
     tf_host_nonce f \<noteq> tf_android_nonce f \<and>
     tf_connection_id f \<noteq> 0 \<and> tf_session_generation f \<noteq> 0 \<and>
     transport_kind_valid (tf_transport_kind f) \<and>
     tf_video_port f \<noteq> 0 \<and> tf_control_port f \<noteq> 0 \<and> tf_video_port f \<noteq> tf_control_port f \<and>
     length (tf_pair_id f) \<le> 64 \<and> list_all pair_id_character_valid (tf_pair_id f) \<and>
     (req = RequireBoundPair \<longrightarrow> tf_pair_id f \<noteq> []) \<and>
     stable_semver_valid (tf_host_runtime_version f) \<and>
     stable_semver_valid (tf_android_runtime_version f)"
  unfolding validate_transcript_fields_def Let_def
  by (auto simp: const_defs not_less)

lemma length_valid_encoding:
  assumes "fields_typed f" and "\<not> has_error (validate_transcript_fields p f req)"
  shows "length (encode_transcript_fields f) =
    410 + length (tf_pair_id f) + length (tf_host_runtime_version f) +
    length (tf_android_runtime_version f)"
  using assms
  by (simp add: length_encoding fields_typed_def validate_transcript_fields_ok const_defs)

lemma values_of_valid_fields_lengths:
  assumes "fields_typed f" and "\<not> has_error (validate_transcript_fields p f req)"
  shows "\<not> has_error (validate_tlv_lengths (values_of_fields f))"
proof -
  have "stable_semver_valid (tf_host_runtime_version f)"
    "stable_semver_valid (tf_android_runtime_version f)"
    using assms(2) by (simp_all add: validate_transcript_fields_ok)
  from this [THEN stable_semver_lengths] show ?thesis
    using assms
    by (simp add: validate_tlv_lengths_ok values_of_fields_def fields_typed_def
        validate_transcript_fields_ok const_defs)
qed

lemma small_values:
  assumes "\<not> has_error (validate_tlv_lengths vs)" and "length vs = 18" and "k < 18"
  shows "length (vs ! k) < 2 ^ 32"
proof -
  have "list_all (\<lambda>v. length v < 2 ^ 32) [vs!0, vs!1, vs!2, vs!3, vs!4, vs!5, vs!6, vs!7, vs!8,
      vs!9, vs!10, vs!11, vs!12, vs!13, vs!14, vs!15, vs!16, vs!17]"
    using assms(1) [unfolded validate_tlv_lengths_ok] by simp
  then have "list_all (\<lambda>v. length v < 2 ^ 32) vs" by (simp only: list_18_eq [OF assms(2)])
  with assms(2,3) show ?thesis by (simp add: list_all_length)
qed

section \<open>The parser accepts exactly the valid encodings\<close>

lemma sha256_bytes_label:
  "sha256_bytes p input op = Inr d \<Longrightarrow> sha256_bytes p input op' = Inr d"
  by (auto simp: sha256_bytes_def run_digest_def split: if_splits)

text \<open>The TLV loop followed by the completeness check, as one equation on what was read.\<close>

lemma tlv_loop_all_seen:
  assumes "tlv_loop input 0 (replicate 18 []) (replicate 18 False) None = Inr (vs, seen)"
    and "\<not> has_error (missing_loop seen [0..<length seen])"
  shows "input = tlvs vs 0 18 \<and> length vs = 18 \<or> length seen \<noteq> 18"
proof (cases "length seen = 18")
  case True
  then have "seen ! i" if "i < 18" for i
    using assms(2) that by (simp add: missing_loop_ok)
  with tlv_loop_complete [OF assms(1), of 0] show ?thesis by simp
qed simp

lemma tlv_loop_length_seen:
  "tlv_loop input offset values seen previous_tag = Inr (values', seen') \<Longrightarrow>
     length seen' = length seen"
proof (induction "length input - offset" arbitrary: offset "values" seen previous_tag
    rule: less_induct)
  case less
  show ?case
  proof (cases "offset < length input")
    case True
    with less.prems obtain n v where "tlv_loop input (offset + (5 + length v)) (values[n := v])
        (seen[n := True]) (Some (of_nat n)) = Inr (values', seen')"
      by (rule tlv_loop_SomeE)
    from less.hyps [OF _ this] True show ?thesis by simp
  qed (use less.prems in \<open>simp add: tlv_loop_end\<close>)
qed

lemma tlv_loop_accepts:
  assumes "tlv_loop input 0 (replicate 18 []) (replicate 18 False) None = Inr (vs, seen)"
    and "\<not> has_error (missing_loop seen [0..<length seen])"
  shows "input = tlvs vs 0 18" and "length vs = 18"
  using tlv_loop_all_seen [OF assms] tlv_loop_length_seen [OF assms(1)] by simp_all

text \<open>
  So the comparison with the re-encoded bytes at the end of the parser never fails: it is a second
  line of defence that the first checks already imply.
\<close>

lemma reencoding_agrees:
  assumes "tlv_loop input 0 (replicate 18 []) (replicate 18 False) None = Inr (vs, seen)"
    and "\<not> has_error (missing_loop seen [0..<length seen])"
    and "\<not> has_error (validate_tlv_lengths vs)"
  shows "encode_transcript_fields (fields_of_values vs) = input"
  using tlv_loop_accepts [OF assms(1,2)] values_of_fields_of_values assms(3)
  by (simp add: encode_transcript_fields_eq)

lemma parse_InrD:
  assumes "parse_canonical_peer_handshake_transcript_v1 p input req = Inr t"
  shows "fields_typed (ctr_fields t)" "\<not> has_error (validate_transcript_fields p (ctr_fields t) req)"
    "encode_transcript_fields (ctr_fields t) = input" "ctr_canonical_bytes t = input"
    "length input \<le> 538" "\<exists>op. sha256_bytes p input op = Inr (ctr_transcript_sha256 t)"
proof -
  from assms obtain vs seen d where
      "tlv_loop input 0 (replicate 18 []) (replicate 18 False) None = Inr (vs, seen)"
      "\<not> has_error (validate_tlv_lengths vs)" and f: "ctr_fields t = fields_of_values vs"
      and rest: "\<not> has_error (validate_transcript_fields p (fields_of_values vs) req)"
      "encode_transcript_fields (fields_of_values vs) = input" "ctr_canonical_bytes t = input"
      "length input \<le> 538"
      "sha256_bytes p input ''hash_received_canonical_peer_handshake_transcript'' =
         Inr (ctr_transcript_sha256 t)"
    unfolding parse_canonical_peer_handshake_transcript_v1_def Let_def kPeerHandshakeFieldCount_def
    by (auto simp: not_less kPeerHandshakeMaximumCanonicalBytes_def
        split: if_splits sum.splits prod.splits)
  then show "fields_typed (ctr_fields t)" by (simp add: fields_of_values_typed)
  show "\<not> has_error (validate_transcript_fields p (ctr_fields t) req)"
    "encode_transcript_fields (ctr_fields t) = input" "ctr_canonical_bytes t = input"
    "length input \<le> 538" "\<exists>op. sha256_bytes p input op = Inr (ctr_transcript_sha256 t)"
    using f rest by auto
qed

lemma valid_encoding_length:
  assumes "fields_typed f" and "\<not> has_error (validate_transcript_fields p f req)"
  shows "length (encode_transcript_fields f) \<le> 538"
  using length_valid_encoding [OF assms] assms(2)
    stable_semver_lengths [of "tf_host_runtime_version f"]
    stable_semver_lengths [of "tf_android_runtime_version f"]
  by (simp add: validate_transcript_fields_ok)

lemma build_iff:
  assumes "fields_typed f"
  shows "build_canonical_peer_handshake_transcript_v1 p f req = Inr t \<longleftrightarrow>
    \<not> has_error (validate_transcript_fields p f req) \<and> ctr_fields t = f \<and>
    ctr_canonical_bytes t = encode_transcript_fields f \<and>
    sha256_bytes p (encode_transcript_fields f) ''hash_canonical_peer_handshake_transcript'' =
      Inr (ctr_transcript_sha256 t)"
  using valid_encoding_length [OF assms, of p req]
  by (cases t)
     (auto simp: build_canonical_peer_handshake_transcript_v1_def Let_def
        kPeerHandshakeMaximumCanonicalBytes_def split: sum.splits)

lemma parse_encoding:
  assumes "fields_typed f" and "\<not> has_error (validate_transcript_fields p f req)"
    and "sha256_bytes p (encode_transcript_fields f) op = Inr d"
  shows "parse_canonical_peer_handshake_transcript_v1 p (encode_transcript_fields f) req =
    Inr \<lparr>ctr_fields = f, ctr_canonical_bytes = encode_transcript_fields f, ctr_transcript_sha256 = d\<rparr>"
proof -
  note lens = values_of_valid_fields_lengths [OF assms(1,2)]
  have loop: "tlv_loop (encode_transcript_fields f) 0 (replicate 18 []) (replicate 18 False) None =
      Inr (values_of_fields f, replicate 18 True)"
    unfolding encode_transcript_fields_eq
    by (rule tlv_loop_encoding) (use small_values [OF lens] in simp_all)
  have "\<not> has_error (missing_loop (replicate 18 True) [0..<18])"
    by (simp add: missing_loop_ok)
  moreover have "fields_of_values (values_of_fields f) = f"
    using assms(2) by (simp add: fields_of_values_of_fields validate_transcript_fields_ok)
  moreover have "pair_requirement_valid req"
    using assms(2) by (simp add: validate_transcript_fields_ok)
  moreover note valid_encoding_length [OF assms(1,2)] lens assms(2)
    sha256_bytes_label [OF assms(3), of "''hash_received_canonical_peer_handshake_transcript''"]
  ultimately show ?thesis
    unfolding parse_canonical_peer_handshake_transcript_v1_def Let_def kPeerHandshakeFieldCount_def
      kPeerHandshakeMaximumCanonicalBytes_def loop
    by simp
qed

text \<open>
  C16. The peer that receives the bytes reconstructs the very transcript the builder made, and accepts
  nothing but bytes some builder would make: parsing succeeds with a transcript exactly when
  building from that transcript's fields succeeds with it and its bytes are the input.
\<close>

theorem transcript_parse_iff_build:
  "parse_canonical_peer_handshake_transcript_v1 p input req = Inr t \<longleftrightarrow>
     fields_typed (ctr_fields t) \<and> ctr_canonical_bytes t = input \<and>
     build_canonical_peer_handshake_transcript_v1 p (ctr_fields t) req = Inr t"
proof
  assume "parse_canonical_peer_handshake_transcript_v1 p input req = Inr t"
  note d = parse_InrD [OF this]
  from d(6) obtain op where "sha256_bytes p input op = Inr (ctr_transcript_sha256 t)" by blast
  note sha256_bytes_label [OF this, of "''hash_canonical_peer_handshake_transcript''"]
  with d show "fields_typed (ctr_fields t) \<and> ctr_canonical_bytes t = input \<and>
      build_canonical_peer_handshake_transcript_v1 p (ctr_fields t) req = Inr t"
    by (simp add: build_iff)
next
  assume "fields_typed (ctr_fields t) \<and> ctr_canonical_bytes t = input \<and>
      build_canonical_peer_handshake_transcript_v1 p (ctr_fields t) req = Inr t"
  then have typed: "fields_typed (ctr_fields t)" and input: "ctr_canonical_bytes t = input"
    and b: "build_canonical_peer_handshake_transcript_v1 p (ctr_fields t) req = Inr t"
    by simp_all
  from b [unfolded build_iff [OF typed]] input
    parse_encoding [OF typed, of p req "''hash_canonical_peer_handshake_transcript''"]
  show "parse_canonical_peer_handshake_transcript_v1 p input req = Inr t" by simp
qed

section \<open>The version grammar\<close>

text \<open>The reference: three decimal numbers without leading zeros, separated by dots.\<close>

definition plain_number :: "string \<Rightarrow> bool" where
  "plain_number s \<longleftrightarrow> s \<noteq> [] \<and> list_all (within (CHR ''0'') (CHR ''9'')) s \<and>
     (length s > 1 \<longrightarrow> hd s \<noteq> CHR ''0'')"

fun split_dots :: "string \<Rightarrow> string list" where
  "split_dots [] = [[]]"
| "split_dots (c # cs) =
     (if c = CHR ''.'' then [] # split_dots cs
      else (c # hd (split_dots cs)) # tl (split_dots cs))"

lemma split_dots_not_Nil [simp]: "split_dots s \<noteq> []"
  by (induction s) auto

lemma within_dot [simp]: "\<not> within (CHR ''0'') (CHR ''9'') (CHR ''.'')"
  by (simp add: within_def)

text \<open>
  The loop inside a component whose digits so far are \<open>cur\<close> and which started behind \<open>pre\<close>: it
  accepts iff \<open>cur\<close> with the first piece of the rest, and every further piece, is a plain number
  and the count comes out as three.
\<close>

lemma semver_loop_split:
  assumes "list_all (within (CHR ''0'') (CHR ''9'')) cur"
  shows "semver_loop (pre @ cur @ rest) (length pre + length cur) (length pre) n \<longleftrightarrow>
    n + length (split_dots rest) = 3 \<and> plain_number (cur @ hd (split_dots rest)) \<and>
    list_all plain_number (tl (split_dots rest))"
  using assms
proof (induction rest arbitrary: pre cur n)
  case Nil
  have "(pre @ cur) ! length pre = hd cur" if "cur \<noteq> []"
    using that by (simp add: nth_append hd_conv_nth)
  with Nil show ?case
    by (subst semver_loop.simps) (auto simp: plain_number_def semver_loop.simps Let_def)
next
  case (Cons x rest)
  let ?v = "pre @ cur @ x # rest"
  have at: "?v ! (length pre + length cur) = x" by (simp add: nth_append)
  have start: "?v ! length pre = hd cur" if "cur \<noteq> []"
    using that by (simp add: nth_append hd_conv_nth)
  show ?case
  proof (cases "x = CHR ''.''")
    case True
    have "semver_loop ?v (length pre + length cur) (length pre) n \<longleftrightarrow>
        plain_number cur \<and> semver_loop ?v (Suc (length pre + length cur)) (Suc (length pre + length cur)) (Suc n)"
      by (subst semver_loop.simps)
         (use True at start Cons.prems in \<open>auto simp: plain_number_def Let_def\<close>)
    also have "semver_loop ?v (Suc (length pre + length cur)) (Suc (length pre + length cur)) (Suc n) \<longleftrightarrow>
        Suc n + length (split_dots rest) = 3 \<and> list_all plain_number (split_dots rest)"
      using Cons.IH [of "[]" "pre @ cur @ [x]" "Suc n"] by (cases "split_dots rest") auto
    finally show ?thesis using True by auto
  next
    case False
    show ?thesis
    proof (cases "within (CHR ''0'') (CHR ''9'') x")
      case True
      have "semver_loop ?v (length pre + length cur) (length pre) n \<longleftrightarrow>
          semver_loop ?v (Suc (length pre + length cur)) (length pre) n"
        by (subst semver_loop.simps) (use True False at in simp)
      then show ?thesis
        using Cons.IH [of "cur @ [x]" pre n] Cons.prems True False by simp
    next
      case bad: False
      have "\<not> semver_loop ?v (length pre + length cur) (length pre) n"
        by (subst semver_loop.simps) (use bad False at in simp)
      then show ?thesis using bad False by (simp add: plain_number_def)
    qed
  qed
qed

lemma length_split_dots_3:
  "length (split_dots v) = 3 \<longleftrightarrow> (\<exists>a b c. split_dots v = [a, b, c])"
  by (auto simp: numeral_3_eq_3 length_Suc_conv)

lemma split_dots_no_dot: "CHR ''.'' \<notin> set a \<Longrightarrow> split_dots a = [a]"
  by (induction a) auto

lemma split_dots_append:
  "CHR ''.'' \<notin> set a \<Longrightarrow> split_dots (a @ CHR ''.'' # r) = a # split_dots r"
  by (induction a) auto

lemma split_dots_join:
  "v = hd (split_dots v) @ concat (map (\<lambda>p. CHR ''.'' # p) (tl (split_dots v)))"
proof (induction v)
  case (Cons c v)
  then show ?case
    by (cases "split_dots v") auto
qed simp

lemma plain_number_no_dot: "plain_number n \<Longrightarrow> CHR ''.'' \<notin> set n"
  by (auto simp: plain_number_def list_all_iff)

lemma semver_grammar:
  "stable_semver_valid v \<longleftrightarrow> length v \<le> 32 \<and>
     (\<exists>major minor patch. plain_number major \<and> plain_number minor \<and> plain_number patch \<and>
        v = major @ ''.'' @ minor @ ''.'' @ patch)"
proof -
  have loop: "semver_loop v 0 0 0 \<longleftrightarrow>
      length (split_dots v) = 3 \<and> list_all plain_number (split_dots v)"
    using semver_loop_split [of "[]" "[]" v 0] by (cases "split_dots v") auto
  also have "\<dots> \<longleftrightarrow> (\<exists>a b c. plain_number a \<and> plain_number b \<and> plain_number c \<and>
      v = a @ ''.'' @ b @ ''.'' @ c)" (is "_ \<longleftrightarrow> ?grammar")
  proof
    assume "length (split_dots v) = 3 \<and> list_all plain_number (split_dots v)"
    then obtain a b c where "split_dots v = [a, b, c]" "list_all plain_number [a, b, c]"
      by (auto simp: length_split_dots_3)
    with split_dots_join [of v] show ?grammar by auto
  next
    assume ?grammar
    then show "length (split_dots v) = 3 \<and> list_all plain_number (split_dots v)"
      by (auto simp: split_dots_append split_dots_no_dot plain_number_no_dot)
  qed
  finally have "semver_loop v 0 0 0 \<longleftrightarrow> ?grammar" .
  moreover have "v \<noteq> []" if ?grammar using that by auto
  ultimately show ?thesis by (auto simp: stable_semver_valid_def const_defs)
qed

text \<open>
  C39. The version check accepts exactly the texts of at most 32 characters that are three decimal
  numbers without leading zeros joined by dots.
\<close>

theorem stable_semver_iff_grammar:
  "stable_semver_valid v \<longleftrightarrow> length v \<le> 32 \<and>
     (\<exists>major minor patch. plain_number major \<and> plain_number minor \<and> plain_number patch \<and>
        v = major @ ''.'' @ minor @ ''.'' @ patch)"
  by (rule semver_grammar)

section \<open>The size bound\<close>

lemma run_digest_codes:
  "run_digest r op = Inl e \<Longrightarrow> err_code e \<in> {PhCryptoProviderFailed, PhCryptoOperationFailed}"
  by (auto simp: run_digest_def bcrypt_error_def split: if_splits)

lemma sha256_bytes_codes:
  "sha256_bytes p input op = Inl e \<Longrightarrow>
     err_code e \<in> {PhPlatformCryptoUnavailable, PhCryptoProviderFailed, PhCryptoOperationFailed}"
  using run_digest_codes [of "pl_sha256 p input" op e]
  by (auto simp: sha256_bytes_def protocol_error_def split: if_splits)

lemma err_code_ifI:
  "err_code x \<noteq> c \<Longrightarrow> err_code y \<noteq> c \<Longrightarrow> err_code (if b then x else y) \<noteq> c"
  by simp

lemma validate_sec1_codes: "err_code (validate_sec1_p256_public_key p k t) \<noteq> PhTranscriptTooLarge"
  unfolding validate_sec1_p256_public_key_def
  by (intro err_code_ifI) (simp_all add: protocol_error_def bcrypt_error_def no_error_def)

lemma validate_transcript_fields_codes:
  "err_code (validate_transcript_fields p f req) \<noteq> PhTranscriptTooLarge"
  unfolding validate_transcript_fields_def Let_def
  by (intro err_code_ifI validate_sec1_codes) (simp_all add: protocol_error_def no_error_def)

text \<open>
  Every transcript that passes validation encodes to 410 bytes plus its three variable fields, at
  most 538: the builder never refuses a valid transcript for its size.
\<close>

theorem transcript_size_bound:
  assumes "fields_typed f"
  shows "(case build_canonical_peer_handshake_transcript_v1 p f req of
      Inl e \<Rightarrow> err_code e \<noteq> PhTranscriptTooLarge
    | Inr t \<Rightarrow> length (ctr_canonical_bytes t) =
        410 + length (tf_pair_id f) + length (tf_host_runtime_version f) +
        length (tf_android_runtime_version f) \<and>
        length (ctr_canonical_bytes t) \<le> kPeerHandshakeMaximumCanonicalBytes)"
proof (cases "build_canonical_peer_handshake_transcript_v1 p f req")
  case (Inl e)
  have "err_code e \<noteq> PhTranscriptTooLarge"
  proof (cases "has_error (validate_transcript_fields p f req)")
    case True
    with Inl validate_transcript_fields_codes [of p f req] show ?thesis
      by (simp add: build_canonical_peer_handshake_transcript_v1_def Let_def)
  next
    case False
    then have "sha256_bytes p (encode_transcript_fields f)
        ''hash_canonical_peer_handshake_transcript'' = Inl e"
      using Inl valid_encoding_length [OF assms, of p req]
      by (simp add: build_canonical_peer_handshake_transcript_v1_def Let_def
          kPeerHandshakeMaximumCanonicalBytes_def split: sum.splits)
    from sha256_bytes_codes [OF this] show ?thesis by auto
  qed
  with Inl show ?thesis by simp
next
  case (Inr t)
  then have "\<not> has_error (validate_transcript_fields p f req)"
    and "ctr_canonical_bytes t = encode_transcript_fields f"
    by (simp_all add: build_iff [OF assms])
  with length_valid_encoding [OF assms] valid_encoding_length [OF assms] Inr show ?thesis
    by (simp add: kPeerHandshakeMaximumCanonicalBytes_def)
qed

section \<open>A concrete provider and transcript\<close>

text \<open>
  A provider that answers every call with success, digests by truncation and agrees on the exclusive
  or of the handle with the last byte of the peer's point; and the largest transcript.
\<close>

definition healthy_run :: "bytes \<Rightarrow> hash_run" where
  "healthy_run d = \<lparr>hr_open = 0, hr_object_status = 0, hr_object_copied = 4, hr_object_bytes = 64,
     hr_length_status = 0, hr_length_copied = 4, hr_hash_bytes = 32, hr_create = 0,
     hr_hash_data = 0, hr_finish = 0, hr_digest = d\<rparr>"

definition pad32 :: "bytes \<Rightarrow> bytes" where
  "pad32 bs = take 32 (bs @ replicate 32 0)"

definition toy_mac :: "bytes \<Rightarrow> bytes \<Rightarrow> bytes" where
  "toy_mac key input = pad32 (take 4 key @ rev input)"

definition toy_secret :: "nat \<Rightarrow> bytes \<Rightarrow> bytes" where
  "toy_secret handle point = pad32 [of_nat handle XOR last point]"

definition toy_platform :: platform where
  "toy_platform = \<lparr>pl_win32 = True, pl_sha256 = (\<lambda>x. healthy_run (pad32 (rev x))),
     pl_hmac = (\<lambda>k x. healthy_run (toy_mac k x)),
     pl_point = (\<lambda>_. \<lparr>pr_open = 0, pr_import = 0\<rparr>),
     pl_ecdh = (\<lambda>h pt. \<lparr>ar_import = 0, ar_agree = 0, ar_derive = 0, ar_written = 32,
       ar_secret = toy_secret h pt\<rparr>)\<rparr>"

definition long_version :: string where
  "long_version = ''1234567890.1234567890.1234567890''"

definition largest_fields :: peer_handshake_transcript_fields where
  "largest_fields = \<lparr>tf_domain = kAuthenticatedPeerHandshakeDomain, tf_protocol_version = 1,
     tf_host_identity_spki_sha256 = replicate 32 1, tf_android_identity_spki_sha256 = replicate 32 2,
     tf_host_ephemeral_public_key = 4 # replicate 64 1,
     tf_android_ephemeral_public_key = 4 # replicate 64 2,
     tf_host_nonce = replicate 32 3, tf_android_nonce = replicate 32 4, tf_connection_id = 7,
     tf_session_generation = 9, tf_transport_kind = TransportCat6,
     tf_host_ipv4 = [192, 168, 77, 1], tf_android_ipv4 = [192, 168, 77, 2], tf_video_port = 5004,
     tf_control_port = 5005, tf_pair_id = replicate 64 (CHR ''p''),
     tf_host_runtime_version = long_version, tf_android_runtime_version = long_version\<rparr>"

lemma largest_fields_typed: "fields_typed largest_fields"
  by (simp add: fields_typed_def largest_fields_def const_defs)

lemma long_version_valid: "stable_semver_valid long_version"
  unfolding semver_grammar
  by (intro conjI exI [of _ "''1234567890''"])
     (simp_all add: long_version_def plain_number_def within_def)

lemma largest_fields_valid: "\<not> has_error (validate_transcript_fields toy_platform largest_fields RequireBoundPair)"
  unfolding validate_transcript_fields_ok
  by (simp add: largest_fields_def toy_platform_def validate_sec1_p256_public_key_def
      bcrypt_succeeded_def contains_nonzero_def long_version_valid list_all_iff list_ex_iff
      pair_id_character_valid_def within_def Let_def replicate_eq_replicate)

text \<open>A provider that works: it digests with \<open>sha\<close> and authenticates with \<open>mac\<close>.\<close>

definition provider_computes :: "platform \<Rightarrow> (bytes \<Rightarrow> bytes) \<Rightarrow> (bytes \<Rightarrow> bytes \<Rightarrow> bytes) \<Rightarrow> bool" where
  "provider_computes p sha mac \<longleftrightarrow>
     (\<forall>x op. length x \<le> kUlongMaximum \<longrightarrow> sha256_bytes p x op = Inr (sha x)) \<and>
     (\<forall>k x op. length k \<le> kUlongMaximum \<longrightarrow> length x \<le> kUlongMaximum \<longrightarrow>
        hmac_sha256_bytes p k x op = Inr (mac k x)) \<and>
     (\<forall>x. length (sha x) = 32) \<and> (\<forall>k x. length (mac k x) = 32)"

lemma length_pad32 [simp]: "length (pad32 bs) = 32"
  by (simp add: pad32_def min_def)

lemma toy_provider: "provider_computes toy_platform (\<lambda>x. pad32 (rev x)) toy_mac"
  by (simp add: provider_computes_def sha256_bytes_def hmac_sha256_bytes_def run_digest_def
      toy_platform_def healthy_run_def bcrypt_succeeded_def toy_mac_def const_defs)

lemma provider_sha: "provider_computes p sha mac \<Longrightarrow> length x \<le> 0xFFFFFFFF \<Longrightarrow>
    sha256_bytes p x op = Inr (sha x)"
  and provider_mac: "provider_computes p sha mac \<Longrightarrow> length k \<le> 0xFFFFFFFF \<Longrightarrow>
    length x \<le> 0xFFFFFFFF \<Longrightarrow> hmac_sha256_bytes p k x op = Inr (mac k x)"
  and provider_lengths: "provider_computes p sha mac \<Longrightarrow> length (sha x) = 32"
    "provider_computes p sha mac \<Longrightarrow> length (mac k x) = 32"
  by (simp_all add: provider_computes_def const_defs)

definition largest_transcript :: canonical_transcript where
  "largest_transcript = \<lparr>ctr_fields = largest_fields,
     ctr_canonical_bytes = encode_transcript_fields largest_fields,
     ctr_transcript_sha256 = pad32 (rev (encode_transcript_fields largest_fields))\<rparr>"

lemma largest_transcript_built:
  "build_canonical_peer_handshake_transcript_v1 toy_platform largest_fields RequireBoundPair =
     Inr largest_transcript"
  using valid_encoding_length [OF largest_fields_typed largest_fields_valid] largest_fields_valid
    provider_sha [OF toy_provider]
  by (simp add: build_iff largest_fields_typed largest_transcript_def)

theorem transcript_size_bound_witness:
  "length (ctr_canonical_bytes largest_transcript) = kPeerHandshakeMaximumCanonicalBytes"
  using transcript_size_bound [OF largest_fields_typed, of toy_platform RequireBoundPair]
  unfolding largest_transcript_built
  by (simp add: largest_fields_def long_version_def kPeerHandshakeMaximumCanonicalBytes_def)

end
