(* ===== verification/Peer_Handshake.thy ===== *)
theory Peer_Handshake
  imports Handshake_Transcript
begin

text \<open>
  The key schedule and the key confirmation of the authenticated peer handshake, the second half of
  \<^verbatim>\<open>shared/src/authenticated_peer_handshake_v1.cpp\<close>: HKDF over the transcript hash, the
  ephemeral key that is consumed by its first use, the pending state that can only emit its own
  Finished and releases a session only for the peer's, and the session itself.

  Shown: the HKDF loop computes RFC 5869 expansion, the Finished comparison is equality, the private
  key is used at most once, a session is released at most once and only for the right Finished
  after the own one was sent, and two honest endpoints confirm each other and end with the same keys.
\<close>

section \<open>Constants and labels\<close>

definition kPeerHandshakeAes256KeyBytes :: nat where "kPeerHandshakeAes256KeyBytes = 32"
definition kPeerHandshakeNoncePrefixBytes :: nat where "kPeerHandshakeNoncePrefixBytes = 4"
definition kPeerHandshakeDataPlaneMaterialBytes :: nat where
  "kPeerHandshakeDataPlaneMaterialBytes =
     kPeerHandshakeAes256KeyBytes + kPeerHandshakeNoncePrefixBytes"
definition kHkdfSha256MaximumOutputBytes :: nat where "kHkdfSha256MaximumOutputBytes = 255 * 32"
definition kMaximumHkdfInfoBytes :: nat where "kMaximumHkdfInfoBytes = 96"

lemmas key_schedule_consts [const_defs] =
  kPeerHandshakeAes256KeyBytes_def kPeerHandshakeNoncePrefixBytes_def
  kPeerHandshakeDataPlaneMaterialBytes_def kHkdfSha256MaximumOutputBytes_def
  kMaximumHkdfInfoBytes_def

definition kFinishedProofDomain :: string where
  "kFinishedProofDomain = ''VFDUAL/PEER-HS/V1/finished-proof''"
definition kChannelBindingDomain :: string where
  "kChannelBindingDomain = ''visionforge-peer-channel-binding-v1''"
definition kControlHostToAndroidLabel :: string where
  "kControlHostToAndroidLabel = ''VFDUAL/PEER-HS/V1/control/host-to-android''"
definition kControlAndroidToHostLabel :: string where
  "kControlAndroidToHostLabel = ''VFDUAL/PEER-HS/V1/control/android-to-host''"
definition kPresenceHostToAndroidLabel :: string where
  "kPresenceHostToAndroidLabel = ''VFDUAL/PEER-HS/V1/presence/host-to-android''"
definition kVideoHostToAndroidLabel :: string where
  "kVideoHostToAndroidLabel = ''VFDUAL/PEER-HS/V1/video/host-to-android''"
definition kIdrAndroidToHostLabel :: string where
  "kIdrAndroidToHostLabel = ''VFDUAL/PEER-HS/V1/idr/android-to-host''"
definition kMouseHostToAndroidLabel :: string where
  "kMouseHostToAndroidLabel = ''VFDUAL/PEER-HS/V1/mouse/host-to-android''"
definition kFinishedHostLabel :: string where
  "kFinishedHostLabel = ''VFDUAL/PEER-HS/V1/finished/host''"
definition kFinishedAndroidLabel :: string where
  "kFinishedAndroidLabel = ''VFDUAL/PEER-HS/V1/finished/android''"
definition kChannelBindingExporterLabel :: string where
  "kChannelBindingExporterLabel = ''VFDUAL/PEER-HS/V1/channel-binding-exporter''"

lemmas label_defs =
  kControlHostToAndroidLabel_def kControlAndroidToHostLabel_def kPresenceHostToAndroidLabel_def
  kVideoHostToAndroidLabel_def kIdrAndroidToHostLabel_def kMouseHostToAndroidLabel_def
  kFinishedHostLabel_def kFinishedAndroidLabel_def kChannelBindingExporterLabel_def

section \<open>Key schedule\<close>

text \<open>
  \<^verbatim>\<open>hkdf_expand_sha256\<close>. \<open>previous\<close> is the 32-byte buffer of which \<open>previous_bytes\<close> are valid,
  \<open>written\<close> the number of output bytes produced, \<open>block_index\<close> the 16-bit counter of which the low
  byte enters the message.
\<close>

function hkdf_loop ::
  "platform \<Rightarrow> bytes \<Rightarrow> string \<Rightarrow> nat \<Rightarrow> bytes \<Rightarrow> nat \<Rightarrow> nat \<Rightarrow> u16 \<Rightarrow> bytes \<Rightarrow>
     peer_handshake_error + bytes" where
  "hkdf_loop p prk info output_size previous previous_bytes written block_index out =
     (if written < output_size then
        (case hmac_sha256_bytes p prk
                (take previous_bytes previous @ string_bytes info @ [ucast block_index])
                ''hkdf_expand_hmac_sha256'' of
           Inl error \<Rightarrow> Inl error
         | Inr block \<Rightarrow>
             let copy_bytes = min kPeerHandshakeSha256Bytes (output_size - written) in
             hkdf_loop p prk info output_size block kPeerHandshakeSha256Bytes (written + copy_bytes)
               (block_index + 1) (out @ take copy_bytes block))
      else Inr out)"
  by pat_completeness auto
termination
  by (relation "measure (\<lambda>(p, prk, info, output_size, previous, pb, written, _). output_size - written)")
     (auto simp: kPeerHandshakeSha256Bytes_def)

definition hkdf_expand_sha256 :: "platform \<Rightarrow> bytes \<Rightarrow> string \<Rightarrow> nat \<Rightarrow> peer_handshake_error + bytes" where
  "hkdf_expand_sha256 p prk ascii_info output_size =
     (if output_size > kHkdfSha256MaximumOutputBytes
      then Inl (protocol_error PhHkdfOutputTooLarge ''validate_hkdf_output_length'' kNoFieldTag)
      else if ascii_info = [] \<or> length ascii_info > kMaximumHkdfInfoBytes
      then Inl (protocol_error PhCryptoOperationFailed ''validate_hkdf_info'' kNoFieldTag)
      else if output_size = 0 then Inr []
      else hkdf_loop p prk ascii_info output_size (replicate kPeerHandshakeSha256Bytes 0) 0 0 1 [])"

definition derive_prk :: "platform \<Rightarrow> bytes \<Rightarrow> bytes \<Rightarrow> peer_handshake_error + bytes" where
  "derive_prk p transcript_sha256 shared_secret_be =
     hmac_sha256_bytes p transcript_sha256 shared_secret_be ''hkdf_extract_hmac_sha256''"

fun difference_loop :: "bytes \<Rightarrow> bytes \<Rightarrow> u8 \<Rightarrow> nat list \<Rightarrow> u8" where
  "difference_loop left right difference [] = difference"
| "difference_loop left right difference (index # indices) =
     difference_loop left right (difference OR (left ! index XOR right ! index)) indices"

definition constant_time_equal :: "bytes \<Rightarrow> bytes \<Rightarrow> bool" where
  "constant_time_equal left right =
     (if length left \<noteq> length right then False
      else difference_loop left right 0 [0..<length left] = 0)"

record data_plane_key_view =
  kv_aes_256_key :: bytes
  kv_nonce_prefix :: bytes

definition data_plane_view :: "bytes \<Rightarrow> data_plane_key_view" where
  "data_plane_view material =
     \<lparr>kv_aes_256_key = take kPeerHandshakeAes256KeyBytes material,
      kv_nonce_prefix = drop (length material - kPeerHandshakeNoncePrefixBytes) material\<rparr>"

section \<open>The session\<close>

record peer_handshake_binding =
  pb_pair_id :: string
  pb_host_identity_spki_sha256 :: bytes
  pb_android_identity_spki_sha256 :: bytes
  pb_connection_id :: u64
  pb_session_generation :: u64
  pb_transcript_sha256 :: bytes
  pb_channel_binding_sha256 :: bytes

record peer_handshake_session =
  hs_local_role :: peer_handshake_role
  hs_binding :: peer_handshake_binding
  hs_control_host_to_android :: bytes
  hs_control_android_to_host :: bytes
  hs_presence_host_to_android :: bytes
  hs_video_host_to_android :: bytes
  hs_idr_android_to_host :: bytes
  hs_mouse_host_to_android :: bytes
  hs_finished_host :: bytes
  hs_finished_android :: bytes
  hs_channel_binding_exporter :: bytes

text \<open>\<^verbatim>\<open>erase_bytes\<close> overwrites a buffer with zeros.\<close>

definition erase_bytes :: "bytes \<Rightarrow> bytes" where
  "erase_bytes bs = replicate (length bs) 0"

definition erase_session :: "peer_handshake_session \<Rightarrow> peer_handshake_session" where
  "erase_session s = s\<lparr>
     hs_binding := \<lparr>pb_pair_id = [],
       pb_host_identity_spki_sha256 = erase_bytes (pb_host_identity_spki_sha256 (hs_binding s)),
       pb_android_identity_spki_sha256 = erase_bytes (pb_android_identity_spki_sha256 (hs_binding s)),
       pb_connection_id = 0, pb_session_generation = 0,
       pb_transcript_sha256 = erase_bytes (pb_transcript_sha256 (hs_binding s)),
       pb_channel_binding_sha256 = erase_bytes (pb_channel_binding_sha256 (hs_binding s))\<rparr>,
     hs_control_host_to_android := erase_bytes (hs_control_host_to_android s),
     hs_control_android_to_host := erase_bytes (hs_control_android_to_host s),
     hs_presence_host_to_android := erase_bytes (hs_presence_host_to_android s),
     hs_video_host_to_android := erase_bytes (hs_video_host_to_android s),
     hs_idr_android_to_host := erase_bytes (hs_idr_android_to_host s),
     hs_mouse_host_to_android := erase_bytes (hs_mouse_host_to_android s),
     hs_finished_host := erase_bytes (hs_finished_host s),
     hs_finished_android := erase_bytes (hs_finished_android s),
     hs_channel_binding_exporter := erase_bytes (hs_channel_binding_exporter s)\<rparr>"

fun role_byte :: "peer_handshake_role \<Rightarrow> u8" where
  "role_byte HostRole = 1"
| "role_byte AndroidRole = 2"
| "role_byte (RoleOther b) = b"

definition finished_message :: "peer_handshake_session \<Rightarrow> peer_handshake_role \<Rightarrow> bytes" where
  "finished_message s role =
     string_bytes kFinishedProofDomain @ [role_byte role] @ pb_transcript_sha256 (hs_binding s)"

fun finished_key :: "peer_handshake_session \<Rightarrow> peer_handshake_role \<Rightarrow> bytes option" where
  "finished_key s HostRole = Some (hs_finished_host s)"
| "finished_key s AndroidRole = Some (hs_finished_android s)"
| "finished_key s (RoleOther _) = None"

definition create_finished_mac_for_role ::
  "platform \<Rightarrow> peer_handshake_session \<Rightarrow> peer_handshake_role \<Rightarrow> peer_handshake_error + bytes" where
  "create_finished_mac_for_role p s role =
     (case finished_key s role of
        None \<Rightarrow> Inl (protocol_error PhInvalidRole ''create_finished_validate_role'' kNoFieldTag)
      | Some key \<Rightarrow> hmac_sha256_bytes p key (finished_message s role) ''create_finished_hmac_sha256'')"

text \<open>\<^verbatim>\<open>verify_finished_mac_for_role\<close>: \<open>no_error\<close> for a return of true, the error otherwise.\<close>

definition verify_finished_mac_for_role ::
  "platform \<Rightarrow> peer_handshake_session \<Rightarrow> peer_handshake_role \<Rightarrow> bytes \<Rightarrow> peer_handshake_error" where
  "verify_finished_mac_for_role p s role candidate_mac =
     (case create_finished_mac_for_role p s role of
        Inl error \<Rightarrow> error
      | Inr expected \<Rightarrow>
          if \<not> constant_time_equal expected candidate_mac
          then protocol_error PhPeerFinishedFailed ''verify_peer_finished_hmac_sha256'' kNoFieldTag
          else no_error)"

section \<open>Pending confirmation\<close>

record pending_confirmation =
  pc_local_role :: peer_handshake_role
  pc_unconfirmed_session :: "peer_handshake_session option"
  pc_closed :: bool
  pc_local_finished_generated :: bool

definition make_pending ::
  "peer_handshake_role \<Rightarrow> peer_handshake_session option \<Rightarrow> pending_confirmation" where
  "make_pending local_role session =
     \<lparr>pc_local_role = local_role, pc_unconfirmed_session = session, pc_closed = (session = None),
      pc_local_finished_generated = False\<rparr>"

definition close_pending :: "pending_confirmation \<Rightarrow> pending_confirmation" where
  "close_pending c = c\<lparr>pc_unconfirmed_session := None, pc_closed := True,
     pc_local_finished_generated := False\<rparr>"

text \<open>The move constructor: the new object and what is left of the old one.\<close>

definition move_pending :: "pending_confirmation \<Rightarrow> pending_confirmation \<times> pending_confirmation" where
  "move_pending other =
     (other, other\<lparr>pc_unconfirmed_session := None, pc_closed := True,
        pc_local_finished_generated := False\<rparr>)"

definition create_local_finished_mac ::
  "platform \<Rightarrow> pending_confirmation \<Rightarrow> (peer_handshake_error + bytes) \<times> pending_confirmation" where
  "create_local_finished_mac p c =
     (if pc_closed c \<or> pc_unconfirmed_session c = None
      then (Inl (protocol_error PhPendingConfirmationClosed
               ''create_local_finished_on_closed_pending_state'' kNoFieldTag), c)
      else case create_finished_mac_for_role p (the (pc_unconfirmed_session c)) (pc_local_role c) of
          Inl error \<Rightarrow> (Inl error, close_pending c)
        | Inr digest \<Rightarrow> (Inr digest, c\<lparr>pc_local_finished_generated := True\<rparr>))"

definition peer_role :: "peer_handshake_role \<Rightarrow> peer_handshake_role" where
  "peer_role local_role = (if local_role = HostRole then AndroidRole else HostRole)"

definition confirmed_session :: "peer_handshake_role \<Rightarrow> peer_handshake_session \<Rightarrow> peer_handshake_session" where
  "confirmed_session local_role s = s\<lparr>
     hs_finished_host := erase_bytes (hs_finished_host s),
     hs_finished_android := erase_bytes (hs_finished_android s),
     hs_channel_binding_exporter := erase_bytes (hs_channel_binding_exporter s),
     hs_local_role := local_role\<rparr>"

definition confirm_peer_finished_and_consume ::
  "platform \<Rightarrow> bytes \<Rightarrow> pending_confirmation \<Rightarrow>
     (peer_handshake_error + peer_handshake_session) \<times> pending_confirmation" where
  "confirm_peer_finished_and_consume p peer_finished_mac c =
     (case pc_unconfirmed_session c of
        None \<Rightarrow> (Inl (protocol_error PhPendingConfirmationClosed
            ''confirm_peer_finished_on_closed_pending_state'' kNoFieldTag), close_pending c)
      | Some s \<Rightarrow>
          if pc_closed c
          then (Inl (protocol_error PhPendingConfirmationClosed
            ''confirm_peer_finished_on_closed_pending_state'' kNoFieldTag), close_pending c)
          else if \<not> pc_local_finished_generated c
          then (Inl (protocol_error PhLocalFinishedNotGenerated
            ''require_local_finished_before_peer_confirmation'' kNoFieldTag), close_pending c)
          else
            let error = verify_finished_mac_for_role p s (peer_role (pc_local_role c)) peer_finished_mac in
            if has_error error then (Inl error, close_pending c)
            else (Inr (confirmed_session (pc_local_role c) s),
                  c\<lparr>pc_unconfirmed_session := None, pc_closed := True,
                    pc_local_finished_generated := False\<rparr>))"

section \<open>The ephemeral key\<close>

record key_impl =
  ki_algorithm :: bool
  ki_key :: "nat option"

record ephemeral_key =
  ek_impl :: "key_impl option"
  ek_public_key :: bytes

text \<open>The provider's answers while a key pair is generated and its public half exported.\<close>

record generate_run =
  gr_open :: u32
  gr_generate :: u32
  gr_finalize :: u32
  gr_key :: nat
  gr_query :: u32
  gr_required :: u32
  gr_export :: u32
  gr_written :: u32
  gr_magic :: u32
  gr_key_bytes :: u32
  gr_point :: bytes

definition kEccPublicBlobBytes :: nat where "kEccPublicBlobBytes = 8 + 64"
definition kEcdhPublicP256Magic :: u32 where "kEcdhPublicP256Magic = 0x314B4345"

definition export_sec1_public_key :: "generate_run \<Rightarrow> peer_handshake_error + bytes" where
  "export_sec1_public_key r =
     (if \<not> bcrypt_succeeded (gr_query r) \<or> unat (gr_required r) \<noteq> kEccPublicBlobBytes
      then Inl (bcrypt_error PhCryptoOperationFailed (gr_query r) ''query_ephemeral_public_key'' kNoFieldTag)
      else if \<not> bcrypt_succeeded (gr_export r) \<or> unat (gr_written r) \<noteq> kEccPublicBlobBytes
      then Inl (bcrypt_error PhCryptoOperationFailed (gr_export r) ''export_ephemeral_public_key'' kNoFieldTag)
      else if gr_magic r \<noteq> kEcdhPublicP256Magic \<or> gr_key_bytes r \<noteq> 32
      then Inl (protocol_error PhCryptoOperationFailed ''validate_exported_ephemeral_public_key'' kNoFieldTag)
      else Inr (0x04 # gr_point r))"

definition generate_platform :: "platform \<Rightarrow> generate_run \<Rightarrow> peer_handshake_error + ephemeral_key" where
  "generate_platform p r =
     (if \<not> pl_win32 p
      then Inl (protocol_error PhPlatformCryptoUnavailable ''generate_platform_ephemeral_key'' kNoFieldTag)
      else if \<not> bcrypt_succeeded (gr_open r)
      then Inl (bcrypt_error PhCryptoProviderFailed (gr_open r) ''open_ephemeral_p256_provider'' kNoFieldTag)
      else if \<not> bcrypt_succeeded (gr_generate r)
      then Inl (bcrypt_error PhCryptoOperationFailed (gr_generate r) ''generate_ephemeral_p256_key'' kNoFieldTag)
      else if \<not> bcrypt_succeeded (gr_finalize r)
      then Inl (bcrypt_error PhCryptoOperationFailed (gr_finalize r) ''finalize_ephemeral_p256_key'' kNoFieldTag)
      else case export_sec1_public_key r of
          Inl error \<Rightarrow> Inl error
        | Inr public_key \<Rightarrow> Inr \<lparr>ek_impl = Some \<lparr>ki_algorithm = True, ki_key = Some (gr_key r)\<rparr>,
            ek_public_key = public_key\<rparr>)"

definition move_key :: "ephemeral_key \<Rightarrow> ephemeral_key \<times> ephemeral_key" where
  "move_key other = (other, other\<lparr>ek_impl := None\<rparr>)"

definition is_fresh_for_host_transcript_signing :: "ephemeral_key \<Rightarrow> peer_handshake_error" where
  "is_fresh_for_host_transcript_signing k =
     (if ek_impl k \<noteq> None then no_error
      else protocol_error PhEphemeralKeyConsumed
             ''require_fresh_host_ephemeral_for_transcript_signing'' kNoFieldTag)"

text \<open>The point is validated once more, then imported beside the local key.\<close>

definition import_peer_public_key :: "platform \<Rightarrow> agreement_run \<Rightarrow> bytes \<Rightarrow> peer_handshake_error" where
  "import_peer_public_key p r sec1 =
     (let error = validate_sec1_p256_public_key p sec1 kNoFieldTag in
      if has_error error then error
      else if \<not> bcrypt_succeeded (ar_import r)
      then protocol_error PhInvalidEphemeralPublicKey ''import_peer_ephemeral_public_key'' kNoFieldTag
      else no_error)"

fun transcript_keys ::
  "peer_handshake_role \<Rightarrow> peer_handshake_transcript_fields \<Rightarrow> (bytes \<times> bytes) option" where
  "transcript_keys HostRole f = Some (tf_host_ephemeral_public_key f, tf_android_ephemeral_public_key f)"
| "transcript_keys AndroidRole f = Some (tf_android_ephemeral_public_key f, tf_host_ephemeral_public_key f)"
| "transcript_keys (RoleOther _) f = None"

text \<open>An error ends the computation; \<open>then_ok\<close> passes a value on.\<close>

fun then_ok :: "'e + 'a \<Rightarrow> ('a \<Rightarrow> 'e + 'b) \<Rightarrow> 'e + 'b" where
  "then_ok (Inl e) f = Inl e"
| "then_ok (Inr a) f = f a"

definition shared_secret :: "platform \<Rightarrow> nat \<Rightarrow> bytes \<Rightarrow> peer_handshake_error + bytes" where
  "shared_secret p handle peer_key =
     (let r = pl_ecdh p handle (tl peer_key);
          error = import_peer_public_key p r peer_key in
      if has_error error then Inl error
      else if \<not> bcrypt_succeeded (ar_agree r)
      then Inl (bcrypt_error PhCryptoOperationFailed (ar_agree r) ''perform_ephemeral_p256_ecdh'' kNoFieldTag)
      else if \<not> bcrypt_succeeded (ar_derive r) \<or> unat (ar_written r) \<noteq> 32
      then Inl (bcrypt_error PhCryptoOperationFailed (ar_derive r) ''export_raw_ecdh_shared_secret'' kNoFieldTag)
      else Inr (rev (ar_secret r)))"

definition expand_session ::
  "platform \<Rightarrow> bytes \<Rightarrow> peer_handshake_role \<Rightarrow> canonical_transcript \<Rightarrow>
     peer_handshake_error + peer_handshake_session" where
  "expand_session p prk local_role t =
     (let f = ctr_fields t; material = kPeerHandshakeDataPlaneMaterialBytes in
      then_ok (hkdf_expand_sha256 p prk kControlHostToAndroidLabel material) (\<lambda>control_h2a.
      then_ok (hkdf_expand_sha256 p prk kControlAndroidToHostLabel material) (\<lambda>control_a2h.
      then_ok (hkdf_expand_sha256 p prk kPresenceHostToAndroidLabel material) (\<lambda>presence_h2a.
      then_ok (hkdf_expand_sha256 p prk kVideoHostToAndroidLabel material) (\<lambda>video_h2a.
      then_ok (hkdf_expand_sha256 p prk kIdrAndroidToHostLabel material) (\<lambda>idr_a2h.
      then_ok (hkdf_expand_sha256 p prk kMouseHostToAndroidLabel material) (\<lambda>mouse_h2a.
      then_ok (hkdf_expand_sha256 p prk kFinishedHostLabel 32) (\<lambda>finished_h.
      then_ok (hkdf_expand_sha256 p prk kFinishedAndroidLabel 32) (\<lambda>finished_a.
      then_ok (hkdf_expand_sha256 p prk kChannelBindingExporterLabel 32) (\<lambda>exporter.
      then_ok (sha256_bytes p
          (string_bytes kChannelBindingDomain @ ctr_transcript_sha256 t @ exporter)
          ''derive_channel_binding_sha256'') (\<lambda>channel_binding.
        Inr \<lparr>hs_local_role = local_role,
          hs_binding = \<lparr>pb_pair_id = tf_pair_id f,
            pb_host_identity_spki_sha256 = tf_host_identity_spki_sha256 f,
            pb_android_identity_spki_sha256 = tf_android_identity_spki_sha256 f,
            pb_connection_id = tf_connection_id f, pb_session_generation = tf_session_generation f,
            pb_transcript_sha256 = ctr_transcript_sha256 t,
            pb_channel_binding_sha256 = channel_binding\<rparr>,
          hs_control_host_to_android = control_h2a, hs_control_android_to_host = control_a2h,
          hs_presence_host_to_android = presence_h2a, hs_video_host_to_android = video_h2a,
          hs_idr_android_to_host = idr_a2h, hs_mouse_host_to_android = mouse_h2a,
          hs_finished_host = finished_h, hs_finished_android = finished_a,
          hs_channel_binding_exporter = exporter\<rparr>)))))))))))"

definition derive_with_impl ::
  "platform \<Rightarrow> peer_handshake_role \<Rightarrow> canonical_transcript \<Rightarrow> key_impl \<Rightarrow> bytes \<Rightarrow>
     peer_handshake_error + pending_confirmation" where
  "derive_with_impl p local_role t consumed_impl public_key =
     (case transcript_keys local_role (ctr_fields t) of
        None \<Rightarrow> Inl (protocol_error PhInvalidRole ''derive_pending_validate_local_role'' kNoFieldTag)
      | Some (local_key, peer_key) \<Rightarrow>
          if tf_pair_id (ctr_fields t) = []
          then Inl (protocol_error PhPairBindingRequired ''require_bound_pair_before_key_derivation'' 15)
          else if public_key \<noteq> local_key
          then Inl (protocol_error PhLocalEphemeralKeyMismatch
                 ''bind_local_ephemeral_key_to_transcript'' kNoFieldTag)
          else if \<not> pl_win32 p
          then Inl (protocol_error PhPlatformCryptoUnavailable
                 ''derive_pending_peer_handshake_confirmation'' kNoFieldTag)
          else if \<not> ki_algorithm consumed_impl \<or> ki_key consumed_impl = None
          then Inl (protocol_error PhCryptoOperationFailed
                 ''validate_consumed_ephemeral_key_state'' kNoFieldTag)
          else
            then_ok (shared_secret p (the (ki_key consumed_impl)) peer_key) (\<lambda>shared_secret_be.
            then_ok (derive_prk p (ctr_transcript_sha256 t) shared_secret_be) (\<lambda>prk.
            then_ok (expand_session p prk local_role t) (\<lambda>secrets.
              Inr (make_pending local_role (Some secrets))))))"

text \<open>The key is taken out of the object before anything else is looked at.\<close>

definition derive_pending_after_peer_identity_verified ::
  "platform \<Rightarrow> peer_handshake_role \<Rightarrow> canonical_transcript \<Rightarrow> ephemeral_key \<Rightarrow>
     (peer_handshake_error + pending_confirmation) \<times> ephemeral_key" where
  "derive_pending_after_peer_identity_verified p local_role t k =
     (let k' = k\<lparr>ek_impl := None\<rparr> in
      case ek_impl k of
        None \<Rightarrow> (Inl (protocol_error PhEphemeralKeyConsumed
            ''reject_reused_ephemeral_private_key'' kNoFieldTag), k')
      | Some consumed_impl \<Rightarrow> (derive_with_impl p local_role t consumed_impl (ek_public_key k), k'))"

section \<open>HKDF\<close>

declare hkdf_loop.simps [simp del]

text \<open>The blocks of RFC 5869: each authenticates the one before it, the label and its own number.\<close>

fun hkdf_block :: "(bytes \<Rightarrow> bytes \<Rightarrow> bytes) \<Rightarrow> bytes \<Rightarrow> bytes \<Rightarrow> nat \<Rightarrow> bytes" where
  "hkdf_block mac prk info 0 = []"
| "hkdf_block mac prk info (Suc n) =
     mac prk (hkdf_block mac prk info n @ info @ [of_nat (Suc n)])"

definition hkdf_reference :: "(bytes \<Rightarrow> bytes \<Rightarrow> bytes) \<Rightarrow> bytes \<Rightarrow> bytes \<Rightarrow> nat \<Rightarrow> bytes" where
  "hkdf_reference mac prk info n =
     take n (concat (map (hkdf_block mac prk info) [1..<256]))"

lemma length_hkdf_block:
  "provider_computes p sha mac \<Longrightarrow> length (hkdf_block mac prk info (Suc n)) = 32"
  by (simp add: provider_lengths)

lemma length_hkdf_blocks:
  assumes "provider_computes p sha mac"
  shows "length (concat (map (hkdf_block mac prk info) [1..<Suc n])) = 32 * n"
  by (induction n) (simp_all add: provider_lengths [OF assms])

text \<open>
  The loop after \<open>k\<close> blocks: \<open>previous\<close> holds the last of them and the output is the prefix of their
  concatenation that fits.
\<close>

lemma hkdf_loop_blocks:
  assumes prov: "provider_computes p sha mac" and prk: "length prk = 32"
    and info: "length info \<le> 96" and size: "output_size \<le> 32 * 255"
    and k: "k \<le> 255" "32 * k \<le> output_size"
    and prev: "take pb previous = hkdf_block mac prk (string_bytes info) k"
    and out: "out = concat (map (hkdf_block mac prk (string_bytes info)) [1..<Suc k])"
  shows "hkdf_loop p prk info output_size previous pb (32 * k) (of_nat (Suc k)) out =
    Inr (hkdf_reference mac prk (string_bytes info) output_size)"
  using k prev out
proof (induction "255 - k" arbitrary: k previous pb out rule: less_induct)
  case less
  let ?B = "hkdf_block mac prk (string_bytes info)"
  let ?all = "concat (map ?B [1..<256])"
  have split: "?all = out @ concat (map ?B [Suc k..<256])"
    using less.prems(1,4) upt_add_eq_append [of 1 "Suc k" "255 - k"] by simp
  show ?case
  proof (cases "32 * k < output_size")
    case False
    then have "output_size = length out"
      using less.prems(2,4) length_hkdf_blocks [OF prov, of prk _ k] by simp
    then have "hkdf_reference mac prk (string_bytes info) output_size = out"
      unfolding hkdf_reference_def split by simp
    with False show ?thesis by (simp add: hkdf_loop.simps)
  next
    case True
    then have k: "k < 255" using size by simp
    have byte: "(ucast (of_nat (Suc k) :: u16) :: u8) = of_nat (Suc k)"
      using k by (simp add: unsigned_of_nat take_bit_nat_eq_self del: of_nat_Suc)
    have "length (?B k) \<le> 32" by (cases k) (simp_all add: provider_lengths [OF prov])
    then have mac: "hmac_sha256_bytes p prk (?B k @ string_bytes info @ [of_nat (Suc k)]) op =
        Inr (?B (Suc k))" for op
      using prk info by (subst provider_mac [OF prov]) simp_all
    have succ: "(of_nat (Suc k) :: u16) + 1 = of_nat (Suc (Suc k))" by simp
    have step: "hkdf_loop p prk info output_size previous pb (32 * k) (of_nat (Suc k)) out =
        hkdf_loop p prk info output_size (?B (Suc k)) 32 (32 * k + min 32 (output_size - 32 * k))
          (of_nat (Suc (Suc k))) (out @ take (min 32 (output_size - 32 * k)) (?B (Suc k)))"
      by (subst hkdf_loop.simps)
         (use True in \<open>simp add: less.prems(3) byte mac succ kPeerHandshakeSha256Bytes_def Let_def
            del: hkdf_block.simps of_nat_Suc\<close>)
    show ?thesis
    proof (cases "32 * Suc k \<le> output_size")
      case more: True
      then have "32 * k + min 32 (output_size - 32 * k) = 32 * Suc k"
        and "take (min 32 (output_size - 32 * k)) (?B (Suc k)) = ?B (Suc k)"
        using length_hkdf_block [OF prov] by (simp_all del: hkdf_block.simps)
      with step have "hkdf_loop p prk info output_size previous pb (32 * k) (of_nat (Suc k)) out =
          hkdf_loop p prk info output_size (?B (Suc k)) 32 (32 * Suc k) (of_nat (Suc (Suc k)))
            (out @ ?B (Suc k))"
        by (simp del: hkdf_block.simps)
      also have "\<dots> = Inr (hkdf_reference mac prk (string_bytes info) output_size)"
        by (rule less.hyps)
           (use k more length_hkdf_block [OF prov] less.prems(4) in \<open>simp_all del: hkdf_block.simps\<close>)
      finally show ?thesis .
    next
      case False
      then have le: "output_size - 32 * k \<le> 32" by simp
      have "[Suc k..<256] = Suc k # [Suc (Suc k)..<256]" using k by (simp add: upt_conv_Cons)
      then have "hkdf_reference mac prk (string_bytes info) output_size =
          out @ take (output_size - 32 * k) (?B (Suc k))"
        using split le length_hkdf_blocks [OF prov, of prk "string_bytes info" k] less.prems(4)
          length_hkdf_block [OF prov] True
        unfolding hkdf_reference_def split by (simp del: hkdf_block.simps)
      moreover have "min 32 (output_size - 32 * k) = output_size - 32 * k" using le by simp
      ultimately show ?thesis
        using step True by (simp add: hkdf_loop.simps [of p prk info output_size "?B (Suc k)"]
            del: hkdf_block.simps)
    qed
  qed
qed

text \<open>
  C22. Key expansion is RFC 5869's: on a working provider the loop returns, for every label of 1 to 96
  characters and every length up to 255 blocks, the prefix of that length of the chained blocks
  \<open>T(1), T(2), ...\<close>; the 16-bit block counter never exceeds the byte it is truncated to.
\<close>

theorem hkdf_is_rfc5869:
  assumes "provider_computes p sha mac" and "length prk = 32"
    and "info \<noteq> []" and "length info \<le> kMaximumHkdfInfoBytes"
    and "n \<le> kHkdfSha256MaximumOutputBytes"
  shows "hkdf_expand_sha256 p prk info n = Inr (hkdf_reference mac prk (string_bytes info) n)"
  using assms hkdf_loop_blocks [of p sha mac prk info n 0 0]
  by (simp add: hkdf_expand_sha256_def const_defs hkdf_reference_def)

lemma hkdf_reference_length:
  assumes "provider_computes p sha mac" and "n \<le> 8160"
  shows "length (hkdf_reference mac prk info n) = n"
  using length_hkdf_blocks [OF assms(1), of prk info 255] assms(2)
  by (simp add: hkdf_reference_def)

section \<open>The Finished comparison\<close>

lemma difference_loop_zero:
  "difference_loop left right d is = 0 \<longleftrightarrow> d = 0 \<and> (\<forall>i \<in> set is. left ! i = right ! i)"
proof (induction "is" arbitrary: d)
  case (Cons i "is")
  have "a OR b = 0 \<longleftrightarrow> a = 0 \<and> b = 0" for a b :: u8
    by (auto simp: bit_eq_iff bit_simps)
  moreover have "a XOR b = 0 \<longleftrightarrow> a = b" for a b :: u8
    by (auto simp: bit_eq_iff bit_simps)
  ultimately show ?case using Cons.IH by auto
qed simp

lemma constant_time_equal_iff [simp]: "constant_time_equal left right \<longleftrightarrow> left = right"
  unfolding constant_time_equal_def difference_loop_zero list_eq_iff_nth_eq [of left right]
  by (simp add: Ball_def)

section \<open>Use of the private key\<close>

definition reuse_refused :: "peer_handshake_error + pending_confirmation" where
  "reuse_refused = Inl (protocol_error PhEphemeralKeyConsumed
     ''reject_reused_ephemeral_private_key'' kNoFieldTag)"

lemma derive_consumes:
  "derive_pending_after_peer_identity_verified p role t k = (r, k') \<Longrightarrow>
     ek_impl k' = None \<and> (ek_impl k = None \<longrightarrow> r = reuse_refused)"
  by (auto simp: derive_pending_after_peer_identity_verified_def reuse_refused_def Let_def
      split: option.splits)

lemma consumed_key_run:
  "run_outputs (\<lambda>(role, t). derive_pending_after_peer_identity_verified p role t) attempts k =
     (results, k') \<Longrightarrow> ek_impl k = None \<Longrightarrow>
   (\<forall>r \<in> set results. r = reuse_refused) \<and> ek_impl k' = None"
proof (induction attempts arbitrary: k results)
  case (Cons a attempts)
  from Cons.prems(1) obtain r k1 rs
    where step: "(case a of (role, t) \<Rightarrow> derive_pending_after_peer_identity_verified p role t) k = (r, k1)"
    and rest: "run_outputs (\<lambda>(role, t). derive_pending_after_peer_identity_verified p role t) attempts k1 =
      (rs, k')" and results: "results = r # rs"
    by (rule run_outputs_Cons_split)
  have "ek_impl k1 = None \<and> r = reuse_refused"
    using step derive_consumes [of p "fst a" "snd a" k r k1] Cons.prems(2)
    by (simp add: case_prod_unfold)
  with Cons.IH [OF rest] results show ?case by simp
qed simp

text \<open>
  C15. The ephemeral private key takes part in at most one derivation: of any sequence of attempts on one
  key object, with any roles and transcripts, every one after the first is refused as a reuse,
  whether the first succeeded or failed, and the key no longer counts as fresh for signing.
\<close>

theorem ephemeral_key_used_once:
  assumes "run_outputs (\<lambda>(role, t). derive_pending_after_peer_identity_verified p role t) attempts k =
      (results, k')"
    and "attempts \<noteq> []"
  shows "(\<forall>r \<in> set (tl results). r = Inl (protocol_error PhEphemeralKeyConsumed
            ''reject_reused_ephemeral_private_key'' kNoFieldTag)) \<and>
    has_error (is_fresh_for_host_transcript_signing k')"
proof -
  let ?step = "\<lambda>(role, t). derive_pending_after_peer_identity_verified p role t"
  obtain a as where as: "attempts = a # as" using assms(2) by (cases attempts) auto
  obtain r k1 rs where step: "?step a k = (r, k1)" and rest: "run_outputs ?step as k1 = (rs, k')"
    and results: "results = r # rs"
    using assms(1) unfolding as by (rule run_outputs_Cons_split)
  have "ek_impl k1 = None"
    using step derive_consumes [of p "fst a" "snd a" k r k1] by (simp add: case_prod_unfold)
  from consumed_key_run [OF rest this] results show ?thesis
    by (simp add: is_fresh_for_host_transcript_signing_def reuse_refused_def)
qed

section \<open>Release of the session\<close>

text \<open>The operations a holder of a pending confirmation can perform, and their results.\<close>

datatype pending_op = CreateFinished | ConfirmPeer bytes

datatype pending_result =
    FinishedResult "peer_handshake_error + bytes"
  | ConfirmResult "peer_handshake_error + peer_handshake_session"

fun pending_step ::
  "platform \<Rightarrow> pending_op \<Rightarrow> pending_confirmation \<Rightarrow> pending_result \<times> pending_confirmation" where
  "pending_step p CreateFinished c = apfst FinishedResult (create_local_finished_mac p c)"
| "pending_step p (ConfirmPeer m) c = apfst ConfirmResult (confirm_peer_finished_and_consume p m c)"

definition pending_sealed :: "pending_confirmation \<Rightarrow> bool" where
  "pending_sealed c \<longleftrightarrow> pc_closed c \<and> pc_unconfirmed_session c = None"

fun refused :: "pending_result \<Rightarrow> bool" where
  "refused (FinishedResult r) = (\<exists>e. r = Inl e)"
| "refused (ConfirmResult r) = (\<exists>e. r = Inl e)"

lemma sealed_step:
  "pending_sealed c \<Longrightarrow> pending_step p op c = (r, c') \<Longrightarrow> refused r \<and> pending_sealed c'"
  by (cases op)
     (auto simp: pending_sealed_def create_local_finished_mac_def confirm_peer_finished_and_consume_def
        close_pending_def)

lemma sealed_run:
  "pending_sealed c \<Longrightarrow> run_outputs (pending_step p) ops c = (rs, c') \<Longrightarrow> list_all refused rs"
proof (induction ops arbitrary: c rs)
  case (Cons op ops)
  from Cons.prems(2) obtain r c1 rs1 where step: "pending_step p op c = (r, c1)"
    and rest: "run_outputs (pending_step p) ops c1 = (rs1, c')" and "rs = r # rs1"
    by (rule run_outputs_Cons_split)
  with sealed_step [OF Cons.prems(1) step] Cons.IH [OF _ rest] show ?case by simp
qed simp

text \<open>Every confirmation attempt, whatever its outcome, seals the pending state.\<close>

lemma confirm_seals:
  "confirm_peer_finished_and_consume p m c = (r, c') \<Longrightarrow> pending_sealed c'"
  by (auto simp: confirm_peer_finished_and_consume_def pending_sealed_def close_pending_def Let_def
      split: option.splits if_splits)

lemma verify_ok:
  "\<not> has_error (verify_finished_mac_for_role p s role m) \<Longrightarrow>
     create_finished_mac_for_role p s role = Inr m \<or>
     (\<exists>e. create_finished_mac_for_role p s role = Inl e \<and> \<not> has_error e)"
  by (auto simp: verify_finished_mac_for_role_def split: sum.splits if_splits)

lemma run_digest_error: "run_digest r op = Inl e \<Longrightarrow> has_error e"
  using run_digest_codes [of r op e] by (auto simp: has_error_def)

lemma hmac_error: "hmac_sha256_bytes p k x op = Inl e \<Longrightarrow> has_error e"
  by (auto simp: hmac_sha256_bytes_def split: if_splits intro: run_digest_error)

lemma create_finished_error: "create_finished_mac_for_role p s role = Inl e \<Longrightarrow> has_error e"
  by (auto simp: create_finished_mac_for_role_def split: option.splits intro: hmac_error)

lemma confirm_InrE:
  assumes "confirm_peer_finished_and_consume p m c = (Inr s', c')"
  obtains s where "pc_unconfirmed_session c = Some s" "pc_local_finished_generated c"
    "create_finished_mac_for_role p s (peer_role (pc_local_role c)) = Inr m"
    "s' = confirmed_session (pc_local_role c) s"
proof -
  from assms obtain s where s: "pc_unconfirmed_session c = Some s" "pc_local_finished_generated c"
    "\<not> has_error (verify_finished_mac_for_role p s (peer_role (pc_local_role c)) m)"
    "s' = confirmed_session (pc_local_role c) s"
    by (auto simp: confirm_peer_finished_and_consume_def Let_def split: option.splits if_splits)
  with verify_ok [OF s(3)] create_finished_error that show thesis by blast
qed

text \<open>What stays true of a pending state while no confirmation has been attempted.\<close>

lemma create_keeps:
  assumes "create_local_finished_mac p c = (r, c')" and "pc_unconfirmed_session c' = Some s"
  shows "pc_unconfirmed_session c = Some s \<and> pc_local_role c' = pc_local_role c \<and>
    (pc_local_finished_generated c' \<longrightarrow> pc_local_finished_generated c \<or> (\<exists>d. r = Inr d))"
  using assms
  by (cases "create_finished_mac_for_role p (the (pc_unconfirmed_session c)) (pc_local_role c)")
     (auto simp: create_local_finished_mac_def close_pending_def split: if_splits, metis)

fun own_finished_sent :: "pending_result \<Rightarrow> bool" where
  "own_finished_sent (FinishedResult (Inr _)) = True"
| "own_finished_sent _ = False"

lemma release_only_confirmed_from:
  assumes "run_outputs (pending_step p) ops c = (rs, c')"
    and "pc_unconfirmed_session c = Some s" and "i < length rs" and "rs ! i = ConfirmResult (Inr s')"
  shows "(\<exists>m. ops ! i = ConfirmPeer m \<and>
       create_finished_mac_for_role p s (peer_role (pc_local_role c)) = Inr m) \<and>
    s' = confirmed_session (pc_local_role c) s \<and>
    (pc_local_finished_generated c \<or> list_ex own_finished_sent (take i rs)) \<and>
    list_all refused (drop (Suc i) rs) \<and> \<not> list_ex (\<lambda>r. \<exists>x. r = ConfirmResult x) (take i rs)"
  using assms
proof (induction ops arbitrary: c rs i)
  case (Cons op ops)
  from Cons.prems(1) obtain r c1 rs1 where step: "pending_step p op c = (r, c1)"
    and rest: "run_outputs (pending_step p) ops c1 = (rs1, c')" and rs: "rs = r # rs1"
    by (rule run_outputs_Cons_split)
  show ?case
  proof (cases op)
    case CreateFinished
    with step obtain x where create: "create_local_finished_mac p c = (x, c1)" and r: "r = FinishedResult x"
      by (auto simp: apfst_def map_prod_def split: prod.splits)
    obtain j where i: "i = Suc j" using Cons.prems(4) rs r by (cases i) auto
    have nth: "j < length rs1" "rs1 ! j = ConfirmResult (Inr s')" using Cons.prems(3,4) rs i by simp_all
    have open_: "pc_unconfirmed_session c1 = Some s"
    proof (rule ccontr)
      assume "pc_unconfirmed_session c1 \<noteq> Some s"
      then have "pending_sealed c1"
        using create Cons.prems(2)
        by (auto simp: create_local_finished_mac_def pending_sealed_def close_pending_def
            split: if_splits sum.splits)
      from sealed_run [OF this rest] nth show False by (auto simp: list_all_length)
    qed
    note IH = Cons.IH [OF rest open_ nth] and keep = create_keeps [OF create open_]
    have "pc_local_finished_generated c \<or> own_finished_sent r \<or> list_ex own_finished_sent (take j rs1)"
      using IH keep r by auto
    then show ?thesis using IH keep r rs i by simp
  next
    case (ConfirmPeer m)
    with step obtain x where confirm: "confirm_peer_finished_and_consume p m c = (x, c1)"
      and r: "r = ConfirmResult x"
      by (auto simp: apfst_def map_prod_def split: prod.splits)
    note later = sealed_run [OF confirm_seals [OF confirm] rest]
    have "i = 0"
      using Cons.prems(3,4) rs later by (cases i) (auto simp: list_all_length)
    then have "x = Inr s'" using Cons.prems(4) rs r by simp
    with confirm obtain s0 where "pc_unconfirmed_session c = Some s0" "pc_local_finished_generated c"
      "create_finished_mac_for_role p s0 (peer_role (pc_local_role c)) = Inr m"
      "s' = confirmed_session (pc_local_role c) s0"
      by (auto elim: confirm_InrE)
    with Cons.prems(2) later \<open>i = 0\<close> rs ConfirmPeer show ?thesis by simp
  qed
qed simp

text \<open>
  C9. A pending confirmation releases its session only for the Finished value of the other role, only
  after it has emitted its own, and once: whatever is called on it, a released session is the
  derived one without its Finished keys and exporter, no confirmation was attempted before the one
  that succeeded, and everything after it is refused.
\<close>

theorem session_released_once:
  assumes "run_outputs (pending_step p) ops (make_pending role (Some s)) = (rs, c')"
    and "i < length rs" and "rs ! i = ConfirmResult (Inr s')"
  shows "(\<exists>m. ops ! i = ConfirmPeer m \<and> create_finished_mac_for_role p s (peer_role role) = Inr m) \<and>
    s' = confirmed_session role s \<and>
    list_ex own_finished_sent (take i rs) \<and>
    list_all refused (drop (Suc i) rs) \<and> \<not> list_ex (\<lambda>r. \<exists>x. r = ConfirmResult x) (take i rs)"
  using release_only_confirmed_from [OF assms(1) _ assms(2,3)] by (simp add: make_pending_def)

section \<open>Two endpoints agree\<close>

text \<open>What the key schedule yields on a working provider, independent of the role.\<close>

definition material_of :: "(bytes \<Rightarrow> bytes \<Rightarrow> bytes) \<Rightarrow> bytes \<Rightarrow> string \<Rightarrow> nat \<Rightarrow> bytes" where
  "material_of mac prk label n = hkdf_reference mac prk (string_bytes label) n"

definition session_of ::
  "(bytes \<Rightarrow> bytes) \<Rightarrow> (bytes \<Rightarrow> bytes \<Rightarrow> bytes) \<Rightarrow> bytes \<Rightarrow> peer_handshake_role \<Rightarrow>
     canonical_transcript \<Rightarrow> peer_handshake_session" where
  "session_of sha mac prk role t =
     \<lparr>hs_local_role = role,
      hs_binding = \<lparr>pb_pair_id = tf_pair_id (ctr_fields t),
        pb_host_identity_spki_sha256 = tf_host_identity_spki_sha256 (ctr_fields t),
        pb_android_identity_spki_sha256 = tf_android_identity_spki_sha256 (ctr_fields t),
        pb_connection_id = tf_connection_id (ctr_fields t),
        pb_session_generation = tf_session_generation (ctr_fields t),
        pb_transcript_sha256 = ctr_transcript_sha256 t,
        pb_channel_binding_sha256 = sha (string_bytes kChannelBindingDomain @ ctr_transcript_sha256 t @
          material_of mac prk kChannelBindingExporterLabel 32)\<rparr>,
      hs_control_host_to_android = material_of mac prk kControlHostToAndroidLabel 36,
      hs_control_android_to_host = material_of mac prk kControlAndroidToHostLabel 36,
      hs_presence_host_to_android = material_of mac prk kPresenceHostToAndroidLabel 36,
      hs_video_host_to_android = material_of mac prk kVideoHostToAndroidLabel 36,
      hs_idr_android_to_host = material_of mac prk kIdrAndroidToHostLabel 36,
      hs_mouse_host_to_android = material_of mac prk kMouseHostToAndroidLabel 36,
      hs_finished_host = material_of mac prk kFinishedHostLabel 32,
      hs_finished_android = material_of mac prk kFinishedAndroidLabel 32,
      hs_channel_binding_exporter = material_of mac prk kChannelBindingExporterLabel 32\<rparr>"

lemma labels_usable:
  "\<forall>l \<in> {kControlHostToAndroidLabel, kControlAndroidToHostLabel, kPresenceHostToAndroidLabel,
      kVideoHostToAndroidLabel, kIdrAndroidToHostLabel, kMouseHostToAndroidLabel,
      kFinishedHostLabel, kFinishedAndroidLabel, kChannelBindingExporterLabel}.
     l \<noteq> [] \<and> length l \<le> 96"
  by (simp add: label_defs)

lemma labels_distinct:
  "distinct [kControlHostToAndroidLabel, kControlAndroidToHostLabel, kPresenceHostToAndroidLabel,
      kVideoHostToAndroidLabel, kIdrAndroidToHostLabel, kMouseHostToAndroidLabel,
      kFinishedHostLabel, kFinishedAndroidLabel, kChannelBindingExporterLabel]"
  by (simp add: label_defs)

lemma hkdf_expand_material:
  assumes "provider_computes p sha mac" and "length prk = 32"
    and "l \<noteq> [] \<and> length l \<le> 96" and "n \<le> 8160"
  shows "hkdf_expand_sha256 p prk l n = Inr (material_of mac prk l n)"
  using assms hkdf_loop_blocks [of p sha mac prk l n 0 0]
  by (simp add: hkdf_expand_sha256_def const_defs hkdf_reference_def material_of_def)

lemma material_length:
  "provider_computes p sha mac \<Longrightarrow> n \<le> 8160 \<Longrightarrow> length (material_of mac prk l n) = n"
  by (simp add: material_of_def hkdf_reference_length)

lemma expand_session_eq:
  assumes prov: "provider_computes p sha mac" and prk: "length prk = 32"
    and t: "length (ctr_transcript_sha256 t) = 32"
  shows "expand_session p prk role t = Inr (session_of sha mac prk role t)"
proof -
  note expand = hkdf_expand_material [OF prov prk]
  have sha: "sha256_bytes p (string_bytes kChannelBindingDomain @ ctr_transcript_sha256 t @
      material_of mac prk kChannelBindingExporterLabel 32) op =
      Inr (sha (string_bytes kChannelBindingDomain @ ctr_transcript_sha256 t @
      material_of mac prk kChannelBindingExporterLabel 32))" for op
    by (rule provider_sha [OF prov])
       (simp add: t material_length [OF prov] kChannelBindingDomain_def)
  show ?thesis
    using labels_usable
    by (simp add: expand_session_def session_of_def Let_def const_defs expand sha)
qed

text \<open>An endpoint that can take part: a fresh key whose public half is its own in the transcript.\<close>

definition endpoint_ready ::
  "platform \<Rightarrow> peer_handshake_role \<Rightarrow> ephemeral_key \<Rightarrow> canonical_transcript \<Rightarrow> bytes \<Rightarrow> bool" where
  "endpoint_ready p role k t secret \<longleftrightarrow>
     pl_win32 p \<and>
     (\<exists>handle own peer. ek_impl k = Some \<lparr>ki_algorithm = True, ki_key = Some handle\<rparr> \<and>
        transcript_keys role (ctr_fields t) = Some (own, peer) \<and> ek_public_key k = own \<and>
        shared_secret p handle peer = Inr secret)"

lemma derive_ready:
  assumes "provider_computes p sha mac" and "endpoint_ready p role k t secret"
    and "length (ctr_transcript_sha256 t) = 32" and "length secret = 32"
    and "tf_pair_id (ctr_fields t) \<noteq> []"
  shows "fst (derive_pending_after_peer_identity_verified p role t k) =
    Inr (make_pending role (Some (session_of sha mac (mac (ctr_transcript_sha256 t) secret) role t)))"
proof -
  have prk: "derive_prk p (ctr_transcript_sha256 t) secret = Inr (mac (ctr_transcript_sha256 t) secret)"
    using assms(3,4) by (simp add: derive_prk_def provider_mac [OF assms(1)])
  from assms(2) show ?thesis
    unfolding endpoint_ready_def
    by (auto simp: derive_pending_after_peer_identity_verified_def derive_with_impl_def Let_def
        assms(5) prk expand_session_eq [OF assms(1) _ assms(3)] provider_lengths [OF assms(1)])
qed

lemma finished_mac_eq:
  assumes "provider_computes p sha mac" and "length (ctr_transcript_sha256 t) = 32"
    and "role \<in> {HostRole, AndroidRole}"
  shows "create_finished_mac_for_role p (session_of sha mac prk r t) role =
    Inr (mac (material_of mac prk (if role = HostRole then kFinishedHostLabel else kFinishedAndroidLabel) 32)
      (string_bytes kFinishedProofDomain @ [role_byte role] @ ctr_transcript_sha256 t))"
proof -
  have "hmac_sha256_bytes p (material_of mac prk l 32)
      (string_bytes kFinishedProofDomain @ [role_byte role] @ ctr_transcript_sha256 t) op =
      Inr (mac (material_of mac prk l 32)
      (string_bytes kFinishedProofDomain @ [role_byte role] @ ctr_transcript_sha256 t))" for l op
    by (rule provider_mac [OF assms(1)])
       (simp_all add: material_length [OF assms(1)] assms(2) kFinishedProofDomain_def)
  with assms(3) show ?thesis
    by (auto simp: create_finished_mac_for_role_def session_of_def finished_message_def)
qed

text \<open>One side of the exchange: derive, emit the own Finished, take the peer's.\<close>

definition complete_endpoint ::
  "platform \<Rightarrow> peer_handshake_role \<Rightarrow> canonical_transcript \<Rightarrow> ephemeral_key \<Rightarrow> bytes \<Rightarrow>
     peer_handshake_error + (bytes \<times> (peer_handshake_error + peer_handshake_session))" where
  "complete_endpoint p role t k peer_finished =
     then_ok (fst (derive_pending_after_peer_identity_verified p role t k)) (\<lambda>pending.
       let (own, pending') = create_local_finished_mac p pending in
       then_ok own (\<lambda>mac.
         Inr (mac, fst (confirm_peer_finished_and_consume p peer_finished pending'))))"

lemma complete_ready:
  assumes "provider_computes p sha mac" and "endpoint_ready p role k t secret"
    and "length (ctr_transcript_sha256 t) = 32" and "length secret = 32"
    and "tf_pair_id (ctr_fields t) \<noteq> []" and "role \<in> {HostRole, AndroidRole}"
    and "S = session_of sha mac (mac (ctr_transcript_sha256 t) secret) role t"
    and "create_finished_mac_for_role p S role = Inr own"
    and "create_finished_mac_for_role p S (peer_role role) = Inr other"
  shows "complete_endpoint p role t k other = Inr (own, Inr (confirmed_session role S))"
  using derive_ready [OF assms(1-5)] assms(7-9)
  by (simp add: complete_endpoint_def create_local_finished_mac_def make_pending_def
      confirm_peer_finished_and_consume_def verify_finished_mac_for_role_def)

text \<open>
  C8. Two honest endpoints finish. If both hold a fresh ephemeral key that the transcript names as
  theirs, their providers work and the key agreement is symmetric (both derive the same secret), then
  there are Finished values such that each side emits its own, accepts the other's and is released
  a session; the sessions differ only in the recorded local role, bind the transcript's pair,
  identities, connection and generation, and carry 36 bytes for each of the six traffic directions.
\<close>

theorem endpoints_agree:
  assumes host: "provider_computes p\<^sub>H sha mac" "endpoint_ready p\<^sub>H HostRole k\<^sub>H t secret"
    and android: "provider_computes p\<^sub>A sha mac" "endpoint_ready p\<^sub>A AndroidRole k\<^sub>A t secret"
    and t: "length (ctr_transcript_sha256 t) = 32" "length secret = 32"
      "tf_pair_id (ctr_fields t) \<noteq> []"
  shows "\<exists>fin\<^sub>H fin\<^sub>A s.
    complete_endpoint p\<^sub>H HostRole t k\<^sub>H fin\<^sub>A = Inr (fin\<^sub>H, Inr (s\<lparr>hs_local_role := HostRole\<rparr>)) \<and>
    complete_endpoint p\<^sub>A AndroidRole t k\<^sub>A fin\<^sub>H = Inr (fin\<^sub>A, Inr (s\<lparr>hs_local_role := AndroidRole\<rparr>)) \<and>
    pb_pair_id (hs_binding s) = tf_pair_id (ctr_fields t) \<and>
    pb_host_identity_spki_sha256 (hs_binding s) = tf_host_identity_spki_sha256 (ctr_fields t) \<and>
    pb_android_identity_spki_sha256 (hs_binding s) = tf_android_identity_spki_sha256 (ctr_fields t) \<and>
    pb_connection_id (hs_binding s) = tf_connection_id (ctr_fields t) \<and>
    pb_session_generation (hs_binding s) = tf_session_generation (ctr_fields t) \<and>
    list_all (\<lambda>m. length m = kPeerHandshakeDataPlaneMaterialBytes)
      [hs_control_host_to_android s, hs_control_android_to_host s, hs_presence_host_to_android s,
       hs_video_host_to_android s, hs_idr_android_to_host s, hs_mouse_host_to_android s]"
proof -
  let ?prk = "mac (ctr_transcript_sha256 t) secret"
  let ?S = "\<lambda>role. session_of sha mac ?prk role t"
  obtain fin\<^sub>H where finH: "create_finished_mac_for_role p (?S r) HostRole = Inr fin\<^sub>H"
    if "provider_computes p sha mac" for p r
    using finished_mac_eq [OF _ t(1), of _ sha mac HostRole ?prk] by simp
  obtain fin\<^sub>A where finA: "create_finished_mac_for_role p (?S r) AndroidRole = Inr fin\<^sub>A"
    if "provider_computes p sha mac" for p r
    using finished_mac_eq [OF _ t(1), of _ sha mac AndroidRole ?prk] by simp
  have "complete_endpoint p\<^sub>H HostRole t k\<^sub>H fin\<^sub>A =
      Inr (fin\<^sub>H, Inr (confirmed_session HostRole (?S HostRole)))"
    by (rule complete_ready [OF host t]) (simp_all add: finH finA host peer_role_def)
  moreover have "complete_endpoint p\<^sub>A AndroidRole t k\<^sub>A fin\<^sub>H =
      Inr (fin\<^sub>A, Inr (confirmed_session AndroidRole (?S AndroidRole)))"
    by (rule complete_ready [OF android t]) (simp_all add: finH finA android peer_role_def)
  moreover have "confirmed_session role (?S role) =
      (confirmed_session HostRole (?S HostRole))\<lparr>hs_local_role := role\<rparr>" for role
    by (simp add: confirmed_session_def session_of_def)
  ultimately show ?thesis
    by (intro exI [of _ fin\<^sub>H] exI [of _ fin\<^sub>A] exI [of _ "confirmed_session HostRole (?S HostRole)"])
       (simp add: confirmed_session_def session_of_def material_length [OF host(1)] const_defs)
qed

text \<open>The two halves of the traffic material are exactly the key and the nonce prefix.\<close>

lemma data_plane_view_splits:
  assumes "length m = kPeerHandshakeDataPlaneMaterialBytes"
  shows "kv_aes_256_key (data_plane_view m) @ kv_nonce_prefix (data_plane_view m) = m"
    "length (kv_aes_256_key (data_plane_view m)) = 32" "length (kv_nonce_prefix (data_plane_view m)) = 4"
  using assms by (simp_all add: data_plane_view_def const_defs)

section \<open>A concrete exchange\<close>

definition toy_key :: "nat \<Rightarrow> bytes \<Rightarrow> ephemeral_key" where
  "toy_key handle public_key =
     \<lparr>ek_impl = Some \<lparr>ki_algorithm = True, ki_key = Some handle\<rparr>, ek_public_key = public_key\<rparr>"

lemma last_replicate_64: "last (replicate 64 (b :: u8)) = b"
  by simp

lemma toy_endpoints:
  "endpoint_ready toy_platform HostRole (toy_key 1 (4 # replicate 64 1)) largest_transcript
     (rev (pad32 [3]))"
  "endpoint_ready toy_platform AndroidRole (toy_key 2 (4 # replicate 64 2)) largest_transcript
     (rev (pad32 [3]))"
  by (simp_all add: endpoint_ready_def toy_key_def largest_transcript_def largest_fields_def
      shared_secret_def import_peer_public_key_def validate_sec1_p256_public_key_def
      toy_platform_def toy_secret_def bcrypt_succeeded_def Let_def last_replicate_64)

theorem endpoints_agree_witness:
  "\<exists>fin\<^sub>H fin\<^sub>A s.
    complete_endpoint toy_platform HostRole largest_transcript (toy_key 1 (4 # replicate 64 1)) fin\<^sub>A =
      Inr (fin\<^sub>H, Inr (s\<lparr>hs_local_role := HostRole\<rparr>)) \<and>
    complete_endpoint toy_platform AndroidRole largest_transcript (toy_key 2 (4 # replicate 64 2)) fin\<^sub>H =
      Inr (fin\<^sub>A, Inr (s\<lparr>hs_local_role := AndroidRole\<rparr>)) \<and>
    pb_connection_id (hs_binding s) = 7"
proof -
  have "length (ctr_transcript_sha256 largest_transcript) = 32"
    "tf_pair_id (ctr_fields largest_transcript) \<noteq> []"
    "tf_connection_id (ctr_fields largest_transcript) = 7"
    by (simp_all add: largest_transcript_def largest_fields_def)
  with endpoints_agree [OF toy_provider toy_endpoints(1) toy_provider toy_endpoints(2)]
  show ?thesis by (auto simp del: split_paired_Ex)
qed

theorem hkdf_is_rfc5869_witness:
  "hkdf_expand_sha256 toy_platform (replicate 32 1) ''ab'' 40 =
     Inr (hkdf_reference toy_mac (replicate 32 1) (string_bytes ''ab'') 40)"
  by (rule hkdf_is_rfc5869 [OF toy_provider]) (simp_all add: const_defs)

theorem ephemeral_key_used_once_witness:
  "\<exists>r r' k'. run_outputs (\<lambda>(role, t). derive_pending_after_peer_identity_verified toy_platform role t)
     [(HostRole, largest_transcript), (HostRole, largest_transcript)]
     (toy_key 1 (4 # replicate 64 1)) = ([r, r'], k') \<and>
     (\<exists>c. r = Inr c) \<and> (\<exists>e. r' = Inl e)"
proof -
  let ?step = "\<lambda>(role, t). derive_pending_after_peer_identity_verified toy_platform role t"
  let ?ops = "[(HostRole, largest_transcript), (HostRole, largest_transcript)]"
  let ?k = "toy_key 1 (4 # replicate 64 1)"
  obtain rs k' where run: "run_outputs ?step ?ops ?k = (rs, k')" by (cases "run_outputs ?step ?ops ?k")
  have "length rs = 2" using run_outputs_length [of ?step ?ops ?k] run by simp
  then obtain r r' where rs: "rs = [r, r']" by (auto simp: length_Suc_conv numeral_2_eq_2)
  have "\<exists>e. r' = Inl e" using ephemeral_key_used_once [OF run] rs by simp
  moreover have "r = fst (derive_pending_after_peer_identity_verified toy_platform HostRole
      largest_transcript ?k)"
    using run rs by (auto simp: Let_def split: prod.splits)
  then have "\<exists>c. r = Inr c"
    using derive_ready [OF toy_provider toy_endpoints(1)]
    by (simp add: largest_transcript_def largest_fields_def)
  ultimately show ?thesis using run rs by auto
qed

text \<open>A run in which the session is released at the second call.\<close>

definition toy_session :: peer_handshake_session where
  "toy_session = session_of (\<lambda>x. pad32 (rev x)) toy_mac (replicate 32 5) HostRole largest_transcript"

theorem session_released_once_witness:
  "\<exists>m x r s'. run_outputs (pending_step toy_platform) [CreateFinished, ConfirmPeer m, ConfirmPeer m]
      (make_pending HostRole (Some toy_session)) = ([FinishedResult x, ConfirmResult (Inr s'), r],
        make_pending HostRole None) \<and> s' = confirmed_session HostRole toy_session \<and> refused r"
proof -
  have t: "length (ctr_transcript_sha256 largest_transcript) = 32" by (simp add: largest_transcript_def)
  obtain h where h: "create_finished_mac_for_role toy_platform toy_session HostRole = Inr h"
    using finished_mac_eq [OF toy_provider t, of HostRole] by (simp add: toy_session_def)
  obtain m where m: "create_finished_mac_for_role toy_platform toy_session AndroidRole = Inr m"
    using finished_mac_eq [OF toy_provider t, of AndroidRole] by (simp add: toy_session_def)
  obtain r where run: "run_outputs (pending_step toy_platform) [CreateFinished, ConfirmPeer m, ConfirmPeer m]
      (make_pending HostRole (Some toy_session)) =
      ([FinishedResult (Inr h), ConfirmResult (Inr (confirmed_session HostRole toy_session)), r],
       make_pending HostRole None)"
    using h m
    by (simp add: create_local_finished_mac_def make_pending_def confirm_peer_finished_and_consume_def
        verify_finished_mac_for_role_def peer_role_def close_pending_def)
  with session_released_once [OF run, of 1 "confirmed_session HostRole toy_session"]
  show ?thesis by auto
qed

section \<open>Names of the errors\<close>

fun peer_handshake_error_code_name :: "peer_handshake_error_code \<Rightarrow> string" where
  "peer_handshake_error_code_name PhNone = ''none''"
| "peer_handshake_error_code_name PhAllocationFailed = ''allocation_failed''"
| "peer_handshake_error_code_name PhTranscriptTooLarge = ''transcript_too_large''"
| "peer_handshake_error_code_name PhTruncatedTlv = ''truncated_tlv''"
| "peer_handshake_error_code_name PhUnknownTag = ''unknown_tag''"
| "peer_handshake_error_code_name PhDuplicateTag = ''duplicate_tag''"
| "peer_handshake_error_code_name PhOutOfOrderTag = ''out_of_order_tag''"
| "peer_handshake_error_code_name PhMissingField = ''missing_field''"
| "peer_handshake_error_code_name PhInvalidFieldLength = ''invalid_field_length''"
| "peer_handshake_error_code_name PhInvalidDomain = ''invalid_domain''"
| "peer_handshake_error_code_name PhUnsupportedProtocolVersion = ''unsupported_protocol_version''"
| "peer_handshake_error_code_name PhInvalidIdentityBinding = ''invalid_identity_binding''"
| "peer_handshake_error_code_name PhInvalidEphemeralPublicKey = ''invalid_ephemeral_public_key''"
| "peer_handshake_error_code_name PhInvalidNonce = ''invalid_nonce''"
| "peer_handshake_error_code_name PhInvalidConnectionId = ''invalid_connection_id''"
| "peer_handshake_error_code_name PhInvalidSessionGeneration = ''invalid_session_generation''"
| "peer_handshake_error_code_name PhInvalidTransportKind = ''invalid_transport_kind''"
| "peer_handshake_error_code_name PhInvalidEndpoint = ''invalid_endpoint''"
| "peer_handshake_error_code_name PhInvalidPairId = ''invalid_pair_id''"
| "peer_handshake_error_code_name PhInvalidRuntimeVersion = ''invalid_runtime_version''"
| "peer_handshake_error_code_name PhInvalidPairIdRequirement = ''invalid_pair_id_requirement''"
| "peer_handshake_error_code_name PhInvalidRole = ''invalid_role''"
| "peer_handshake_error_code_name PhPairBindingRequired = ''pair_binding_required_for_key_derivation''"
| "peer_handshake_error_code_name PhEphemeralKeyConsumed = ''ephemeral_private_key_already_consumed''"
| "peer_handshake_error_code_name PhLocalEphemeralKeyMismatch = ''local_ephemeral_key_mismatch''"
| "peer_handshake_error_code_name PhPendingConfirmationClosed = ''pending_confirmation_closed''"
| "peer_handshake_error_code_name PhLocalFinishedNotGenerated = ''local_finished_not_generated''"
| "peer_handshake_error_code_name PhPeerFinishedFailed = ''peer_finished_authentication_failed''"
| "peer_handshake_error_code_name PhPlatformCryptoUnavailable = ''platform_crypto_unavailable''"
| "peer_handshake_error_code_name PhCryptoProviderFailed = ''crypto_provider_failed''"
| "peer_handshake_error_code_name PhCryptoOperationFailed = ''crypto_operation_failed''"
| "peer_handshake_error_code_name PhHkdfOutputTooLarge = ''hkdf_output_too_large''"

end
