(* ===== verification/Host_Session.thy ===== *)
theory Host_Session
  imports Data_Plane Peer_Handshake
begin

text \<open>
  The owner of the four authenticated traffic domains of a confirmed session
  (\<^verbatim>\<open>host/windows/src/host_authenticated_data_plane_session_v2.cpp\<close>) and the mouse-button payloads it
  carries (\<^verbatim>\<open>shared/src/authenticated_mouse_button_v2.cpp\<close>). It joins the two components it is made
  of: the keys come from the handshake, the sealers and the opener are those of the data plane.

  The AES-GCM provider is a parameter, for every 32-byte key a cipher; \<open>gcm_total\<close> and
  \<open>gcm_correct\<close> are what is asked of it where a statement needs them. Shown: the domains never
  accept each other's datagrams, and datagrams sealed by the session all open at the peer, each once,
  whatever the network did to their order within the replay window.
\<close>

section \<open>The session\<close>

record gcm_provider =
  gp_imports :: "bytes \<Rightarrow> bool"
  gp_encrypt :: "bytes \<Rightarrow> gcm_encrypt"
  gp_decrypt :: "bytes \<Rightarrow> gcm_decrypt"

definition make_key :: "data_plane_key_view \<Rightarrow> u64 \<Rightarrow> direction \<Rightarrow> packet_type \<Rightarrow> traffic_key" where
  "make_key view cid dir ptype =
     \<lparr>key_tuple = \<lparr>connection_id = cid, key_epoch = 1, tuple_direction = dir, tuple_packet_type = ptype\<rparr>,
      aes_256_key = kv_aes_256_key view, nonce_prefix = kv_nonce_prefix view\<rparr>"

text \<open>The four traffic domains \<^verbatim>\<open>create\<close> makes a key for, each with its direction and type.\<close>

datatype traffic_domain = VideoDomain | PresenceDomain | IdrDomain | MouseDomain

fun domain_key :: "peer_handshake_session \<Rightarrow> traffic_domain \<Rightarrow> traffic_key" where
  "domain_key s VideoDomain = make_key (data_plane_view (hs_video_host_to_android s))
     (pb_connection_id (hs_binding s)) HostToAndroid Video"
| "domain_key s PresenceDomain = make_key (data_plane_view (hs_presence_host_to_android s))
     (pb_connection_id (hs_binding s)) HostToAndroid PresenceProbe"
| "domain_key s IdrDomain = make_key (data_plane_view (hs_idr_android_to_host s))
     (pb_connection_id (hs_binding s)) AndroidToHost IdrRequest"
| "domain_key s MouseDomain = make_key (data_plane_view (hs_mouse_host_to_android s))
     (pb_connection_id (hs_binding s)) HostToAndroid MouseButton"

text \<open>
  Each sealer and opener holds the cipher that was imported from its key at construction; the model
  keeps that key beside it. The pointers to them are never null in a created object.
\<close>

record host_data_plane_session =
  hd_connection_id :: u64
  hd_video :: packet_sealer
  hd_video_key :: bytes
  hd_presence :: packet_sealer
  hd_presence_key :: bytes
  hd_idr :: packet_opener
  hd_idr_key :: bytes
  hd_mouse_button :: packet_sealer
  hd_mouse_button_key :: bytes

definition create_data_plane_session ::
  "gcm_provider option \<Rightarrow> peer_handshake_session \<Rightarrow> host_data_plane_session option" where
  "create_data_plane_session provider s =
     (if hs_local_role s \<noteq> HostRole \<or> pb_connection_id (hs_binding s) = 0 then None
      else case provider of
          None \<Rightarrow> None
        | Some gp \<Rightarrow>
            let cid = pb_connection_id (hs_binding s);
                video = domain_key s VideoDomain; presence = domain_key s PresenceDomain;
                idr = domain_key s IdrDomain; mouse = domain_key s MouseDomain in
            Some \<lparr>hd_connection_id = cid,
              hd_video = make_sealer video (gp_imports gp (aes_256_key video)) 0,
              hd_video_key = aes_256_key video,
              hd_presence = make_sealer presence (gp_imports gp (aes_256_key presence)) 0,
              hd_presence_key = aes_256_key presence,
              hd_idr = make_opener idr (gp_imports gp (aes_256_key idr)),
              hd_idr_key = aes_256_key idr,
              hd_mouse_button = make_sealer mouse (gp_imports gp (aes_256_key mouse)) 0,
              hd_mouse_button_key = aes_256_key mouse\<rparr>)"

definition seal_video ::
  "bool \<Rightarrow> gcm_provider \<Rightarrow> bytes \<Rightarrow> host_data_plane_session \<Rightarrow> seal_result \<times> host_data_plane_session" where
  "seal_video alloc_ok gp plaintext h =
     (let (r, s) = seal_packet alloc_ok (gp_encrypt gp (hd_video_key h)) plaintext (hd_video h)
      in (r, h\<lparr>hd_video := s\<rparr>))"

definition seal_presence ::
  "bool \<Rightarrow> gcm_provider \<Rightarrow> bytes \<Rightarrow> host_data_plane_session \<Rightarrow> seal_result \<times> host_data_plane_session" where
  "seal_presence alloc_ok gp plaintext h =
     (let (r, s) = seal_packet alloc_ok (gp_encrypt gp (hd_presence_key h)) plaintext (hd_presence h)
      in (r, h\<lparr>hd_presence := s\<rparr>))"

definition open_idr ::
  "bool \<Rightarrow> gcm_provider \<Rightarrow> bytes \<Rightarrow> host_data_plane_session \<Rightarrow> open_result \<times> host_data_plane_session" where
  "open_idr alloc_ok gp datagram h =
     (let (r, s) = open_packet alloc_ok (gp_decrypt gp (hd_idr_key h)) datagram (hd_idr h)
      in (r, h\<lparr>hd_idr := s\<rparr>))"

definition seal_mouse_button ::
  "bool \<Rightarrow> gcm_provider \<Rightarrow> bytes \<Rightarrow> host_data_plane_session \<Rightarrow> seal_result \<times> host_data_plane_session" where
  "seal_mouse_button alloc_ok gp plaintext h =
     (let (r, s) = seal_packet alloc_ok (gp_encrypt gp (hd_mouse_button_key h)) plaintext
            (hd_mouse_button h)
      in (r, h\<lparr>hd_mouse_button := s\<rparr>))"

section \<open>Mouse-button payloads\<close>

definition kAuthenticatedMouseButtonKeyEpochV1 :: u32 where "kAuthenticatedMouseButtonKeyEpochV1 = 1"
definition kAuthenticatedMouseButtonPayloadBytes :: nat where
  "kAuthenticatedMouseButtonPayloadBytes = 1"
definition kAuthenticatedMouseButtonValidMask :: u8 where "kAuthenticatedMouseButtonValidMask = 0x1F"

definition make_authenticated_mouse_button_host_to_android_tuple :: "u64 \<Rightarrow> packet_tuple" where
  "make_authenticated_mouse_button_host_to_android_tuple cid =
     \<lparr>connection_id = cid, key_epoch = kAuthenticatedMouseButtonKeyEpochV1,
      tuple_direction = HostToAndroid, tuple_packet_type = MouseButton\<rparr>"

definition make_authenticated_mouse_button_host_to_android_key :: "u64 \<Rightarrow> bytes \<Rightarrow> traffic_key" where
  "make_authenticated_mouse_button_host_to_android_key cid traffic_material =
     \<lparr>key_tuple = make_authenticated_mouse_button_host_to_android_tuple cid,
      aes_256_key = take 32 traffic_material,
      nonce_prefix = take 4 (drop 32 traffic_material)\<rparr>"

text \<open>The destination byte is returned together with the success flag.\<close>

definition encode_authenticated_mouse_button_payload :: "u8 \<Rightarrow> bool \<times> u8" where
  "encode_authenticated_mouse_button_payload button_mask =
     (if button_mask AND NOT kAuthenticatedMouseButtonValidMask \<noteq> 0 then (False, 0)
      else (True, button_mask))"

definition decode_authenticated_mouse_button_payload :: "bytes \<Rightarrow> bool \<times> u8" where
  "decode_authenticated_mouse_button_payload plaintext =
     (if length plaintext \<noteq> kAuthenticatedMouseButtonPayloadBytes then (False, 0)
      else if plaintext ! 0 AND NOT kAuthenticatedMouseButtonValidMask \<noteq> 0 then (False, 0)
      else (True, plaintext ! 0))"

text \<open>The receiver's key for mouse buttons is the one the session seals with.\<close>

lemma mouse_key_agrees:
  assumes "length m = kPeerHandshakeDataPlaneMaterialBytes"
  shows "make_authenticated_mouse_button_host_to_android_key cid m =
    make_key (data_plane_view m) cid HostToAndroid MouseButton"
  using assms
  by (simp add: make_authenticated_mouse_button_host_to_android_key_def make_key_def
      make_authenticated_mouse_button_host_to_android_tuple_def data_plane_view_def
      kAuthenticatedMouseButtonKeyEpochV1_def const_defs)

lemma mouse_payload_roundtrip:
  "decode_authenticated_mouse_button_payload bs = (True, b) \<longleftrightarrow>
     encode_authenticated_mouse_button_payload b = (True, b) \<and> bs = [b]"
  by (cases bs)
     (auto simp: decode_authenticated_mouse_button_payload_def
        encode_authenticated_mouse_button_payload_def kAuthenticatedMouseButtonPayloadBytes_def)

section \<open>Domain separation\<close>

lemma domain_tuples_distinct:
  "d \<noteq> e \<Longrightarrow> key_tuple (domain_key s d) \<noteq> key_tuple (domain_key s e)"
  by (cases d; cases e) (simp_all add: make_key_def)

text \<open>
  C23. A datagram sealed for one traffic domain of a session is opened by no receiver of another domain
  of that session, whatever its cipher and replay state: the type and direction in the
  authenticated header are compared first.
\<close>

theorem domains_separated:
  assumes "gcm_correct enc dec" and "sealer_wf a" and "sealer_tuple a = key_tuple (domain_key s d)"
    and "seal_packet al enc pt a = (r, a')" and "seal_status r = Sealed"
    and "opener_tuple b = key_tuple (domain_key s e)" and "d \<noteq> e"
  shows "open_status (fst (open_packet al' dec' (seal_datagram r) b)) \<noteq> Opened \<and>
    snd (open_packet al' dec' (seal_datagram r) b) = b"
proof -
  obtain res b' where o: "open_packet al' dec' (seal_datagram r) b = (res, b')" by fastforce
  have "open_status res \<noteq> Opened"
  proof
    assume "open_status res = Opened"
    from open_packet_Opened_result(1) [OF o this] obtain q where
      "parse_authenticated_packet_v2 (seal_datagram r) = (Parsed, q)" "packet_tuple q = opener_tuple b"
      unfolding opens_as_def by blast
    moreover obtain p where "packet_ok p" "seal_datagram r = packet_bytes p"
      "packet_tuple p = sealer_tuple a"
      using seal_packet_Sealed [OF assms(4,5,1)] assms(2) by (auto simp: sealer_wf_def)
    ultimately have "sealer_tuple a = opener_tuple b" by (simp add: parse_packet_bytes)
    with assms(3,6) domain_tuples_distinct [OF assms(7), of s] show False by metis
  qed
  with o open_packet_refused(1) [OF o] show ?thesis by simp
qed

section \<open>Every datagram of a flight opens once\<close>

definition gcm_total :: "gcm_encrypt \<Rightarrow> bool" where
  "gcm_total enc \<longleftrightarrow> (\<forall>n a p. enc n a p \<noteq> None)"

text \<open>A datagram that carries plaintext \<open>pt\<close> under counter \<open>c\<close> for an opener of this key.\<close>

definition carries :: "gcm_decrypt \<Rightarrow> packet_tuple \<Rightarrow> bytes \<Rightarrow> bytes \<Rightarrow> u64 \<Rightarrow> bytes \<Rightarrow> bool" where
  "carries dec tup prefix d c pt \<longleftrightarrow>
     (\<exists>p. parse_authenticated_packet_v2 d = (Parsed, p) \<and> packet_tuple p = tup \<and> counter p = c \<and>
        dec (compose_authenticated_packet_nonce prefix c) (authenticated_header p) (ciphertext p)
          (tag p) = Some pt)"

lemma small_window_classify:
  assumes "\<forall>a \<in> A. unat a < 1024" and "finite A" and "unat c < 1024"
  shows "spec_classify A c = (if c \<in> A then Duplicate else Fresh)"
proof (cases "A = {} \<or> Max A < c")
  case True
  then have "c \<notin> A" using assms(2) by (auto simp: not_le [symmetric])
  with True show ?thesis by (simp add: spec_classify_def)
next
  case False
  then have "Max A \<in> A" using assms(2) by (auto intro: Max_in)
  then have "unat (Max A) < 1024" using assms(1) by blast
  moreover have "c \<le> Max A" using False by (simp add: not_less)
  then have "unat (Max A - c) = unat (Max A) - unat c" by (simp add: unat_sub)
  ultimately have "\<not> 1024 \<le> unat (Max A - c)" by linarith
  with False show ?thesis by (simp add: spec_classify_def)
qed

definition opened_plaintexts :: "open_result list \<Rightarrow> bytes list" where
  "opened_plaintexts rs = map open_plaintext (filter (\<lambda>r. open_status r = Opened) rs)"

lemma opened_plaintexts_Cons:
  "opened_plaintexts (r # rs) =
     (if open_status r = Opened then open_plaintext r # opened_plaintexts rs else opened_plaintexts rs)"
  by (simp add: opened_plaintexts_def)

lemma insert_absorb_subset: "Y \<subseteq> {x} \<Longrightarrow> insert x (X \<union> Y) = insert x X"
  by blast

text \<open>
  The opener over any arrival order: of datagrams whose counters lie within one replay window it
  returns exactly the plaintexts whose counters were not accepted before.
\<close>

lemma flight_opens:
  assumes "window_rel (opener_window b) A" and "\<forall>a \<in> A. unat a < 1024" and "finite A"
    and "opener_ready b" and "opener_tuple b = tup" and "opener_nonce_prefix b = prefix"
    and "\<forall>d \<in> set ds. unat (cnt d) < 1024 \<and> carries dec tup prefix d (cnt d) (pt d)"
    and "\<forall>d \<in> set ds. \<forall>e \<in> set ds. cnt d = cnt e \<longrightarrow> pt d = pt e"
  shows "set (opened_plaintexts (fst (run_outputs (open_packet True dec) ds b))) =
      pt ` {d \<in> set ds. cnt d \<notin> A}"
  using assms
proof (induction ds arbitrary: b A)
  case Nil
  show ?case by (simp add: opened_plaintexts_def)
next
  case (Cons d ds)
  have d: "unat (cnt d) < 1024" "carries dec tup prefix d (cnt d) (pt d)" using Cons.prems(7) by auto
  obtain r b1 where step: "open_packet True dec d b = (r, b1)" by fastforce
  obtain ok w where com: "commit_authenticated (opener_window b) (cnt d) = (ok, w)" by fastforce
  have ok: "ok \<longleftrightarrow> cnt d \<notin> A"
    using commit_refines(1) [OF Cons.prems(1) com] small_window_classify [OF Cons.prems(2,3) d(1)] by simp
  have run: "fst (run_outputs (open_packet True dec) (d # ds) b) =
      r # fst (run_outputs (open_packet True dec) ds b1)"
    using step by (simp add: case_prod_unfold Let_def)
  show ?case
  proof (cases "cnt d \<in> A")
    case False
    then have com': "commit_authenticated (opener_window b) (cnt d) = (True, w)" using ok com by simp
    have "opens_as True dec d b (cnt d) (pt d) w"
      using d(2) Cons.prems(4-6) com' by (auto simp: opens_as_def carries_def)
    from open_packet_opened [OF this] step have r: "open_status r = Opened" "open_plaintext r = pt d"
      and b1: "b1 = b\<lparr>opener_window := w\<rparr>" by auto
    have "set (opened_plaintexts (fst (run_outputs (open_packet True dec) ds b1))) =
        pt ` {e \<in> set ds. cnt e \<notin> insert (cnt d) A}"
    proof (rule Cons.IH)
      show "window_rel (opener_window b1) (insert (cnt d) A)"
        using commit_refines(2) [OF Cons.prems(1) com'] b1 by simp
      show "\<forall>a \<in> insert (cnt d) A. unat a < 1024" using Cons.prems(2) d(1) by simp
      show "finite (insert (cnt d) A)" using Cons.prems(3) by simp
      show "opener_ready b1" "opener_tuple b1 = tup" "opener_nonce_prefix b1 = prefix"
        using Cons.prems(4-6) b1 by (simp_all add: opener_ready_def)
      show "\<forall>e \<in> set ds. unat (cnt e) < 1024 \<and> carries dec tup prefix e (cnt e) (pt e)"
        using Cons.prems(7) by simp
      show "\<forall>e \<in> set ds. \<forall>e' \<in> set ds. cnt e = cnt e' \<longrightarrow> pt e = pt e'"
        using Cons.prems(8) unfolding list.set by blast
    qed
    moreover have "pt ` {e \<in> set (d # ds). cnt e \<notin> A} =
        insert (pt d) (pt ` {e \<in> set ds. cnt e \<notin> insert (cnt d) A})"
    proof -
      let ?new = "{e \<in> set ds. cnt e \<notin> insert (cnt d) A}" and ?same = "{e \<in> set ds. cnt e = cnt d}"
      have "pt e = pt d" if "e \<in> ?same" for e
        using Cons.prems(8) that unfolding list.set by blast
      then have "pt ` ?same \<subseteq> {pt d}" by blast
      moreover have "{e \<in> set (d # ds). cnt e \<notin> A} = insert d (?new \<union> ?same)"
        using False by auto
      ultimately show ?thesis by (simp only: image_insert image_Un insert_absorb_subset)
    qed
    ultimately show ?thesis using run r by (simp add: opened_plaintexts_Cons)
  next
    case True
    have "open_status r \<noteq> Opened"
    proof
      assume o: "open_status r = Opened"
      from open_packet_Opened_result(1) [OF step o] d(2)
      have "commit_authenticated (opener_window b) (cnt d) = (True, opener_window b1)"
        by (auto simp: opens_as_def carries_def)
      with com ok True show False by simp
    qed
    then have b1: "b1 = b" using open_packet_refused(1) [OF step] by simp
    have "set (opened_plaintexts (fst (run_outputs (open_packet True dec) ds b))) =
        pt ` {e \<in> set ds. cnt e \<notin> A}"
      using Cons.IH [OF Cons.prems(1-6)] Cons.prems(7,8) unfolding list.set by blast
    moreover have "{e \<in> set (d # ds). cnt e \<notin> A} = {e \<in> set ds. cnt e \<notin> A}" using True by auto
    ultimately show ?thesis using run \<open>open_status r \<noteq> Opened\<close> b1
      by (simp add: opened_plaintexts_Cons)
  qed
qed

text \<open>
  Sealing a flight: on a total cipher every packet of permitted size is sealed, under consecutive
  counters, and carries its plaintext for an opener of the same key.
\<close>

lemma seal_one:
  assumes "gcm_total enc" and "gcm_correct enc dec" and "tuple_valid (sealer_tuple s)"
    and "sealer_has_cipher s" and "counter_available s" and "next_counter s = of_nat k" and "k < 1024"
    and "length pt \<le> kMaximumAuthenticatedPayloadBytes"
  obtains r where "seal_packet True enc pt s = (r, s\<lparr>next_counter := of_nat (Suc k)\<rparr>)"
    "seal_status r = Sealed" "seal_counter r = of_nat k"
    "carries dec (sealer_tuple s) (sealer_nonce_prefix s) (seal_datagram r) (of_nat k) pt"
proof -
  obtain r s' where seal: "seal_packet True enc pt s = (r, s')" by fastforce
  have k: "unat (of_nat k :: u64) = k" by (rule unat_of_nat_small) (use assms(7) in simp)
  have small: "(of_nat k :: u64) \<noteq> kMaximumAuthenticatedPacketCounter"
  proof
    assume "(of_nat k :: u64) = kMaximumAuthenticatedPacketCounter"
    then have "k = unat kMaximumAuthenticatedPacketCounter" using k by simp
    with assms(7) show False by (simp add: max_counter_eq)
  qed
  define f where "f n h = the (enc n h pt)" for n h
  have enc: "enc n h pt = Some (f n h)" for n h
    using assms(1) by (simp add: gcm_total_def f_def)
  have res: "seal_status r = Sealed" "seal_counter r = of_nat k" "s' = s\<lparr>next_counter := of_nat (Suc k)\<rparr>"
    using seal assms(3-6,8) small enc
    by (auto simp: seal_packet_def Let_def add.commute split: prod.splits if_splits)
  have "sealer_wf s" using assms(6,7) k by (simp add: sealer_wf_def max_counter_eq word_le_iff_unat)
  from seal_packet_Sealed [OF seal res(1) assms(2)] this obtain p where "packet_ok p"
    "seal_datagram r = packet_bytes p" "packet_tuple p = sealer_tuple s" "counter p = seal_counter r"
    "dec (compose_authenticated_packet_nonce (sealer_nonce_prefix s) (seal_counter r))
      (authenticated_header p) (ciphertext p) (tag p) = Some pt"
    by (auto simp: sealer_wf_def)
  then have "carries dec (sealer_tuple s) (sealer_nonce_prefix s) (seal_datagram r) (of_nat k) pt"
    using res(2) by (auto simp: carries_def parse_packet_bytes)
  with seal res that show thesis by simp
qed

lemma carries_unique:
  "carries dec tup prefix d c pt \<Longrightarrow> carries dec tup prefix d c' pt' \<Longrightarrow> c' = c \<and> pt' = pt"
  by (auto simp: carries_def)

lemma small_counter_inj:
  assumes "i < 1024" and "j < 1024" and "(of_nat i :: u64) = of_nat j"
  shows "i = j"
proof -
  have "unat (of_nat i :: u64) = unat (of_nat j :: u64)" using assms(3) by (rule arg_cong)
  moreover have "unat (of_nat i :: u64) = i" by (rule unat_of_nat_small) (use assms(1) in simp)
  moreover have "unat (of_nat j :: u64) = j" by (rule unat_of_nat_small) (use assms(2) in simp)
  ultimately show ?thesis by (simp only:)
qed

lemma seal_flight:
  assumes "gcm_total enc" and "gcm_correct enc dec" and "tuple_valid (sealer_tuple s)"
    and "sealer_has_cipher s" and "counter_available s" and "next_counter s = of_nat k"
    and "k + length pts \<le> 1024"
    and "\<forall>pt \<in> set pts. length pt \<le> kMaximumAuthenticatedPayloadBytes"
    and "run_outputs (seal_packet True enc) pts s = (rs, s')"
  shows "list_all2 (\<lambda>r (i, pt). carries dec (sealer_tuple s) (sealer_nonce_prefix s) (seal_datagram r)
      (of_nat i) pt) rs (zip [k..<k + length pts] pts)"
  using assms
proof (induction pts arbitrary: s k rs)
  case (Cons pt pts)
  have len: "k < 1024" "length pt \<le> kMaximumAuthenticatedPayloadBytes" using Cons.prems(7,8) by simp_all
  obtain r where r: "seal_packet True enc pt s = (r, s\<lparr>next_counter := of_nat (Suc k)\<rparr>)"
    "carries dec (sealer_tuple s) (sealer_nonce_prefix s) (seal_datagram r) (of_nat k) pt"
    by (rule seal_one [OF Cons.prems(1-6) len])
  obtain r0 s0 rs0 where "seal_packet True enc pt s = (r0, s0)"
    and rest: "run_outputs (seal_packet True enc) pts s0 = (rs0, s')" and rs: "rs = r0 # rs0"
    using Cons.prems(9) by (rule run_outputs_Cons_split)
  with r have eq: "r0 = r" "s0 = s\<lparr>next_counter := of_nat (Suc k)\<rparr>" by simp_all
  have "list_all2 (\<lambda>r (i, pt). carries dec (sealer_tuple s0) (sealer_nonce_prefix s0) (seal_datagram r)
      (of_nat i) pt) rs0 (zip [Suc k..<Suc k + length pts] pts)"
    by (rule Cons.IH [OF Cons.prems(1,2) _ _ _ _ _ _ rest]) (use Cons.prems eq in simp_all)
  moreover have "[k..<k + length (pt # pts)] = k # [Suc k..<Suc k + length pts]"
    by (simp add: upt_rec [of k] del: upt_Suc)
  ultimately show ?case using rs r eq by simp
qed simp

text \<open>
  A flight of up to 1024 packets from a fresh sealer, delivered in any order and with any repetitions
  to a fresh opener of the same key: every packet is opened.
\<close>

lemma flight_delivered:
  assumes "gcm_total enc" and "gcm_correct enc dec" and "tuple_valid (key_tuple key)"
    and "length pts \<le> 1024"
    and "\<forall>pt \<in> set pts. length pt \<le> kMaximumAuthenticatedPayloadBytes"
    and "run_outputs (seal_packet True enc) pts (make_sealer key True 0) = (rs, s')"
    and "set ds = seal_datagram ` set rs"
  shows "set (opened_plaintexts (fst (run_outputs (open_packet True dec) ds (make_opener key True)))) =
    set pts"
proof -
  let ?carries = "carries dec (key_tuple key) (nonce_prefix key)"
  have sealed: "list_all2 (\<lambda>r (i, pt). ?carries (seal_datagram r) (of_nat i) pt) rs
      (zip [0..<length pts] pts)"
    using seal_flight [OF assms(1,2) _ _ _ _ _ assms(5,6), of 0] assms(3,4)
    by (simp add: make_sealer_def max_counter_eq)
  then have len: "length rs = length pts" by (auto dest: list_all2_lengthD)
  have nth: "?carries (seal_datagram (rs ! i)) (of_nat i) (pts ! i)" if "i < length pts" for i
    using list_all2_nthD2 [OF sealed, of i] that by simp
  define ix where "ix d = (LEAST i. i < length pts \<and> seal_datagram (rs ! i) = d)" for d
  have ix: "ix d < length pts \<and> seal_datagram (rs ! ix d) = d" if "d \<in> set ds" for d
  proof -
    from that obtain i where "i < length pts \<and> seal_datagram (rs ! i) = d"
      unfolding assms(7) by (auto simp: in_set_conv_nth len)
    then show ?thesis unfolding ix_def by (rule LeastI)
  qed
  have ix_nth: "ix (seal_datagram (rs ! i)) = i" if "i < length pts" for i
  proof -
    have "seal_datagram (rs ! i) \<in> set ds" using that len assms(7) by simp
    note j = ix [OF this]
    have eq: "(of_nat (ix (seal_datagram (rs ! i))) :: u64) = of_nat i"
      using carries_unique [OF nth [OF that]] nth [of "ix (seal_datagram (rs ! i))"] j by metis
    show ?thesis by (rule small_counter_inj [OF _ _ eq]) (use j that assms(4) in simp_all)
  qed
  have "set (opened_plaintexts (fst (run_outputs (open_packet True dec) ds (make_opener key True)))) =
      (\<lambda>d. pts ! ix d) ` {d \<in> set ds. (of_nat (ix d) :: u64) \<notin> {}}"
  proof (rule flight_opens)
    show "window_rel (opener_window (make_opener key True)) {}"
      by (simp add: make_opener_def window_rel_empty)
    show "opener_ready (make_opener key True)" "opener_tuple (make_opener key True) = key_tuple key"
      "opener_nonce_prefix (make_opener key True) = nonce_prefix key"
      using assms(3) by (simp_all add: make_opener_def opener_ready_def)
    show "\<forall>d \<in> set ds. unat (of_nat (ix d) :: u64) < 1024 \<and> ?carries d (of_nat (ix d)) (pts ! ix d)"
    proof
      fix d assume "d \<in> set ds"
      note i = ix [OF this]
      with assms(4) have "unat (of_nat (ix d) :: u64) = ix d" by (intro unat_of_nat_small) simp
      with i nth [of "ix d"] assms(4) show "unat (of_nat (ix d) :: u64) < 1024 \<and>
          ?carries d (of_nat (ix d)) (pts ! ix d)" by simp
    qed
    show "\<forall>d \<in> set ds. \<forall>e \<in> set ds. (of_nat (ix d) :: u64) = of_nat (ix e) \<longrightarrow> pts ! ix d = pts ! ix e"
    proof (intro ballI impI)
      fix d e assume "d \<in> set ds" "e \<in> set ds" and eq: "(of_nat (ix d) :: u64) = of_nat (ix e)"
      then have "ix d < 1024" "ix e < 1024" using ix assms(4) by (meson less_le_trans)+
      then have "ix d = ix e" by (rule small_counter_inj) (rule eq)
      then show "pts ! ix d = pts ! ix e" by simp
    qed
  qed simp_all
  also have "\<dots> = (\<lambda>d. pts ! ix d) ` set ds" by simp
  also have "\<dots> = set pts"
  proof -
    have "set rs = (\<lambda>i. rs ! i) ` {..<length pts}"
      by (simp add: len [symmetric] set_conv_nth image_def) blast
    then have "(\<lambda>d. pts ! ix d) ` set ds = (\<lambda>i. pts ! ix (seal_datagram (rs ! i))) ` {..<length pts}"
      by (simp add: assms(7) image_image)
    also have "\<dots> = (\<lambda>i. pts ! i) ` {..<length pts}" by (rule image_cong) (simp_all add: ix_nth)
    finally have "(\<lambda>d. pts ! ix d) ` set ds = (\<lambda>i. pts ! i) ` {..<length pts}" .
    then show ?thesis by (auto simp: in_set_conv_nth)
  qed
  finally show ?thesis .
qed

text \<open>The video calls of a session act on its video sealer alone.\<close>

lemma seal_video_run:
  "run_outputs (seal_video al gp) pts h = (rs, h') \<Longrightarrow>
     \<exists>s'. run_outputs (seal_packet al (gp_encrypt gp (hd_video_key h))) pts (hd_video h) = (rs, s') \<and>
       h' = h\<lparr>hd_video := s'\<rparr>"
proof (induction pts arbitrary: h rs)
  case (Cons pt pts)
  from Cons.prems obtain r h1 rs1 where step: "seal_video al gp pt h = (r, h1)"
    and rest: "run_outputs (seal_video al gp) pts h1 = (rs1, h')" and rs: "rs = r # rs1"
    by (rule run_outputs_Cons_split)
  obtain s1 where seal: "seal_packet al (gp_encrypt gp (hd_video_key h)) pt (hd_video h) = (r, s1)"
    and h1: "h1 = h\<lparr>hd_video := s1\<rparr>"
    using step by (auto simp: seal_video_def Let_def split: prod.splits)
  from Cons.IH [OF rest] seal h1 rs show ?case by auto
qed simp

lemma created_session_video:
  assumes "create_data_plane_session (Some gp) s = Some h"
  shows "hd_video h = make_sealer (domain_key s VideoDomain)
      (gp_imports gp (aes_256_key (domain_key s VideoDomain))) 0"
    "hd_video_key h = aes_256_key (domain_key s VideoDomain)"
    "tuple_valid (key_tuple (domain_key s VideoDomain))"
    "hs_local_role s = HostRole"
  using assms
  by (auto simp: create_data_plane_session_def Let_def make_key_def tuple_valid_def direction_valid_def
      packet_type_valid_def split: if_splits)

section \<open>A concrete session\<close>

definition toy_gcm :: gcm_provider where
  "toy_gcm = \<lparr>gp_imports = (\<lambda>_. True), gp_encrypt = (\<lambda>_. example_encrypt),
     gp_decrypt = (\<lambda>_. example_decrypt)\<rparr>"

lemma toy_gcm_ok: "gcm_total (gp_encrypt toy_gcm k)" "gcm_correct (gp_encrypt toy_gcm k) (gp_decrypt toy_gcm k)"
  by (simp_all add: toy_gcm_def gcm_total_def example_encrypt_def example_gcm_correct)

lemma toy_session_created: "\<exists>h. create_data_plane_session (Some toy_gcm) toy_session = Some h"
  by (simp add: create_data_plane_session_def toy_session_def session_of_def largest_transcript_def
      largest_fields_def Let_def)

theorem domains_separated_witness:
  "\<exists>r :: seal_result. seal_status r = Sealed \<and> open_status (fst (open_packet True example_decrypt (seal_datagram r)
     (make_opener (domain_key toy_session PresenceDomain) True))) \<noteq> Opened"
proof -
  obtain h where h: "create_data_plane_session (Some toy_gcm) toy_session = Some h"
    using toy_session_created by blast
  let ?s = "make_sealer (domain_key toy_session VideoDomain) True 0"
  have enc: "gcm_total example_encrypt" "gcm_correct example_encrypt example_decrypt"
    using toy_gcm_ok by (simp_all add: toy_gcm_def)
  obtain r where r: "seal_packet True example_encrypt [1, 2] ?s = (r, ?s\<lparr>next_counter := of_nat (Suc 0)\<rparr>)"
    "seal_status r = Sealed"
    by (rule seal_one [OF enc, where s = ?s and k = 0 and pt = "[1, 2]"])
       (use created_session_video(3) [OF h] in \<open>simp_all add: make_sealer_def max_counter_eq const_defs\<close>)
  have "open_status (fst (open_packet True example_decrypt (seal_datagram r)
     (make_opener (domain_key toy_session PresenceDomain) True))) \<noteq> Opened"
    using domains_separated [OF enc(2) make_sealer_wf _ r, where d = VideoDomain and e = PresenceDomain
        and s = toy_session and b = "make_opener (domain_key toy_session PresenceDomain) True"]
    by (simp add: make_sealer_def make_opener_def)
  with r show ?thesis by blast
qed

end
