(* ===== verification/Bootstrap_Record.thy ===== *)
theory Bootstrap_Record
  imports Wire_Codec "HOL-Library.Sublist"
begin

text \<open>
  The records exchanged before traffic keys exist, \<^verbatim>\<open>VFB1\<close>
  (\<^verbatim>\<open>shared/src/authenticated_control_bootstrap_record_v1.cpp\<close>): the 12-byte envelope, the incremental
  decoder that cuts a TCP byte stream into records, and the owner of the fixed nine-record exchange.

  The two byte-valued enumerations are bytes here, as in C++ any byte can be cast to them and the
  code checks the range; their enumerators are named constants. Allocation is taken to succeed, so
  the \<open>catch\<close> branches have no counterpart. Shown: the envelope is canonical, the decoder finds
  exactly the records of a stream however TCP cuts it and never holds more than one record, and the
  sequence completes on exactly the nine messages in order and is final in every other case.
\<close>

section \<open>Enumerations and constants\<close>

definition kAuthenticatedControlBootstrapVersion :: u8 where
  "kAuthenticatedControlBootstrapVersion = 1"
definition kAuthenticatedControlBootstrapHeaderBytes :: nat where
  "kAuthenticatedControlBootstrapHeaderBytes = 12"
definition kMaximumAuthenticatedControlBootstrapPayloadBytes :: nat where
  "kMaximumAuthenticatedControlBootstrapPayloadBytes = 65536"
definition kBootstrapMagic :: bytes where "kBootstrapMagic = [0x56, 0x46, 0x42, 0x31]"
definition kVersionOffset :: nat where "kVersionOffset = 4"
definition kHeaderSizeOffset :: nat where "kHeaderSizeOffset = 5"
definition kDirectionOffset :: nat where "kDirectionOffset = 6"
definition kMessageTypeOffset :: nat where "kMessageTypeOffset = 7"
definition kPayloadLengthOffset :: nat where "kPayloadLengthOffset = 8"

lemmas bootstrap_consts [const_defs] =
  kAuthenticatedControlBootstrapVersion_def kAuthenticatedControlBootstrapHeaderBytes_def
  kMaximumAuthenticatedControlBootstrapPayloadBytes_def kVersionOffset_def
  kHeaderSizeOffset_def kDirectionOffset_def kMessageTypeOffset_def kPayloadLengthOffset_def

lemma length_kBootstrapMagic [simp]: "length kBootstrapMagic = 4"
  by (simp add: kBootstrapMagic_def)

type_synonym bootstrap_direction = u8
type_synonym bootstrap_message_type = u8

definition bd_host_to_android :: bootstrap_direction where "bd_host_to_android = 1"
definition bd_android_to_host :: bootstrap_direction where "bd_android_to_host = 2"

lemmas bootstrap_directions = bd_host_to_android_def bd_android_to_host_def

definition bm_host_hello :: bootstrap_message_type where "bm_host_hello = 1"
definition bm_android_challenge_request :: bootstrap_message_type where "bm_android_challenge_request = 2"
definition bm_host_challenge_proof :: bootstrap_message_type where "bm_host_challenge_proof = 3"
definition bm_server_challenge :: bootstrap_message_type where "bm_server_challenge = 4"
definition bm_host_final_proof :: bootstrap_message_type where "bm_host_final_proof = 5"
definition bm_pair_generation_credential :: bootstrap_message_type where "bm_pair_generation_credential = 6"
definition bm_host_handshake_signature :: bootstrap_message_type where "bm_host_handshake_signature = 7"
definition bm_android_handshake_confirmation :: bootstrap_message_type where
  "bm_android_handshake_confirmation = 8"
definition bm_host_finished :: bootstrap_message_type where "bm_host_finished = 9"
definition bm_abort :: bootstrap_message_type where "bm_abort = 10"
definition bm_host_first_pair_offer :: bootstrap_message_type where "bm_host_first_pair_offer = 11"
definition bm_android_first_pair_offer :: bootstrap_message_type where "bm_android_first_pair_offer = 12"
definition bm_android_first_pair_confirmation :: bootstrap_message_type where
  "bm_android_first_pair_confirmation = 13"
definition bm_host_first_pair_confirmation :: bootstrap_message_type where
  "bm_host_first_pair_confirmation = 14"
definition bm_activation_proof_request :: bootstrap_message_type where "bm_activation_proof_request = 15"
definition bm_host_activation_signature :: bootstrap_message_type where "bm_host_activation_signature = 16"
definition bm_activation_result :: bootstrap_message_type where "bm_activation_result = 17"
definition bm_first_pair_complete :: bootstrap_message_type where "bm_first_pair_complete = 18"

lemmas bootstrap_messages =
  bm_host_hello_def bm_android_challenge_request_def bm_host_challenge_proof_def
  bm_server_challenge_def bm_host_final_proof_def bm_pair_generation_credential_def
  bm_host_handshake_signature_def bm_android_handshake_confirmation_def bm_host_finished_def
  bm_abort_def bm_host_first_pair_offer_def bm_android_first_pair_offer_def
  bm_android_first_pair_confirmation_def bm_host_first_pair_confirmation_def
  bm_activation_proof_request_def bm_host_activation_signature_def bm_activation_result_def
  bm_first_pair_complete_def

datatype bootstrap_encode_status =
    BootstrapEncoded | EncodeInvalidDirection | EncodeInvalidMessageType | EncodeDirectionMismatch
  | EncodePayloadEmpty | EncodePayloadTooLarge | EncodeAllocationFailed

datatype bootstrap_parse_status =
    BootstrapParsed | BootstrapTooShort | BootstrapInvalidMagic | BootstrapUnsupportedVersion
  | BootstrapInvalidHeaderSize | BootstrapInvalidDirection | BootstrapUnexpectedDirection
  | BootstrapInvalidMessageType | BootstrapDirectionMismatch | BootstrapPayloadEmpty
  | BootstrapPayloadTooLarge | BootstrapLengthMismatch

record bootstrap_record =
  br_direction :: bootstrap_direction
  br_message_type :: bootstrap_message_type
  br_payload :: bytes

section \<open>The envelope\<close>

definition valid_direction :: "bootstrap_direction \<Rightarrow> bool" where
  "valid_direction d \<longleftrightarrow> d = bd_host_to_android \<or> d = bd_android_to_host"

definition valid_message_type :: "bootstrap_message_type \<Rightarrow> bool" where
  "valid_message_type m \<longleftrightarrow> bm_host_hello \<le> m \<and> m \<le> bm_first_pair_complete"

definition control_bootstrap_message_allowed_v1 ::
  "bootstrap_direction \<Rightarrow> bootstrap_message_type \<Rightarrow> bool" where
  "control_bootstrap_message_allowed_v1 d m =
     (if \<not> valid_direction d \<or> \<not> valid_message_type m then False
      else if m = bm_abort then True
      else if d = bd_host_to_android then
        m = bm_host_hello \<or> m = bm_host_challenge_proof \<or> m = bm_host_final_proof \<or>
        m = bm_host_handshake_signature \<or> m = bm_host_finished \<or> m = bm_host_first_pair_offer \<or>
        m = bm_host_first_pair_confirmation \<or> m = bm_host_activation_signature \<or>
        m = bm_first_pair_complete
      else if d = bd_android_to_host then
        m = bm_android_challenge_request \<or> m = bm_server_challenge \<or>
        m = bm_pair_generation_credential \<or> m = bm_android_handshake_confirmation \<or>
        m = bm_android_first_pair_offer \<or> m = bm_android_first_pair_confirmation \<or>
        m = bm_activation_proof_request \<or> m = bm_activation_result
      else False)"

definition write_u32_be :: "u32 \<Rightarrow> bytes" where
  "write_u32_be v =
     [ucast (drop_bit 24 v), ucast (drop_bit 16 v), ucast (drop_bit 8 v), ucast v]"

definition read_u32_be :: "bytes \<Rightarrow> u32" where
  "read_u32_be input =
     (push_bit 24 (ucast (input ! 0)) OR push_bit 16 (ucast (input ! 1)) OR
      push_bit 8 (ucast (input ! 2)) OR ucast (input ! 3))"

definition encode_bootstrap_record ::
  "bootstrap_direction \<Rightarrow> bootstrap_message_type \<Rightarrow> bytes \<Rightarrow> bootstrap_encode_status \<times> bytes" where
  "encode_bootstrap_record d m payload =
     (if \<not> valid_direction d then (EncodeInvalidDirection, [])
      else if \<not> valid_message_type m then (EncodeInvalidMessageType, [])
      else if \<not> control_bootstrap_message_allowed_v1 d m then (EncodeDirectionMismatch, [])
      else if payload = [] then (EncodePayloadEmpty, [])
      else if kMaximumAuthenticatedControlBootstrapPayloadBytes < length payload \<or>
              0xFFFFFFFF < length payload
      then (EncodePayloadTooLarge, [])
      else
        let r = replicate (kAuthenticatedControlBootstrapHeaderBytes + length payload) 0;
            r = copy_into r 0 kBootstrapMagic;
            r = r[kVersionOffset := kAuthenticatedControlBootstrapVersion];
            r = r[kHeaderSizeOffset := of_nat kAuthenticatedControlBootstrapHeaderBytes];
            r = r[kDirectionOffset := d];
            r = r[kMessageTypeOffset := m];
            r = copy_into r kPayloadLengthOffset (write_u32_be (of_nat (length payload)));
            r = copy_into r kAuthenticatedControlBootstrapHeaderBytes payload
        in (BootstrapEncoded, r))"

text \<open>Status and total record size; the size is meaningful only for \<open>BootstrapParsed\<close>.\<close>

definition inspect_bootstrap_header_v1 ::
  "bytes \<Rightarrow> bootstrap_direction \<Rightarrow> bootstrap_parse_status \<times> nat" where
  "inspect_bootstrap_header_v1 encoded expected_direction =
     (if length encoded < kAuthenticatedControlBootstrapHeaderBytes then (BootstrapTooShort, 0)
      else if take (length kBootstrapMagic) encoded \<noteq> kBootstrapMagic then (BootstrapInvalidMagic, 0)
      else if encoded ! kVersionOffset \<noteq> kAuthenticatedControlBootstrapVersion
      then (BootstrapUnsupportedVersion, 0)
      else if unat (encoded ! kHeaderSizeOffset) \<noteq> kAuthenticatedControlBootstrapHeaderBytes
      then (BootstrapInvalidHeaderSize, 0)
      else
        let d = encoded ! kDirectionOffset; m = encoded ! kMessageTypeOffset in
        if \<not> valid_direction d then (BootstrapInvalidDirection, 0)
        else if \<not> valid_direction expected_direction \<or> d \<noteq> expected_direction
        then (BootstrapUnexpectedDirection, 0)
        else if \<not> valid_message_type m then (BootstrapInvalidMessageType, 0)
        else if \<not> control_bootstrap_message_allowed_v1 d m then (BootstrapDirectionMismatch, 0)
        else
          let payload_size = read_u32_be (take 4 (drop kPayloadLengthOffset encoded)) in
          if payload_size = 0 then (BootstrapPayloadEmpty, 0)
          else if kMaximumAuthenticatedControlBootstrapPayloadBytes < unat payload_size
          then (BootstrapPayloadTooLarge, 0)
          else (BootstrapParsed, kAuthenticatedControlBootstrapHeaderBytes + unat payload_size))"

definition header_succeeded :: "bootstrap_parse_status \<times> nat \<Rightarrow> bool" where
  "header_succeeded h \<longleftrightarrow>
     fst h = BootstrapParsed \<and> kAuthenticatedControlBootstrapHeaderBytes < snd h"

definition no_bootstrap_record :: bootstrap_record where
  "no_bootstrap_record = \<lparr>br_direction = 0, br_message_type = 0, br_payload = []\<rparr>"

definition parse_bootstrap_record ::
  "bytes \<Rightarrow> bootstrap_direction \<Rightarrow> bootstrap_parse_status \<times> bootstrap_record" where
  "parse_bootstrap_record encoded expected_direction =
     (let header = inspect_bootstrap_header_v1 encoded expected_direction in
      if \<not> header_succeeded header then (fst header, no_bootstrap_record)
      else if length encoded \<noteq> snd header then (BootstrapLengthMismatch, no_bootstrap_record)
      else (BootstrapParsed,
        \<lparr>br_direction = encoded ! kDirectionOffset, br_message_type = encoded ! kMessageTypeOffset,
         br_payload = take (snd header - kAuthenticatedControlBootstrapHeaderBytes)
           (drop kAuthenticatedControlBootstrapHeaderBytes encoded)\<rparr>))"

section \<open>The stream decoder\<close>

datatype bootstrap_stream_status =
  NeedMore | RecordReady | OutputPending | StreamRejected | StreamAllocationFailed

record feed_result =
  fr_status :: bootstrap_stream_status
  fr_consumed :: nat
  fr_rejection :: bootstrap_parse_status

record stream_decoder =
  sd_expected_direction :: bootstrap_direction
  sd_encoded :: bytes
  sd_expected_record_bytes :: nat
  sd_failed :: bool
  sd_ready :: bool
  sd_rejection :: bootstrap_parse_status

definition make_stream_decoder :: "bootstrap_direction \<Rightarrow> stream_decoder" where
  "make_stream_decoder d =
     \<lparr>sd_expected_direction = d, sd_encoded = [], sd_expected_record_bytes = 0,
      sd_failed = (\<not> valid_direction d), sd_ready = False,
      sd_rejection = (if \<not> valid_direction d then BootstrapUnexpectedDirection else BootstrapTooShort)\<rparr>"

definition reject_stream :: "bootstrap_parse_status \<Rightarrow> stream_decoder \<Rightarrow> stream_decoder" where
  "reject_stream status s = s\<lparr>sd_encoded := [], sd_expected_record_bytes := 0, sd_ready := False,
     sd_failed := True, sd_rejection := status\<rparr>"

definition reset_for_next_record :: "stream_decoder \<Rightarrow> stream_decoder" where
  "reset_for_next_record s = s\<lparr>sd_encoded := [], sd_expected_record_bytes := 0, sd_ready := False,
     sd_rejection := BootstrapTooShort\<rparr>"

text \<open>The second half of \<^verbatim>\<open>feed\<close>, once the header has been accepted: fill up the record.\<close>

definition feed_body :: "bytes \<Rightarrow> nat \<Rightarrow> stream_decoder \<Rightarrow> feed_result \<times> stream_decoder" where
  "feed_body source consumed s =
     (let record_remaining = sd_expected_record_bytes s - length (sd_encoded s);
          source_remaining = length source - consumed;
          copy_bytes = min record_remaining source_remaining;
          s = s\<lparr>sd_encoded := sd_encoded s @ take copy_bytes (drop consumed source)\<rparr>;
          consumed = consumed + copy_bytes in
      if length (sd_encoded s) < sd_expected_record_bytes s
      then (\<lparr>fr_status = NeedMore, fr_consumed = consumed, fr_rejection = BootstrapTooShort\<rparr>, s)
      else
        let parsed = parse_bootstrap_record (sd_encoded s) (sd_expected_direction s) in
        if fst parsed \<noteq> BootstrapParsed
        then (\<lparr>fr_status = StreamRejected, fr_consumed = consumed, fr_rejection = fst parsed\<rparr>,
              reject_stream (fst parsed) s)
        else (\<lparr>fr_status = RecordReady, fr_consumed = consumed, fr_rejection = BootstrapParsed\<rparr>,
              s\<lparr>sd_ready := True\<rparr>))"

definition feed :: "bytes \<Rightarrow> stream_decoder \<Rightarrow> feed_result \<times> stream_decoder" where
  "feed source s =
     (if sd_failed s
      then (\<lparr>fr_status = StreamRejected, fr_consumed = 0, fr_rejection = sd_rejection s\<rparr>, s)
      else if sd_ready s
      then (\<lparr>fr_status = OutputPending, fr_consumed = 0, fr_rejection = BootstrapParsed\<rparr>, s)
      else if length (sd_encoded s) < kAuthenticatedControlBootstrapHeaderBytes then
        let header_remaining = kAuthenticatedControlBootstrapHeaderBytes - length (sd_encoded s);
            copy_bytes = min header_remaining (length source);
            s = s\<lparr>sd_encoded := sd_encoded s @ take copy_bytes source\<rparr> in
        if length (sd_encoded s) < kAuthenticatedControlBootstrapHeaderBytes
        then (\<lparr>fr_status = NeedMore, fr_consumed = copy_bytes, fr_rejection = BootstrapTooShort\<rparr>, s)
        else
          let header = inspect_bootstrap_header_v1 (sd_encoded s) (sd_expected_direction s) in
          if \<not> header_succeeded header
          then (\<lparr>fr_status = StreamRejected, fr_consumed = copy_bytes, fr_rejection = fst header\<rparr>,
                reject_stream (fst header) s)
          else feed_body source copy_bytes (s\<lparr>sd_expected_record_bytes := snd header\<rparr>)
      else feed_body source 0 s)"

definition take_record :: "stream_decoder \<Rightarrow> bytes option \<times> stream_decoder" where
  "take_record s =
     (if sd_failed s \<or> \<not> sd_ready s then (None, s)
      else (Some (sd_encoded s), reset_for_next_record s))"

section \<open>The exchange\<close>

datatype bootstrap_role = BrInvalid | BrHost | BrAndroid
datatype bootstrap_flow = BfInvalid | Outbound | Inbound
datatype bootstrap_phase = InProgress | SequenceCompleted | SequenceAborted | SequenceFailed
datatype bootstrap_advance =
  Advanced | AdvanceCompleted | AdvanceAborted | UnexpectedMessage | WrongFlow | AlreadyTerminal

definition kBootstrapSequence :: "(bootstrap_direction \<times> bootstrap_message_type) list" where
  "kBootstrapSequence =
     [(bd_host_to_android, bm_host_hello), (bd_android_to_host, bm_android_challenge_request),
      (bd_host_to_android, bm_host_challenge_proof), (bd_android_to_host, bm_server_challenge),
      (bd_host_to_android, bm_host_final_proof), (bd_android_to_host, bm_pair_generation_credential),
      (bd_host_to_android, bm_host_handshake_signature),
      (bd_android_to_host, bm_android_handshake_confirmation), (bd_host_to_android, bm_host_finished)]"

record bootstrap_sequence =
  bs_local_role :: bootstrap_role
  bs_phase :: bootstrap_phase
  bs_next_event_index :: nat

definition valid_role :: "bootstrap_role \<Rightarrow> bool" where
  "valid_role r \<longleftrightarrow> r = BrHost \<or> r = BrAndroid"

definition flow_for_role :: "bootstrap_role \<Rightarrow> bootstrap_direction \<Rightarrow> bootstrap_flow" where
  "flow_for_role role d =
     (if \<not> valid_role role \<or> \<not> valid_direction d then BfInvalid
      else if role = BrHost \<and> d = bd_host_to_android \<or> role = BrAndroid \<and> d = bd_android_to_host
      then Outbound else Inbound)"

definition make_bootstrap_sequence :: "bootstrap_role \<Rightarrow> bootstrap_sequence" where
  "make_bootstrap_sequence role =
     \<lparr>bs_local_role = role, bs_phase = (if valid_role role then InProgress else SequenceFailed),
      bs_next_event_index = 0\<rparr>"

definition expected_next :: "bootstrap_sequence \<Rightarrow> (bootstrap_flow \<times> bootstrap_message_type) option" where
  "expected_next s =
     (if bs_phase s \<noteq> InProgress \<or> length kBootstrapSequence \<le> bs_next_event_index s then None
      else let (d, m) = kBootstrapSequence ! bs_next_event_index s in
        Some (flow_for_role (bs_local_role s) d, m))"

definition advance_sequence ::
  "bootstrap_flow \<Rightarrow> bootstrap_message_type \<Rightarrow> bootstrap_sequence \<Rightarrow>
     bootstrap_advance \<times> bootstrap_sequence" where
  "advance_sequence flow m s =
     (if bs_phase s \<noteq> InProgress then (AlreadyTerminal, s)
      else if (flow = Outbound \<or> flow = Inbound) \<and> m = bm_abort
      then (AdvanceAborted, s\<lparr>bs_phase := SequenceAborted\<rparr>)
      else case expected_next s of
          None \<Rightarrow> (WrongFlow, s\<lparr>bs_phase := SequenceFailed\<rparr>)
        | Some (expected_flow, expected_type) \<Rightarrow>
            if flow \<noteq> expected_flow then (WrongFlow, s\<lparr>bs_phase := SequenceFailed\<rparr>)
            else if m \<noteq> expected_type then (UnexpectedMessage, s\<lparr>bs_phase := SequenceFailed\<rparr>)
            else
              let s = s\<lparr>bs_next_event_index := bs_next_event_index s + 1\<rparr> in
              if bs_next_event_index s = length kBootstrapSequence
              then (AdvanceCompleted, s\<lparr>bs_phase := SequenceCompleted\<rparr>)
              else (Advanced, s))"

definition advance_outbound ::
  "bootstrap_message_type \<Rightarrow> bootstrap_sequence \<Rightarrow> bootstrap_advance \<times> bootstrap_sequence" where
  "advance_outbound m s = advance_sequence Outbound m s"

definition advance_inbound ::
  "bootstrap_message_type \<Rightarrow> bootstrap_sequence \<Rightarrow> bootstrap_advance \<times> bootstrap_sequence" where
  "advance_inbound m s = advance_sequence Inbound m s"

section \<open>The envelope is canonical\<close>

definition record_valid :: "bootstrap_record \<Rightarrow> bool" where
  "record_valid r \<longleftrightarrow>
     control_bootstrap_message_allowed_v1 (br_direction r) (br_message_type r) \<and> br_payload r \<noteq> [] \<and>
     length (br_payload r) \<le> kMaximumAuthenticatedControlBootstrapPayloadBytes"

definition record_header :: "bootstrap_record \<Rightarrow> bytes" where
  "record_header r = kBootstrapMagic @ [1, 12, br_direction r, br_message_type r] @
     be_bytes 4 (of_nat (length (br_payload r)) :: u32)"

definition record_bytes :: "bootstrap_record \<Rightarrow> bytes" where
  "record_bytes r = record_header r @ br_payload r"

lemma length_record_header [simp]: "length (record_header r) = 12"
  by (simp add: record_header_def const_defs)

lemma length_record_bytes [simp]: "length (record_bytes r) = 12 + length (br_payload r)"
  by (simp add: record_bytes_def)

lemma write_u32_be_eq: "write_u32_be v = be_bytes 4 v"
  by (simp add: write_u32_be_def be_bytes_def upt_rec)

lemma read_u32_be_eq: "length bs = 4 \<Longrightarrow> read_u32_be bs = be_value bs"
proof -
  assume "length bs = 4"
  then obtain a b c d where bs: "bs = [a, b, c, d]"
    by (auto simp: numeral_eq_Suc length_Suc_conv)
  show ?thesis
    unfolding bs read_u32_be_def be_value_def
    by (rule bit_word_eqI) (auto simp: bit_simps)
qed

lemma allowed_valid:
  "control_bootstrap_message_allowed_v1 d m \<Longrightarrow> valid_direction d \<and> valid_message_type m"
  by (auto simp: control_bootstrap_message_allowed_v1_def split: if_splits)

lemma encode_bootstrap_record_eq:
  assumes "record_valid r"
  shows "encode_bootstrap_record (br_direction r) (br_message_type r) (br_payload r) =
    (BootstrapEncoded, record_bytes r)"
proof -
  let ?n = "length (br_payload r)"
  have n: "replicate (12 + ?n) (0 :: u8) = [0,0,0,0,0,0,0,0,0,0,0,0] @ replicate ?n 0"
    by (simp add: replicate_add numeral_eq_Suc)
  have "allowed": "control_bootstrap_message_allowed_v1 (br_direction r) (br_message_type r)"
    using assms by (simp add: record_valid_def)
  show ?thesis
    using assms allowed_valid [OF allowed] allowed
    by (simp add: encode_bootstrap_record_def record_valid_def Let_def const_defs record_bytes_def
        record_header_def write_u32_be_eq kBootstrapMagic_def copy_into_def n numeral_eq_Suc [of num.One]
        list_update_append take_Cons' drop_Cons')
qed

text \<open>The header check looks at the first twelve bytes only.\<close>

lemma inspect_take:
  assumes "12 \<le> length e"
  shows "inspect_bootstrap_header_v1 (take 12 e) d = inspect_bootstrap_header_v1 e d"
  using assms
  by (simp add: inspect_bootstrap_header_v1_def const_defs min_def take_drop Let_def)

lemma record_header_fields:
  "take 4 (record_header r) = kBootstrapMagic" "record_header r ! 4 = 1" "record_header r ! 5 = 12"
  "record_header r ! 6 = br_direction r" "record_header r ! 7 = br_message_type r"
  "take 4 (drop 8 (record_header r)) = be_bytes 4 (of_nat (length (br_payload r)) :: u32)"
  by (simp_all add: record_header_def const_defs nth_append)

lemma inspect_record_header:
  assumes "record_valid r"
  shows "inspect_bootstrap_header_v1 (record_header r @ rest) (br_direction r) =
    (BootstrapParsed, 12 + length (br_payload r))"
proof -
  let ?n = "of_nat (length (br_payload r)) :: u32"
  have len: "0 < length (br_payload r)" "length (br_payload r) \<le> 65536"
    using assms by (auto simp: record_valid_def const_defs)
  have n: "unat ?n = length (br_payload r)" by (rule unat_of_nat_small) (use len in simp)
  then have n0: "?n \<noteq> 0" using len by (metis unat_0 less_irrefl)
  have ok: "control_bootstrap_message_allowed_v1 (br_direction r) (br_message_type r)"
    using assms by (simp add: record_valid_def)
  have read: "read_u32_be (be_bytes 4 ?n) = ?n"
    by (simp add: read_u32_be_eq be_value_be_bytes)
  have "inspect_bootstrap_header_v1 (record_header r) (br_direction r) =
      (BootstrapParsed, 12 + length (br_payload r))"
    using ok allowed_valid [OF ok] len n n0
    by (simp add: inspect_bootstrap_header_v1_def Let_def record_header_fields const_defs read)
  then show ?thesis using inspect_take [of "record_header r @ rest"] by simp
qed

lemma inspect_ParsedD:
  assumes "inspect_bootstrap_header_v1 e d = (BootstrapParsed, n)"
  shows "12 \<le> length e" "take 4 e = kBootstrapMagic" "e ! 4 = 1" "e ! 5 = 12" "e ! 6 = d"
    "control_bootstrap_message_allowed_v1 d (e ! 7)"
    "read_u32_be (take 4 (drop 8 e)) \<noteq> 0" "unat (read_u32_be (take 4 (drop 8 e))) \<le> 65536"
    "n = 12 + unat (read_u32_be (take 4 (drop 8 e)))"
proof -
  have byte: "b = 12" if "unat b = 12" for b :: u8
    using that by (intro unsigned_word_eqI [where ?'a=nat]) simp
  show "12 \<le> length e" "take 4 e = kBootstrapMagic" "e ! 4 = 1" "e ! 5 = 12" "e ! 6 = d"
    "control_bootstrap_message_allowed_v1 d (e ! 7)"
    "read_u32_be (take 4 (drop 8 e)) \<noteq> 0" "unat (read_u32_be (take 4 (drop 8 e))) \<le> 65536"
    "n = 12 + unat (read_u32_be (take 4 (drop 8 e)))"
    using assms
    by (simp_all add: inspect_bootstrap_header_v1_def Let_def const_defs byte split: if_splits)
qed

lemma inspect_Parsed_size: "inspect_bootstrap_header_v1 e d = (BootstrapParsed, n) \<Longrightarrow> 12 < n"
  using inspect_ParsedD(7,9) [of e d n] by (simp add: unat_gt_0)

lemma first_twelve:
  assumes "12 \<le> length e"
  shows "e = take 4 e @ [e ! 4, e ! 5, e ! 6, e ! 7] @ take 4 (drop 8 e) @ drop 12 e"
proof -
  have "e = take 4 e @ take 4 (drop 4 e) @ take 4 (drop 8 e) @ drop 12 e"
    using append_take_drop_id [of 4 e] append_take_drop_id [of 4 "drop 4 e"]
      append_take_drop_id [of 4 "drop 8 e"] by simp
  moreover have "take 4 (drop 4 e) = [e ! 4, e ! 5, e ! 6, e ! 7]"
    using assms by (intro nth_equalityI) (auto simp: nth_Cons' numeral_eq_Suc less_Suc_eq)
  ultimately show ?thesis by simp
qed

lemma encoded_valid:
  assumes "encode_bootstrap_record (br_direction r) (br_message_type r) (br_payload r) = (BootstrapEncoded, e)"
  shows "record_valid r" and "e = record_bytes r"
proof -
  show "record_valid r"
    using assms by (auto simp: encode_bootstrap_record_def record_valid_def Let_def split: if_splits)
  then show "e = record_bytes r" using encode_bootstrap_record_eq assms by simp
qed

lemma parse_iff_encode:
  "parse_bootstrap_record e d = (BootstrapParsed, r) \<longleftrightarrow>
     br_direction r = d \<and>
     encode_bootstrap_record (br_direction r) (br_message_type r) (br_payload r) = (BootstrapEncoded, e)"
proof
  assume parse: "parse_bootstrap_record e d = (BootstrapParsed, r)"
  obtain status n where ins: "inspect_bootstrap_header_v1 e d = (status, n)" by fastforce
  have "status = BootstrapParsed"
    using parse ins by (simp add: parse_bootstrap_record_def Let_def header_succeeded_def split: if_splits)
  with ins have ins: "inspect_bootstrap_header_v1 e d = (BootstrapParsed, n)" by simp
  with parse inspect_Parsed_size [OF ins] have n: "length e = n"
    and r: "r = \<lparr>br_direction = e ! 6, br_message_type = e ! 7, br_payload = take (n - 12) (drop 12 e)\<rparr>"
    by (simp_all add: parse_bootstrap_record_def Let_def header_succeeded_def const_defs split: if_splits)
  note h = inspect_ParsedD [OF ins]
  let ?len = "read_u32_be (take 4 (drop 8 e))"
  have payload: "br_payload r = drop 12 e" using r n by simp
  have len: "length (br_payload r) = unat ?len"
    unfolding payload length_drop n using h(9) by linarith
  have "0 < length (br_payload r)" using len h(7) by (metis unat_gt_0)
  moreover have "control_bootstrap_message_allowed_v1 (br_direction r) (br_message_type r)"
    using r h(5,6) by simp
  moreover have "length (br_payload r) \<le> 65536" using len h(8) by simp
  ultimately have valid: "record_valid r" by (simp add: record_valid_def const_defs)
  have four: "length (take 4 (drop 8 e)) = 4" using h(1) by simp
  have "be_bytes 4 (of_nat (length (br_payload r)) :: u32) = take 4 (drop 8 e)"
    using be_bytes_be_value [of "take 4 (drop 8 e)", where 'a=32] four
    by (simp add: len read_u32_be_eq)
  then have "record_bytes r = e"
    using first_twelve [OF h(1)] h(2-5) r payload by (simp add: record_bytes_def record_header_def)
  then show "br_direction r = d \<and>
      encode_bootstrap_record (br_direction r) (br_message_type r) (br_payload r) = (BootstrapEncoded, e)"
    using encode_bootstrap_record_eq [OF valid] r h(5) by simp
next
  assume enc: "br_direction r = d \<and>
      encode_bootstrap_record (br_direction r) (br_message_type r) (br_payload r) = (BootstrapEncoded, e)"
  have valid: "record_valid r" and e: "e = record_header r @ br_payload r"
    using encoded_valid [OF conjunct2 [OF enc]] by (simp_all add: record_bytes_def)
  have "e ! 6 = br_direction r" "e ! 7 = br_message_type r"
    using e record_header_fields [of r] by (simp_all add: nth_append)
  then show "parse_bootstrap_record e d = (BootstrapParsed, r)"
    using inspect_record_header [OF valid, of "br_payload r"] valid e enc
    by (simp add: parse_bootstrap_record_def Let_def header_succeeded_def const_defs record_valid_def)
qed

text \<open>
  C31. The envelope is canonical: a byte string parses to a record for the expected direction exactly when
  the record is one the encoder accepts for that direction and the bytes are its encoding.
\<close>

theorem bootstrap_record_canonical:
  "parse_bootstrap_record e d = (BootstrapParsed, r) \<longleftrightarrow>
     br_direction r = d \<and>
     encode_bootstrap_record (br_direction r) (br_message_type r) (br_payload r) = (BootstrapEncoded, e)"
  by (rule parse_iff_encode)

section \<open>The decoder and the stream\<close>

text \<open>
  A decoder that has read \<open>pre\<close> of the bytes of a record: the expected size is only set once the
  header is complete.
\<close>

definition partial :: "bootstrap_record \<Rightarrow> bytes \<Rightarrow> stream_decoder \<Rightarrow> bool" where
  "partial r pre s \<longleftrightarrow>
     sd_expected_direction s = br_direction r \<and> \<not> sd_failed s \<and> \<not> sd_ready s \<and> sd_encoded s = pre \<and>
     (12 \<le> length pre \<longrightarrow> sd_expected_record_bytes s = length (record_bytes r))"

text \<open>A source that agrees with the rest of the record as far as both go.\<close>

definition agrees :: "bytes \<Rightarrow> bytes \<Rightarrow> bool" where
  "agrees source rest \<longleftrightarrow> take (length rest) source = take (length source) rest"

lemma parse_record_bytes:
  assumes "record_valid r"
  shows "parse_bootstrap_record (record_bytes r) (br_direction r) = (BootstrapParsed, r)"
proof -
  have "record_bytes r ! 6 = br_direction r" "record_bytes r ! 7 = br_message_type r"
    using record_header_fields [of r] by (simp_all add: record_bytes_def nth_append)
  then show ?thesis
    using inspect_record_header [OF assms, of "br_payload r"] assms
    by (simp add: parse_bootstrap_record_def Let_def header_succeeded_def const_defs record_valid_def
        record_bytes_def)
qed

text \<open>Filling up a record whose header was accepted.\<close>

lemma feed_body_partial:
  assumes valid: "record_valid r" and bytes: "record_bytes r = sd_encoded s @ rest"
    and s: "sd_expected_direction s = br_direction r" "\<not> sd_failed s" "\<not> sd_ready s"
      "sd_expected_record_bytes s = length (record_bytes r)" "12 \<le> length (sd_encoded s)"
    and src: "agrees (drop consumed source) rest" "consumed \<le> length source"
  shows "if length source - consumed < length rest
    then \<exists>s'. feed_body source consumed s =
        (\<lparr>fr_status = NeedMore, fr_consumed = length source, fr_rejection = BootstrapTooShort\<rparr>, s') \<and>
        partial r (sd_encoded s @ drop consumed source) s'
    else \<exists>s'. feed_body source consumed s =
        (\<lparr>fr_status = RecordReady, fr_consumed = consumed + length rest,
          fr_rejection = BootstrapParsed\<rparr>, s') \<and>
        \<not> sd_failed s' \<and> sd_ready s' \<and> sd_encoded s' = record_bytes r \<and>
        sd_expected_direction s' = br_direction r"
proof -
  let ?d = "drop consumed source"
  have len: "sd_expected_record_bytes s = length (sd_encoded s) + length rest" using bytes s(4) by simp
  show ?thesis
  proof (cases "length source - consumed < length rest")
    case True
    then have "feed_body source consumed s =
        (\<lparr>fr_status = NeedMore, fr_consumed = length source, fr_rejection = BootstrapTooShort\<rparr>,
         s\<lparr>sd_encoded := sd_encoded s @ ?d\<rparr>)"
      using len src(2) by (simp add: feed_body_def Let_def)
    moreover have "partial r (sd_encoded s @ ?d) (s\<lparr>sd_encoded := sd_encoded s @ ?d\<rparr>)"
      using s by (simp add: partial_def)
    ultimately show ?thesis using True by auto
  next
    case False
    then have take: "take (length rest) ?d = rest" using src(1) by (simp add: agrees_def)
    have "feed_body source consumed s =
        (\<lparr>fr_status = RecordReady, fr_consumed = consumed + length rest, fr_rejection = BootstrapParsed\<rparr>,
         s\<lparr>sd_encoded := record_bytes r, sd_ready := True\<rparr>)"
      using False len take bytes s(1,4) parse_record_bytes [OF valid]
      by (simp add: feed_body_def Let_def min_def)
    then show ?thesis using False s by auto
  qed
qed

text \<open>
  One call of \<^verbatim>\<open>feed\<close> in the middle of a record: it asks for more exactly when the source ends
  before the record does, and then it has consumed everything; otherwise the record is ready and
  it has consumed exactly the rest of it.
\<close>

lemma feed_partial:
  assumes valid: "record_valid r" and part: "partial r pre s"
    and bytes: "record_bytes r = pre @ rest" and rest: "rest \<noteq> []"
    and src: "agrees source rest"
  shows "if length source < length rest
    then \<exists>s'. feed source s =
        (\<lparr>fr_status = NeedMore, fr_consumed = length source, fr_rejection = BootstrapTooShort\<rparr>, s') \<and>
        partial r (pre @ source) s'
    else \<exists>s'. feed source s =
        (\<lparr>fr_status = RecordReady, fr_consumed = length rest, fr_rejection = BootstrapParsed\<rparr>, s') \<and>
        \<not> sd_failed s' \<and> sd_ready s' \<and> sd_encoded s' = record_bytes r \<and>
        sd_expected_direction s' = br_direction r"
proof (cases "length pre < 12")
  case False
  have feed: "feed source s = feed_body source 0 s"
    using part False by (simp add: feed_def partial_def const_defs)
  have s: "sd_expected_direction s = br_direction r" "\<not> sd_failed s" "\<not> sd_ready s"
    "sd_expected_record_bytes s = length (record_bytes r)" "12 \<le> length (sd_encoded s)"
    and pre: "sd_encoded s = pre"
    using part False by (simp_all add: partial_def)
  have "record_bytes r = sd_encoded s @ rest" using bytes pre by simp
  from feed_body_partial [OF valid this s, of 0 source] src show ?thesis
    unfolding feed by (cases "length source < length rest") (simp_all add: pre)
next
  case True
  let ?h = "12 - length pre"
  have len: "length rest = 12 + length (br_payload r) - length pre"
    using arg_cong [OF bytes, of length] by simp
  have pay: "0 < length (br_payload r)" using valid by (simp add: record_valid_def)
  show ?thesis
  proof (cases "length source < ?h")
    case short: True
    have "feed source s =
        (\<lparr>fr_status = NeedMore, fr_consumed = length source, fr_rejection = BootstrapTooShort\<rparr>,
         s\<lparr>sd_encoded := pre @ source\<rparr>)"
    proof -
      have "min ?h (length source) = length source" and "length pre + length source < 12"
        using short True by linarith+
      then show ?thesis
        using part True by (simp add: feed_def partial_def const_defs Let_def)
    qed
    moreover have "partial r (pre @ source) (s\<lparr>sd_encoded := pre @ source\<rparr>)"
      using part short by (simp add: partial_def)
    moreover have "length source < length rest" using short len pay by simp
    ultimately show ?thesis by auto
  next
    case long: False
    have "?h \<le> length rest" using len by simp
    have agree: "take ?h source = take ?h rest"
    proof -
      have "min ?h (length rest) = ?h" and "min ?h (length source) = ?h"
        using \<open>?h \<le> length rest\<close> long by linarith+
      then show ?thesis
        using src unfolding agrees_def by (metis take_take)
    qed
    have hdr: "pre @ take ?h source = record_header r"
    proof -
      have "record_header r = take 12 (pre @ rest)" unfolding bytes [symmetric] by (simp add: record_bytes_def)
      also have "\<dots> = pre @ take ?h rest" using True by simp
      finally show ?thesis using agree by simp
    qed
    let ?s = "s\<lparr>sd_encoded := record_header r, sd_expected_record_bytes := 12 + length (br_payload r)\<rparr>"
    have ins: "inspect_bootstrap_header_v1 (record_header r) (br_direction r) =
        (BootstrapParsed, 12 + length (br_payload r))"
      using inspect_record_header [OF valid, of "[]"] by simp
    have feed: "feed source s = feed_body source ?h ?s"
      using part True long pay ins
      by (simp add: feed_def partial_def const_defs Let_def min_def hdr header_succeeded_def)
    have rest': "rest = take ?h rest @ br_payload r"
    proof -
      have "pre @ rest = pre @ take ?h rest @ br_payload r"
        using hdr bytes unfolding record_bytes_def agree by (metis append.assoc)
      then show ?thesis by (simp only: same_append_eq)
    qed
    then have pdrop: "drop ?h rest = br_payload r"
      by (metis \<open>?h \<le> length rest\<close> append_eq_conv_conj length_take min.absorb2)
    have agree': "agrees (drop ?h source) (br_payload r)"
    proof -
      have "take (length rest - ?h) (drop ?h source) = take (length source - ?h) (drop ?h rest)"
        using src unfolding agrees_def by (metis drop_take)
      moreover have "length rest - ?h = length (br_payload r)" using len True by simp
      ultimately show ?thesis by (simp add: agrees_def pdrop)
    qed
    have iff: "length source - ?h < length (br_payload r) \<longleftrightarrow> length source < length rest"
      using len True long by auto
    have sum: "?h + length (br_payload r) = length rest" using len True by simp
    have enc: "record_header r @ drop ?h source = pre @ source"
      using hdr by (metis append.assoc append_take_drop_id)
    have "record_bytes r = sd_encoded ?s @ br_payload r" by (simp add: record_bytes_def)
    moreover have "sd_expected_direction ?s = br_direction r" "\<not> sd_failed ?s" "\<not> sd_ready ?s"
      "sd_expected_record_bytes ?s = length (record_bytes r)" "12 \<le> length (sd_encoded ?s)"
      using part by (simp_all add: partial_def)
    moreover have "?h \<le> length source" using long by linarith
    ultimately have "if length source < length rest
      then \<exists>s'. feed_body source ?h ?s =
          (\<lparr>fr_status = NeedMore, fr_consumed = length source, fr_rejection = BootstrapTooShort\<rparr>, s') \<and>
          partial r (sd_encoded ?s @ drop ?h source) s'
      else \<exists>s'. feed_body source ?h ?s =
          (\<lparr>fr_status = RecordReady, fr_consumed = length rest, fr_rejection = BootstrapParsed\<rparr>, s') \<and>
          \<not> sd_failed s' \<and> sd_ready s' \<and> sd_encoded s' = record_bytes r \<and>
          sd_expected_direction s' = br_direction r"
      using feed_body_partial [OF valid, of ?s "br_payload r" ?h source] agree'
      unfolding iff sum by blast
    moreover have "sd_encoded ?s @ drop ?h source = pre @ source" using enc by simp
    ultimately show ?thesis unfolding feed by (simp only:)
  qed
qed

text \<open>A decoder ready for the next record, and taking a finished one.\<close>

lemma fresh_partial:
  "valid_direction (br_direction r) \<Longrightarrow> partial r [] (make_stream_decoder (br_direction r))"
  by (simp add: partial_def make_stream_decoder_def)

lemma take_ready:
  assumes "\<not> sd_failed s" and "sd_ready s"
  shows "take_record s = (Some (sd_encoded s), reset_for_next_record s)"
    and "sd_expected_direction s = br_direction r \<Longrightarrow> partial r [] (reset_for_next_record s)"
  using assms by (simp_all add: take_record_def reset_for_next_record_def partial_def)


section \<open>The exchange is exactly the nine records\<close>

text \<open>The events an endpoint expects, and what it makes of a whole series of them.\<close>

definition expected_events :: "bootstrap_role \<Rightarrow> (bootstrap_flow \<times> bootstrap_message_type) list" where
  "expected_events role = map (\<lambda>(d, m). (flow_for_role role d, m)) kBootstrapSequence"

definition run_sequence ::
  "(bootstrap_flow \<times> bootstrap_message_type) list \<Rightarrow> bootstrap_sequence \<Rightarrow> bootstrap_sequence" where
  "run_sequence es s = fold (\<lambda>(flow, m) s. snd (advance_sequence flow m s)) es s"

definition is_abort :: "bootstrap_flow \<times> bootstrap_message_type \<Rightarrow> bool" where
  "is_abort e \<longleftrightarrow> fst e \<noteq> BfInvalid \<and> snd e = bm_abort"

text \<open>The specification: the phase after a series of events, given what is still expected.\<close>

fun phase_after ::
  "(bootstrap_flow \<times> bootstrap_message_type) list \<Rightarrow> (bootstrap_flow \<times> bootstrap_message_type) list \<Rightarrow>
     bootstrap_phase" where
  "phase_after [] es = SequenceCompleted"
| "phase_after (x # xs) [] = InProgress"
| "phase_after (x # xs) (e # es) =
     (if e = x then phase_after xs es else if is_abort e then SequenceAborted else SequenceFailed)"

lemma run_sequence_simps [simp]:
  "run_sequence [] s = s"
  "run_sequence (e # es) s = run_sequence es (snd (advance_sequence (fst e) (snd e) s))"
  by (simp_all add: run_sequence_def split_beta)

lemma run_sequence_terminal: "bs_phase s \<noteq> InProgress \<Longrightarrow> run_sequence es s = s"
  by (induction es) (simp_all add: advance_sequence_def)

lemma length_expected_events [simp]: "length (expected_events role) = 9"
  by (simp add: expected_events_def kBootstrapSequence_def)

lemma expected_event_not_abort:
  assumes "valid_role role"
  shows "\<forall>x \<in> set (expected_events role). \<not> is_abort x \<and> fst x \<noteq> BfInvalid"
  using assms
  by (auto simp: expected_events_def kBootstrapSequence_def is_abort_def bootstrap_messages
      bootstrap_directions flow_for_role_def valid_direction_def)

text \<open>One step against the list of expected events.\<close>

lemma advance_in_progress:
  assumes "bs_phase s = InProgress" and "valid_role (bs_local_role s)" and "bs_next_event_index s < 9"
  shows "snd (advance_sequence (fst e) (snd e) s) =
    (if e = expected_events (bs_local_role s) ! bs_next_event_index s
     then s\<lparr>bs_next_event_index := bs_next_event_index s + 1,
            bs_phase := (if bs_next_event_index s = 8 then SequenceCompleted else InProgress)\<rparr>
     else s\<lparr>bs_phase := (if is_abort e then SequenceAborted else SequenceFailed)\<rparr>)"
proof -
  let ?x = "expected_events (bs_local_role s) ! bs_next_event_index s"
  have seq: "length kBootstrapSequence = 9" by (simp add: kBootstrapSequence_def)
  have next': "expected_next s = Some ?x"
    using assms seq by (simp add: expected_next_def expected_events_def split_beta)
  have x: "\<not> is_abort ?x"
    using expected_event_not_abort [OF assms(2)] assms(3) by simp
  have abort: "is_abort e \<longleftrightarrow> (fst e = Outbound \<or> fst e = Inbound) \<and> snd e = bm_abort"
    by (cases "fst e") (simp_all add: is_abort_def)
  show ?thesis
  proof (cases "is_abort e")
    case True
    then have "e \<noteq> ?x" using x by blast
    moreover have "snd (advance_sequence (fst e) (snd e) s) = s\<lparr>bs_phase := SequenceAborted\<rparr>"
      using True assms(1) unfolding abort by (simp add: advance_sequence_def)
    ultimately show ?thesis using True by simp
  next
    case False
    obtain xf xm where xs: "?x = (xf, xm)" by (cases ?x)
    have "advance_sequence (fst e) (snd e) s =
      (if fst e \<noteq> xf then (WrongFlow, s\<lparr>bs_phase := SequenceFailed\<rparr>)
       else if snd e \<noteq> xm then (UnexpectedMessage, s\<lparr>bs_phase := SequenceFailed\<rparr>)
       else if bs_next_event_index s = 8
       then (AdvanceCompleted, s\<lparr>bs_next_event_index := bs_next_event_index s + 1,
               bs_phase := SequenceCompleted\<rparr>)
       else (Advanced, s\<lparr>bs_next_event_index := bs_next_event_index s + 1\<rparr>))"
      using False assms(1) next' xs seq unfolding abort by (auto simp: advance_sequence_def Let_def)
    then show ?thesis using False xs assms(1) by (auto simp: prod_eq_iff)
  qed
qed

lemma run_sequence_phase:
  assumes "bs_phase s = InProgress" and "valid_role (bs_local_role s)" and "bs_next_event_index s < 9"
  shows "bs_phase (run_sequence es s) =
    phase_after (drop (bs_next_event_index s) (expected_events (bs_local_role s))) es"
  using assms
proof (induction es arbitrary: s)
  case Nil
  then show ?case by (simp add: Cons_nth_drop_Suc [symmetric])
next
  case (Cons e es)
  let ?i = "bs_next_event_index s" and ?xs = "expected_events (bs_local_role s)"
  have exp: "drop ?i ?xs = ?xs ! ?i # drop (Suc ?i) ?xs"
    using Cons.prems(3) by (simp add: Cons_nth_drop_Suc)
  note step = advance_in_progress [OF Cons.prems, of e]
  consider "e \<noteq> ?xs ! ?i" | "e = ?xs ! ?i" "?i = 8" | "e = ?xs ! ?i" "?i < 8"
    using Cons.prems(3) by linarith
  then show ?case
  proof cases
    case 1 then show ?thesis by (simp add: step exp run_sequence_terminal)
  next
    case 2 then show ?thesis
      unfolding exp run_sequence_simps step by (simp add: run_sequence_terminal)
  next
    case 3
    then have "snd (advance_sequence (fst e) (snd e) s) =
        s\<lparr>bs_next_event_index := ?i + 1, bs_phase := InProgress\<rparr>" (is "_ = ?s")
      unfolding step by simp
    with Cons.IH [of ?s] Cons.prems 3 show ?thesis by (simp add: exp)
  qed
qed

lemma phase_after_Completed: "phase_after xs es = SequenceCompleted \<longleftrightarrow> prefix xs es"
  by (induction xs es rule: phase_after.induct) auto

lemma phase_after_InProgress: "phase_after xs es = InProgress \<longleftrightarrow> strict_prefix es xs"
  by (induction xs es rule: phase_after.induct) auto

lemma abort_after_Cons:
  assumes "\<not> is_abort x"
  shows "(\<exists>before a after. x # es = before @ a # after \<and> is_abort a \<and> strict_prefix before (x # xs)) \<longleftrightarrow>
    (\<exists>before a after. es = before @ a # after \<and> is_abort a \<and> strict_prefix before xs)" (is "?l \<longleftrightarrow> ?r")
proof
  assume ?l
  then obtain before a after where b: "x # es = before @ a # after" "is_abort a"
    "strict_prefix before (x # xs)" by blast
  then obtain before' where "before = x # before'" using assms by (cases before) auto
  with b have "es = before' @ a # after" "is_abort a" "strict_prefix before' xs" by simp_all
  then show ?r by blast
next
  assume ?r
  then obtain before a after where "es = before @ a # after" "is_abort a" "strict_prefix before xs"
    by blast
  then have "x # es = (x # before) @ a # after" "is_abort a" "strict_prefix (x # before) (x # xs)"
    by simp_all
  then show ?l by blast
qed

lemma phase_after_Aborted:
  "\<forall>x \<in> set xs. \<not> is_abort x \<Longrightarrow> phase_after xs es = SequenceAborted \<longleftrightarrow>
    (\<exists>before e after. es = before @ e # after \<and> is_abort e \<and> strict_prefix before xs)"
proof (induction xs es rule: phase_after.induct)
  case (3 x xs e es)
  show ?case
  proof (cases "e = x")
    case True
    with 3 show ?thesis using abort_after_Cons [of x es xs] by simp
  next
    case False
    have "e # es = [] @ e # es" and "strict_prefix [] (x # xs)" by simp_all
    then have "is_abort e \<Longrightarrow> \<exists>before a after. e # es = before @ a # after \<and> is_abort a \<and>
        strict_prefix before (x # xs)" by blast
    moreover have "is_abort e" if "\<exists>before a after. e # es = before @ a # after \<and> is_abort a \<and>
        strict_prefix before (x # xs)"
      using that False by (auto simp: Cons_eq_append_conv simp del: split_paired_Ex)
    ultimately have "(\<exists>before a after. e # es = before @ a # after \<and> is_abort a \<and>
        strict_prefix before (x # xs)) \<longleftrightarrow> is_abort e" by blast
    with False show ?thesis by simp
  qed
qed auto

text \<open>
  C28. The owner of the exchange reports completion exactly when the events so far begin with the nine
  expected ones, each flowing the right way; it is still in progress exactly on a proper beginning
  of them; it is aborted exactly when an abort arrived in the middle of one; and on everything else
  it has failed, for good.
\<close>

theorem bootstrap_sequence_exact:
  assumes "valid_role role"
  shows "(let phase = (\<lambda>es. bs_phase (run_sequence es (make_bootstrap_sequence role))) in
    (phase es = SequenceCompleted \<longleftrightarrow> prefix (expected_events role) es) \<and>
    (phase es = InProgress \<longleftrightarrow> strict_prefix es (expected_events role)) \<and>
    (phase es = SequenceAborted \<longleftrightarrow>
      (\<exists>before e after. es = before @ e # after \<and> is_abort e \<and> strict_prefix before (expected_events role))) \<and>
    (phase es \<noteq> InProgress \<longrightarrow> phase (es @ later) = phase es))"
proof -
  let ?phase = "\<lambda>es. bs_phase (run_sequence es (make_bootstrap_sequence role))"
  have ph: "?phase es = phase_after (expected_events role) es" for es
    using run_sequence_phase [of "make_bootstrap_sequence role" es] assms
    by (simp add: make_bootstrap_sequence_def)
  have na: "\<forall>x \<in> set (expected_events role). \<not> is_abort x"
    using expected_event_not_abort [OF assms] by blast
  have final: "?phase es \<noteq> InProgress \<longrightarrow> ?phase (es @ later) = ?phase es"
    by (simp add: run_sequence_def run_sequence_terminal [unfolded run_sequence_def])
  show ?thesis
    using final unfolding Let_def ph
    using phase_after_Completed phase_after_InProgress phase_after_Aborted [OF na] by metis
qed

text \<open>The two endpoints see the same exchange: what one sends, the other receives.\<close>

lemma endpoints_mirror:
  "valid_direction d \<Longrightarrow> flow_for_role BrHost d = Outbound \<longleftrightarrow> flow_for_role BrAndroid d = Inbound"
  by (auto simp: flow_for_role_def valid_role_def valid_direction_def bootstrap_directions)

theorem bootstrap_sequence_exact_witness:
  "bs_phase (run_sequence (expected_events BrAndroid @ [(Inbound, bm_abort)])
     (make_bootstrap_sequence BrAndroid)) = SequenceCompleted"
proof -
  have "valid_role BrAndroid" by (simp add: valid_role_def)
  from bootstrap_sequence_exact [OF this, of "expected_events BrAndroid @ [(Inbound, bm_abort)]"]
  show ?thesis by (simp add: Let_def)
qed

end
