(* ===== verification/Control_Transport.thy ===== *)
theory Control_Transport
  imports Bootstrap_Record Control_Record
begin

text \<open>
  The TCP connection of the control channel
  (\<^verbatim>\<open>host/windows/src/authenticated_control_tcp_transport_v1.cpp\<close>): reading and writing one record
  of either kind, with the bytes of the next record kept for the next call, one deadline per
  operation, and the connection closed on every failure.

  The socket is a script: one entry per pass of a loop, the polls that \<^verbatim>\<open>wait_until\<close> makes (the
  clock and what \<^verbatim>\<open>select\<close> answers) and then the result of \<^verbatim>\<open>recv\<close> or \<^verbatim>\<open>send\<close>. An operation whose
  script ends before it returns is still waiting: its value is \<open>None\<close>. Setting a connection up
  (addresses, socket options, the listener) and Winsock start-up are not modelled; allocation is
  taken to succeed. Shown: whatever way the writer's sends and the reader's receives are cut, the
  records that come out are those that went in; failures close; the buffers stay within their
  bounds; and an operation ends when its deadline has passed.
\<close>

section \<open>Results and the connection\<close>

datatype tcp_status =
    TcpSucceeded | TcpInvalidConfiguration | TcpTimedOut | TcpPeerClosed | TcpPeerMismatch
  | TcpInvalidRecord | TcpSocketError | TcpAllocationFailed

record tcp_error =
  te_status :: tcp_status
  te_native_error :: u32
  te_record_rejection :: bootstrap_parse_status

definition tcp_succeeded :: "tcp_error \<Rightarrow> bool" where
  "tcp_succeeded e \<longleftrightarrow> te_status e = TcpSucceeded"

definition tcp_success :: tcp_error where
  "tcp_success = \<lparr>te_status = TcpSucceeded, te_native_error = 0, te_record_rejection = BootstrapParsed\<rparr>"

definition tcp_failure :: "tcp_status \<Rightarrow> u32 \<Rightarrow> bootstrap_parse_status \<Rightarrow> tcp_error" where
  "tcp_failure status native rejection =
     \<lparr>te_status = status, te_native_error = native, te_record_rejection = rejection\<rparr>"

abbreviation tcp_fail :: "tcp_status \<Rightarrow> tcp_error" where
  "tcp_fail status \<equiv> tcp_failure status 0 BootstrapTooShort"

record tcp_read_result =
  rr_encoded_record :: bytes
  rr_error :: tcp_error

definition read_succeeded :: "tcp_read_result \<Rightarrow> bool" where
  "read_succeeded r \<longleftrightarrow> rr_encoded_record r \<noteq> [] \<and> tcp_succeeded (rr_error r)"

record tcp_connection =
  cn_open :: bool
  cn_pending_input :: bytes
  cn_pending_offset :: nat

definition close_connection :: "tcp_connection \<Rightarrow> tcp_connection" where
  "close_connection c = c\<lparr>cn_open := False, cn_pending_input := [], cn_pending_offset := 0\<rparr>"

section \<open>Waiting for the socket\<close>

datatype select_answer =
  SelectReady | SelectExceptional u32 | SelectElapsed | SelectInterrupted | SelectFailed u32

fun wait_until :: "nat \<Rightarrow> (nat \<times> select_answer) list \<Rightarrow> tcp_error option" where
  "wait_until deadline [] = None"
| "wait_until deadline ((now, answer) # polls) =
     (if deadline \<le> now then Some (tcp_fail TcpTimedOut)
      else case answer of
          SelectReady \<Rightarrow> Some tcp_success
        | SelectExceptional e \<Rightarrow> Some (tcp_failure TcpSocketError e BootstrapTooShort)
        | SelectElapsed \<Rightarrow> wait_until deadline polls
        | SelectInterrupted \<Rightarrow> wait_until deadline polls
        | SelectFailed e \<Rightarrow> Some (tcp_failure TcpSocketError e BootstrapTooShort))"

datatype recv_answer = Received bytes | RecvClosed | RecvRetry | RecvFailed u32

type_synonym read_script = "((nat \<times> select_answer) list \<times> recv_answer) list"

text \<open>
  One wait and one \<^verbatim>\<open>recv\<close>, the second half of the loops' bodies: an error to return, or \<open>None\<close> to
  go round again, and the connection.
\<close>

definition receive_more ::
  "nat \<Rightarrow> (nat \<times> select_answer) list \<Rightarrow> recv_answer \<Rightarrow> tcp_connection \<Rightarrow>
     (tcp_error option \<times> tcp_connection) option" where
  "receive_more deadline polls answer c =
     (case wait_until deadline polls of
        None \<Rightarrow> None
      | Some waited \<Rightarrow> Some (
          if \<not> tcp_succeeded waited then (Some waited, close_connection c)
          else case answer of
              RecvClosed \<Rightarrow> (Some (tcp_fail TcpPeerClosed), close_connection c)
            | RecvRetry \<Rightarrow> (None, c)
            | RecvFailed e \<Rightarrow>
                (Some (tcp_failure TcpSocketError e BootstrapTooShort), close_connection c)
            | Received bs \<Rightarrow> (None, c\<lparr>cn_pending_input := bs, cn_pending_offset := 0\<rparr>)))"

section \<open>Reading a bootstrap record\<close>

definition advance_pending :: "nat \<Rightarrow> tcp_connection \<Rightarrow> tcp_connection" where
  "advance_pending consumed c =
     (let c = c\<lparr>cn_pending_offset := cn_pending_offset c + consumed\<rparr> in
      if cn_pending_offset c = length (cn_pending_input c)
      then c\<lparr>cn_pending_input := [], cn_pending_offset := 0\<rparr> else c)"

text \<open>The first half of the loop's body: feed what is pending to the decoder.\<close>

definition decode_pending ::
  "stream_decoder \<Rightarrow> tcp_connection \<Rightarrow> tcp_read_result option \<times> stream_decoder \<times> tcp_connection" where
  "decode_pending decoder c =
     (if cn_pending_offset c < length (cn_pending_input c) then
        let (fed, decoder) = feed (drop (cn_pending_offset c) (cn_pending_input c)) decoder;
            c = advance_pending (fr_consumed fed) c in
        if fr_status fed = RecordReady then
          case take_record decoder of
            (None, decoder) \<Rightarrow>
              (Some \<lparr>rr_encoded_record = [], rr_error = tcp_fail TcpAllocationFailed\<rparr>, decoder,
               close_connection c)
          | (Some rec, decoder) \<Rightarrow>
              (Some \<lparr>rr_encoded_record = rec, rr_error = tcp_success\<rparr>, decoder, c)
        else if fr_status fed = StreamRejected \<or> fr_status fed = StreamAllocationFailed then
          (Some \<lparr>rr_encoded_record = [], rr_error = tcp_failure
              (if fr_status fed = StreamAllocationFailed then TcpAllocationFailed else TcpInvalidRecord)
              0 (fr_rejection fed)\<rparr>, decoder, close_connection c)
        else (None, decoder, c)
      else (None, decoder, c))"

fun read_bootstrap_loop ::
  "nat \<Rightarrow> read_script \<Rightarrow> stream_decoder \<Rightarrow> tcp_connection \<Rightarrow>
     (tcp_read_result \<times> tcp_connection \<times> read_script) option" where
  "read_bootstrap_loop deadline script decoder c =
     (case decode_pending decoder c of
        (Some result, decoder, c) \<Rightarrow> Some (result, c, script)
      | (None, decoder, c) \<Rightarrow>
          (case script of
             [] \<Rightarrow> None
           | (polls, answer) # script \<Rightarrow>
               (case receive_more deadline polls answer c of
                  None \<Rightarrow> None
                | Some (Some e, c) \<Rightarrow> Some (\<lparr>rr_encoded_record = [], rr_error = e\<rparr>, c, script)
                | Some (None, c) \<Rightarrow> read_bootstrap_loop deadline script decoder c)))"

declare read_bootstrap_loop.simps [simp del]

definition read_bootstrap_record ::
  "bootstrap_direction \<Rightarrow> u32 \<Rightarrow> nat \<Rightarrow> read_script \<Rightarrow> tcp_connection \<Rightarrow>
     (tcp_read_result \<times> tcp_connection \<times> read_script) option" where
  "read_bootstrap_record expected_direction timeout_milliseconds now script c =
     (if \<not> cn_open c \<or> timeout_milliseconds = 0
      then Some (\<lparr>rr_encoded_record = [], rr_error = tcp_fail TcpInvalidConfiguration\<rparr>, c, script)
      else
        let decoder = make_stream_decoder expected_direction in
        if sd_failed decoder
        then Some (\<lparr>rr_encoded_record = [], rr_error = tcp_fail TcpInvalidConfiguration\<rparr>,
                   close_connection c, script)
        else read_bootstrap_loop (now + unat timeout_milliseconds) script decoder c)"

section \<open>Writing a record\<close>

datatype send_answer = Sent nat | SendRetry | SendFailed u32

type_synonym write_script = "((nat \<times> select_answer) list \<times> send_answer) list"

text \<open>
  The loop of both writers: the bytes handed to the socket so far are the accumulator \<open>sent\<close>. A
  positive \<open>Sent n\<close> is the number of bytes that the socket took of the rest of the record.
\<close>

fun send_all ::
  "nat \<Rightarrow> write_script \<Rightarrow> bytes \<Rightarrow> nat \<Rightarrow> bytes \<Rightarrow> tcp_connection \<Rightarrow>
     (tcp_error \<times> bytes \<times> tcp_connection \<times> write_script) option" where
  "send_all deadline script encoded sent_bytes sent c =
     (if \<not> sent_bytes < length encoded then Some (tcp_success, sent, c, script)
      else (case script of
          [] \<Rightarrow> None
        | (polls, answer) # script \<Rightarrow>
            (case wait_until deadline polls of
               None \<Rightarrow> None
             | Some waited \<Rightarrow>
                 if \<not> tcp_succeeded waited then Some (waited, sent, close_connection c, script)
                 else (case answer of
                     Sent n \<Rightarrow>
                       (if 0 < n then
                         send_all deadline script encoded (sent_bytes + n)
                           (sent @ take n (drop sent_bytes encoded)) c
                       else Some (tcp_fail TcpPeerClosed, sent, close_connection c, script))
                   | SendRetry \<Rightarrow> send_all deadline script encoded sent_bytes sent c
                   | SendFailed e \<Rightarrow>
                       Some (tcp_failure TcpSocketError e BootstrapTooShort, sent, close_connection c,
                             script)))))"

declare send_all.simps [simp del]

definition write_bootstrap_record ::
  "bytes \<Rightarrow> bootstrap_direction \<Rightarrow> u32 \<Rightarrow> nat \<Rightarrow> write_script \<Rightarrow> tcp_connection \<Rightarrow>
     (tcp_error \<times> bytes \<times> tcp_connection \<times> write_script) option" where
  "write_bootstrap_record encoded_record expected_direction timeout_milliseconds now script c =
     (if \<not> cn_open c \<or> timeout_milliseconds = 0
      then Some (tcp_fail TcpInvalidConfiguration, [], c, script)
      else
        let parsed = parse_bootstrap_record encoded_record expected_direction in
        if fst parsed \<noteq> BootstrapParsed
        then Some (tcp_failure TcpInvalidRecord 0 (fst parsed), [], close_connection c, script)
        else send_all (now + unat timeout_milliseconds) script encoded_record 0 [] c)"

section \<open>Authenticated records\<close>

definition kAuthenticatedControlPayloadLengthOffset :: nat where
  "kAuthenticatedControlPayloadLengthOffset = 36"

definition tcp_load_u32_be :: "bytes \<Rightarrow> nat \<Rightarrow> u32" where
  "tcp_load_u32_be bs offset =
     (push_bit 24 (ucast (bs ! offset)) OR push_bit 16 (ucast (bs ! (offset + 1))) OR
      push_bit 8 (ucast (bs ! (offset + 2))) OR ucast (bs ! (offset + 3)))"

definition authenticated_control_record_size :: "bytes \<Rightarrow> control_direction \<Rightarrow> nat option" where
  "authenticated_control_record_size header expected_direction =
     (if length header < kAuthenticatedControlHeaderBytes \<or> expected_direction = CdInvalid \<or>
         take 4 header \<noteq> kControlMagic \<or>
         header ! 4 \<noteq> kAuthenticatedControlRecordVersion \<or>
         unat (header ! 5) \<noteq> kAuthenticatedControlHeaderBytes \<or>
         header ! 6 \<noteq> control_direction_byte expected_direction
      then None
      else
        let message_type = header ! 7 in
        if message_type = 0 \<or> message_type > control_message_type_byte HostStartIntentClaimResponse
        then None
        else
          let payload_size = tcp_load_u32_be header kAuthenticatedControlPayloadLengthOffset in
          if kMaximumAuthenticatedControlPayloadBytes < unat payload_size then None
          else Some (kAuthenticatedControlHeaderBytes + unat payload_size + kGcmTagBytes))"

text \<open>
  Copying what is pending into the record, at most twice in a row: once to complete the header and
  once for the body. The first argument counts the passes left; \<open>drain_enough\<close> shows that two are
  never used up. \<open>total_size\<close> is 0 until the header is complete, as in the source.
\<close>

primrec drain_pending ::
  "nat \<Rightarrow> control_direction \<Rightarrow> bytes \<Rightarrow> nat \<Rightarrow> tcp_connection \<Rightarrow>
     (tcp_read_result option \<times> bytes \<times> nat \<times> tcp_connection) option" where
  "drain_pending 0 expected_direction encoded total_size c = None"
| "drain_pending (Suc passes) expected_direction encoded total_size c =
     (if cn_pending_offset c < length (cn_pending_input c) then
        let target = (if total_size = 0 then kAuthenticatedControlHeaderBytes else total_size);
            needed = target - length encoded;
            available = length (cn_pending_input c) - cn_pending_offset c;
            copied = min needed available;
            encoded = encoded @ take copied (drop (cn_pending_offset c) (cn_pending_input c));
            c = advance_pending copied c;
            header_done = (total_size = 0 \<and> length encoded = kAuthenticatedControlHeaderBytes);
            sized = authenticated_control_record_size encoded expected_direction in
        if header_done \<and> sized = None
        then Some (Some \<lparr>rr_encoded_record = encoded, rr_error = tcp_fail TcpInvalidRecord\<rparr>,
                   encoded, total_size, close_connection c)
        else
          let total_size = (if header_done then the sized else total_size) in
          if total_size \<noteq> 0 \<and> length encoded = total_size
          then Some (Some \<lparr>rr_encoded_record = encoded, rr_error = tcp_success\<rparr>, encoded, total_size, c)
          else if cn_pending_offset c < length (cn_pending_input c)
          then drain_pending passes expected_direction encoded total_size c
          else Some (None, encoded, total_size, c)
      else Some (None, encoded, total_size, c))"

fun read_authenticated_loop ::
  "nat \<Rightarrow> read_script \<Rightarrow> control_direction \<Rightarrow> bytes \<Rightarrow> nat \<Rightarrow> tcp_connection \<Rightarrow>
     (tcp_read_result \<times> tcp_connection \<times> read_script) option" where
  "read_authenticated_loop deadline script expected_direction encoded total_size c =
     (case drain_pending 2 expected_direction encoded total_size c of
        None \<Rightarrow> None
      | Some (Some result, encoded, total_size, c) \<Rightarrow> Some (result, c, script)
      | Some (None, encoded, total_size, c) \<Rightarrow>
          (case script of
             [] \<Rightarrow> None
           | (polls, answer) # script \<Rightarrow>
               (case receive_more deadline polls answer c of
                  None \<Rightarrow> None
                | Some (Some e, c) \<Rightarrow> Some (\<lparr>rr_encoded_record = encoded, rr_error = e\<rparr>, c, script)
                | Some (None, c) \<Rightarrow>
                    read_authenticated_loop deadline script expected_direction encoded total_size c)))"

declare read_authenticated_loop.simps [simp del]

definition read_authenticated_record ::
  "control_direction \<Rightarrow> u32 \<Rightarrow> nat \<Rightarrow> read_script \<Rightarrow> tcp_connection \<Rightarrow>
     (tcp_read_result \<times> tcp_connection \<times> read_script) option" where
  "read_authenticated_record expected_direction timeout_milliseconds now script c =
     (if \<not> cn_open c \<or> timeout_milliseconds = 0 \<or> expected_direction = CdInvalid
      then Some (\<lparr>rr_encoded_record = [], rr_error = tcp_fail TcpInvalidConfiguration\<rparr>, c, script)
      else read_authenticated_loop (now + unat timeout_milliseconds) script expected_direction [] 0 c)"

definition write_authenticated_record ::
  "bytes \<Rightarrow> control_direction \<Rightarrow> u32 \<Rightarrow> nat \<Rightarrow> write_script \<Rightarrow> tcp_connection \<Rightarrow>
     (tcp_error \<times> bytes \<times> tcp_connection \<times> write_script) option" where
  "write_authenticated_record encoded_record expected_direction timeout_milliseconds now script c =
     (if \<not> cn_open c \<or> timeout_milliseconds = 0 \<or>
         authenticated_control_record_size encoded_record expected_direction \<noteq>
           Some (length encoded_record)
      then Some (tcp_fail TcpInvalidRecord, [], close_connection c, script)
      else send_all (now + unat timeout_milliseconds) script encoded_record 0 [] c)"


section \<open>The connection invariant\<close>

definition kReceiveBufferBytes :: nat where "kReceiveBufferBytes = 4096"

text \<open>
  What stays between calls: at most one receive buffer, an offset inside it, nothing at all once
  everything has been consumed or the connection is closed.
\<close>

definition connection_ok :: "tcp_connection \<Rightarrow> bool" where
  "connection_ok c \<longleftrightarrow>
     length (cn_pending_input c) \<le> kReceiveBufferBytes \<and>
     (cn_pending_offset c < length (cn_pending_input c) \<or>
      cn_pending_input c = [] \<and> cn_pending_offset c = 0) \<and>
     (\<not> cn_open c \<longrightarrow> cn_pending_input c = [])"

definition unread :: "tcp_connection \<Rightarrow> bytes" where
  "unread c = drop (cn_pending_offset c) (cn_pending_input c)"

text \<open>What \<^verbatim>\<open>recv\<close> promises: between one byte and the whole buffer.\<close>

definition recv_bounded :: "recv_answer \<Rightarrow> bool" where
  "recv_bounded a = (case a of Received bs \<Rightarrow> bs \<noteq> [] \<and> length bs \<le> kReceiveBufferBytes | _ \<Rightarrow> True)"

lemma close_connection_ok [simp]:
  "connection_ok (close_connection c)" "\<not> cn_open (close_connection c)"
  by (simp_all add: connection_ok_def close_connection_def)

lemma length_unread: "connection_ok c \<Longrightarrow> length (unread c) \<le> kReceiveBufferBytes"
  unfolding unread_def connection_ok_def length_drop by linarith

lemma unread_Nil_iff: "unread c = [] \<longleftrightarrow> \<not> cn_pending_offset c < length (cn_pending_input c)"
  by (simp add: unread_def not_less)

lemma advance_pending:
  assumes "connection_ok c" and "n \<le> length (unread c)"
  shows "connection_ok (advance_pending n c)" and "unread (advance_pending n c) = drop n (unread c)"
    and "cn_open (advance_pending n c) = cn_open c"
  using assms
  by (auto simp: advance_pending_def connection_ok_def unread_def Let_def add.commute)

lemma receive_more_ok:
  assumes "receive_more deadline polls a c = Some (e, c')" and "recv_bounded a" and "connection_ok c"
    and "cn_open c"
  shows "connection_ok c'" and "e \<noteq> None \<Longrightarrow> \<not> cn_open c'" and "e = None \<Longrightarrow> cn_open c'"
  using assms
  by (auto simp: receive_more_def recv_bounded_def connection_ok_def close_connection_def
      split: option.splits if_splits recv_answer.splits)

lemma receive_more_error:
  "receive_more deadline polls a c = Some (Some e, c') \<Longrightarrow> \<not> tcp_succeeded e"
  by (auto simp: receive_more_def tcp_succeeded_def tcp_failure_def
      split: option.splits if_splits recv_answer.splits)

section \<open>A reader that assembles one message\<close>

text \<open>A pass of the socket that brings the reader further: ready in time, with bytes or nothing.\<close>

definition pass_good :: "nat \<Rightarrow> (nat \<times> select_answer) list \<times> recv_answer \<Rightarrow> bool" where
  "pass_good deadline p \<longleftrightarrow> wait_until deadline (fst p) = Some tcp_success \<and> recv_bounded (snd p) \<and>
     (case snd p of Received bs \<Rightarrow> True | RecvRetry \<Rightarrow> True | _ \<Rightarrow> False)"

definition read_bytes :: "read_script \<Rightarrow> bytes" where
  "read_bytes script = concat (map (\<lambda>p. case snd p of Received bs \<Rightarrow> bs | _ \<Rightarrow> []) script)"

abbreviation read_ok :: "bytes \<Rightarrow> tcp_read_result" where
  "read_ok m \<equiv> \<lparr>rr_encoded_record = m, rr_error = tcp_success\<rparr>"

lemma read_bytes_simps [simp]:
  "read_bytes [] = []"
  "read_bytes (p # script) = (case snd p of Received bs \<Rightarrow> bs | _ \<Rightarrow> []) @ read_bytes script"
  by (simp_all add: read_bytes_def)

lemma receive_more_good:
  assumes "pass_good deadline (polls, a)" and "connection_ok c" and "cn_open c" and "unread c = []"
  obtains c' where "receive_more deadline polls a c = Some (None, c')"
    and "connection_ok c'" and "cn_open c'"
    and "unread c' = (case a of Received bs \<Rightarrow> bs | _ \<Rightarrow> [])"
proof -
  have "\<exists>c'. receive_more deadline polls a c = Some (None, c') \<and> connection_ok c' \<and> cn_open c' \<and>
      unread c' = (case a of Received bs \<Rightarrow> bs | _ \<Rightarrow> [])"
    using assms
    by (auto simp: pass_good_def receive_more_def tcp_succeeded_def tcp_success_def recv_bounded_def
        connection_ok_def unread_def split: recv_answer.splits)
  then show thesis using that by blast
qed

lemma append_overlap:
  assumes "xs @ ys = us @ vs"
  shows "(\<exists>more. xs = us @ more) \<or> (\<exists>more. us = xs @ more \<and> more \<noteq> [])"
  using assms by (metis append.right_neutral append_eq_append_conv2)

text \<open>
  The contract of a reader that assembles one message from what the connection hands it: a step
  takes what is pending into the partial message and finishes exactly when the message is complete,
  leaving the bytes after it; the loop repeats the step as long as more bytes come.
\<close>

locale framed_reader =
  fixes step :: "'d \<Rightarrow> tcp_connection \<Rightarrow> tcp_read_result option \<times> 'd \<times> tcp_connection"
    and loop :: "nat \<Rightarrow> read_script \<Rightarrow> 'd \<Rightarrow> tcp_connection \<Rightarrow>
      (tcp_read_result \<times> tcp_connection \<times> read_script) option"
    and holds :: "bytes \<Rightarrow> bytes \<Rightarrow> 'd \<Rightarrow> bool"
  assumes loop_done: "holds m pre d \<Longrightarrow> step d c = (Some result, d', c') \<Longrightarrow>
      loop deadline script d c = Some (result, c', script)"
    and loop_more: "holds m pre d \<Longrightarrow> step d c = (None, d', c') \<Longrightarrow>
      receive_more deadline polls a c' = Some (None, c'') \<Longrightarrow>
      loop deadline ((polls, a) # script) d c = loop deadline script d' c''"
    and step_more: "holds (pre @ rest) pre d \<Longrightarrow> connection_ok c \<Longrightarrow>
      strict_prefix (unread c) rest \<Longrightarrow>
      \<exists>d' c'. step d c = (None, d', c') \<and> holds (pre @ rest) (pre @ unread c) d' \<and>
        connection_ok c' \<and> cn_open c' = cn_open c \<and> unread c' = []"
    and step_done: "holds (pre @ rest) pre d \<Longrightarrow> connection_ok c \<Longrightarrow> rest \<noteq> [] \<Longrightarrow>
      unread c = rest @ later \<Longrightarrow>
      \<exists>d' c'. step d c = (Some (read_ok (pre @ rest)), d', c') \<and>
        connection_ok c' \<and> cn_open c' = cn_open c \<and> unread c' = later"
begin

lemma loop_reads:
  assumes "holds (pre @ rest) pre d" and "rest \<noteq> []" and "connection_ok c" and "cn_open c"
    and "unread c @ read_bytes script = rest @ later" and "\<forall>p \<in> set script. pass_good deadline p"
  shows "\<exists>c' script'. loop deadline script d c = Some (read_ok (pre @ rest), c', script') \<and>
    connection_ok c' \<and> cn_open c' \<and> unread c' @ read_bytes script' = later \<and> suffix script' script"
  using assms
proof (induction script arbitrary: pre rest d c)
  case Nil
  then obtain d' c' where "step d c = (Some (read_ok (pre @ rest)), d', c')" "connection_ok c'"
    "cn_open c'" "unread c' = later"
    using step_done [OF Nil.prems(1,3,2), of later] Nil.prems(4,5) by auto
  then show ?case using loop_done [OF Nil.prems(1)] by auto
next
  case (Cons p script)
  obtain polls a where p: "p = (polls, a)" by (cases p)
  consider (complete) more where "unread c = rest @ more"
    | (partial) more where "rest = unread c @ more" "more \<noteq> []"
    using append_overlap [OF Cons.prems(5)] by blast
  then show ?case
  proof cases
    case complete
    then obtain d' c' where st: "step d c = (Some (read_ok (pre @ rest)), d', c')" "connection_ok c'"
      "cn_open c'" "unread c' = more"
      using step_done [OF Cons.prems(1,3,2)] Cons.prems(4) by blast
    moreover have "more @ read_bytes (p # script) = later" using Cons.prems(5) complete by simp
    ultimately show ?thesis using loop_done [OF Cons.prems(1) st(1)] by blast
  next
    case partial
    then have "strict_prefix (unread c) rest" by (auto simp: strict_prefix_def prefix_def)
    then obtain d' c' where st: "step d c = (None, d', c')"
      "holds (pre @ rest) (pre @ unread c) d'" "connection_ok c'" "cn_open c'" "unread c' = []"
      using step_more [OF Cons.prems(1,3)] Cons.prems(4) by blast
    obtain c'' where re: "receive_more deadline polls a c' = Some (None, c'')" "connection_ok c''"
      "cn_open c''" "unread c'' = (case a of Received bs \<Rightarrow> bs | _ \<Rightarrow> [])"
      using receive_more_good [of deadline polls a c'] Cons.prems(6) st p by auto
    have msg: "pre @ rest = (pre @ unread c) @ more" using partial by simp
    have "unread c'' @ read_bytes script = more @ later"
      using Cons.prems(5) partial p re(4) by simp
    with Cons.IH [of "pre @ unread c" more d' c''] st(2) partial re Cons.prems(6)
    obtain c3 script' where "loop deadline script d' c'' = Some (read_ok (pre @ rest), c3, script')"
      "connection_ok c3" "cn_open c3" "unread c3 @ read_bytes script' = later" "suffix script' script"
      unfolding msg by auto
    then show ?thesis
      using loop_more [OF Cons.prems(1) st(1) re(1)] p by (auto intro: suffix_ConsI)
  qed
qed

end

subsection \<open>The reader of bootstrap records\<close>

definition bootstrap_holds :: "bytes \<Rightarrow> bytes \<Rightarrow> stream_decoder \<Rightarrow> bool" where
  "bootstrap_holds m pre d \<longleftrightarrow> (\<exists>r. record_valid r \<and> m = record_bytes r \<and> partial r pre d)"

lemma decode_pending_more:
  assumes "bootstrap_holds (pre @ rest) pre d" and "connection_ok c" and "strict_prefix (unread c) rest"
  shows "\<exists>d' c'. decode_pending d c = (None, d', c') \<and> bootstrap_holds (pre @ rest) (pre @ unread c) d' \<and>
    connection_ok c' \<and> cn_open c' = cn_open c \<and> unread c' = []"
proof (cases "unread c = []")
  case True
  then have "decode_pending d c = (None, d, c)"
    unfolding unread_Nil_iff by (simp add: decode_pending_def)
  then show ?thesis using True assms by simp
next
  case False
  obtain r where r: "record_valid r" "pre @ rest = record_bytes r" "partial r pre d"
    using assms(1) unfolding bootstrap_holds_def by blast
  have short: "length (unread c) < length rest" using assms(3) by (simp add: prefix_length_less)
  have agree: "agrees (unread c) rest"
    using assms(3) unfolding agrees_def by (auto simp: strict_prefix_def prefix_def)
  have "rest \<noteq> []" using short by auto
  then obtain d' where d': "feed (unread c) d =
      (\<lparr>fr_status = NeedMore, fr_consumed = length (unread c), fr_rejection = BootstrapTooShort\<rparr>, d')"
    "partial r (pre @ unread c) d'"
    using feed_partial [OF r(1,3) r(2) [symmetric] _ agree] short by auto
  let ?c = "advance_pending (length (unread c)) c"
  have "decode_pending d c = (None, d', ?c)"
    using False d'(1) unfolding unread_Nil_iff by (simp add: decode_pending_def unread_def)
  moreover have "bootstrap_holds (pre @ rest) (pre @ unread c) d'"
    unfolding bootstrap_holds_def using r d'(2) by blast
  ultimately show ?thesis
    using advance_pending [OF assms(2), of "length (unread c)"] by simp
qed

lemma decode_pending_done:
  assumes "bootstrap_holds (pre @ rest) pre d" and "connection_ok c" and "rest \<noteq> []"
    and "unread c = rest @ later"
  shows "\<exists>d' c'. decode_pending d c = (Some (read_ok (pre @ rest)), d', c') \<and>
    connection_ok c' \<and> cn_open c' = cn_open c \<and> unread c' = later"
proof -
  obtain r where r: "record_valid r" "pre @ rest = record_bytes r" "partial r pre d"
    using assms(1) unfolding bootstrap_holds_def by blast
  have agree: "agrees (unread c) rest" unfolding agrees_def using assms(4) by simp
  obtain d' where d': "feed (unread c) d =
      (\<lparr>fr_status = RecordReady, fr_consumed = length rest, fr_rejection = BootstrapParsed\<rparr>, d')"
    "\<not> sd_failed d'" "sd_ready d'" "sd_encoded d' = record_bytes r"
    using feed_partial [OF r(1,3) r(2) [symmetric] assms(3) agree] assms(4) by auto
  let ?c = "advance_pending (length rest) c"
  have "unread c \<noteq> []" using assms(3,4) by simp
  then have "decode_pending d c = (Some (read_ok (pre @ rest)), reset_for_next_record d', ?c)"
    using d'(1) take_ready(1) [OF d'(2,3)] d'(4) r(2) unfolding unread_Nil_iff
    by (simp add: decode_pending_def unread_def)
  moreover have "connection_ok ?c" "cn_open ?c = cn_open c" "unread ?c = later"
    using advance_pending [OF assms(2), of "length rest"] assms(4) by simp_all
  ultimately show ?thesis by blast
qed

interpretation bootstrap_reader: framed_reader decode_pending read_bootstrap_loop bootstrap_holds
proof (unfold_locales, goal_cases)
  case 1 then show ?case by (subst read_bootstrap_loop.simps) simp
next
  case 2 then show ?case by (subst read_bootstrap_loop.simps) simp
next
  case 3 then show ?case by (rule decode_pending_more)
next
  case 4 then show ?case by (rule decode_pending_done)
qed

subsection \<open>The reader of authenticated records\<close>

lemma tcp_load_u32_be_eq:
  assumes "bs = pre @ be_bytes 4 v @ post" and "length pre = offset"
  shows "tcp_load_u32_be bs offset = v"
proof -
  have "tcp_load_u32_be bs offset = read_u32_be (be_bytes 4 v)"
    using assms by (simp add: tcp_load_u32_be_def read_u32_be_def nth_append)
  then show ?thesis by (simp add: read_u32_be_eq be_value_be_bytes)
qed

lemma authenticated_size:
  assumes "control_record_ok r"
  shows "authenticated_control_record_size (cr_authenticated_header r @ tail) (ct_direction (cr_tuple r)) =
    Some (length (control_record_bytes r))"
proof -
  have h: "cr_authenticated_header r = control_header (cr_tuple r) (cr_message_type r) (cr_counter r)
      (of_nat (length (cr_ciphertext r)))" and n: "length (cr_ciphertext r) \<le> 65536"
    and t: "control_tuple_valid (cr_tuple r)" and m: "control_message_type_valid (cr_message_type r)"
    and tag: "length (cr_tag r) = 16"
    using assms by (simp_all add: control_record_ok_def const_defs)
  let ?d = "cr_authenticated_header r @ tail"
  have d: "?d = control_header (cr_tuple r) (cr_message_type r) (cr_counter r)
      (of_nat (length (cr_ciphertext r))) @ tail" using h by simp
  have size: "tcp_load_u32_be ?d 36 = of_nat (length (cr_ciphertext r))"
    by (rule tcp_load_u32_be_eq [where pre = "kControlMagic @ [1, 40,
          control_direction_byte (ct_direction (cr_tuple r)), control_message_type_byte (cr_message_type r)]
          @ be_bytes 8 (ct_connection_id (cr_tuple r)) @ be_bytes 8 (ct_session_generation (cr_tuple r))
          @ be_bytes 4 (ct_key_epoch (cr_tuple r)) @ be_bytes 8 (cr_counter r)" and post = tail])
       (simp_all add: h control_header_def)
  have dir: "ct_direction (cr_tuple r) \<noteq> CdInvalid"
    using t by (auto simp: control_tuple_valid_def control_direction_valid_def)
  have type: "control_message_type_byte (cr_message_type r) \<noteq> 0"
    "control_message_type_byte (cr_message_type r) \<le> 11"
    using m by (cases "cr_message_type r"; simp)+
  have len: "length (control_record_bytes r) = 40 + length (cr_ciphertext r) + 16"
    using h tag by (simp add: control_record_bytes_def)
  show ?thesis
    using control_header_fields(1-5) [OF d] size dir type n len unat_control_size [OF n] h
    by (simp add: authenticated_control_record_size_def const_defs Let_def
        kAuthenticatedControlPayloadLengthOffset_def not_less)
qed

text \<open>One pass over the body of a record whose header is complete.\<close>

lemma drain_body:
  assumes "length pre \<ge> 40" and "connection_ok c" and "unread c \<noteq> []" and "rest \<noteq> []"
  shows "strict_prefix (unread c) rest \<Longrightarrow>
      drain_pending (Suc n) dir pre (length (pre @ rest)) c =
        Some (None, pre @ unread c, length (pre @ rest), advance_pending (length (unread c)) c)"
    and "unread c = rest @ later \<Longrightarrow>
      drain_pending (Suc n) dir pre (length (pre @ rest)) c =
        Some (Some (read_ok (pre @ rest)), pre @ rest, length (pre @ rest), advance_pending (length rest) c)"
proof -
  have pend: "cn_pending_offset c < length (cn_pending_input c)"
    using assms(3) unfolding unread_Nil_iff by simp
  have size: "length (cn_pending_input c) - cn_pending_offset c = length (unread c)"
    by (simp add: unread_def)
  have total: "length pre + length rest \<noteq> 0" using assms(4) by simp
  {
    assume strict: "strict_prefix (unread c) rest"
    have less: "length (unread c) < length rest" using strict by (simp add: prefix_length_less)
    have empty: "\<not> cn_pending_offset (advance_pending (length (unread c)) c)
        < length (cn_pending_input (advance_pending (length (unread c)) c))"
      using advance_pending(2) [OF assms(2), of "length (unread c)"]
      by (simp flip: unread_Nil_iff)
    have copied: "min (length rest) (length (unread c)) = length (unread c)" using less by linarith
    show "drain_pending (Suc n) dir pre (length (pre @ rest)) c =
        Some (None, pre @ unread c, length (pre @ rest), advance_pending (length (unread c)) c)"
      using pend empty copied less assms(1,4)
      by (simp add: Let_def size flip: unread_def)
  next
    assume unread: "unread c = rest @ later"
    have copied: "min (length rest) (length (unread c)) = length rest"
      and first: "take (length rest) (unread c) = rest"
      using unread by simp_all
    show "drain_pending (Suc n) dir pre (length (pre @ rest)) c =
        Some (Some (read_ok (pre @ rest)), pre @ rest, length (pre @ rest), advance_pending (length rest) c)"
      using pend copied first assms(4) by (simp add: Let_def size flip: unread_def)
  }
qed

text \<open>A pass that does not reach the end of the header, and one that does.\<close>

lemma drain_header_short:
  assumes "connection_ok c" and "unread c \<noteq> []" and "length pre + length (unread c) < 40"
  shows "drain_pending (Suc n) dir pre 0 c =
    Some (None, pre @ unread c, 0, advance_pending (length (unread c)) c)"
proof -
  have pend: "cn_pending_offset c < length (cn_pending_input c)"
    using assms(2) unfolding unread_Nil_iff by simp
  have size: "length (cn_pending_input c) - cn_pending_offset c = length (unread c)"
    by (simp add: unread_def)
  have copied: "min (40 - length pre) (length (unread c)) = length (unread c)" using assms(3) by linarith
  have "unread (advance_pending (length (unread c)) c) = []"
    using advance_pending(2) [OF assms(1)] by simp
  then show ?thesis
    using pend copied assms(3)
    by (simp add: Let_def size unread_Nil_iff const_defs flip: unread_def)
qed

lemma drain_header:
  assumes "connection_ok c" and "length pre < 40" and "40 \<le> length pre + length (unread c)"
    and hdr: "pre @ take (40 - length pre) (unread c) = hdr"
    and size': "authenticated_control_record_size hdr dir = Some full_size" and "40 < full_size"
  shows "drain_pending (Suc n) dir pre 0 c =
    (if length pre + length (unread c) = 40 then Some (None, hdr, full_size, advance_pending (40 - length pre) c)
     else drain_pending n dir hdr full_size (advance_pending (40 - length pre) c))"
proof -
  have "unread c \<noteq> []" using assms(2,3) by auto
  then have pend: "cn_pending_offset c < length (cn_pending_input c)"
    unfolding unread_Nil_iff by simp
  have size: "length (cn_pending_input c) - cn_pending_offset c = length (unread c)"
    by (simp add: unread_def)
  have copied: "min (40 - length pre) (length (unread c)) = 40 - length pre" using assms(3) by linarith
  have whole: "length pre + length (unread c) = 40 \<longrightarrow> pre @ unread c = hdr" using hdr by auto
  have len: "length hdr = 40" unfolding hdr [symmetric] using assms(2,3) by simp
  have "unread (advance_pending (40 - length pre) c) = drop (40 - length pre) (unread c)"
    using advance_pending(2) [OF assms(1), of "40 - length pre"] assms(3) by simp
  then have rest: "cn_pending_offset (advance_pending (40 - length pre) c)
      < length (cn_pending_input (advance_pending (40 - length pre) c)) \<longleftrightarrow> length pre + length (unread c) \<noteq> 40"
    using assms(2,3) by (subst not_not [symmetric], subst unread_Nil_iff [symmetric]) auto
  show ?thesis
    using pend copied len size' assms(6) rest whole
    by (simp add: Let_def size hdr const_defs flip: unread_def)
qed

definition authenticated_holds ::
  "control_direction \<Rightarrow> bytes \<Rightarrow> bytes \<Rightarrow> bytes \<times> nat \<Rightarrow> bool" where
  "authenticated_holds dir m pre d \<longleftrightarrow>
     (\<exists>r. control_record_ok r \<and> ct_direction (cr_tuple r) = dir \<and> m = control_record_bytes r \<and>
        strict_prefix pre m \<and> d = (pre, if length pre < 40 then 0 else length m))"

definition authenticated_step ::
  "control_direction \<Rightarrow> bytes \<times> nat \<Rightarrow> tcp_connection \<Rightarrow>
     tcp_read_result option \<times> (bytes \<times> nat) \<times> tcp_connection" where
  "authenticated_step dir d c =
     (case drain_pending 2 dir (fst d) (snd d) c of
        None \<Rightarrow> (None, d, c) | Some (result, encoded, full_size, c) \<Rightarrow> (result, (encoded, full_size), c))"

definition authenticated_loop ::
  "control_direction \<Rightarrow> nat \<Rightarrow> read_script \<Rightarrow> bytes \<times> nat \<Rightarrow> tcp_connection \<Rightarrow>
     (tcp_read_result \<times> tcp_connection \<times> read_script) option" where
  "authenticated_loop dir deadline script d c =
     read_authenticated_loop deadline script dir (fst d) (snd d) c"

text \<open>Two passes are always enough, whatever the connection holds.\<close>

lemma advance_all:
  "cn_pending_offset c < length (cn_pending_input c) \<Longrightarrow>
   copied = length (cn_pending_input c) - cn_pending_offset c \<Longrightarrow>
   \<not> cn_pending_offset (advance_pending copied c) < length (cn_pending_input (advance_pending copied c))"
  by (simp add: advance_pending_def)

lemma drain_body_enough:
  assumes "length encoded < full_size"
  shows "drain_pending (Suc n) dir encoded full_size c \<noteq> None"
proof (cases "cn_pending_offset c < length (cn_pending_input c)")
  case True
  let ?have = "length (cn_pending_input c) - cn_pending_offset c" and ?need = "full_size - length encoded"
  show ?thesis
  proof (cases "?need \<le> ?have")
    case enough: True
    have "min ?need ?have = ?need" and "length encoded + ?need = full_size" using enough assms by linarith+
    then show ?thesis using True assms by (simp add: Let_def)
  next
    case False
    then have "min ?need ?have = ?have" by linarith
    then show ?thesis using True assms advance_all [OF True refl] by (simp add: Let_def)
  qed
qed simp

lemma sized_bound:
  "authenticated_control_record_size hdr dir = Some n \<Longrightarrow> 56 \<le> n \<and> n \<le> 40 + 65536 + 16"
  by (auto simp: authenticated_control_record_size_def const_defs Let_def split: if_splits)

lemma drain_enough:
  assumes "length encoded < 40"
  shows "drain_pending 2 dir encoded 0 c \<noteq> None"
proof (cases "cn_pending_offset c < length (cn_pending_input c)")
  case True
  let ?have = "length (cn_pending_input c) - cn_pending_offset c" and ?need = "40 - length encoded"
  have two: "(2 :: nat) = Suc (Suc 0)" by simp
  show ?thesis
  proof (cases "?need \<le> ?have")
    case enough: True
    let ?e = "encoded @ take ?need (drop (cn_pending_offset c) (cn_pending_input c))"
    have copied: "min ?need ?have = ?need" using enough by linarith
    have len: "length ?e = 40" using enough assms by (simp add: min_def)
    show ?thesis
    proof (cases "authenticated_control_record_size ?e dir")
      case None
      then show ?thesis unfolding two using True copied len by (simp add: Let_def const_defs)
    next
      case (Some n)
      then have "length ?e < n" using sized_bound len by fastforce
      with drain_body_enough [of ?e n 0 dir] show ?thesis
        unfolding two using True copied len Some
        by (subst drain_pending.simps) (simp add: Let_def const_defs del: drain_pending.simps)
    qed
  next
    case False
    then have "min ?need ?have = ?have" and "length encoded + ?have < 40" using assms by linarith+
    then show ?thesis
      unfolding two using True assms advance_all [OF True refl] by (simp add: Let_def const_defs)
  qed
qed (simp add: numeral_2_eq_2)

lemma authenticated_drains:
  assumes "authenticated_holds dir m pre d"
  obtains result d' c' where "drain_pending 2 dir (fst d) (snd d) c = Some (result, fst d', snd d', c')"
    and "authenticated_step dir d c = (result, d', c')"
proof -
  have "drain_pending 2 dir (fst d) (snd d) c \<noteq> None"
  proof (cases "length pre < 40")
    case True
    then show ?thesis using assms drain_enough by (auto simp: authenticated_holds_def)
  next
    case False
    then have "length (fst d) < snd d"
      using assms by (auto simp: authenticated_holds_def prefix_length_less)
    then show ?thesis
      using drain_body_enough [of "fst d" "snd d" 1 dir c] by (simp only: numeral_2_eq_2 One_nat_def not_False_eq_True)
  qed
  then show thesis
    using that by (auto simp: authenticated_step_def split: option.splits)
qed

lemma authenticated_header_ready:
  assumes "control_record_ok r" and "control_record_bytes r = pre @ rest" and "length pre < 40"
    and "prefix (take (40 - length pre) u) rest" and "40 \<le> length pre + length u"
  shows "pre @ take (40 - length pre) u = cr_authenticated_header r"
proof -
  have len: "length (cr_authenticated_header r) = 40" using assms(1) by (simp add: control_record_ok_def)
  have "prefix (pre @ take (40 - length pre) u) (control_record_bytes r)"
    using assms(2,4) by simp
  moreover have "length (pre @ take (40 - length pre) u) = 40" using assms(3,5) by simp
  ultimately show ?thesis
    using len unfolding control_record_bytes_def prefix_def by (metis append_eq_append_conv)
qed

lemma strict_prefix_append: "strict_prefix (p @ xs) (p @ ys) \<longleftrightarrow> strict_prefix xs ys"
  by (auto simp: strict_prefix_def)

lemma two_passes: "(2 :: nat) = Suc (Suc 0)"
  by simp

lemma drain_nothing: "unread c = [] \<Longrightarrow> drain_pending 2 dir pre t c = Some (None, pre, t, c)"
  unfolding unread_Nil_iff two_passes by simp

text \<open>
  The whole drain on a connection that holds the next part of the record: short of its end, or with
  its end and what comes after.
\<close>

lemma drain_more:
  assumes ok: "control_record_ok r" and bytes: "control_record_bytes r = pre @ rest"
    and c: "connection_ok c" and strict: "strict_prefix (unread c) rest" and pend: "unread c \<noteq> []"
    and dir: "ct_direction (cr_tuple r) = dir"
  shows "\<exists>c'. drain_pending 2 dir pre (if length pre < 40 then 0 else length (pre @ rest)) c =
      Some (None, pre @ unread c,
        if length (pre @ unread c) < 40 then 0 else length (pre @ rest), c') \<and>
      connection_ok c' \<and> cn_open c' = cn_open c \<and> unread c' = []"
proof -
  note adv = advance_pending [OF c]
  have rest: "rest \<noteq> []" using strict by auto
  consider "40 \<le> length pre" | "length pre + length (unread c) < 40"
    | (header) "length pre < 40" "40 \<le> length pre + length (unread c)" by linarith
  then show ?thesis
  proof cases
    case 1
    then show ?thesis
      using drain_body(1) [OF 1 c pend rest strict, of 1 dir] adv [of "length (unread c)"]
      unfolding two_passes One_nat_def by auto
  next
    case 2
    then show ?thesis
      using drain_header_short [OF c pend 2, of "Suc 0" dir] adv [of "length (unread c)"]
      unfolding two_passes by auto
  next
    case header
    let ?k = "40 - length pre" and ?h = "cr_authenticated_header r"
    have hlen: "length ?h = 40" using ok by (simp add: control_record_ok_def)
    have pre: "prefix (unread c) rest" using strict by simp
    then have "prefix (take ?k (unread c)) rest" using take_is_prefix prefix_order.trans by blast
    then have hdr: "pre @ take ?k (unread c) = ?h"
      using authenticated_header_ready [OF ok bytes header(1)] header(2) by blast
    have size': "authenticated_control_record_size ?h dir = Some (length (pre @ rest))"
      using authenticated_size [OF ok, of "[]"] bytes dir by simp
    have len: "40 < length (pre @ rest)" using sized_bound [OF size'] by linarith
    let ?c = "advance_pending ?k c"
    have k: "?k \<le> length (unread c)" using header by linarith
    note drain = drain_header [OF c header hdr size' len, of "Suc 0"]
    have unread': "unread ?c = drop ?k (unread c)" using adv(2) [OF k] .
    have whole: "?h @ unread ?c = pre @ unread c"
      unfolding unread' hdr [symmetric] by simp
    show ?thesis
    proof (cases "length pre + length (unread c) = 40")
      case True
      then have "unread ?c = []" using unread' by simp
      then show ?thesis using True drain adv [OF k] whole header unfolding two_passes by auto
    next
      case False
      then have pend': "unread ?c \<noteq> []" using unread' header by auto
      obtain rest' where rest': "pre @ rest = ?h @ rest'"
        using bytes unfolding control_record_bytes_def by metis
      have "strict_prefix (?h @ unread ?c) (?h @ rest')"
        using strict unfolding whole rest' [symmetric] strict_prefix_append .
      then have strict': "strict_prefix (unread ?c) rest'" unfolding strict_prefix_append .
      then have "rest' \<noteq> []" by auto
      from drain_body(1) [OF _ adv(1) [OF k] pend' this strict', of ?h 0 dir] hlen False drain rest' whole
      have "drain_pending 2 dir pre 0 c =
          Some (None, pre @ unread c, length (pre @ rest), advance_pending (length (unread ?c)) ?c)"
        unfolding two_passes by simp
      then show ?thesis
        using header advance_pending [OF adv(1) [OF k], of "length (unread ?c)"] adv(3) [OF k] by auto
    qed
  qed
qed

lemma drain_done:
  assumes ok: "control_record_ok r" and bytes: "control_record_bytes r = pre @ rest"
    and c: "connection_ok c" and rest: "rest \<noteq> []" and unread: "unread c = rest @ later"
    and dir: "ct_direction (cr_tuple r) = dir"
  shows "\<exists>c'. drain_pending 2 dir pre (if length pre < 40 then 0 else length (pre @ rest)) c =
      Some (Some (read_ok (pre @ rest)), pre @ rest, length (pre @ rest), c') \<and>
      connection_ok c' \<and> cn_open c' = cn_open c \<and> unread c' = later"
proof -
  note adv = advance_pending [OF c]
  have pend: "unread c \<noteq> []" using rest unread by simp
  show ?thesis
  proof (cases "40 \<le> length pre")
    case True
    then show ?thesis
      using drain_body(2) [OF True c pend rest unread, of 1 dir] adv [of "length rest"] unread
      unfolding two_passes One_nat_def by auto
  next
    case False
    let ?k = "40 - length pre" and ?h = "cr_authenticated_header r"
    have hlen: "length ?h = 40" using ok by (simp add: control_record_ok_def)
    have size': "authenticated_control_record_size ?h dir = Some (length (pre @ rest))"
      using authenticated_size [OF ok, of "[]"] bytes dir by simp
    have len: "56 \<le> length (pre @ rest)" using sized_bound [OF size'] by linarith
    have header: "length pre < 40" "40 \<le> length pre + length (unread c)"
      using False len unread by simp_all
    have "take ?k (unread c) = take ?k rest" using len header unread by simp
    then have "prefix (take ?k (unread c)) rest" by (simp add: take_is_prefix)
    then have hdr: "pre @ take ?k (unread c) = ?h"
      using authenticated_header_ready [OF ok bytes header(1)] header(2) by blast
    let ?c = "advance_pending ?k c"
    have k: "?k \<le> length (unread c)" using header by linarith
    have "length pre + length (unread c) \<noteq> 40" and "40 < length (pre @ rest)" using len unread by simp_all
    note drain = drain_header [OF c header hdr size' this(2), of "Suc 0"] this(1)
    have unread': "unread ?c = drop ?k (unread c)" using adv(2) [OF k] .
    obtain rest' where rest': "pre @ rest = ?h @ rest'"
      using bytes unfolding control_record_bytes_def by metis
    have "?h @ unread ?c = pre @ unread c"
      unfolding unread' hdr [symmetric] by simp
    also have "\<dots> = pre @ rest @ later" using unread by simp
    also have "\<dots> = ?h @ rest' @ later" using rest' by (metis append.assoc)
    finally have unread2: "unread ?c = rest' @ later" by simp
    have ne: "rest' \<noteq> []" using len hlen arg_cong [OF rest', of length] by auto
    then have pend': "unread ?c \<noteq> []" using unread2 by simp
    from drain_body(2) [OF _ adv(1) [OF k] pend' ne unread2, of ?h 0 dir] hlen drain rest'
    have "drain_pending 2 dir pre 0 c =
        Some (Some (read_ok (pre @ rest)), pre @ rest, length (pre @ rest), advance_pending (length rest') ?c)"
      unfolding two_passes by simp
    then show ?thesis
      using header advance_pending [OF adv(1) [OF k], of "length rest'"] adv(3) [OF k] unread2 by auto
  qed
qed

interpretation authenticated_reader:
  framed_reader "authenticated_step dir" "authenticated_loop dir" "authenticated_holds dir" for dir
proof (unfold_locales, goal_cases)
  case (1 m pre d c result d' c' deadline script)
  then have "drain_pending 2 dir (fst d) (snd d) c = Some (Some result, fst d', snd d', c')"
    by (metis authenticated_drains prod.inject)
  then show ?case
    unfolding authenticated_loop_def by (subst read_authenticated_loop.simps) simp
next
  case (2 m pre d c d' c' deadline polls a c'' script)
  then have "drain_pending 2 dir (fst d) (snd d) c = Some (None, fst d', snd d', c')"
    by (metis authenticated_drains prod.inject)
  then show ?case
    using 2(3) unfolding authenticated_loop_def by (subst read_authenticated_loop.simps) simp
next
  case (3 pre rest d c)
  then obtain r where r: "control_record_ok r" "ct_direction (cr_tuple r) = dir"
    "control_record_bytes r = pre @ rest" "d = (pre, if length pre < 40 then 0 else length (pre @ rest))"
    unfolding authenticated_holds_def by auto
  show ?case
  proof (cases "unread c = []")
    case True
    then show ?thesis using 3 drain_nothing [OF True] by (simp add: authenticated_step_def)
  next
    case False
    obtain c' where c': "drain_pending 2 dir (fst d) (snd d) c = Some (None, pre @ unread c,
        if length (pre @ unread c) < 40 then 0 else length (pre @ rest), c')"
      "connection_ok c'" "cn_open c' = cn_open c" "unread c' = []"
      using drain_more [OF r(1,3) 3(2,3) False r(2)] r(4) by auto
    have "authenticated_holds dir (pre @ rest) (pre @ unread c)
        (pre @ unread c, if length (pre @ unread c) < 40 then 0 else length (pre @ rest))"
      unfolding authenticated_holds_def using r(1-3) 3(3) strict_prefix_append by metis
    then show ?thesis using c' by (simp add: authenticated_step_def)
  qed
next
  case (4 pre rest d c later)
  then obtain r where r: "control_record_ok r" "ct_direction (cr_tuple r) = dir"
    "control_record_bytes r = pre @ rest" "d = (pre, if length pre < 40 then 0 else length (pre @ rest))"
    unfolding authenticated_holds_def by auto
  from drain_done [OF r(1,3) 4(2-4) r(2)] r(4) show ?case
    by (auto simp: authenticated_step_def)
qed

section \<open>Writing\<close>

text \<open>
  Whatever the sends return, what has reached the socket is a beginning of the record; it is the
  whole record exactly when the writer reports success, and otherwise the connection is closed.
\<close>

lemma send_all_prefix:
  assumes "send_all deadline script encoded n (take n encoded) c = Some (e, out, c', script')"
  shows "if tcp_succeeded e then out = encoded \<and> c' = c else prefix out encoded \<and> c' = close_connection c"
  using assms
proof (induction script arbitrary: n)
  case Nil
  then show ?case
    by (subst (asm) send_all.simps) (auto simp: tcp_succeeded_def tcp_success_def split: if_splits)
next
  case (Cons p script)
  obtain polls a where p: "p = (polls, a)" by (cases p)
  have grow: "take n encoded @ take k (drop n encoded) = take (n + k) encoded" for k
    by (simp add: take_add)
  show ?case
  proof (cases "n < length encoded")
    case False
    then show ?thesis
      using Cons.prems by (subst (asm) send_all.simps) (auto simp: tcp_succeeded_def tcp_success_def)
  next
    case True
    show ?thesis
      using Cons.prems Cons.IH [of n] Cons.IH [of "n + _"] True p
      by (subst (asm) send_all.simps)
         (auto simp: grow tcp_succeeded_def tcp_failure_def take_is_prefix
           split: option.splits send_answer.splits if_splits)
  qed
qed

lemma write_bootstrap_outcome:
  assumes "write_bootstrap_record encoded d timeout now script c = Some (e, out, c', script')"
  shows "tcp_succeeded e \<Longrightarrow> out = encoded \<and> c' = c \<and> fst (parse_bootstrap_record encoded d) = BootstrapParsed"
    and "\<not> tcp_succeeded e \<Longrightarrow> prefix out encoded"
    and "\<not> tcp_succeeded e \<Longrightarrow> \<not> cn_open c' \<or> timeout = 0 \<and> c' = c"
  using assms send_all_prefix [of "now + unat timeout" script encoded 0 c e out c' script']
  by (auto simp: write_bootstrap_record_def tcp_succeeded_def tcp_failure_def Let_def split: if_splits)

lemma write_authenticated_outcome:
  assumes "write_authenticated_record encoded d timeout now script c = Some (e, out, c', script')"
  shows "tcp_succeeded e \<Longrightarrow> out = encoded \<and> c' = c \<and>
      authenticated_control_record_size encoded d = Some (length encoded)"
    and "\<not> tcp_succeeded e \<Longrightarrow> prefix out encoded \<and> \<not> cn_open c'"
  using assms send_all_prefix [of "now + unat timeout" script encoded 0 c e out c' script']
  by (auto simp: write_authenticated_record_def tcp_succeeded_def tcp_failure_def split: if_splits)

section \<open>Records across the connection\<close>

text \<open>Several reads, one after the other.\<close>

fun read_series ::
  "(read_script \<Rightarrow> tcp_connection \<Rightarrow> (tcp_read_result \<times> tcp_connection \<times> read_script) option) list \<Rightarrow>
     read_script \<Rightarrow> tcp_connection \<Rightarrow> (tcp_read_result list \<times> tcp_connection \<times> read_script) option" where
  "read_series [] script c = Some ([], c, script)"
| "read_series (read # reads) script c =
     (case read script c of
        None \<Rightarrow> None
      | Some (r, c, script) \<Rightarrow> map_option (\<lambda>(rs, rest). (r # rs, rest)) (read_series reads script c))"

lemma read_series_delivers:
  assumes one: "\<And>read m later script c. \<lbrakk>read \<in> set reads; m \<in> set ms; connection_ok c; cn_open c;
      unread c @ read_bytes script = m @ later; \<forall>p \<in> set script. good p\<rbrakk> \<Longrightarrow>
      \<exists>c' script'. read script c = Some (read_ok m, c', script') \<and> connection_ok c' \<and> cn_open c' \<and>
        unread c' @ read_bytes script' = later \<and> suffix script' script"
    and len: "length reads = length ms"
    and c: "connection_ok c" "cn_open c" "unread c @ read_bytes script = concat ms @ later"
    and good: "\<forall>p \<in> set script. good p"
  shows "\<exists>c' script'. read_series reads script c = Some (map read_ok ms, c', script') \<and>
    connection_ok c' \<and> cn_open c' \<and> unread c' @ read_bytes script' = later"
  using len one c good
proof (induction reads ms arbitrary: script c rule: list_induct2)
  case (Cons read reads m ms)
  have "unread c @ read_bytes script = m @ concat ms @ later" using Cons.prems(4) by simp
  then obtain c' script' where first: "read script c = Some (read_ok m, c', script')" "connection_ok c'"
    "cn_open c'" "unread c' @ read_bytes script' = concat ms @ later" "suffix script' script"
    using Cons.prems(1) [of read m c script] Cons.prems(2,3,5) by auto
  then have "\<forall>p \<in> set script'. good p" using Cons.prems(5) set_mono_suffix by blast
  then obtain c2 script2 where "read_series reads script' c' = Some (map read_ok ms, c2, script2)"
    "connection_ok c2" "cn_open c2" "unread c2 @ read_bytes script2 = later"
    using Cons.IH [of c' script'] Cons.prems(1) first by auto
  then show ?case using first(1) by simp
qed simp

lemma read_bootstrap_one:
  assumes "record_valid r" and "br_direction r = d" and "timeout \<noteq> 0" and "connection_ok c" and "cn_open c"
    and "unread c @ read_bytes script = record_bytes r @ later"
    and "\<forall>p \<in> set script. pass_good (now + unat timeout) p"
  shows "\<exists>c' script'. read_bootstrap_record d timeout now script c = Some (read_ok (record_bytes r), c', script') \<and>
    connection_ok c' \<and> cn_open c' \<and> unread c' @ read_bytes script' = later \<and> suffix script' script"
proof -
  have d: "valid_direction d" using assms(1,2) allowed_valid by (auto simp: record_valid_def)
  then have "partial r [] (make_stream_decoder d)" using fresh_partial assms(2) by blast
  then have holds: "bootstrap_holds ([] @ record_bytes r) [] (make_stream_decoder d)"
    unfolding bootstrap_holds_def using assms(1) by auto
  have ne: "record_bytes r \<noteq> []" using length_record_bytes [of r] by (metis add_is_0 list.size(3) zero_neq_numeral)
  have "\<not> sd_failed (make_stream_decoder d)" using d by (simp add: make_stream_decoder_def)
  then show ?thesis
    using bootstrap_reader.loop_reads [OF holds ne assms(4-7)] assms(3,5)
    by (simp add: read_bootstrap_record_def Let_def)
qed

lemma read_authenticated_one:
  assumes "control_record_ok r" and "ct_direction (cr_tuple r) = d" and "timeout \<noteq> 0" and "connection_ok c"
    and "cn_open c" and "unread c @ read_bytes script = control_record_bytes r @ later"
    and "\<forall>p \<in> set script. pass_good (now + unat timeout) p"
  shows "\<exists>c' script'. read_authenticated_record d timeout now script c =
      Some (read_ok (control_record_bytes r), c', script') \<and>
    connection_ok c' \<and> cn_open c' \<and> unread c' @ read_bytes script' = later \<and> suffix script' script"
proof -
  have d: "d \<noteq> CdInvalid"
    using assms(1,2) by (auto simp: control_record_ok_def control_tuple_valid_def control_direction_valid_def)
  have ne: "control_record_bytes r \<noteq> []"
    using assms(1) by (auto simp: control_record_bytes_def control_record_ok_def)
  then have holds: "authenticated_holds d ([] @ control_record_bytes r) [] ([], 0)"
    unfolding authenticated_holds_def using assms(1,2) by (auto simp: strict_prefix_def)
  show ?thesis
    using authenticated_reader.loop_reads [OF holds ne assms(4-7)] assms(3,5) d
    by (simp add: read_authenticated_record_def authenticated_loop_def)
qed

text \<open>
  C11. Bootstrap records cross the control connection intact: whatever short writes the sender's socket
  makes and wherever TCP cuts the byte stream on the way, every record that
  \<^verbatim>\<open>write_bootstrap_record\<close> reports as sent comes out of the corresponding
  \<^verbatim>\<open>read_bootstrap_record\<close>, byte for byte and in order, and the bytes behind the last one are kept
  for the next read.
\<close>

theorem bootstrap_stream_delivered:
  assumes "list_all2 (\<lambda>encoded out. \<exists>now script c c' script' e.
      write_bootstrap_record encoded d t now script c = Some (e, out, c', script') \<and> tcp_succeeded e)
      records outs"
    and "read_bytes script = concat outs @ later" and "length starts = length records"
    and "\<forall>now \<in> set starts. \<forall>p \<in> set script. pass_good (now + unat timeout) p"
    and "timeout \<noteq> 0" and "cn_open c" and "cn_pending_input c = []" and "cn_pending_offset c = 0"
  shows "\<exists>c' script'. read_series (map (read_bootstrap_record d timeout) starts) script c =
      Some (map read_ok records, c', script') \<and>
    connection_ok c' \<and> cn_open c' \<and> unread c' @ read_bytes script' = later"
proof -
  have all: "outs = records \<and> (\<forall>m \<in> set records. fst (parse_bootstrap_record m d) = BootstrapParsed)"
    using assms(1) by (induction rule: list_all2_induct) (use write_bootstrap_outcome(1) in fastforce)+
  have c: "connection_ok c" "unread c @ read_bytes script = concat records @ later"
    using assms(2,7,8) all by (simp_all add: connection_ok_def unread_def)
  have one: "\<exists>c' script'. read script c = Some (read_ok m, c', script') \<and> connection_ok c' \<and> cn_open c' \<and>
      unread c' @ read_bytes script' = later \<and> suffix script' script"
    if read: "read \<in> set (map (read_bootstrap_record d timeout) starts)" and m: "m \<in> set records"
      and c: "connection_ok c" "cn_open c" "unread c @ read_bytes script = m @ later"
      and good: "\<forall>p \<in> set script. \<forall>now \<in> set starts. pass_good (now + unat timeout) p"
    for read m later script c
  proof -
    obtain now where now: "now \<in> set starts" "read = read_bootstrap_record d timeout now" using read by auto
    obtain r where r: "parse_bootstrap_record m d = (BootstrapParsed, r)"
      using all m by (metis prod.collapse)
    then have enc: "br_direction r = d"
      "encode_bootstrap_record (br_direction r) (br_message_type r) (br_payload r) = (BootstrapEncoded, m)"
      using parse_iff_encode by blast+
    have valid: "record_valid r" "m = record_bytes r" using encoded_valid [OF enc(2)] by simp_all
    show ?thesis
      unfolding now(2) valid(2)
      using read_bootstrap_one [OF valid(1) enc(1) assms(5) c(1,2) c(3) [unfolded valid(2)]] good now(1) by blast
  qed
  show ?thesis
    by (rule read_series_delivers [where
          good = "\<lambda>p. \<forall>now \<in> set starts. pass_good (now + unat timeout) p"]; (rule one; assumption)?)
       (use assms(3,4,6) c in auto)
qed

text \<open>
  C12. Authenticated records cross the connection the same way: sealed records written one after the
  other are the records read, whatever the socket cuts them into.
\<close>

theorem authenticated_stream_delivered:
  assumes "list_all2 (\<lambda>r out. control_record_ok r \<and> ct_direction (cr_tuple r) = d \<and>
      (\<exists>now script c c' script' e.
        write_authenticated_record (control_record_bytes r) d t now script c = Some (e, out, c', script') \<and>
        tcp_succeeded e)) records outs"
    and "read_bytes script = concat outs @ later" and "length starts = length records"
    and "\<forall>now \<in> set starts. \<forall>p \<in> set script. pass_good (now + unat timeout) p"
    and "timeout \<noteq> 0" and "cn_open c" and "cn_pending_input c = []" and "cn_pending_offset c = 0"
  shows "\<exists>c' script'. read_series (map (read_authenticated_record d timeout) starts) script c =
      Some (map (\<lambda>r. read_ok (control_record_bytes r)) records, c', script') \<and>
    connection_ok c' \<and> cn_open c' \<and> unread c' @ read_bytes script' = later"
proof -
  let ?ms = "map control_record_bytes records"
  have all: "outs = ?ms \<and> (\<forall>r \<in> set records. control_record_ok r \<and> ct_direction (cr_tuple r) = d)"
    using assms(1) by (induction rule: list_all2_induct) (use write_authenticated_outcome(1) in fastforce)+
  have c: "connection_ok c" "unread c @ read_bytes script = concat ?ms @ later"
    using assms(2,7,8) all by (simp_all add: connection_ok_def unread_def)
  have one: "\<exists>c' script'. read script c = Some (read_ok m, c', script') \<and> connection_ok c' \<and> cn_open c' \<and>
      unread c' @ read_bytes script' = later \<and> suffix script' script"
    if read: "read \<in> set (map (read_authenticated_record d timeout) starts)" and m: "m \<in> set ?ms"
      and c: "connection_ok c" "cn_open c" "unread c @ read_bytes script = m @ later"
      and good: "\<forall>p \<in> set script. \<forall>now \<in> set starts. pass_good (now + unat timeout) p"
    for read m later script c
  proof -
    obtain now where now: "now \<in> set starts" "read = read_authenticated_record d timeout now" using read by auto
    obtain r where r: "r \<in> set records" "m = control_record_bytes r" using m by auto
    then have ok: "control_record_ok r" "ct_direction (cr_tuple r) = d" using all by auto
    show ?thesis
      unfolding now(2) r(2)
      using read_authenticated_one [OF ok assms(5) c(1,2) c(3) [unfolded r(2)]] good now(1) by blast
  qed
  have "\<exists>c' script'. read_series (map (read_authenticated_record d timeout) starts) script c =
      Some (map read_ok ?ms, c', script') \<and>
    connection_ok c' \<and> cn_open c' \<and> unread c' @ read_bytes script' = later"
    by (rule read_series_delivers [where
          good = "\<lambda>p. \<forall>now \<in> set starts. pass_good (now + unat timeout) p"]; (rule one; assumption)?)
       (use assms(3,4,6) c in auto)
  then show ?thesis by (simp add: comp_def)
qed

section \<open>The invariant, failures and deadlines\<close>

lemma advance_pending_le:
  assumes "connection_ok c" and "n \<le> length (cn_pending_input c) - cn_pending_offset c"
  shows "connection_ok (advance_pending n c)" and "cn_open (advance_pending n c) = cn_open c"
  using advance_pending [OF assms(1), of n] assms(2) by (simp_all add: unread_def)

lemma feed_body_consumed:
  assumes "consumed \<le> length source"
  shows "fr_consumed (fst (feed_body source consumed s)) \<le> length source"
  using assms by (auto simp: feed_body_def Let_def min_def)

lemma feed_consumed: "fr_consumed (fst (feed source s)) \<le> length source"
  by (auto simp: feed_def Let_def feed_body_consumed)

text \<open>What one pass over the pending bytes does to the connection, and to a result it returns.\<close>

definition kept_or_closed :: "tcp_read_result option \<Rightarrow> tcp_connection \<Rightarrow> tcp_connection \<Rightarrow> bool" where
  "kept_or_closed result c c' \<longleftrightarrow> connection_ok c' \<and>
     (case result of None \<Rightarrow> cn_open c' = cn_open c
      | Some r \<Rightarrow> if tcp_succeeded (rr_error r) then cn_open c' = cn_open c else \<not> cn_open c')"

lemma decode_pending_keeps:
  assumes "connection_ok c" and "decode_pending d c = (result, d', c')"
  shows "kept_or_closed result c c'"
proof (cases "cn_pending_offset c < length (cn_pending_input c)")
  case False
  then show ?thesis using assms by (simp add: decode_pending_def kept_or_closed_def)
next
  case True
  obtain fed d1 where f: "feed (drop (cn_pending_offset c) (cn_pending_input c)) d = (fed, d1)" by fastforce
  have "fr_consumed fed \<le> length (cn_pending_input c) - cn_pending_offset c"
    using feed_consumed [of "drop (cn_pending_offset c) (cn_pending_input c)" d] f by simp
  note adv = advance_pending_le [OF assms(1) this]
  show ?thesis
    using assms(2) True f adv
    by (auto simp: decode_pending_def kept_or_closed_def tcp_succeeded_def tcp_failure_def
        tcp_success_def Let_def split: if_splits prod.splits option.splits)
qed

text \<open>The most a record of either kind can take, and the states of the two partial records.\<close>

definition kMaximumControlRecordBytes :: nat where
  "kMaximumControlRecordBytes = 40 + 65536 + 16"

definition decoder_bounded :: "stream_decoder \<Rightarrow> bool" where
  "decoder_bounded d \<longleftrightarrow> length (sd_encoded d) \<le> kMaximumControlRecordBytes \<and>
     sd_expected_record_bytes d \<le> kMaximumControlRecordBytes"

definition assembly_bounded :: "bytes \<times> nat \<Rightarrow> bool" where
  "assembly_bounded d \<longleftrightarrow> snd d \<le> kMaximumControlRecordBytes \<and>
     (snd d = 0 \<and> length (fst d) < 40 \<or> length (fst d) < snd d)"

lemma feed_body_bounded:
  "decoder_bounded s \<Longrightarrow> decoder_bounded (snd (feed_body source consumed s))"
  by (auto simp: feed_body_def Let_def decoder_bounded_def reject_stream_def)

lemma inspect_bounded:
  "header_succeeded h \<Longrightarrow> h = inspect_bootstrap_header_v1 e d \<Longrightarrow> snd h \<le> kMaximumControlRecordBytes"
  by (auto simp: inspect_bootstrap_header_v1_def header_succeeded_def kMaximumControlRecordBytes_def
      const_defs Let_def split: if_splits)

lemma feed_bounded:
  assumes "decoder_bounded s"
  shows "decoder_bounded (snd (feed source s))"
proof -
  have grow: "length (sd_encoded s) + min (12 - length (sd_encoded s)) n \<le> kMaximumControlRecordBytes" for n
    using assms by (auto simp: decoder_bounded_def kMaximumControlRecordBytes_def min_def)
  have "12 \<le> kMaximumControlRecordBytes" by (simp add: kMaximumControlRecordBytes_def)
  then show ?thesis
    using assms
    by (auto simp: feed_def Let_def const_defs decoder_bounded_def reject_stream_def grow
        intro!: feed_body_bounded [unfolded decoder_bounded_def] dest: inspect_bounded [OF _ refl])
qed

lemma decode_pending_bounded:
  assumes "decoder_bounded d" and "decode_pending d c = (result, d', c')"
  shows "decoder_bounded d'"
    and "result = Some r \<Longrightarrow> length (rr_encoded_record r) \<le> kMaximumControlRecordBytes"
proof -
  obtain fed d1 where f: "feed (drop (cn_pending_offset c) (cn_pending_input c)) d = (fed, d1)" by fastforce
  then have d1: "decoder_bounded d1" using feed_bounded [OF assms(1)] by (metis snd_conv)
  then have reset: "decoder_bounded (reset_for_next_record d1)"
    by (simp add: decoder_bounded_def reset_for_next_record_def)
  have max: "length (sd_encoded d1) \<le> kMaximumControlRecordBytes" using d1 by (simp add: decoder_bounded_def)
  show "decoder_bounded d'"
    using assms f d1 reset
    by (auto simp: decode_pending_def take_record_def Let_def split: if_splits)
  show "result = Some r \<Longrightarrow> length (rr_encoded_record r) \<le> kMaximumControlRecordBytes"
    using assms(2) f max
    by (auto simp: decode_pending_def take_record_def Let_def split: if_splits)
qed

text \<open>One pass of the authenticated reader over the pending bytes.\<close>

lemma drain_pass:
  assumes c: "connection_ok c" and pend: "cn_pending_offset c < length (cn_pending_input c)"
  obtains A B C e2 t2 a where
    "drain_pending (Suc n) dir e t c =
       (if A then Some (Some \<lparr>rr_encoded_record = e2, rr_error = tcp_fail TcpInvalidRecord\<rparr>, e2, t,
          close_connection a)
        else if B then Some (Some (read_ok e2), e2, t2, a)
        else if C then drain_pending n dir e2 t2 a
        else Some (None, e2, t2, a))"
    and "connection_ok a" and "cn_open a = cn_open c"
    and "assembly_bounded (e, t) \<longrightarrow> length e2 \<le> kMaximumControlRecordBytes \<and>
      (\<not> A \<and> \<not> B \<longrightarrow> assembly_bounded (e2, t2))"
proof -
  let ?target = "if t = 0 then kAuthenticatedControlHeaderBytes else t"
  define k where "k = min (?target - length e) (length (cn_pending_input c) - cn_pending_offset c)"
  define a where "a = advance_pending k c"
  define e2 where "e2 = e @ take k (drop (cn_pending_offset c) (cn_pending_input c))"
  define sized where "sized = authenticated_control_record_size e2 dir"
  define h where "h \<longleftrightarrow> t = 0 \<and> length e2 = kAuthenticatedControlHeaderBytes"
  define t2 where "t2 = (if h then the sized else t)"
  have len: "length e2 = length e + k" by (simp add: e2_def k_def)
  have bound: "length e2 \<le> kMaximumControlRecordBytes \<and>
      (\<not> (h \<and> sized = None) \<and> \<not> (t2 \<noteq> 0 \<and> length e2 = t2) \<longrightarrow> assembly_bounded (e2, t2))"
    if inv: "assembly_bounded (e, t)"
  proof -
    have "length e2 \<le> ?target" using inv len by (auto simp: k_def assembly_bounded_def const_defs)
    moreover have "?target \<le> kMaximumControlRecordBytes"
      using inv by (auto simp: assembly_bounded_def kMaximumControlRecordBytes_def const_defs)
    moreover have "h \<Longrightarrow> sized = Some n \<Longrightarrow> 40 < n \<and> n \<le> kMaximumControlRecordBytes" for n
      using sized_bound [of e2 dir n] unfolding sized_def kMaximumControlRecordBytes_def by linarith
    ultimately show ?thesis
      using inv by (auto simp: assembly_bounded_def t2_def h_def const_defs split: if_splits)
  qed
  have "drain_pending (Suc n) dir e t c =
      (if h \<and> sized = None then Some (Some \<lparr>rr_encoded_record = e2, rr_error = tcp_fail TcpInvalidRecord\<rparr>,
         e2, t, close_connection a)
       else if t2 \<noteq> 0 \<and> length e2 = t2 then Some (Some (read_ok e2), e2, t2, a)
       else if cn_pending_offset a < length (cn_pending_input a) then drain_pending n dir e2 t2 a
       else Some (None, e2, t2, a))"
    unfolding drain_pending.simps Let_def if_P [OF pend] t2_def h_def sized_def e2_def a_def k_def by (rule refl)
  moreover have "connection_ok a" "cn_open a = cn_open c"
    using advance_pending_le [OF c, of k] by (simp_all add: a_def k_def)
  ultimately show thesis using that bound by blast
qed

lemma drain_pending_keeps:
  assumes "connection_ok c" and "drain_pending n dir e t c = Some (result, e', t', c')"
  shows "kept_or_closed result c c' \<and>
    (assembly_bounded (e, t) \<longrightarrow> (result = None \<longrightarrow> assembly_bounded (e', t')) \<and>
      (\<forall>r. result = Some r \<longrightarrow> length (rr_encoded_record r) \<le> kMaximumControlRecordBytes))"
  using assms
proof (induction n arbitrary: e t c)
  case (Suc n)
  show ?case
  proof (cases "cn_pending_offset c < length (cn_pending_input c)")
    case False
    then show ?thesis using Suc.prems by (auto simp: kept_or_closed_def)
  next
    case True
    obtain A B C e2 t2 a where eq: "drain_pending (Suc n) dir e t c =
       (if A then Some (Some \<lparr>rr_encoded_record = e2, rr_error = tcp_fail TcpInvalidRecord\<rparr>, e2, t,
          close_connection a)
        else if B then Some (Some (read_ok e2), e2, t2, a)
        else if C then drain_pending n dir e2 t2 a
        else Some (None, e2, t2, a))"
      and a: "connection_ok a" "cn_open a = cn_open c"
      and inv: "assembly_bounded (e, t) \<longrightarrow> length e2 \<le> kMaximumControlRecordBytes \<and>
        (\<not> A \<and> \<not> B \<longrightarrow> assembly_bounded (e2, t2))"
      by (rule drain_pass [OF Suc.prems(1) True, of n dir e t]) blast
    show ?thesis
    proof (cases "\<not> A \<and> \<not> B \<and> C")
      case True
      then have "drain_pending n dir e2 t2 a = Some (result, e', t', c')" using eq Suc.prems(2) by simp
      from Suc.IH [OF a(1) this] show ?thesis
        using inv True unfolding kept_or_closed_def a(2) by blast
    next
      case False
      then show ?thesis
        using Suc.prems(2) a inv unfolding eq
        by (auto simp: kept_or_closed_def tcp_succeeded_def tcp_failure_def tcp_success_def split: if_splits)
    qed
  qed
qed simp

text \<open>
  A loop that waits only when nothing pending completes the record: it keeps the invariant, closes
  on every failure, returns at most one record of the greatest size, and comes to an end once a wait
  reports that the deadline has passed or that the socket has failed.
\<close>

locale closing_reader =
  fixes step :: "'d \<Rightarrow> tcp_connection \<Rightarrow> (tcp_read_result option \<times> 'd \<times> tcp_connection) option"
    and fail :: "'d \<Rightarrow> tcp_error \<Rightarrow> tcp_read_result"
    and inv :: "'d \<Rightarrow> bool"
    and loop :: "nat \<Rightarrow> read_script \<Rightarrow> 'd \<Rightarrow> tcp_connection \<Rightarrow>
      (tcp_read_result \<times> tcp_connection \<times> read_script) option"
  assumes loop_eq: "loop deadline script d c = (case step d c of
        None \<Rightarrow> None
      | Some (Some result, d, c) \<Rightarrow> Some (result, c, script)
      | Some (None, d, c) \<Rightarrow>
          (case script of
             [] \<Rightarrow> None
           | (polls, answer) # script \<Rightarrow>
               (case receive_more deadline polls answer c of
                  None \<Rightarrow> None
                | Some (Some e, c) \<Rightarrow> Some (fail d e, c, script)
                | Some (None, c) \<Rightarrow> loop deadline script d c)))"
    and step_total: "inv d \<Longrightarrow> step d c \<noteq> None"
    and step_keeps: "connection_ok c \<Longrightarrow> step d c = Some (result, d', c') \<Longrightarrow> kept_or_closed result c c'"
    and step_inv: "connection_ok c \<Longrightarrow> inv d \<Longrightarrow> step d c = Some (None, d', c') \<Longrightarrow> inv d'"
    and step_bound: "connection_ok c \<Longrightarrow> inv d \<Longrightarrow> step d c = Some (Some r, d', c') \<Longrightarrow>
      length (rr_encoded_record r) \<le> kMaximumControlRecordBytes"
    and fail_error: "rr_error (fail d e) = e"
    and fail_bound: "inv d \<Longrightarrow> length (rr_encoded_record (fail d e)) \<le> kMaximumControlRecordBytes"
begin

lemma loop_keeps:
  assumes "connection_ok c" and "cn_open c" and "inv d" and "\<forall>p \<in> set script. recv_bounded (snd p)"
    and "loop deadline script d c = Some (result, c', script')"
  shows "kept_or_closed (Some result) c c' \<and> length (rr_encoded_record result) \<le> kMaximumControlRecordBytes"
  using assms
proof (induction script arbitrary: d c)
  case Nil
  then show ?case
    using step_keeps step_bound
    by (subst (asm) loop_eq) (fastforce split: prod.splits option.splits)
next
  case (Cons p script)
  obtain polls a where p: "p = (polls, a)" by (cases p)
  obtain r d1 c1 where dec: "step d c = Some (r, d1, c1)" using step_total [OF Cons.prems(3)] by fastforce
  note keep = step_keeps [OF Cons.prems(1) dec]
  show ?case
  proof (cases r)
    case (Some x)
    then show ?thesis
      using Cons.prems(5) dec keep step_bound [OF Cons.prems(1,3)] by (subst (asm) loop_eq) simp
  next
    case None
    with keep have c1: "connection_ok c1" "cn_open c1"
      using Cons.prems(2) by (simp_all add: kept_or_closed_def)
    have d1: "inv d1" using step_inv [OF Cons.prems(1,3)] dec None by simp
    obtain e c2 where re: "receive_more deadline polls a c1 = Some (e, c2)"
      using Cons.prems(5) dec None p by (subst (asm) loop_eq) (auto split: option.splits)
    have bounded: "recv_bounded a" using Cons.prems(4) p by simp
    note after = receive_more_ok [OF re bounded c1]
    show ?thesis
    proof (cases e)
      case None': None
      then have "loop deadline script d1 c2 = Some (result, c', script')"
        using Cons.prems(5) dec None p re by (subst (asm) loop_eq) simp
      with Cons.IH [of c2 d1] after d1 None' Cons.prems(2,4) show ?thesis
        by (simp add: kept_or_closed_def)
    next
      case (Some err)
      then have "result = fail d1 err" "c' = c2"
        using Cons.prems(5) dec None p re by (subst (asm) loop_eq, simp)+
      then show ?thesis
        using Some re after receive_more_error fail_error fail_bound [OF d1] by (auto simp: kept_or_closed_def)
    qed
  qed
qed

lemma loop_ends:
  assumes "inv d" and "connection_ok c" and "cn_open c"
    and "\<forall>p \<in> set script. wait_until deadline (fst p) \<noteq> None \<and> recv_bounded (snd p)"
    and "\<exists>p \<in> set script. \<exists>e. wait_until deadline (fst p) = Some e \<and> \<not> tcp_succeeded e"
  shows "loop deadline script d c \<noteq> None"
  using assms
proof (induction script arbitrary: d c)
  case (Cons p script)
  obtain polls a where p: "p = (polls, a)" by (cases p)
  obtain r d1 c1 where dec: "step d c = Some (r, d1, c1)" using step_total [OF Cons.prems(1)] by fastforce
  note keep = step_keeps [OF Cons.prems(2) dec]
  show ?case
  proof (cases r)
    case (Some x)
    then show ?thesis using dec by (subst loop_eq) simp
  next
    case None
    with keep have c1: "connection_ok c1" "cn_open c1"
      using Cons.prems(3) by (simp_all add: kept_or_closed_def)
    have d1: "inv d1" using step_inv [OF Cons.prems(2,1)] dec None by simp
    obtain w where w: "wait_until deadline polls = Some w" using Cons.prems(4) p by auto
    then have "receive_more deadline polls a c1 \<noteq> None" by (simp add: receive_more_def)
    then obtain e c2 where re: "receive_more deadline polls a c1 = Some (e, c2)" by auto
    have bounded: "recv_bounded a" using Cons.prems(4) p by simp
    note after = receive_more_ok [OF re bounded c1]
    show ?thesis
    proof (cases e)
      case None': None
      then have "tcp_succeeded w" using re w by (auto simp: receive_more_def split: if_splits)
      then have "\<exists>p \<in> set script. \<exists>e. wait_until deadline (fst p) = Some e \<and> \<not> tcp_succeeded e"
        using Cons.prems(5) p w by auto
      then have "loop deadline script d1 c2 \<noteq> None"
        using Cons.IH [OF d1 after(1)] after(3) None' Cons.prems(4) by auto
      then show ?thesis using dec None p re None' by (subst loop_eq) simp
    next
      case (Some err)
      then show ?thesis using dec None p re by (subst loop_eq) simp
    qed
  qed
qed simp

end

interpretation bootstrap_closing: closing_reader
  "\<lambda>d c. Some (decode_pending d c)" "\<lambda>d e. \<lparr>rr_encoded_record = [], rr_error = e\<rparr>" decoder_bounded
  read_bootstrap_loop
proof (unfold_locales, goal_cases)
  case (1 deadline script d c)
  show ?case by (subst read_bootstrap_loop.simps) simp
qed (use decode_pending_keeps decode_pending_bounded in auto)

interpretation authenticated_closing: closing_reader
  "\<lambda>d c. map_option (\<lambda>(r, e, t, c). (r, (e, t), c)) (drain_pending 2 dir (fst d) (snd d) c)"
  "\<lambda>d e. \<lparr>rr_encoded_record = fst d, rr_error = e\<rparr>" assembly_bounded "authenticated_loop dir" for dir
proof (unfold_locales, goal_cases)
  case (1 deadline script d c)
  show ?case
    unfolding authenticated_loop_def
    by (subst read_authenticated_loop.simps) (auto split: option.splits list.splits)
next
  case (2 d c)
  then show ?case
    using drain_enough [of "fst d" dir c] drain_body_enough [of "fst d" "snd d" 1 dir c]
    by (auto simp: assembly_bounded_def two_passes simp del: drain_pending.simps)
next
  case (3 c d result d' c')
  then show ?case using drain_pending_keeps by auto
next
  case (4 c d d' c')
  then show ?case using drain_pending_keeps [of c 2 dir "fst d" "snd d"] by auto
next
  case (5 c d r d' c')
  then show ?case using drain_pending_keeps [of c 2 dir "fst d" "snd d"] by auto
qed (auto simp: assembly_bounded_def kMaximumControlRecordBytes_def)

lemma fresh_bounded: "decoder_bounded (make_stream_decoder d)" "assembly_bounded ([], 0)"
  by (simp_all add: decoder_bounded_def make_stream_decoder_def assembly_bounded_def)

lemma read_bootstrap_outcome:
  assumes c: "connection_ok c" and script: "\<forall>p \<in> set rs. recv_bounded (snd p)"
    and read: "read_bootstrap_record d timeout now rs c = Some (result, c', rs')"
  shows "connection_ok c'" and "length (rr_encoded_record result) \<le> kMaximumControlRecordBytes"
    and "\<not> tcp_succeeded (rr_error result) \<Longrightarrow> \<not> cn_open c' \<or> timeout = 0 \<and> c' = c"
proof -
  have "connection_ok c' \<and> length (rr_encoded_record result) \<le> kMaximumControlRecordBytes \<and>
      (tcp_succeeded (rr_error result) \<or> \<not> cn_open c' \<or> timeout = 0 \<and> c' = c)"
  proof (cases "\<not> cn_open c \<or> timeout = 0 \<or> sd_failed (make_stream_decoder d)")
    case True
    then show ?thesis using read c by (auto simp: read_bootstrap_record_def Let_def split: if_splits)
  next
    case False
    then have "read_bootstrap_loop (now + unat timeout) rs (make_stream_decoder d) c = Some (result, c', rs')"
      and "cn_open c"
      using read by (simp_all add: read_bootstrap_record_def Let_def)
    with bootstrap_closing.loop_keeps [OF c _ fresh_bounded(1) script] show ?thesis
      unfolding kept_or_closed_def option.case by metis
  qed
  then show "connection_ok c'" and "length (rr_encoded_record result) \<le> kMaximumControlRecordBytes"
    and "\<not> tcp_succeeded (rr_error result) \<Longrightarrow> \<not> cn_open c' \<or> timeout = 0 \<and> c' = c" by blast+
qed

lemma read_authenticated_outcome:
  assumes c: "connection_ok c" and script: "\<forall>p \<in> set rs. recv_bounded (snd p)"
    and read: "read_authenticated_record d timeout now rs c = Some (result, c', rs')"
  shows "connection_ok c'" and "length (rr_encoded_record result) \<le> kMaximumControlRecordBytes"
    and "\<not> tcp_succeeded (rr_error result) \<Longrightarrow> \<not> cn_open c' \<or> (timeout = 0 \<or> d = CdInvalid) \<and> c' = c"
proof -
  have "connection_ok c' \<and> length (rr_encoded_record result) \<le> kMaximumControlRecordBytes \<and>
      (tcp_succeeded (rr_error result) \<or> \<not> cn_open c' \<or> (timeout = 0 \<or> d = CdInvalid) \<and> c' = c)"
  proof (cases "\<not> cn_open c \<or> timeout = 0 \<or> d = CdInvalid")
    case True
    then show ?thesis using read c by (auto simp: read_authenticated_record_def)
  next
    case False
    then have "authenticated_loop d (now + unat timeout) rs ([], 0) c = Some (result, c', rs')"
      and "cn_open c"
      using read by (simp_all add: read_authenticated_record_def authenticated_loop_def)
    with authenticated_closing.loop_keeps [OF c _ fresh_bounded(2) script] show ?thesis
      unfolding kept_or_closed_def option.case by metis
  qed
  then show "connection_ok c'" and "length (rr_encoded_record result) \<le> kMaximumControlRecordBytes"
    and "\<not> tcp_succeeded (rr_error result) \<Longrightarrow> \<not> cn_open c' \<or> (timeout = 0 \<or> d = CdInvalid) \<and> c' = c"
    by blast+
qed

text \<open>
  C13. Whatever a reader or writer of the connection returns, the connection invariant holds afterwards:
  at most one receive buffer of 4096 bytes is pending, the offset is inside it, and a closed
  connection holds nothing. What a read returns is never longer than the largest record.
\<close>

theorem connection_invariant:
  assumes "connection_ok c" and "\<forall>p \<in> set rs. recv_bounded (snd p)"
  shows "(read_bootstrap_record bd timeout now rs c = Some (result, c', rs') \<longrightarrow>
      connection_ok c' \<and> length (rr_encoded_record result) \<le> kMaximumControlRecordBytes) \<and>
    (read_authenticated_record cd timeout now rs c = Some (result, c', rs') \<longrightarrow>
      connection_ok c' \<and> length (rr_encoded_record result) \<le> kMaximumControlRecordBytes) \<and>
    (write_bootstrap_record encoded bd timeout now ws c = Some (e, out, c', ws') \<longrightarrow> connection_ok c') \<and>
    (write_authenticated_record encoded cd timeout now ws c = Some (e, out, c', ws') \<longrightarrow> connection_ok c')"
proof (intro conjI impI)
  assume "read_bootstrap_record bd timeout now rs c = Some (result, c', rs')"
  from read_bootstrap_outcome [OF assms this] show "connection_ok c'"
    and "length (rr_encoded_record result) \<le> kMaximumControlRecordBytes" by blast+
next
  assume "read_authenticated_record cd timeout now rs c = Some (result, c', rs')"
  from read_authenticated_outcome [OF assms this] show "connection_ok c'"
    and "length (rr_encoded_record result) \<le> kMaximumControlRecordBytes" by blast+
next
  assume "write_bootstrap_record encoded bd timeout now ws c = Some (e, out, c', ws')"
  then show "connection_ok c'"
    using assms(1) send_all_prefix [of "now + unat timeout" ws encoded 0 c e out c' ws']
    by (auto simp: write_bootstrap_record_def Let_def split: if_splits)
next
  assume "write_authenticated_record encoded cd timeout now ws c = Some (e, out, c', ws')"
  then show "connection_ok c'"
    using assms(1) send_all_prefix [of "now + unat timeout" ws encoded 0 c e out c' ws']
    by (auto simp: write_authenticated_record_def split: if_splits)
qed

text \<open>
  C14. Failures close the connection: an operation that does not succeed leaves it closed, so no later
  read can take up a stream in the middle of a record. The one exception is a call with a zero
  timeout, or a read of authenticated records without a direction, which is refused before the
  connection is touched. A failed write has put at most a beginning of the record on the wire.
\<close>

theorem transport_failure_closes:
  assumes "connection_ok c" and "\<forall>p \<in> set rs. recv_bounded (snd p)"
  shows "(read_bootstrap_record bd timeout now rs c = Some (result, c', rs') \<longrightarrow>
      \<not> tcp_succeeded (rr_error result) \<longrightarrow> \<not> cn_open c' \<or> timeout = 0 \<and> c' = c) \<and>
    (read_authenticated_record cd timeout now rs c = Some (result, c', rs') \<longrightarrow>
      \<not> tcp_succeeded (rr_error result) \<longrightarrow>
      \<not> cn_open c' \<or> (timeout = 0 \<or> cd = CdInvalid) \<and> c' = c) \<and>
    (write_bootstrap_record encoded bd timeout now ws c = Some (e, out, c', ws') \<longrightarrow>
      \<not> tcp_succeeded e \<longrightarrow> (\<not> cn_open c' \<or> timeout = 0 \<and> c' = c) \<and> prefix out encoded) \<and>
    (write_authenticated_record encoded cd timeout now ws c = Some (e, out, c', ws') \<longrightarrow>
      \<not> tcp_succeeded e \<longrightarrow> \<not> cn_open c' \<and> prefix out encoded)"
  by (intro conjI impI;
      (rule read_bootstrap_outcome(3) [OF assms] read_authenticated_outcome(3) [OF assms]
        write_bootstrap_outcome(2,3) write_authenticated_outcome(2) [THEN conjunct1]
        write_authenticated_outcome(2) [THEN conjunct2]; assumption))

text \<open>
  C29. A read comes back by its deadline: as soon as one of the waits, each of which answers, sees the
  clock at or past it, the read has returned, however little the peer sent and however it was cut.
\<close>

theorem read_ends_by_deadline:
  assumes "connection_ok c"
    and "\<forall>p \<in> set rs. wait_until (now + unat timeout) (fst p) \<noteq> None \<and> recv_bounded (snd p)"
    and "(polls, answer) \<in> set rs" and "polls = (clock, ready) # more_polls" and "now + unat timeout \<le> clock"
  shows "(\<exists>result c' rs'. read_bootstrap_record bd timeout now rs c = Some (result, c', rs')) \<and>
    (\<exists>result c' rs'. read_authenticated_record cd timeout now rs c = Some (result, c', rs'))"
proof -
  have "wait_until (now + unat timeout) polls = Some (tcp_fail TcpTimedOut)" using assms(4,5) by simp
  then have out: "\<exists>p \<in> set rs. \<exists>e. wait_until (now + unat timeout) (fst p) = Some e \<and> \<not> tcp_succeeded e"
    using assms(3) by (force simp: tcp_succeeded_def tcp_failure_def)
  have "\<exists>result c' rs'. read_bootstrap_record bd timeout now rs c = Some (result, c', rs')"
    using bootstrap_closing.loop_ends [OF fresh_bounded(1) assms(1) _ assms(2) out]
    by (auto simp: read_bootstrap_record_def Let_def)
  moreover have "\<exists>result c' rs'. read_authenticated_record cd timeout now rs c = Some (result, c', rs')"
    using authenticated_closing.loop_ends [OF fresh_bounded(2) assms(1) _ assms(2) out, of cd]
    by (auto simp: read_authenticated_record_def authenticated_loop_def)
  ultimately show ?thesis by blast
qed

section \<open>Examples\<close>

text \<open>
  Two bootstrap records, an abort and a hello, sent in pieces of five and more bytes and received
  in other pieces; and an open connection with nothing pending.
\<close>

definition idle_connection :: tcp_connection where
  "idle_connection = \<lparr>cn_open = True, cn_pending_input = [], cn_pending_offset = 0\<rparr>"

definition example_abort :: bytes where
  "example_abort = [0x56, 0x46, 0x42, 0x31, 1, 12, 1, 10, 0, 0, 0, 2, 7, 8]"

definition example_hello :: bytes where
  "example_hello = [0x56, 0x46, 0x42, 0x31, 1, 12, 1, 1, 0, 0, 0, 1, 9]"

definition example_sends :: write_script where
  "example_sends = [([(0, SelectReady)], Sent 5), ([(1, SelectElapsed), (2, SelectReady)], SendRetry),
     ([(2, SelectReady)], Sent 8), ([(2, SelectReady)], Sent 1)]"

definition example_receives :: read_script where
  "example_receives = [([(0, SelectReady)], Received (take 3 example_abort)),
     ([(0, SelectReady)], Received (drop 3 example_abort @ take 12 example_hello)),
     ([(1, SelectInterrupted), (1, SelectReady)], RecvRetry),
     ([(1, SelectReady)], Received [9, 0x56])]"

lemmas example_script_defs =
  example_sends_def example_receives_def example_abort_def example_hello_def idle_connection_def

lemmas example_parse_defs =
  parse_bootstrap_record_def inspect_bootstrap_header_v1_def header_succeeded_def Let_def const_defs
  kBootstrapMagic_def valid_direction_def bootstrap_directions valid_message_type_def bootstrap_messages
  control_bootstrap_message_allowed_v1_def read_u32_be_def

lemma example_writes:
  "\<exists>c' script' e. write_bootstrap_record example_abort 1 1000 0 example_sends idle_connection =
     Some (e, example_abort, c', script') \<and> tcp_succeeded e"
  "\<exists>c' script' e. write_bootstrap_record example_hello 1 1000 0 example_sends idle_connection =
     Some (e, example_hello, c', script') \<and> tcp_succeeded e"
  by (simp_all add: write_bootstrap_record_def example_script_defs example_parse_defs
      send_all.simps tcp_succeeded_def tcp_success_def)

lemma idle_connection_ok: "connection_ok idle_connection"
  by (simp add: connection_ok_def idle_connection_def)

lemma example_passes: "\<forall>p \<in> set example_receives. pass_good (0 + unat (1000 :: u32)) p"
  by (simp add: example_script_defs pass_good_def recv_bounded_def kReceiveBufferBytes_def)

theorem bootstrap_stream_delivered_witness:
  "\<exists>c' script'. read_series (map (read_bootstrap_record 1 1000) [0, 0]) example_receives idle_connection =
     Some ([read_ok example_abort, read_ok example_hello], c', script') \<and> connection_ok c' \<and> cn_open c' \<and>
     unread c' @ read_bytes script' = [0x56]"
proof -
  have "list_all2 (\<lambda>encoded out. \<exists>now script c c' script' e.
      write_bootstrap_record encoded 1 1000 now script c = Some (e, out, c', script') \<and> tcp_succeeded e)
      [example_abort, example_hello] [example_abort, example_hello]"
    using example_writes by (simp del: split_paired_Ex) blast
  moreover have "read_bytes example_receives = concat [example_abort, example_hello] @ [0x56]"
    by (simp add: example_script_defs)
  ultimately show ?thesis
    using bootstrap_stream_delivered [of 1 1000 "[example_abort, example_hello]" "[example_abort, example_hello]"
        example_receives "[0x56]" "[0, 0]" 1000 idle_connection] example_passes
    by (simp add: idle_connection_def)
qed

text \<open>An authenticated record with an empty payload, sent whole and received in two parts.\<close>

definition example_authenticated :: parsed_control_record where
  "example_authenticated =
     \<lparr>cr_tuple = ck_tuple example_control_key, cr_message_type = SessionClose, cr_counter = 3,
      cr_authenticated_header = control_header (ck_tuple example_control_key) SessionClose 3 0,
      cr_ciphertext = [], cr_tag = replicate 16 7\<rparr>"

lemma example_authenticated_ok:
  "control_record_ok example_authenticated" "ct_direction (cr_tuple example_authenticated) = CdHostToAndroid"
  by (simp_all add: control_record_ok_def example_authenticated_def example_control_key_def
      control_tuple_valid_def control_direction_valid_def kMaximumAuthenticatedControlCounter_def const_defs)

lemma example_authenticated_written:
  "\<exists>c' script' e. write_authenticated_record (control_record_bytes example_authenticated) CdHostToAndroid 1000 0
     [([(0, SelectReady)], Sent 56)] idle_connection =
     Some (e, control_record_bytes example_authenticated, c', script') \<and> tcp_succeeded e"
proof -
  have len: "length (control_record_bytes example_authenticated) = 56"
    by (simp add: control_record_bytes_def example_authenticated_def)
  have "authenticated_control_record_size (control_record_bytes example_authenticated) CdHostToAndroid = Some 56"
    using authenticated_size [OF example_authenticated_ok(1)] example_authenticated_ok(2) len
    unfolding control_record_bytes_def by metis
  then show ?thesis
    by (simp add: write_authenticated_record_def idle_connection_def send_all.simps len
        tcp_succeeded_def tcp_success_def)
qed

theorem authenticated_stream_delivered_witness:
  "\<exists>c' script'. read_series (map (read_authenticated_record CdHostToAndroid 1000) [0])
       [([(0, SelectReady)], Received (take 41 (control_record_bytes example_authenticated))),
        ([(0, SelectReady)], Received (drop 41 (control_record_bytes example_authenticated)))] idle_connection =
     Some ([read_ok (control_record_bytes example_authenticated)], c', script') \<and> connection_ok c' \<and>
     cn_open c' \<and> unread c' @ read_bytes script' = []"
proof -
  let ?m = "control_record_bytes example_authenticated"
  let ?script = "[([(0, SelectReady)], Received (take 41 ?m)), ([(0, SelectReady)], Received (drop 41 ?m))]"
  have len: "length ?m = 56" by (simp add: control_record_bytes_def example_authenticated_def)
  then have ne: "take 41 ?m \<noteq> []" "drop 41 ?m \<noteq> []" by auto
  have "list_all2 (\<lambda>r out. control_record_ok r \<and> ct_direction (cr_tuple r) = CdHostToAndroid \<and>
      (\<exists>now script c c' script' e. write_authenticated_record (control_record_bytes r) CdHostToAndroid 1000
        now script c = Some (e, out, c', script') \<and> tcp_succeeded e)) [example_authenticated] [?m]"
    using example_authenticated_ok example_authenticated_written by (simp del: split_paired_Ex) blast
  moreover have "\<forall>p \<in> set ?script. pass_good (0 + unat (1000 :: u32)) p"
    using len ne by (simp add: pass_good_def recv_bounded_def kReceiveBufferBytes_def)
  ultimately show ?thesis
    using authenticated_stream_delivered [of CdHostToAndroid 1000 "[example_authenticated]" "[?m]" ?script "[]"
        "[0]" 1000 idle_connection]
    by (simp add: idle_connection_def)
qed

text \<open>A peer that closes at once, and one that stays silent.\<close>

definition closing_peer :: read_script where "closing_peer = [([(0, SelectReady)], RecvClosed)]"
definition silent_peer :: read_script where "silent_peer = [([(1000, SelectElapsed)], RecvRetry)]"

lemma read_from_closing_peer:
  "read_bootstrap_record 1 1000 0 closing_peer idle_connection =
     Some (\<lparr>rr_encoded_record = [], rr_error = tcp_fail TcpPeerClosed\<rparr>, close_connection idle_connection, [])"
  by (simp add: read_bootstrap_record_def make_stream_decoder_def valid_direction_def bootstrap_directions
      read_bootstrap_loop.simps decode_pending_def idle_connection_def closing_peer_def receive_more_def
      tcp_succeeded_def tcp_success_def Let_def)

lemma closing_peer_bounded: "\<forall>p \<in> set closing_peer. recv_bounded (snd p)"
  by (simp add: closing_peer_def recv_bounded_def)

theorem connection_invariant_witness:
  "\<exists>result c' rs'. read_bootstrap_record 1 1000 0 closing_peer idle_connection = Some (result, c', rs') \<and>
     connection_ok c' \<and> length (rr_encoded_record result) \<le> kMaximumControlRecordBytes"
  using connection_invariant [OF idle_connection_ok closing_peer_bounded] read_from_closing_peer by blast

theorem transport_failure_closes_witness:
  "\<exists>result c' rs'. read_bootstrap_record 1 1000 0 closing_peer idle_connection = Some (result, c', rs') \<and>
     te_status (rr_error result) = TcpPeerClosed \<and> \<not> cn_open c'"
proof -
  have "\<not> tcp_succeeded (tcp_fail TcpPeerClosed)" by (simp add: tcp_succeeded_def tcp_failure_def)
  then have "\<not> cn_open (close_connection idle_connection)"
    using transport_failure_closes [OF idle_connection_ok closing_peer_bounded] read_from_closing_peer
    by fastforce
  then show ?thesis unfolding read_from_closing_peer by (simp add: tcp_failure_def)
qed

theorem read_ends_by_deadline_witness:
  "\<exists>result c' rs'. read_authenticated_record CdHostToAndroid 1000 0 silent_peer idle_connection =
     Some (result, c', rs')"
  using read_ends_by_deadline [OF idle_connection_ok, of silent_peer 0 1000 "[(1000, SelectElapsed)]" RecvRetry
      1000 SelectElapsed "[]"]
  by (simp add: silent_peer_def recv_bounded_def)

end
