(* ===== verification/Bootstrap_Payload.thy ===== *)
theory Bootstrap_Payload
  imports Bootstrap_Record Handshake_Transcript
begin

text \<open>
  The payloads of the bootstrap records
  (\<^verbatim>\<open>shared/src/authenticated_control_bootstrap_payload_v1.cpp\<close>): a fixed list of typed fields per
  message type, each encoded as a tag, a 32-bit length and the value, with the wire checks of every
  kind of field (identifiers, counters, P-256 keys, DER signatures, compact JWTs, versions).

  Spans are byte lists; allocation is taken to succeed. Shown: the codec is canonical, a message
  survives payload and record encoding, the DER and JWT checks accept exactly their grammars, and
  the version check is the one of the handshake transcript.
\<close>

section \<open>Rules\<close>

definition kControlBootstrapPayloadTlvHeaderBytesV1 :: nat where
  "kControlBootstrapPayloadTlvHeaderBytesV1 = 5"
definition kControlBootstrapPayloadMaximumFieldsV1 :: nat where
  "kControlBootstrapPayloadMaximumFieldsV1 = 12"
definition kControlBootstrapPayloadMaximumCredentialBytesV1 :: nat where
  "kControlBootstrapPayloadMaximumCredentialBytesV1 = 8192"

lemmas payload_consts [const_defs] =
  kControlBootstrapPayloadTlvHeaderBytesV1_def kControlBootstrapPayloadMaximumFieldsV1_def
  kControlBootstrapPayloadMaximumCredentialBytesV1_def

datatype field_semantic =
    Opaque | LowerHexIdentifier | PositiveU64 | CanonicalP256Spki | Sec1P256PublicKey | NonzeroBytes
  | TransportKind | NonzeroPort | StableSemver | EcdsaDer | CompactJwt | PositiveU16

record field_rule =
  fl_minimum :: nat
  fl_maximum :: nat
  fl_semantic :: field_semantic

definition exact_rule :: "nat \<Rightarrow> field_semantic \<Rightarrow> field_rule" where
  "exact_rule n sem = \<lparr>fl_minimum = n, fl_maximum = n, fl_semantic = sem\<rparr>"

definition bounded_rule :: "nat \<Rightarrow> nat \<Rightarrow> field_semantic \<Rightarrow> field_rule" where
  "bounded_rule low high sem = \<lparr>fl_minimum = low, fl_maximum = high, fl_semantic = sem\<rparr>"

definition kHostHelloRules :: "field_rule list" where
  "kHostHelloRules =
     [exact_rule 91 CanonicalP256Spki, exact_rule 65 Sec1P256PublicKey, exact_rule 32 NonzeroBytes,
      exact_rule 1 TransportKind, exact_rule 4 Opaque, exact_rule 4 Opaque, exact_rule 2 NonzeroPort,
      exact_rule 2 NonzeroPort, bounded_rule 1 32 StableSemver]"

definition kAndroidChallengeRequestRules :: "field_rule list" where
  "kAndroidChallengeRequestRules =
     [exact_rule 32 LowerHexIdentifier, exact_rule 32 LowerHexIdentifier, exact_rule 32 LowerHexIdentifier,
      exact_rule 32 LowerHexIdentifier, exact_rule 32 LowerHexIdentifier, exact_rule 8 PositiveU64,
      exact_rule 8 PositiveU64, exact_rule 91 CanonicalP256Spki, exact_rule 65 Sec1P256PublicKey,
      exact_rule 32 NonzeroBytes, bounded_rule 1 32 StableSemver, bounded_rule 8 72 EcdsaDer]"

definition kSignatureRules :: "field_rule list" where
  "kSignatureRules = [bounded_rule 8 72 EcdsaDer]"

definition kServerChallengeRules :: "field_rule list" where
  "kServerChallengeRules =
     [exact_rule 32 LowerHexIdentifier, exact_rule 8 PositiveU64, exact_rule 32 NonzeroBytes]"

definition kCredentialRules :: "field_rule list" where
  "kCredentialRules =
     [exact_rule 8 PositiveU64, exact_rule 8 PositiveU64, exact_rule 32 NonzeroBytes,
      bounded_rule 1 kControlBootstrapPayloadMaximumCredentialBytesV1 CompactJwt]"

definition kAndroidHandshakeConfirmationRules :: "field_rule list" where
  "kAndroidHandshakeConfirmationRules = [bounded_rule 8 72 EcdsaDer, exact_rule 32 NonzeroBytes]"

definition kHostFinishedRules :: "field_rule list" where
  "kHostFinishedRules = [exact_rule 32 NonzeroBytes]"

definition kAbortRules :: "field_rule list" where
  "kAbortRules = [exact_rule 2 PositiveU16]"

lemmas rule_defs =
  kHostHelloRules_def kAndroidChallengeRequestRules_def kSignatureRules_def kServerChallengeRules_def
  kCredentialRules_def kAndroidHandshakeConfirmationRules_def kHostFinishedRules_def kAbortRules_def
  exact_rule_def bounded_rule_def

definition kP256SpkiPrefix :: bytes where
  "kP256SpkiPrefix =
     [0x30, 0x59, 0x30, 0x13, 0x06, 0x07, 0x2a, 0x86, 0x48, 0xce, 0x3d, 0x02, 0x01, 0x06, 0x08, 0x2a,
      0x86, 0x48, 0xce, 0x3d, 0x03, 0x01, 0x07, 0x03, 0x42, 0x00, 0x04]"

text \<open>\<open>None\<close> is the empty schema of the messages that have no payload of this codec.\<close>

definition schema_for :: "bootstrap_message_type \<Rightarrow> field_rule list option" where
  "schema_for m =
     (if m = bm_host_hello then Some kHostHelloRules
      else if m = bm_android_challenge_request then Some kAndroidChallengeRequestRules
      else if m = bm_host_challenge_proof \<or> m = bm_host_final_proof \<or> m = bm_host_handshake_signature
      then Some kSignatureRules
      else if m = bm_server_challenge then Some kServerChallengeRules
      else if m = bm_pair_generation_credential then Some kCredentialRules
      else if m = bm_android_handshake_confirmation then Some kAndroidHandshakeConfirmationRules
      else if m = bm_host_finished then Some kHostFinishedRules
      else if m = bm_abort then Some kAbortRules
      else None)"

section \<open>Field checks\<close>

definition read_control_bootstrap_u16_be_v1 :: "bytes \<Rightarrow> u16" where
  "read_control_bootstrap_u16_be_v1 v =
     (if length v \<noteq> 2 then 0 else push_bit 8 (ucast (v ! 0)) OR ucast (v ! 1))"

definition read_control_bootstrap_u64_be_v1 :: "bytes \<Rightarrow> u64" where
  "read_control_bootstrap_u64_be_v1 v =
     (if length v \<noteq> 8 then 0 else foldl (\<lambda>r b. push_bit 8 r OR ucast b) 0 v)"

definition byte_within :: "u8 \<Rightarrow> u8 \<Rightarrow> u8 \<Rightarrow> bool" where
  "byte_within low high b \<longleftrightarrow> low \<le> b \<and> b \<le> high"

definition lower_hex_identifier_valid :: "bytes \<Rightarrow> bool" where
  "lower_hex_identifier_valid v \<longleftrightarrow>
     length v = 32 \<and> contains_nonzero v \<and>
     list_all (\<lambda>b. byte_within 0x30 0x39 b \<or> byte_within 0x61 0x66 b) v"

function payload_semver_loop :: "bytes \<Rightarrow> nat \<Rightarrow> nat \<Rightarrow> nat \<Rightarrow> bool" where
  "payload_semver_loop v index component_start components =
     (if index > length v then components = 3
      else if index \<noteq> length v \<and> v ! index \<noteq> 0x2e
      then (if v ! index < 0x30 \<or> v ! index > 0x39 then False
            else payload_semver_loop v (index + 1) component_start components)
      else (let component_size = index - component_start in
        if component_size = 0 \<or> component_size > 1 \<and> v ! component_start = 0x30 then False
        else payload_semver_loop v (index + 1) (index + 1) (components + 1)))"
  by pat_completeness auto
termination by (relation "measure (\<lambda>(v, i, _). Suc (length v) - i)") auto

declare payload_semver_loop.simps [simp del]

definition payload_semver_valid :: "bytes \<Rightarrow> bool" where
  "payload_semver_valid v = (if v = [] \<or> length v > 32 then False else payload_semver_loop v 0 0 0)"

definition canonical_der_integer_valid :: "bytes \<Rightarrow> bool" where
  "canonical_der_integer_valid v =
     (if v = [] \<or> length v > 33 then False
      else
        let first = hd v in
        if first AND 0x80 \<noteq> 0 then False
        else if length v > 1 \<and> first = 0 \<and> v ! 1 AND 0x80 = 0 then False
        else contains_nonzero v)"

definition canonical_ecdsa_der_valid :: "bytes \<Rightarrow> bool" where
  "canonical_ecdsa_der_valid v =
     (if length v < 8 \<or> length v > 72 \<or> v ! 0 \<noteq> 0x30 \<or> unat (v ! 1) \<noteq> length v - 2 then False
      else if v ! 2 \<noteq> 0x02 then False
      else
        let r_size = unat (v ! 3); offset = 4 in
        if r_size = 0 \<or> offset + r_size + 2 > length v then False
        else if \<not> canonical_der_integer_valid (take r_size (drop offset v)) then False
        else
          let offset = offset + r_size in
          if v ! offset \<noteq> 0x02 then False
          else
            let s_size = unat (v ! (offset + 1)); offset = offset + 2 in
            if s_size = 0 \<or> offset + s_size \<noteq> length v then False
            else canonical_der_integer_valid (take s_size (drop offset v)))"

definition base64url :: "u8 \<Rightarrow> bool" where
  "base64url b \<longleftrightarrow>
     byte_within 0x41 0x5a b \<or> byte_within 0x61 0x7a b \<or> byte_within 0x30 0x39 b \<or> b = 0x2d \<or> b = 0x5f"

fun jwt_loop :: "bytes \<Rightarrow> nat \<Rightarrow> nat \<Rightarrow> bool" where
  "jwt_loop [] dots segment_size \<longleftrightarrow> dots = 2 \<and> segment_size \<noteq> 0"
| "jwt_loop (b # bs) dots segment_size =
     (if b = 0x2e
      then (if segment_size = 0 \<or> dots = 2 then False else jwt_loop bs (dots + 1) 0)
      else if \<not> base64url b then False
      else jwt_loop bs dots (segment_size + 1))"

definition compact_jwt_valid :: "bytes \<Rightarrow> bool" where
  "compact_jwt_valid v =
     (if v = [] \<or> length v > kControlBootstrapPayloadMaximumCredentialBytesV1 then False
      else jwt_loop v 0 0)"

definition field_value_valid :: "field_rule \<Rightarrow> bytes \<Rightarrow> bool" where
  "field_value_valid rule v =
     (if length v < fl_minimum rule \<or> length v > fl_maximum rule then False
      else case fl_semantic rule of
          Opaque \<Rightarrow> True
        | LowerHexIdentifier \<Rightarrow> lower_hex_identifier_valid v
        | PositiveU64 \<Rightarrow> read_control_bootstrap_u64_be_v1 v \<noteq> 0 \<and> hd v AND 0x80 = 0
        | CanonicalP256Spki \<Rightarrow> length v = 91 \<and> take (length kP256SpkiPrefix) v = kP256SpkiPrefix \<and>
            contains_nonzero (drop (length kP256SpkiPrefix) v)
        | Sec1P256PublicKey \<Rightarrow> length v = 65 \<and> hd v = 0x04 \<and> contains_nonzero (drop 1 v)
        | NonzeroBytes \<Rightarrow> contains_nonzero v
        | TransportKind \<Rightarrow> length v = 1 \<and> (hd v = 1 \<or> hd v = 2)
        | NonzeroPort \<Rightarrow> read_control_bootstrap_u16_be_v1 v \<noteq> 0
        | StableSemver \<Rightarrow> payload_semver_valid v
        | EcdsaDer \<Rightarrow> canonical_ecdsa_der_valid v
        | CompactJwt \<Rightarrow> compact_jwt_valid v
        | PositiveU16 \<Rightarrow> read_control_bootstrap_u16_be_v1 v \<noteq> 0)"

section \<open>The codec\<close>

record payload_field =
  pf_tag :: u8
  pf_value :: bytes

datatype payload_status =
    PayloadEncoded | PayloadParsed | PayloadInvalidMessageType | PayloadInvalidFieldCount
  | PayloadEmpty | PayloadTooLarge | PayloadTruncatedTlv | PayloadUnexpectedFieldTag
  | PayloadInvalidFieldLength | PayloadInvalidFieldValue | PayloadTrailingData
  | PayloadAllocationFailed

record payload_encode_result =
  pe_status :: payload_status
  pe_field_tag :: u8
  pe_payload :: bytes

record parsed_payload =
  pp_message_type :: bootstrap_message_type
  pp_fields :: "bytes list"

record payload_parse_result =
  pq_status :: payload_status
  pq_field_tag :: u8
  pq_payload :: parsed_payload

definition payload_field_at :: "u8 \<Rightarrow> parsed_payload \<Rightarrow> bytes" where
  "payload_field_at tag p = (if length (pp_fields p) \<le> unat tag then [] else pp_fields p ! unat tag)"

definition cross_field_values_valid :: "bootstrap_message_type \<Rightarrow> payload_field list \<Rightarrow> bool" where
  "cross_field_values_valid m fs =
     (if m \<noteq> bm_host_hello then True
      else read_control_bootstrap_u16_be_v1 (pf_value (fs ! 6)) \<noteq>
           read_control_bootstrap_u16_be_v1 (pf_value (fs ! 7)))"

definition payload_append_u32_be :: "u32 \<Rightarrow> bytes" where
  "payload_append_u32_be v =
     [ucast (drop_bit 24 v), ucast (drop_bit 16 v), ucast (drop_bit 8 v), ucast v]"

definition encode_failure :: "payload_status \<Rightarrow> u8 \<Rightarrow> payload_encode_result" where
  "encode_failure status tag = \<lparr>pe_status = status, pe_field_tag = tag, pe_payload = []\<rparr>"

definition no_payload :: parsed_payload where
  "no_payload = \<lparr>pp_message_type = 0, pp_fields = []\<rparr>"

definition parse_failure :: "payload_status \<Rightarrow> u8 \<Rightarrow> payload_parse_result" where
  "parse_failure status tag = \<lparr>pq_status = status, pq_field_tag = tag, pq_payload = no_payload\<rparr>"

text \<open>The checking loop of the encoder, from field \<open>index\<close> on: a failure, or \<open>None\<close>.\<close>

fun encode_check ::
  "nat \<Rightarrow> field_rule list \<Rightarrow> payload_field list \<Rightarrow> nat \<Rightarrow> payload_encode_result option" where
  "encode_check index (rule # rules) (f # fs) encoded_size =
     (let expected_tag = of_nat index; n = length (pf_value f) in
      if pf_tag f \<noteq> expected_tag then Some (encode_failure PayloadUnexpectedFieldTag (pf_tag f))
      else if n < fl_minimum rule \<or> n > fl_maximum rule
      then Some (encode_failure PayloadInvalidFieldLength expected_tag)
      else if \<not> field_value_valid rule (pf_value f)
      then Some (encode_failure PayloadInvalidFieldValue expected_tag)
      else
        let field_bytes = kControlBootstrapPayloadTlvHeaderBytesV1 + n in
        if encoded_size > kMaximumAuthenticatedControlBootstrapPayloadBytes - field_bytes
        then Some (encode_failure PayloadTooLarge 0xFF)
        else encode_check (index + 1) rules fs (encoded_size + field_bytes))"
| "encode_check index rules fs encoded_size = None"

definition encode_control_bootstrap_payload_v1 ::
  "bootstrap_message_type \<Rightarrow> payload_field list \<Rightarrow> payload_encode_result" where
  "encode_control_bootstrap_payload_v1 m fs =
     (case schema_for m of
        None \<Rightarrow> encode_failure PayloadInvalidMessageType 0xFF
      | Some rules \<Rightarrow>
          if length fs \<noteq> length rules then encode_failure PayloadInvalidFieldCount 0xFF
          else (case encode_check 0 rules fs 0 of
              Some failed \<Rightarrow> failed
            | None \<Rightarrow>
                if \<not> cross_field_values_valid m fs then encode_failure PayloadInvalidFieldValue 7
                else \<lparr>pe_status = PayloadEncoded, pe_field_tag = 0xFF,
                  pe_payload = concat (map (\<lambda>f. pf_tag f # payload_append_u32_be (of_nat (length (pf_value f)))
                    @ pf_value f) fs)\<rparr>))"

text \<open>The loop of the parser: a failure, or the values and the offset behind them.\<close>

fun parse_fields ::
  "nat \<Rightarrow> field_rule list \<Rightarrow> bytes \<Rightarrow> nat \<Rightarrow> payload_parse_result + bytes list \<times> nat" where
  "parse_fields index [] encoded offset = Inr ([], offset)"
| "parse_fields index (rule # rules) encoded offset =
     (let expected_tag = of_nat index in
      if length encoded - offset < kControlBootstrapPayloadTlvHeaderBytesV1
      then Inl (parse_failure PayloadTruncatedTlv expected_tag)
      else if encoded ! offset \<noteq> expected_tag
      then Inl (parse_failure PayloadUnexpectedFieldTag (encoded ! offset))
      else
        let field_size = unat (read_u32_be (take 4 (drop (offset + 1) encoded))) in
        if field_size < fl_minimum rule \<or> field_size > fl_maximum rule
        then Inl (parse_failure PayloadInvalidFieldLength expected_tag)
        else
          let offset = offset + kControlBootstrapPayloadTlvHeaderBytesV1 in
          if field_size > length encoded - offset
          then Inl (parse_failure PayloadTruncatedTlv expected_tag)
          else
            let v = take field_size (drop offset encoded) in
            if \<not> field_value_valid rule v then Inl (parse_failure PayloadInvalidFieldValue expected_tag)
            else (case parse_fields (index + 1) rules encoded (offset + field_size) of
                Inl failed \<Rightarrow> Inl failed
              | Inr (vs, offset) \<Rightarrow> Inr (v # vs, offset)))"

text \<open>\<^verbatim>\<open>validation_fields\<close>: the values with their positions as tags.\<close>

definition tag_fields :: "bytes list \<Rightarrow> payload_field list" where
  "tag_fields vs = map (\<lambda>(i, v). \<lparr>pf_tag = of_nat i, pf_value = v\<rparr>) (enumerate 0 vs)"

definition parse_control_bootstrap_payload_v1 ::
  "bootstrap_message_type \<Rightarrow> bytes \<Rightarrow> payload_parse_result" where
  "parse_control_bootstrap_payload_v1 m encoded =
     (case schema_for m of
        None \<Rightarrow> parse_failure PayloadInvalidMessageType 0xFF
      | Some rules \<Rightarrow>
          if encoded = [] then parse_failure PayloadEmpty 0xFF
          else if length encoded > kMaximumAuthenticatedControlBootstrapPayloadBytes
          then parse_failure PayloadTooLarge 0xFF
          else (case parse_fields 0 rules encoded 0 of
              Inl failed \<Rightarrow> failed
            | Inr (vs, offset) \<Rightarrow>
                if offset \<noteq> length encoded then parse_failure PayloadTrailingData 0xFF
                else if \<not> cross_field_values_valid m (tag_fields vs)
                then parse_failure PayloadInvalidFieldValue 7
                else \<lparr>pq_status = PayloadParsed, pq_field_tag = 0xFF,
                  pq_payload = \<lparr>pp_message_type = m, pp_fields = vs\<rparr>\<rparr>))"


section \<open>The codec is canonical\<close>

text \<open>The encoding of one value under a tag, and of a list of values under consecutive tags.\<close>

definition payload_tlv :: "nat \<Rightarrow> bytes \<Rightarrow> bytes" where
  "payload_tlv i v = of_nat i # be_bytes 4 (of_nat (length v) :: u32) @ v"

fun payload_tlvs :: "nat \<Rightarrow> bytes list \<Rightarrow> bytes" where
  "payload_tlvs i [] = []"
| "payload_tlvs i (v # vs) = payload_tlv i v @ payload_tlvs (Suc i) vs"

definition tag_from :: "nat \<Rightarrow> bytes list \<Rightarrow> payload_field list" where
  "tag_from i vs = map (\<lambda>(i, v). \<lparr>pf_tag = of_nat i, pf_value = v\<rparr>) (enumerate i vs)"

text \<open>What every schema gives: fields that fit a length field and payloads that fit a record.\<close>

definition rules_fit :: "nat \<Rightarrow> field_rule list \<Rightarrow> bool" where
  "rules_fit size_so_far rules \<longleftrightarrow> list_all (\<lambda>r. fl_maximum r \<le> 8192) rules \<and>
     size_so_far + sum_list (map (\<lambda>r. 5 + fl_maximum r) rules) \<le> 65536"

lemma length_payload_tlv [simp]: "length (payload_tlv i v) = 5 + length v"
  by (simp add: payload_tlv_def)

lemma payload_append_u32_be_eq: "payload_append_u32_be v = be_bytes 4 v"
  by (simp add: payload_append_u32_be_def be_bytes_def upt_rec)

lemma schema_fits: "schema_for m = Some rules \<Longrightarrow> rules \<noteq> [] \<and> rules_fit 0 rules"
  by (auto simp: schema_for_def rules_fit_def rule_defs const_defs split: if_splits)

lemma tag_fields_eq: "tag_fields vs = tag_from 0 vs"
  by (simp add: tag_fields_def tag_from_def)

lemma tag_from_simps [simp]:
  "tag_from i [] = []" "tag_from i (v # vs) = \<lparr>pf_tag = of_nat i, pf_value = v\<rparr> # tag_from (Suc i) vs"
  by (simp_all add: tag_from_def)

lemma tag_from_facts [simp]: "length (tag_from i vs) = length vs" "map pf_value (tag_from i vs) = vs"
  by (induction vs arbitrary: i) simp_all

lemma encoded_fields: "concat (map (\<lambda>f. pf_tag f # payload_append_u32_be (of_nat (length (pf_value f))) @ pf_value f)
    (tag_from i vs)) = payload_tlvs i vs"
  by (induction vs arbitrary: i) (simp_all add: payload_tlv_def payload_append_u32_be_eq)

lemma field_value_length: "field_value_valid rule v \<Longrightarrow> length v \<le> fl_maximum rule"
  by (simp add: field_value_valid_def split: if_splits)

lemma encode_check_None:
  "length fs = length rules \<Longrightarrow> rules_fit n rules \<Longrightarrow>
   encode_check i rules fs n = None \<longleftrightarrow>
     list_all2 field_value_valid rules (map pf_value fs) \<and> fs = tag_from i (map pf_value fs)"
proof (induction rules arbitrary: i fs n)
  case (Cons rule rules)
  then obtain f fs' where fs: "fs = f # fs'" "length fs' = length rules" by (cases fs) auto
  let ?n = "length (pf_value f)"
  have max: "fl_maximum rule \<le> 8192" and room: "n + (5 + fl_maximum rule) \<le> 65536"
    using Cons.prems(2) by (simp_all add: rules_fit_def)
  have f: "f = \<lparr>pf_tag = of_nat i, pf_value = pf_value f\<rparr> \<longleftrightarrow> pf_tag f = of_nat i" by (cases f) simp
  show ?case
  proof (cases "pf_tag f = of_nat i \<and> field_value_valid rule (pf_value f)")
    case True
    then have len: "?n \<le> fl_maximum rule" "\<not> ?n < fl_minimum rule"
      by (simp_all add: field_value_length field_value_valid_def split: if_splits)
    have fit: "rules_fit (n + (5 + ?n)) rules" using Cons.prems(2) len(1) by (simp add: rules_fit_def)
    have "\<not> n > 65536 - (5 + ?n)" using room len(1) by linarith
    then have "encode_check i (rule # rules) (f # fs') n = encode_check (Suc i) rules fs' (n + (5 + ?n))"
      using True len by (simp add: Let_def const_defs)
    then show ?thesis
      using Cons.IH [OF fs(2) fit, of "Suc i"] True f fs(1) by simp
  next
    case False
    then have "encode_check i (rule # rules) (f # fs') n \<noteq> None"
      by (auto simp: Let_def field_value_valid_def)
    then show ?thesis using False f fs(1) by auto
  qed
qed simp

lemma tlv_prefix:
  assumes "length v \<le> 8192"
  shows "prefix (payload_tlv i v @ rest) d \<longleftrightarrow>
    5 \<le> length d \<and> d ! 0 = of_nat i \<and> unat (read_u32_be (take 4 (drop 1 d))) = length v \<and>
    length v \<le> length d - 5 \<and> take (length v) (drop 5 d) = v \<and> prefix rest (drop (5 + length v) d)"
    (is "?l \<longleftrightarrow> ?r")
proof
  assume ?l
  then obtain tail where d: "d = of_nat i # be_bytes 4 (of_nat (length v) :: u32) @ v @ rest @ tail"
    by (auto simp: prefix_def payload_tlv_def)
  have size: "unat (read_u32_be (be_bytes 4 (of_nat (length v) :: u32))) = length v"
    using assms by (simp add: read_u32_be_eq be_value_be_bytes unat_of_nat_small)
  have "drop (length (payload_tlv i v)) (payload_tlv i v @ rest @ tail) = rest @ tail"
    by simp
  moreover have "d = payload_tlv i v @ rest @ tail" by (simp add: d payload_tlv_def)
  ultimately have "drop (5 + length v) d = rest @ tail" by (simp only: length_payload_tlv)
  then show ?r using size by (simp add: d)
next
  assume r: ?r
  then obtain tail where tail: "drop (5 + length v) d = rest @ tail" by (auto simp: prefix_def)
  have "4 \<le> length d - 1" using r by linarith
  then have len4: "length (take 4 (drop 1 d)) = 4" by simp
  have "read_u32_be (take 4 (drop 1 d)) = (of_nat (length v) :: u32)"
    using r assms by (intro unsigned_word_eqI [where ?'a=nat]) (simp add: unat_of_nat_small)
  then have val: "be_value (take 4 (drop 1 d)) = (of_nat (length v) :: u32)"
    using read_u32_be_eq [OF len4] by (rule trans [OF sym, rotated])
  have "be_bytes (length (take 4 (drop 1 d))) (be_value (take 4 (drop 1 d)) :: u32) = take 4 (drop 1 d)"
    by (rule be_bytes_be_value) (simp add: len4)
  then have four: "be_bytes 4 (of_nat (length v) :: u32) = take 4 (drop 1 d)"
    unfolding len4 val .
  have "d = take 1 d @ take 4 (drop 1 d) @ take (length v) (drop 5 d) @ drop (5 + length v) d"
  proof -
    have "d = take 1 d @ drop 1 d" by simp
    also have "drop 1 d = take 4 (drop 1 d) @ drop 4 (drop 1 d)" by (rule append_take_drop_id [symmetric])
    also have "drop 4 (drop 1 d) = drop 5 d" by simp
    also have "drop 5 d = take (length v) (drop 5 d) @ drop (length v) (drop 5 d)"
      by (rule append_take_drop_id [symmetric])
    also have "drop (length v) (drop 5 d) = drop (5 + length v) d" by (simp add: add.commute)
    finally show ?thesis .
  qed
  moreover have "take 1 d = [of_nat i]" using r by (cases d) auto
  ultimately have "d = (of_nat i # be_bytes 4 (of_nat (length v) :: u32) @ v) @ rest @ tail"
    using r four tail by simp
  then show ?l by (simp add: payload_tlv_def prefix_def)
qed

lemma parse_fields_iff:
  "list_all (\<lambda>r. fl_maximum r \<le> 8192) rules \<Longrightarrow>
   parse_fields i rules e off = Inr (vs, off') \<longleftrightarrow>
     list_all2 field_value_valid rules vs \<and> off' = off + length (payload_tlvs i vs) \<and> prefix (payload_tlvs i vs) (drop off e)"
proof (induction rules arbitrary: i off vs)
  case Nil
  then show ?case by (cases vs) auto
next
  case (Cons rule rules)
  let ?n = "unat (read_u32_be (take 4 (drop (off + 1) e)))"
  let ?v = "take ?n (drop (off + 5) e)"
  let ?ok = "5 \<le> length e - off \<and> e ! off = of_nat i \<and> ?n \<le> length e - (off + 5) \<and> field_value_valid rule ?v"
  have max: "fl_maximum rule \<le> 8192" and fit: "list_all (\<lambda>r. fl_maximum r \<le> 8192) rules"
    using Cons.prems by simp_all
  have rec: "parse_fields i (rule # rules) e off =
      (case parse_fields (Suc i) rules e (off + 5 + ?n) of
         Inl failed \<Rightarrow> Inl failed | Inr (vs, offset) \<Rightarrow> Inr (?v # vs, offset))" if ok: ?ok
  proof -
    have "length ?v = ?n" using ok by simp
    then have "fl_minimum rule \<le> ?n \<and> ?n \<le> fl_maximum rule"
      using ok by (simp add: field_value_valid_def split: if_splits)
    then show ?thesis using ok by (simp add: Let_def const_defs split: sum.split)
  qed
  have bad: "\<exists>f. parse_fields i (rule # rules) e off = Inl f" if "\<not> ?ok"
    using that by (auto simp: Let_def const_defs)
  show ?case
  proof (cases vs)
    case Nil
    then show ?thesis using rec bad by (cases ?ok) (auto split: sum.splits)
  next
    case vs: (Cons v vs')
    have "parse_fields i (rule # rules) e off = Inr (v # vs', off') \<longleftrightarrow>
        ?ok \<and> v = ?v \<and> parse_fields (Suc i) rules e (off + 5 + ?n) = Inr (vs', off')"
      using rec bad by (cases ?ok) (auto split: sum.splits)
    also have "\<dots> \<longleftrightarrow> ?ok \<and> v = ?v \<and> list_all2 field_value_valid rules vs' \<and>
        off' = off + 5 + ?n + length (payload_tlvs (Suc i) vs') \<and>
        prefix (payload_tlvs (Suc i) vs') (drop (off + 5 + ?n) e)"
      using Cons.IH [OF fit] by simp
    also have "\<dots> \<longleftrightarrow> field_value_valid rule v \<and> list_all2 field_value_valid rules vs' \<and>
        off' = off + 5 + length v + length (payload_tlvs (Suc i) vs') \<and>
        prefix (payload_tlv i v @ payload_tlvs (Suc i) vs') (drop off e)" (is "?l \<longleftrightarrow> ?r")
    proof -
      have pre: "prefix (payload_tlv i v @ payload_tlvs (Suc i) vs') (drop off e) \<longleftrightarrow>
          5 \<le> length e - off \<and> e ! off = of_nat i \<and> ?n = length v \<and> length v \<le> length e - (off + 5) \<and>
          take (length v) (drop (off + 5) e) = v \<and> prefix (payload_tlvs (Suc i) vs') (drop (off + 5 + length v) e)"
        if "field_value_valid rule v"
      proof -
        have small: "length v \<le> 8192" using field_value_length [OF that] max by linarith
        have nth: "5 \<le> length e - off \<Longrightarrow> drop off e ! 0 = e ! off" by simp
        show ?thesis
          unfolding tlv_prefix [OF small] using nth
          by (simp add: add.commute add.left_commute cong: conj_cong)
      qed
      have "length ?v = ?n" if ?ok using that by simp
      then show ?thesis using pre by auto
    qed
    finally show ?thesis using vs by (auto simp: add.assoc)
  qed
qed

lemma length_payload_tlvs_le:
  "list_all2 field_value_valid rules vs \<Longrightarrow>
    length (payload_tlvs i vs) \<le> sum_list (map (\<lambda>r. 5 + fl_maximum r) rules)"
proof (induction rules vs arbitrary: i rule: list_all2_induct)
  case (Cons rule rules v vs)
  then show ?case using field_value_length [of rule v] by (simp add: add_mono)
qed simp

lemma encode_check_failure: "encode_check i rules fs n = Some f \<Longrightarrow> pe_status f \<noteq> PayloadEncoded"
  by (induction i rules fs n rule: encode_check.induct)
     (auto simp: Let_def encode_failure_def split: if_splits)

lemma parse_fields_failure: "parse_fields i rules e off = Inl f \<Longrightarrow> pq_status f \<noteq> PayloadParsed"
  by (induction i rules e off rule: parse_fields.induct)
     (auto simp: Let_def parse_failure_def split: if_splits sum.splits)

lemma encode_payload_iff:
  "encode_control_bootstrap_payload_v1 m fs = \<lparr>pe_status = PayloadEncoded, pe_field_tag = 0xFF, pe_payload = e\<rparr> \<longleftrightarrow>
   (\<exists>rules vs. schema_for m = Some rules \<and> list_all2 field_value_valid rules vs \<and> fs = tag_fields vs \<and>
      cross_field_values_valid m fs \<and> e = payload_tlvs 0 vs)" (is "?l \<longleftrightarrow> ?r")
proof
  assume l: ?l
  obtain rules where rules1: "schema_for m = Some rules"
    using l by (cases "schema_for m") (simp_all add: encode_control_bootstrap_payload_v1_def encode_failure_def)
  have rules2: "length fs = length rules"
    using l rules1 by (cases "length fs = length rules")
      (simp_all add: encode_control_bootstrap_payload_v1_def encode_failure_def)
  have rules3: "encode_check 0 rules fs 0 = None"
  proof (rule ccontr)
    assume "encode_check 0 rules fs 0 \<noteq> None"
    then obtain f where f: "encode_check 0 rules fs 0 = Some f" by blast
    then have "encode_control_bootstrap_payload_v1 m fs = f"
      unfolding encode_control_bootstrap_payload_v1_def rules1 rules2 by simp
    with encode_check_failure [OF f] l show False by simp
  qed
  have rules4: "cross_field_values_valid m fs"
    using l rules1 rules2 rules3 by (cases "cross_field_values_valid m fs")
      (simp_all add: encode_control_bootstrap_payload_v1_def encode_failure_def)
  note rules = rules1 rules2 rules3 rules4
  let ?vs = "map pf_value fs"
  have ok: "list_all2 field_value_valid rules ?vs" "fs = tag_from 0 ?vs"
    using encode_check_None [OF rules(2), of 0 0] schema_fits [OF rules(1)] rules(3) by simp_all
  have "e = concat (map (\<lambda>f. pf_tag f # payload_append_u32_be (of_nat (length (pf_value f))) @ pf_value f) fs)"
    using l rules by (simp add: encode_control_bootstrap_payload_v1_def)
  also have "\<dots> = payload_tlvs 0 ?vs" using encoded_fields [of 0 ?vs] unfolding ok(2) [symmetric] .
  finally show ?r using rules ok unfolding tag_fields_eq by blast
next
  assume ?r
  then obtain rules vs where r: "schema_for m = Some rules" "list_all2 field_value_valid rules vs"
    "fs = tag_from 0 vs" "cross_field_values_valid m fs" "e = payload_tlvs 0 vs"
    by (auto simp: tag_fields_eq)
  have len: "length fs = length rules" using r(2,3) by (simp add: list_all2_lengthD)
  have "encode_check 0 rules fs 0 = None"
    using encode_check_None [OF len, of 0 0] schema_fits [OF r(1)] r(2,3) by simp
  then show ?l
    using r len encoded_fields [of 0 vs] by (simp add: encode_control_bootstrap_payload_v1_def)
qed

lemma parse_payload_iff:
  "parse_control_bootstrap_payload_v1 m e =
     \<lparr>pq_status = PayloadParsed, pq_field_tag = 0xFF, pq_payload = \<lparr>pp_message_type = m, pp_fields = vs\<rparr>\<rparr> \<longleftrightarrow>
   (\<exists>rules. schema_for m = Some rules \<and> list_all2 field_value_valid rules vs \<and>
      cross_field_values_valid m (tag_fields vs) \<and> e = payload_tlvs 0 vs)" (is "?l \<longleftrightarrow> ?r")
proof
  assume l: ?l
  obtain rules where r1: "schema_for m = Some rules"
    using l by (cases "schema_for m") (simp_all add: parse_control_bootstrap_payload_v1_def parse_failure_def)
  have sizes: "e \<noteq> []" "length e \<le> kMaximumAuthenticatedControlBootstrapPayloadBytes"
    using l r1 by (auto simp: parse_control_bootstrap_payload_v1_def parse_failure_def split: if_splits)
  obtain ws off where r2: "parse_fields 0 rules e 0 = Inr (ws, off)"
    using l r1 sizes parse_fields_failure [of 0 rules e 0]
    by (cases "parse_fields 0 rules e 0") (auto simp: parse_control_bootstrap_payload_v1_def)
  have r3: "off = length e" "cross_field_values_valid m (tag_fields ws)" "ws = vs"
    using l r1 r2 sizes
    by (auto simp: parse_control_bootstrap_payload_v1_def parse_failure_def split: if_splits)
  note r = r1 r2 [unfolded r3(3)] r3(1) r3(2) [unfolded r3(3)]
  have "list_all2 field_value_valid rules vs \<and> length e = length (payload_tlvs 0 vs) \<and> prefix (payload_tlvs 0 vs) e"
    using parse_fields_iff [of rules 0 e 0 vs off] schema_fits [OF r(1)] r(2,3) by (simp add: rules_fit_def)
  then show ?r using r by (auto simp: prefix_def)
next
  assume ?r
  then obtain rules where r: "schema_for m = Some rules" "list_all2 field_value_valid rules vs"
    "cross_field_values_valid m (tag_fields vs)" "e = payload_tlvs 0 vs" by blast
  have fit: "list_all (\<lambda>r. fl_maximum r \<le> 8192) rules" "rules \<noteq> []"
    "sum_list (map (\<lambda>r. 5 + fl_maximum r) rules) \<le> 65536"
    using schema_fits [OF r(1)] by (simp_all add: rules_fit_def)
  have "parse_fields 0 rules e 0 = Inr (vs, length e)"
    using parse_fields_iff [OF fit(1), of 0 e 0 vs "length e"] r(2,4) by simp
  moreover have "e \<noteq> []"
    using r(2,4) fit(2) by (cases vs) (auto simp: payload_tlv_def)
  moreover have "length e \<le> 65536" using length_payload_tlvs_le [OF r(2), of 0] fit(3) r(4) by simp
  ultimately show ?l
    using r(1,3) by (simp add: parse_control_bootstrap_payload_v1_def const_defs)
qed

lemma payload_canonical:
  "parse_control_bootstrap_payload_v1 m e =
     \<lparr>pq_status = PayloadParsed, pq_field_tag = 0xFF, pq_payload = \<lparr>pp_message_type = m, pp_fields = vs\<rparr>\<rparr> \<longleftrightarrow>
   encode_control_bootstrap_payload_v1 m (tag_fields vs) =
     \<lparr>pe_status = PayloadEncoded, pe_field_tag = 0xFF, pe_payload = e\<rparr>"
proof -
  have "tag_fields vs = tag_fields ws \<longleftrightarrow> vs = ws" for ws
    unfolding tag_fields_eq by (metis tag_from_facts(2))
  then show ?thesis unfolding parse_payload_iff encode_payload_iff by auto
qed

text \<open>
  C33. The payload codec is canonical: a byte string parses to field values for a message type exactly
  when the encoder accepts those values under consecutive tags and produces that byte string.
\<close>

theorem bootstrap_payload_canonical:
  "parse_control_bootstrap_payload_v1 m e =
     \<lparr>pq_status = PayloadParsed, pq_field_tag = 0xFF, pq_payload = \<lparr>pp_message_type = m, pp_fields = vs\<rparr>\<rparr> \<longleftrightarrow>
   encode_control_bootstrap_payload_v1 m (tag_fields vs) =
     \<lparr>pe_status = PayloadEncoded, pe_field_tag = 0xFF, pe_payload = e\<rparr>"
  by (rule payload_canonical)

section \<open>A message through payload and record\<close>

text \<open>
  C32. What a payload encoder produced for a message that may flow in a direction, the record encoder
  takes; the peer's record parser returns the message type and the payload, and its payload parser
  returns the values that were encoded.
\<close>

theorem bootstrap_message_roundtrip:
  assumes "encode_control_bootstrap_payload_v1 m fs =
      \<lparr>pe_status = PayloadEncoded, pe_field_tag = 0xFF, pe_payload = payload\<rparr>"
    and "control_bootstrap_message_allowed_v1 d m"
  shows "\<exists>e r. encode_bootstrap_record d m payload = (BootstrapEncoded, e) \<and>
    parse_bootstrap_record e d = (BootstrapParsed, r) \<and> br_message_type r = m \<and>
    parse_control_bootstrap_payload_v1 (br_message_type r) (br_payload r) =
      \<lparr>pq_status = PayloadParsed, pq_field_tag = 0xFF,
       pq_payload = \<lparr>pp_message_type = m, pp_fields = map pf_value fs\<rparr>\<rparr>"
proof -
  obtain rules vs where r: "schema_for m = Some rules" "list_all2 field_value_valid rules vs"
    "fs = tag_fields vs" "payload = payload_tlvs 0 vs"
    using assms(1) unfolding encode_payload_iff by blast
  have fit: "rules \<noteq> []" "sum_list (map (\<lambda>r. 5 + fl_maximum r) rules) \<le> 65536"
    using schema_fits [OF r(1)] by (simp_all add: rules_fit_def)
  have ne: "payload \<noteq> []" using r(2,4) fit(1) by (cases vs) (auto simp: payload_tlv_def)
  have max: "length payload \<le> 65536" using length_payload_tlvs_le [OF r(2), of 0] fit(2) r(4) by simp
  let ?r = "\<lparr>br_direction = d, br_message_type = m, br_payload = payload\<rparr>"
  have valid: "record_valid ?r" using assms(2) ne max by (simp add: record_valid_def const_defs)
  have vs: "map pf_value fs = vs" using r(3) by (simp add: tag_fields_eq)
  have "parse_control_bootstrap_payload_v1 m payload =
      \<lparr>pq_status = PayloadParsed, pq_field_tag = 0xFF, pq_payload = \<lparr>pp_message_type = m, pp_fields = vs\<rparr>\<rparr>"
    unfolding payload_canonical using assms(1) r(3) by simp
  then show ?thesis
    using encode_bootstrap_record_eq [OF valid] parse_record_bytes [OF valid] vs by force
qed

section \<open>Field grammars\<close>

subsection \<open>Versions\<close>

lemma byte_char:
  "(char_of (unat b) = CHR ''.'') = (b = (0x2e :: u8))" "(char_of (unat b) = CHR ''0'') = (b = (0x30 :: u8))"
  "within (CHR ''0'') (CHR ''9'') (char_of (unat b)) \<longleftrightarrow> \<not> (b < 0x30 \<or> b > (0x39 :: u8))"
proof -
  have b: "unat b < 256" using unsigned_less [where 'a=nat, of b] by simp
  have eq: "char_of (unat b) = c \<longleftrightarrow> unat b = of_char c" for c
    using b by (metis char_of_char of_char_of mod_less)
  show "(char_of (unat b) = CHR ''.'') = (b = 0x2e)" "(char_of (unat b) = CHR ''0'') = (b = 0x30)"
    unfolding eq word_unat_eq_iff [of b] by simp_all
  show "within (CHR ''0'') (CHR ''9'') (char_of (unat b)) \<longleftrightarrow> \<not> (b < 0x30 \<or> b > 0x39)"
    using b by (simp add: within_def word_less_nat_alt not_less)
qed

lemma payload_semver_loop_eq:
  "start \<le> i \<Longrightarrow>
   payload_semver_loop v i start n = semver_loop (map (\<lambda>b. char_of (unat b)) v) i start n"
proof (induction v i start n rule: payload_semver_loop.induct)
  case (1 v i start n)
  let ?w = "map (\<lambda>b. char_of (unat b)) v :: string"
  have at: "j < length v \<Longrightarrow> ?w ! j = char_of (unat (v ! j))" for j by simp
  show ?case
  proof (cases "i > length v")
    case True
    then show ?thesis by (subst payload_semver_loop.simps, subst semver_loop.simps) simp
  next
    case False
    show ?thesis
    proof (cases "i \<noteq> length v \<and> v ! i \<noteq> 0x2e")
      case digit: True
      then have "i < length v" using False by simp
      then show ?thesis
        using digit False 1 by (subst payload_semver_loop.simps, subst semver_loop.simps) (simp add: byte_char)
    next
      case dot: False
      then have "i < length v \<Longrightarrow> ?w ! i = CHR ''.''" using byte_char(1) [of "v ! i"] by auto
      then have dot': "\<not> (i \<noteq> length v \<and> ?w ! i \<noteq> CHR ''.'')" using False by linarith
      have zero: "start < i \<Longrightarrow> ?w ! start = CHR ''0'' \<longleftrightarrow> v ! start = 0x30"
        using False byte_char(2) [of "v ! start"] by simp
      show ?thesis
      proof (cases "i - start = 0 \<or> i - start > 1 \<and> v ! start = 0x30")
        case True
        have "\<not> payload_semver_loop v i start n"
          using True dot False by (subst payload_semver_loop.simps) (auto simp: Let_def)
        moreover have "\<not> semver_loop ?w i start n"
          using True dot' False zero by (subst semver_loop.simps) (auto simp: Let_def)
        ultimately show ?thesis by blast
      next
        case fine: False
        have "payload_semver_loop v i start n = payload_semver_loop v (i + 1) (i + 1) (n + 1)"
          using fine dot False by (subst payload_semver_loop.simps) (auto simp: Let_def)
        also have "\<dots> = semver_loop ?w (i + 1) (i + 1) (n + 1)"
          by (rule "1.IH"(2) [OF False dot refl fine]) simp
        also have "\<dots> = semver_loop ?w i start n"
          using fine dot' False zero by (subst (2) semver_loop.simps) (auto simp: Let_def)
        finally show ?thesis .
      qed
    qed
  qed
qed

text \<open>The version check of the payloads is the version check of the handshake transcript.\<close>

lemma payload_semver_eq: "payload_semver_valid v = stable_semver_valid (map (\<lambda>b. char_of (unat b)) v)"
  by (simp add: payload_semver_valid_def stable_semver_valid_def const_defs payload_semver_loop_eq)

subsection \<open>Compact JWTs\<close>

lemma dot_not_base64url: "\<not> base64url 0x2e"
  by (simp add: base64url_def byte_within_def)

lemma jwt_loop_iff:
  "dots \<le> 2 \<Longrightarrow> jwt_loop bs dots n \<longleftrightarrow>
   (\<exists>first rest. length rest = 2 - dots \<and> bs = first @ concat (map (\<lambda>s. 0x2e # s) rest) \<and>
      list_all base64url first \<and> 0 < n + length first \<and> list_all (\<lambda>s. s \<noteq> [] \<and> list_all base64url s) rest)"
proof (induction bs arbitrary: dots n)
  case Nil
  show ?case
    using Nil by (auto simp: concat_eq_Nil_conv list_all_iff)
next
  case (Cons b bs)
  show ?case
  proof (cases "b = 0x2e")
    case dot: True
    have "(\<exists>first rest. length rest = 2 - dots \<and> b # bs = first @ concat (map (\<lambda>s. 0x2e # s) rest) \<and>
        list_all base64url first \<and> 0 < n + length first \<and> list_all (\<lambda>s. s \<noteq> [] \<and> list_all base64url s) rest) \<longleftrightarrow>
      0 < n \<and> dots \<noteq> 2 \<and> (\<exists>first rest. length rest = 2 - (dots + 1) \<and>
        bs = first @ concat (map (\<lambda>s. 0x2e # s) rest) \<and> list_all base64url first \<and> 0 < length first \<and>
        list_all (\<lambda>s. s \<noteq> [] \<and> list_all base64url s) rest)" (is "?l \<longleftrightarrow> ?r")
    proof
      assume ?l
      then obtain first rest where l: "length rest = 2 - dots"
        "b # bs = first @ concat (map (\<lambda>s. 0x2e # s) rest)" "list_all base64url first"
        "0 < n + length first" "list_all (\<lambda>s. s \<noteq> [] \<and> list_all base64url s) rest" by blast
      have "first = []" using l(2,3) dot dot_not_base64url by (cases first) auto
      then obtain s rest' where "rest = s # rest'" using l(2) by (cases rest) auto
      then show ?r using l \<open>first = []\<close> by (intro conjI exI [of _ s] exI [of _ rest']) auto
    next
      assume ?r
      then obtain first rest where r: "0 < n" "dots \<noteq> 2" "length rest = 2 - (dots + 1)"
        "bs = first @ concat (map (\<lambda>s. 0x2e # s) rest)" "list_all base64url first" "0 < length first"
        "list_all (\<lambda>s. s \<noteq> [] \<and> list_all base64url s) rest" by blast
      then show ?l using dot Cons.prems by (intro exI [of _ "[]"] exI [of _ "first # rest"]) auto
    qed
    then show ?thesis using dot Cons.IH [of "dots + 1" 0] Cons.prems by auto
  next
    case False
    have "(\<exists>first rest. length rest = 2 - dots \<and> b # bs = first @ concat (map (\<lambda>s. 0x2e # s) rest) \<and>
        list_all base64url first \<and> 0 < n + length first \<and> list_all (\<lambda>s. s \<noteq> [] \<and> list_all base64url s) rest) \<longleftrightarrow>
      base64url b \<and> (\<exists>first rest. length rest = 2 - dots \<and> bs = first @ concat (map (\<lambda>s. 0x2e # s) rest) \<and>
        list_all base64url first \<and> 0 < Suc n + length first \<and>
        list_all (\<lambda>s. s \<noteq> [] \<and> list_all base64url s) rest)" (is "?l \<longleftrightarrow> ?r")
    proof
      assume ?l
      then obtain first rest where l: "length rest = 2 - dots"
        "b # bs = first @ concat (map (\<lambda>s. 0x2e # s) rest)" "list_all base64url first"
        "list_all (\<lambda>s. s \<noteq> [] \<and> list_all base64url s) rest" by blast
      then obtain first' where "first = b # first'"
        using False by (cases first; cases rest) auto
      then show ?r using l by auto
    next
      assume ?r
      then obtain first rest where "base64url b" "length rest = 2 - dots"
        "bs = first @ concat (map (\<lambda>s. 0x2e # s) rest)" "list_all base64url first"
        "list_all (\<lambda>s. s \<noteq> [] \<and> list_all base64url s) rest" by blast
      then show ?l by (intro exI [of _ "b # first"] exI [of _ rest]) auto
    qed
    then show ?thesis using False Cons.IH [of dots "Suc n"] Cons.prems by auto
  qed
qed

text \<open>
  The credential check accepts exactly the texts of at most 8192 bytes that are three non-empty
  base64url segments joined by dots.
\<close>

theorem compact_jwt_iff_grammar:
  "compact_jwt_valid v \<longleftrightarrow> length v \<le> 8192 \<and>
     (\<exists>header payload signature. list_all (\<lambda>s. s \<noteq> [] \<and> list_all base64url s) [header, payload, signature] \<and>
        v = header @ [0x2e] @ payload @ [0x2e] @ signature)"
proof -
  have "jwt_loop v 0 0 \<longleftrightarrow> (\<exists>header payload signature.
      list_all (\<lambda>s. s \<noteq> [] \<and> list_all base64url s) [header, payload, signature] \<and>
      v = header @ [0x2e] @ payload @ [0x2e] @ signature)" (is "_ \<longleftrightarrow> ?g")
  proof
    assume "jwt_loop v 0 0"
    then obtain first rest where r: "length rest = 2" "v = first @ concat (map (\<lambda>s. 0x2e # s) rest)"
      "list_all base64url first" "0 < length first" "list_all (\<lambda>s. s \<noteq> [] \<and> list_all base64url s) rest"
      using jwt_loop_iff [of 0 v 0] by auto
    then obtain a b where "rest = [a, b]" by (auto simp: numeral_2_eq_2 length_Suc_conv)
    with r show ?g by (intro exI [of _ first] exI [of _ a] exI [of _ b]) auto
  next
    assume ?g
    then obtain a b c where "list_all (\<lambda>s. s \<noteq> [] \<and> list_all base64url s) [a, b, c]"
      "v = a @ [0x2e] @ b @ [0x2e] @ c" by blast
    then show "jwt_loop v 0 0"
      unfolding jwt_loop_iff [of 0 v 0, simplified] by (intro exI [of _ a] exI [of _ "[b, c]"]) auto
  qed
  moreover have "v \<noteq> []" if ?g using that by auto
  ultimately show ?thesis by (auto simp: compact_jwt_valid_def const_defs)
qed

subsection \<open>Signatures\<close>

lemma der_integer_length: "canonical_der_integer_valid r \<Longrightarrow> r \<noteq> [] \<and> length r \<le> 33"
  by (simp add: canonical_der_integer_valid_def split: if_splits)

lemma first_two: "2 \<le> length w \<Longrightarrow> w = w ! 0 # w ! 1 # drop 2 w"
  by (cases w; cases "tl w") auto

lemma first_four:
  assumes "4 \<le> length w"
  shows "w = w ! 0 # w ! 1 # w ! 2 # w ! 3 # drop 4 w"
proof -
  have "drop 2 w = drop 2 w ! 0 # drop 2 w ! 1 # drop 2 (drop 2 w)"
    by (rule first_two) (use assms in simp)
  then show ?thesis using first_two [of w] assms by (simp add: numeral_3_eq_3 eval_nat_numeral)
qed

lemma byte_of_length: "n < 256 \<Longrightarrow> unat (of_nat n :: u8) = n"
  by (rule unat_of_nat_small) simp

lemma ecdsa_der_sequence:
  "canonical_ecdsa_der_valid v \<longleftrightarrow>
     (\<exists>r s. canonical_der_integer_valid r \<and> canonical_der_integer_valid s \<and>
        v = [0x30, of_nat (4 + length r + length s), 0x02, of_nat (length r)] @ r @
            [0x02, of_nat (length s)] @ s)" (is "_ \<longleftrightarrow> ?g")
proof
  assume valid: "canonical_ecdsa_der_valid v"
  let ?rs = "unat (v ! 3)"
  let ?w = "drop (4 + ?rs) v"
  let ?ss = "unat (v ! (4 + ?rs + 1))"
  let ?r = "take ?rs (drop 4 v)" and ?s = "take ?ss (drop (4 + ?rs + 2) v)"
  note d = valid [unfolded canonical_ecdsa_der_valid_def Let_def]
  have len: "8 \<le> length v" and outer: "v ! 0 = 0x30" "unat (v ! 1) = length v - 2" "v ! 2 = 0x02"
    and rs: "4 + ?rs + 2 \<le> length v" "canonical_der_integer_valid ?r" "v ! (4 + ?rs) = 0x02"
    and ss: "4 + ?rs + 2 + ?ss = length v" "canonical_der_integer_valid ?s"
    using d by (simp_all split: if_splits)
  have s: "?s = drop 2 ?w" using ss(1) by (simp add: add.commute add.left_commute)
  have "?w = ?w ! 0 # ?w ! 1 # drop 2 ?w" by (rule first_two) (use rs(1) in simp)
  then have w: "?w = [0x02, v ! (4 + ?rs + 1)] @ ?s"
    using rs(1,3) unfolding s by (simp add: add.commute)
  have "drop 4 v = ?r @ ?w" by (metis add.commute append_take_drop_id drop_drop)
  then have v: "v = [0x30, v ! 1, 0x02, v ! 3] @ ?r @ [0x02, v ! (4 + ?rs + 1)] @ ?s"
    using first_four [of v] len outer w by simp
  have lens: "length ?r = ?rs" "length ?s = ?ss" using rs(1) ss(1) by simp_all
  have again: "of_nat (unat b) = b" for b :: u8 by simp
  have "unat (v ! 1) = 4 + length ?r + length ?s" using outer(2) ss(1) lens by linarith
  then have bytes: "v ! 1 = of_nat (4 + length ?r + length ?s)" "v ! 3 = of_nat (length ?r)"
    "v ! (4 + ?rs + 1) = of_nat (length ?s)"
    unfolding lens using again by metis+
  have "v = [0x30, of_nat (4 + length ?r + length ?s), 0x02, of_nat (length ?r)] @ ?r @
      [0x02, of_nat (length ?s)] @ ?s"
    using v unfolding bytes [symmetric] .
  then show ?g using rs(2) ss(2) by blast
next
  assume ?g
  then obtain r s where rs: "canonical_der_integer_valid r" "canonical_der_integer_valid s"
    and v: "v = [0x30, of_nat (4 + length r + length s), 0x02, of_nat (length r)] @ r @
      [0x02, of_nat (length s)] @ s" by blast
  have len: "1 \<le> length r" "length r \<le> 33" "1 \<le> length s" "length s \<le> 33"
    using der_integer_length [OF rs(1)] der_integer_length [OF rs(2)] by (cases r; cases s; simp)+
  have total: "length v = 6 + length r + length s" unfolding v by simp
  have at: "v ! 0 = 0x30" "v ! 1 = of_nat (4 + length r + length s)" "v ! 2 = 0x02"
    "v ! 3 = of_nat (length r)" "v ! (4 + length r) = 0x02" "v ! (4 + length r + 1) = of_nat (length s)"
    unfolding v by (simp_all add: nth_append numeral_eq_Suc)
  have size: "unat (v ! 1) = length v - 2" "unat (v ! 3) = length r" "unat (v ! (4 + length r + 1)) = length s"
    unfolding at total using len by (simp_all add: byte_of_length del: of_nat_add of_nat_numeral)
  have parts: "take (length r) (drop 4 v) = r" "take (length s) (drop (4 + length r + 2) v) = s"
    unfolding v by (simp_all add: drop_Cons')
  show "canonical_ecdsa_der_valid v"
    unfolding canonical_ecdsa_der_valid_def Let_def size parts
    using rs len total at size parts der_integer_length [OF rs(1)] der_integer_length [OF rs(2)] by simp
qed

text \<open>
  The DER encoding of a positive integer (X.690, 8.3): the shortest big-endian two's complement
  form, so its base-256 digits without leading zeros, after a zero byte when the first digit would
  read as a sign.
\<close>

fun digits_256 :: "nat \<Rightarrow> bytes" where
  "digits_256 n = (if n = 0 then [] else digits_256 (n div 256) @ [of_nat n])"

declare digits_256.simps [simp del]

definition der_integer :: "nat \<Rightarrow> bytes" where
  "der_integer n = (let d = digits_256 n in if 128 \<le> unat (hd d) then 0 # d else d)"

definition big_endian :: "bytes \<Rightarrow> nat" where
  "big_endian v = foldl (\<lambda>n b. n * 256 + unat b) 0 v"

lemma big_endian_snoc: "big_endian (v @ [b]) = big_endian v * 256 + unat b"
  by (simp add: big_endian_def)

lemma big_endian_Nil [simp]: "big_endian [] = 0"
  by (simp add: big_endian_def)

lemma big_endian_Cons: "big_endian (b # v) = unat b * 256 ^ length v + big_endian v"
proof (induction v rule: rev_induct)
  case (snoc x v)
  then show ?case
    using big_endian_snoc [of "b # v" x] by (simp add: big_endian_snoc algebra_simps)
qed (simp add: big_endian_def)

lemma byte_less: "unat b < 256" for b :: u8
  using unsigned_less [of b, where ?'a = nat] by simp

lemma big_endian_less: "big_endian v < 256 ^ length v"
proof (induction v rule: rev_induct)
  case (snoc x v)
  have "unat x < 256" by (rule byte_less)
  then show ?case using snoc by (simp add: big_endian_snoc)
qed simp

lemma digits_of_big_endian:
  "hd v \<noteq> 0 \<Longrightarrow> v \<noteq> [] \<Longrightarrow> digits_256 (big_endian v) = v \<and> 0 < big_endian v"
proof (induction v rule: rev_induct)
  case (snoc x v)
  have x: "unat x < 256" by (rule byte_less)
  have ofx: "of_nat (m * 256 + unat x) = x" for m
    unfolding word_unat_eq_iff unat_of_nat using x by (simp add: take_bit_eq_mod)
  show ?case
  proof (cases "v = []")
    case True
    then have "0 < unat x" using snoc.prems by (simp add: unat_gt_0)
    then show ?thesis
      using True x ofx [of 0]
      by (simp add: big_endian_Cons digits_256.simps [of "unat x"] digits_256.simps [of 0])
  next
    case False
    then have IH: "digits_256 (big_endian v) = v" "0 < big_endian v" using snoc by simp_all
    have "(big_endian v * 256 + unat x) div 256 = big_endian v" using x by simp
    then show ?thesis
      using IH ofx [of "big_endian v"]
      by (simp add: big_endian_snoc digits_256.simps [of "big_endian v * 256 + unat x"])
  qed
qed simp

lemma digits_256_props:
  "0 < n \<Longrightarrow> digits_256 n \<noteq> [] \<and> hd (digits_256 n) \<noteq> 0 \<and> big_endian (digits_256 n) = n"
proof (induction n rule: less_induct)
  case (less n)
  let ?m = "n div 256"
  have low: "unat (of_nat n :: u8) = n mod 256" by (simp add: unat_of_nat)
  have unf: "digits_256 n = digits_256 ?m @ [of_nat n]" using less.prems by (simp add: digits_256.simps [of n])
  show ?case
  proof (cases "?m = 0")
    case True
    then have "n < 256" by simp
    then show ?thesis
      using True less.prems low unfolding unf
      by (auto simp: digits_256.simps [of 0] big_endian_Cons word_unat_eq_iff)
  next
    case False
    then have "digits_256 ?m \<noteq> [] \<and> hd (digits_256 ?m) \<noteq> 0 \<and> big_endian (digits_256 ?m) = ?m"
      using less.IH [of ?m] less.prems by simp
    then show ?thesis unfolding unf by (simp add: big_endian_snoc low)
  qed
qed

lemma sign_bit: "b AND 0x80 = 0 \<longleftrightarrow> unat b < 128" for b :: u8
proof -
  have "unat b < 256" by (rule byte_less)
  then have "unat b div 128 = (if unat b < 128 then 0 else 1)" by (auto simp: div_nat_eqI)
  moreover have "bit b 7 \<longleftrightarrow> odd (unat b div 128)"
    by (simp add: bit_iff_odd unat_div_distrib odd_iff_mod_2_eq_one word_arith_nat_div even_word_iff)
  moreover have "b AND 0x80 = 0 \<longleftrightarrow> \<not> bit b 7"
    using and_exp_eq_0_iff_not_bit [of b 7] by simp
  ultimately show ?thesis by simp
qed

lemma big_endian_bound:
  assumes "x \<noteq> 0"
  shows "big_endian (x # xs) < 2 ^ 263 \<longleftrightarrow> length xs < 32 \<or> length xs = 32 \<and> unat x < 128"
proof -
  let ?n = "length xs" and ?v = "big_endian (x # xs)"
  have x: "1 \<le> unat x" using assms by (simp add: unat_gt_0 Suc_leI)
  have split: "?v = unat x * 256 ^ ?n + big_endian xs" by (rule big_endian_Cons)
  have pow: "(2 :: nat) ^ 263 = 128 * 256 ^ 32" by simp
  consider "?n < 32" | "?n = 32" | "33 \<le> ?n" by linarith
  then show ?thesis
  proof cases
    case 1
    have "?v < 256 ^ Suc ?n" using big_endian_less [of "x # xs"] by simp
    also have "\<dots> \<le> 256 ^ 32" using 1 by (intro power_increasing) simp_all
    finally have "?v < 2 ^ 263" unfolding pow by linarith
    then show ?thesis using 1 by simp
  next
    case 2
    have "?v < 128 * 256 ^ 32 \<longleftrightarrow> unat x < 128"
    proof
      assume "?v < 128 * 256 ^ 32"
      then have "unat x * 256 ^ 32 < 128 * 256 ^ 32" unfolding split 2 by linarith
      then show "unat x < 128" by simp
    next
      assume "unat x < 128"
      then have "(unat x + 1) * 256 ^ 32 \<le> 128 * 256 ^ 32" by (intro mult_right_mono) simp_all
      moreover have "big_endian xs < 256 ^ 32" using big_endian_less [of xs] 2 by simp
      ultimately show "?v < 128 * 256 ^ 32" unfolding split 2 by (simp add: distrib_right)
    qed
    then show ?thesis using 2 unfolding pow by simp
  next
    case 3
    have "(256 :: nat) ^ 33 \<le> 256 ^ ?n" using 3 by (intro power_increasing) simp_all
    moreover have "256 ^ ?n \<le> unat x * 256 ^ ?n" using x by simp
    ultimately have "256 ^ 33 \<le> ?v" unfolding split by linarith
    moreover have "(2 :: nat) ^ 263 < 256 ^ 33" by simp
    ultimately have "\<not> ?v < 2 ^ 263" by linarith
    then show ?thesis using 3 by simp
  qed
qed

lemma canonical_der_integer_iff:
  "canonical_der_integer_valid v \<longleftrightarrow> (\<exists>n. 0 < n \<and> n < 2 ^ 263 \<and> v = der_integer n)"
proof
  assume valid: "canonical_der_integer_valid v"
  then obtain x xs where v: "v = x # xs" by (cases v) (auto simp: canonical_der_integer_valid_def)
  have len: "length xs \<le> 32" and x: "unat x < 128" and nz: "contains_nonzero v"
    and lead: "\<not> (0 < length xs \<and> x = 0 \<and> unat (xs ! 0) < 128)"
    using valid unfolding canonical_der_integer_valid_def v Let_def sign_bit by (simp_all split: if_splits)
  show "\<exists>n. 0 < n \<and> n < 2 ^ 263 \<and> v = der_integer n"
  proof (cases "x = 0")
    case False
    then show ?thesis
      using digits_of_big_endian [of v] big_endian_bound [OF False, of xs] len x
      by (intro exI [of _ "big_endian v"]) (auto simp: v der_integer_def Let_def)
  next
    case True
    then have "xs \<noteq> []" using nz v by (auto simp: contains_nonzero_def)
    then obtain y ys where xs: "xs = y # ys" by (cases xs) auto
    have y: "128 \<le> unat y" using lead True xs by (simp add: not_less)
    then have "y \<noteq> 0" by auto
    then show ?thesis
      using digits_of_big_endian [of xs] big_endian_bound [of y ys] len y True
      by (intro exI [of _ "big_endian xs"]) (auto simp: v xs der_integer_def Let_def)
  qed
next
  assume "\<exists>n. 0 < n \<and> n < 2 ^ 263 \<and> v = der_integer n"
  then obtain n where n: "0 < n" "n < 2 ^ 263" and v: "v = der_integer n" by blast
  obtain x xs where d: "digits_256 n = x # xs" and x: "x \<noteq> 0" and be: "big_endian (x # xs) = n"
    using digits_256_props [OF n(1)] by (cases "digits_256 n") auto
  have "length xs < 32 \<or> length xs = 32 \<and> unat x < 128"
    using big_endian_bound [OF x, of xs] be n(2) by simp
  then show "canonical_der_integer_valid v"
    using x by (auto simp: v der_integer_def d canonical_der_integer_valid_def sign_bit contains_nonzero_def
        Let_def)
qed

definition der_element :: "u8 \<Rightarrow> bytes \<Rightarrow> bytes" where
  "der_element tag content = [tag, of_nat (length content)] @ content"

text \<open>
  C34. The signature check accepts exactly the DER encodings of a sequence of two positive integers
  that fit 33 bytes: both in their shortest form, with a leading zero byte exactly where the sign bit
  asks for one, under short-form lengths that match, and nothing after them.
\<close>

theorem ecdsa_der_iff_grammar:
  "canonical_ecdsa_der_valid v \<longleftrightarrow>
     (\<exists>r s. 0 < r \<and> r < 2 ^ 263 \<and> 0 < s \<and> s < 2 ^ 263 \<and>
        v = der_element 0x30 (der_element 0x02 (der_integer r) @ der_element 0x02 (der_integer s)))"
proof -
  have "der_element 0x30 (der_element 0x02 x @ der_element 0x02 y) =
      [0x30, of_nat (4 + length x + length y), 0x02, of_nat (length x)] @ x @ [0x02, of_nat (length y)] @ y" for x y
    by (simp add: der_element_def)
  then show ?thesis
    unfolding ecdsa_der_sequence canonical_der_integer_iff by auto
qed

lemma hex_digits_nonzero:
  "v \<noteq> [] \<Longrightarrow> list_all (\<lambda>b. byte_within 0x30 0x39 b \<or> byte_within 0x61 0x66 b) v \<Longrightarrow> contains_nonzero v"
proof -
  have "b \<noteq> 0" if "byte_within 0x30 0x39 b \<or> byte_within 0x61 0x66 b" for b :: u8
    using that by (auto simp: byte_within_def)
  moreover assume "v \<noteq> []" "list_all (\<lambda>b. byte_within 0x30 0x39 b \<or> byte_within 0x61 0x66 b) v"
  ultimately show ?thesis by (cases v) (auto simp: contains_nonzero_def)
qed

text \<open>
  The identifier check means to exclude the all-zero identifier, as the checks of the lease gate do,
  but it looks for a byte other than 0 among ASCII digits, which are never 0: the text of
  thirty-two zeros passes.
\<close>

theorem zero_identifier_accepted: "lower_hex_identifier_valid (replicate 32 0x30)"
proof -
  have "list_all (\<lambda>b. byte_within 0x30 0x39 b \<or> byte_within 0x61 0x66 b) (replicate 32 (0x30 :: u8))"
    by (simp add: byte_within_def list_all_iff)
  with hex_digits_nonzero [of "replicate 32 0x30"] show ?thesis
    by (simp add: lower_hex_identifier_valid_def)
qed

theorem bootstrap_message_roundtrip_witness:
  "\<exists>e r. encode_bootstrap_record bd_host_to_android bm_abort [0, 0, 0, 0, 2, 1, 4] = (BootstrapEncoded, e) \<and>
    parse_bootstrap_record e bd_host_to_android = (BootstrapParsed, r) \<and> br_message_type r = bm_abort \<and>
    parse_control_bootstrap_payload_v1 (br_message_type r) (br_payload r) =
      \<lparr>pq_status = PayloadParsed, pq_field_tag = 0xFF,
       pq_payload = \<lparr>pp_message_type = bm_abort, pp_fields = [[1, 4]]\<rparr>\<rparr>"
proof -
  have "encode_control_bootstrap_payload_v1 bm_abort [\<lparr>pf_tag = 0, pf_value = [1, 4]\<rparr>] =
      \<lparr>pe_status = PayloadEncoded, pe_field_tag = 0xFF, pe_payload = [0, 0, 0, 0, 2, 1, 4]\<rparr>"
    by (simp add: encode_control_bootstrap_payload_v1_def schema_for_def bootstrap_messages rule_defs Let_def
        field_value_valid_def read_control_bootstrap_u16_be_v1_def const_defs cross_field_values_valid_def
        payload_append_u32_be_def)
  moreover have "control_bootstrap_message_allowed_v1 bd_host_to_android bm_abort"
    by (simp add: control_bootstrap_message_allowed_v1_def valid_direction_def valid_message_type_def
        bootstrap_messages)
  ultimately show ?thesis using bootstrap_message_roundtrip by fastforce
qed

end
