(* ===== verification/Receiver_Policies.thy ===== *)
theory Receiver_Policies
  imports Reassembler Annex_B
begin

text \<open>
  The policies of the Android video receiver
  (\<^verbatim>\<open>android_inference_benchmark/app/src/main/cpp\<close>): when to ask the host for a key frame
  (\<^verbatim>\<open>ReceiverRecoveryPolicy\<close>), which access units may enter the decoder
  (\<^verbatim>\<open>ReceiverReferenceSyncPolicy\<close>, \<^verbatim>\<open>ReceiverRepeatResyncPolicy\<close>), which sender is listened to
  (\<^verbatim>\<open>ReceiverSourceSession\<close>), the bounded metric history (\<^verbatim>\<open>FixedMetricRing\<close>), the drop counters,
  and the submission of a completed access unit to the decoder in
  \<^verbatim>\<open>DualMachineReceiver.cpp\<close>, which puts the two admission policies together.

  The decoder is a parameter: its answer to each submission is part of the event. Timestamps that
  only feed the diagnostics report are left out; every counter is kept. Shown: how a submission ends,
  case by case (the repeat gate never fires behind the reference gate, every access unit is accounted
  for), key-frame requests keep their back-off, drops add up, and the ring is the list of the latest
  samples. What the decoder is given over a whole run is in \<^verbatim>\<open>Receiver_Loop\<close>.
\<close>

section \<open>Asking for a key frame\<close>

definition kIncompleteStreamStallUs :: u64 where "kIncompleteStreamStallUs = 150000"
definition kSilentStreamStallUs :: u64 where "kSilentStreamStallUs = 300000"
definition kMinimumIdrRequestIntervalUs :: u64 where "kMinimumIdrRequestIntervalUs = 500000"
definition kMaximumIdrRequestIntervalUs :: u64 where "kMaximumIdrRequestIntervalUs = 5000000"
definition kMaximumConsecutiveIdleIdrRequests :: u32 where "kMaximumConsecutiveIdleIdrRequests = 4"

lemmas receiver_consts [const_defs] =
  kIncompleteStreamStallUs_def kSilentStreamStallUs_def kMinimumIdrRequestIntervalUs_def
  kMaximumIdrRequestIntervalUs_def kMaximumConsecutiveIdleIdrRequests_def

record recovery_policy =
  rp_first_fragment_us :: u64
  rp_last_fragment_us :: u64
  rp_last_completed_us :: u64
  rp_last_idr_request_us :: u64
  rp_consecutive_idr_requests :: u32
  rp_consecutive_idle_idr_requests :: u32

definition reset_recovery_policy :: recovery_policy where
  "reset_recovery_policy =
     \<lparr>rp_first_fragment_us = 0, rp_last_fragment_us = 0, rp_last_completed_us = 0,
      rp_last_idr_request_us = 0, rp_consecutive_idr_requests = 0, rp_consecutive_idle_idr_requests = 0\<rparr>"

definition idr_request_interval :: "recovery_policy \<Rightarrow> u64" where
  "idr_request_interval p =
     (let shift = (if rp_consecutive_idr_requests p = 0 then 0 else min (rp_consecutive_idr_requests p - 1) 4)
      in min (push_bit (unat shift) kMinimumIdrRequestIntervalUs) kMaximumIdrRequestIntervalUs)"

definition request_due :: "u64 \<Rightarrow> recovery_policy \<Rightarrow> bool" where
  "request_due now p \<longleftrightarrow>
     rp_last_idr_request_us p = 0 \<or>
     rp_last_idr_request_us p \<le> now \<and> idr_request_interval p \<le> now - rp_last_idr_request_us p"

definition observe_fragment ::
  "u64 \<Rightarrow> bool \<Rightarrow> bool \<Rightarrow> bool \<Rightarrow> recovery_policy \<Rightarrow> bool \<times> recovery_policy" where
  "observe_fragment now fresh_content_accepted source_changed reassembly_expired p =
     (let p = p\<lparr>rp_consecutive_idle_idr_requests := 0\<rparr>;
          p = (if rp_first_fragment_us p = 0 then p\<lparr>rp_first_fragment_us := now\<rparr> else p);
          p = p\<lparr>rp_last_fragment_us := now\<rparr>;
          p = (if fresh_content_accepted
               then p\<lparr>rp_last_completed_us := now, rp_last_idr_request_us := 0,
                      rp_consecutive_idr_requests := 0\<rparr> else p);
          progress_reference = (if rp_last_completed_us p = 0 then rp_first_fragment_us p
                                else rp_last_completed_us p);
          stalled = (progress_reference \<le> now \<and> kIncompleteStreamStallUs \<le> now - progress_reference)
      in ((source_changed \<or> reassembly_expired \<or> stalled) \<and> request_due now p, p))"

definition observe_idle :: "u64 \<Rightarrow> bool \<Rightarrow> recovery_policy \<Rightarrow> bool" where
  "observe_idle now sender_known p =
     (if \<not> sender_known \<or> rp_last_fragment_us p = 0 \<or> now < rp_last_fragment_us p \<or>
         kMaximumConsecutiveIdleIdrRequests \<le> rp_consecutive_idle_idr_requests p
      then False
      else kSilentStreamStallUs \<le> now - rp_last_fragment_us p \<and> request_due now p)"

definition mark_idr_requested :: "u64 \<Rightarrow> recovery_policy \<Rightarrow> recovery_policy" where
  "mark_idr_requested now p = p\<lparr>rp_last_idr_request_us := now,
     rp_consecutive_idr_requests := rp_consecutive_idr_requests p + 1\<rparr>"

definition mark_idle_idr_requested :: "u64 \<Rightarrow> recovery_policy \<Rightarrow> recovery_policy" where
  "mark_idle_idr_requested now p =
     (let p = mark_idr_requested now p in
      p\<lparr>rp_consecutive_idle_idr_requests := rp_consecutive_idle_idr_requests p + 1\<rparr>)"

section \<open>Admission to the decoder\<close>

datatype reference_decision = ReferenceAdmit | RejectAwaitingIdr | RejectSequenceGap

record reference_sync =
  rs_awaiting_idr :: bool
  rs_last_accepted_sequence :: "u32 option"

definition require_idr :: "reference_sync \<Rightarrow> reference_sync" where
  "require_idr p = p\<lparr>rs_awaiting_idr := True, rs_last_accepted_sequence := None\<rparr>"

definition initial_reference_sync :: reference_sync where
  "initial_reference_sync = \<lparr>rs_awaiting_idr = True, rs_last_accepted_sequence = None\<rparr>"

definition evaluate_reference :: "u32 \<Rightarrow> bool \<Rightarrow> reference_sync \<Rightarrow> reference_decision" where
  "evaluate_reference logical_frame_sequence is_idr p =
     (if is_idr then ReferenceAdmit
      else if rs_awaiting_idr p then RejectAwaitingIdr
      else case rs_last_accepted_sequence p of
          None \<Rightarrow> RejectSequenceGap
        | Some s \<Rightarrow>
            if advance_video_frame_sequence s = Some logical_frame_sequence then ReferenceAdmit
            else RejectSequenceGap)"

definition record_submit :: "u32 \<Rightarrow> bool \<Rightarrow> reference_sync \<Rightarrow> reference_sync" where
  "record_submit logical_frame_sequence accepted p =
     (if \<not> accepted then require_idr p
      else p\<lparr>rs_awaiting_idr := False, rs_last_accepted_sequence := Some logical_frame_sequence\<rparr>)"

record repeat_admission =
  ra_submit :: bool
  ra_content_updated :: bool
  ra_resync_unlock :: bool

record repeat_resync =
  rr_real_frame_accepted :: bool

definition admit_repeat :: "bool \<Rightarrow> repeat_resync \<Rightarrow> repeat_admission" where
  "admit_repeat repeated p =
     (if repeated \<and> \<not> rr_real_frame_accepted p
      then \<lparr>ra_submit = False, ra_content_updated = False, ra_resync_unlock = False\<rparr>
      else \<lparr>ra_submit = True, ra_content_updated = (\<not> repeated),
            ra_resync_unlock = (\<not> repeated \<and> \<not> rr_real_frame_accepted p)\<rparr>)"

definition record_submit_result :: "bool \<Rightarrow> bool \<Rightarrow> repeat_resync \<Rightarrow> repeat_resync" where
  "record_submit_result repeated accepted p =
     (if \<not> accepted then p\<lparr>rr_real_frame_accepted := False\<rparr>
      else if \<not> repeated then p\<lparr>rr_real_frame_accepted := True\<rparr> else p)"

definition require_resync :: "repeat_resync \<Rightarrow> repeat_resync" where
  "require_resync p = p\<lparr>rr_real_frame_accepted := False\<rparr>"

section \<open>The sender\<close>

datatype source_decision = SourceAccept | RestartSourcePort | RejectForeign

definition kSourcePortRestartSilenceUs :: u64 where "kSourcePortRestartSilenceUs = 300000"

record source_session =
  ss_expected_ipv4 :: u32
  ss_ipv4 :: u32
  ss_port :: u16
  ss_last_accepted_us :: u64
  ss_active :: bool

definition reset_source_session :: "u32 \<Rightarrow> source_session" where
  "reset_source_session expected =
     \<lparr>ss_expected_ipv4 = expected, ss_ipv4 = 0, ss_port = 0, ss_last_accepted_us = 0, ss_active = False\<rparr>"

definition observe_source ::
  "u32 \<Rightarrow> u16 \<Rightarrow> u64 \<Rightarrow> source_session \<Rightarrow> source_decision \<times> source_session" where
  "observe_source ipv4 port now s =
     (if ss_expected_ipv4 s = 0 \<or> ipv4 \<noteq> ss_expected_ipv4 s then (RejectForeign, s)
      else if \<not> ss_active s
      then (SourceAccept, s\<lparr>ss_ipv4 := ipv4, ss_port := port, ss_last_accepted_us := now, ss_active := True\<rparr>)
      else if ipv4 = ss_ipv4 s \<and> port = ss_port s
      then (SourceAccept, s\<lparr>ss_last_accepted_us := now\<rparr>)
      else if ss_last_accepted_us s \<le> now \<and>
              kSourcePortRestartSilenceUs \<le> now - ss_last_accepted_us s \<and> ipv4 = ss_ipv4 s
      then (RestartSourcePort, s\<lparr>ss_port := port, ss_last_accepted_us := now\<rparr>)
      else (RejectForeign, s))"

definition receive_timeout_us :: "u64 \<Rightarrow> u64" where
  "receive_timeout_us idle =
     (if idle < 1000000 then 100000 else if idle < 5000000 then 500000
      else if idle < 15000000 then 1000000 else 5000000)"

section \<open>The metric ring\<close>

text \<open>The capacity is the length of the array, a positive constant of the instance.\<close>

record 'a metric_ring =
  mr_values :: "'a list"
  mr_head :: nat
  mr_size :: nat

definition ring_push :: "'a \<Rightarrow> 'a metric_ring \<Rightarrow> bool \<times> 'a metric_ring" where
  "ring_push v r =
     (let capacity = length (mr_values r);
          dropped = (mr_size r = capacity);
          r = (if dropped then r\<lparr>mr_head := (mr_head r + 1) mod capacity, mr_size := mr_size r - 1\<rparr> else r);
          r = r\<lparr>mr_values := (mr_values r)[(mr_head r + mr_size r) mod capacity := v]\<rparr>
      in (dropped, r\<lparr>mr_size := mr_size r + 1\<rparr>))"

definition ring_clear :: "'a metric_ring \<Rightarrow> 'a metric_ring" where
  "ring_clear r = r\<lparr>mr_head := 0, mr_size := 0\<rparr>"

definition oldest_at :: "nat \<Rightarrow> 'a metric_ring \<Rightarrow> 'a" where
  "oldest_at index r = mr_values r ! ((mr_head r + index) mod length (mr_values r))"

section \<open>Counting drops\<close>

datatype offer_result =
    OfferAccepted | OfferInvalid | OfferNotRunning | OfferQueueCapacity | OfferRestarting
  | OfferReferenceRecovery | OfferBridgeFailure | OfferOther

record drop_metrics =
  dm_no_input_buffer :: u64
  dm_stale_before_codec :: u64
  dm_queue_capacity :: u64
  dm_buffer_capacity :: u64
  dm_codec_exception :: u64
  dm_state_exception :: u64
  dm_restart :: u64
  dm_reference_recovery :: u64
  dm_not_running :: u64
  dm_invalid :: u64
  dm_bridge_failure :: u64
  dm_fatal_flush :: u64
  dm_recovery_flush :: u64
  dm_stop_flush :: u64
  dm_other :: u64

definition reset_drop_metrics :: drop_metrics where
  "reset_drop_metrics =
     \<lparr>dm_no_input_buffer = 0, dm_stale_before_codec = 0, dm_queue_capacity = 0, dm_buffer_capacity = 0,
      dm_codec_exception = 0, dm_state_exception = 0, dm_restart = 0, dm_reference_recovery = 0,
      dm_not_running = 0, dm_invalid = 0, dm_bridge_failure = 0, dm_fatal_flush = 0,
      dm_recovery_flush = 0, dm_stop_flush = 0, dm_other = 0\<rparr>"

fun record_offer :: "offer_result \<Rightarrow> drop_metrics \<Rightarrow> drop_metrics" where
  "record_offer OfferAccepted m = m"
| "record_offer OfferInvalid m = m\<lparr>dm_invalid := dm_invalid m + 1\<rparr>"
| "record_offer OfferNotRunning m = m\<lparr>dm_not_running := dm_not_running m + 1\<rparr>"
| "record_offer OfferQueueCapacity m = m\<lparr>dm_queue_capacity := dm_queue_capacity m + 1\<rparr>"
| "record_offer OfferRestarting m = m\<lparr>dm_restart := dm_restart m + 1\<rparr>"
| "record_offer OfferReferenceRecovery m = m\<lparr>dm_reference_recovery := dm_reference_recovery m + 1\<rparr>"
| "record_offer OfferBridgeFailure m = m\<lparr>dm_bridge_failure := dm_bridge_failure m + 1\<rparr>"
| "record_offer OfferOther m = m\<lparr>dm_other := dm_other m + 1\<rparr>"

definition record_async :: "string \<Rightarrow> drop_metrics \<Rightarrow> drop_metrics" where
  "record_async reason m =
     (if reason = ''input_no_buffer_stall'' then m\<lparr>dm_no_input_buffer := dm_no_input_buffer m + 1\<rparr>
      else if reason = ''input_stale_before_codec''
      then m\<lparr>dm_stale_before_codec := dm_stale_before_codec m + 1\<rparr>
      else if reason = ''input_buffer_capacity'' then m\<lparr>dm_buffer_capacity := dm_buffer_capacity m + 1\<rparr>
      else if reason = ''input_codec_exception'' then m\<lparr>dm_codec_exception := dm_codec_exception m + 1\<rparr>
      else if reason = ''input_state_exception'' then m\<lparr>dm_state_exception := dm_state_exception m + 1\<rparr>
      else if reason = ''input_fatal_flush'' then m\<lparr>dm_fatal_flush := dm_fatal_flush m + 1\<rparr>
      else if reason = ''input_restart_flush'' then m\<lparr>dm_restart := dm_restart m + 1\<rparr>
      else if reason = ''input_recovery_flush'' then m\<lparr>dm_recovery_flush := dm_recovery_flush m + 1\<rparr>
      else if reason = ''input_stop_flush'' then m\<lparr>dm_stop_flush := dm_stop_flush m + 1\<rparr>
      else m\<lparr>dm_other := dm_other m + 1\<rparr>)"

definition drop_total :: "drop_metrics \<Rightarrow> u64" where
  "drop_total m =
     dm_no_input_buffer m + dm_stale_before_codec m + dm_queue_capacity m + dm_buffer_capacity m +
     dm_codec_exception m + dm_state_exception m + dm_restart m + dm_reference_recovery m +
     dm_not_running m + dm_invalid m + dm_bridge_failure m + dm_fatal_flush m + dm_recovery_flush m +
     dm_stop_flush m + dm_other m"

section \<open>Submitting an access unit\<close>

record receiver_metrics =
  rm_reassembled_access_units :: u64
  rm_decoder_accepted_access_units :: u64
  rm_completed_access_units :: u64
  rm_fresh_content_access_units :: u64
  rm_non_actionable_completed_access_units :: u64
  rm_repeated_content_access_units :: u64
  rm_resync_rejected_repeats :: u64
  rm_resync_actionable_acceptances :: u64
  rm_dropped_access_units :: u64
  rm_idr_requests :: u64
  rm_reference_resync_drops :: u64
  rm_sequence_gap_resyncs :: u64
  rm_monotonic_pts_adjustments :: u64
  rm_source_restart_failures :: u64
  rm_recovery_idr_requests :: u64

definition reset_receiver_metrics :: receiver_metrics where
  "reset_receiver_metrics =
     \<lparr>rm_reassembled_access_units = 0, rm_decoder_accepted_access_units = 0, rm_completed_access_units = 0,
      rm_fresh_content_access_units = 0, rm_non_actionable_completed_access_units = 0,
      rm_repeated_content_access_units = 0, rm_resync_rejected_repeats = 0,
      rm_resync_actionable_acceptances = 0, rm_dropped_access_units = 0, rm_idr_requests = 0,
      rm_reference_resync_drops = 0, rm_sequence_gap_resyncs = 0, rm_monotonic_pts_adjustments = 0,
      rm_source_restart_failures = 0, rm_recovery_idr_requests = 0\<rparr>"

record receiver =
  rv_metrics :: receiver_metrics
  rv_recovery :: recovery_policy
  rv_repeat :: repeat_resync
  rv_reference :: reference_sync
  rv_last_presentation_time_us :: u64
  rv_next_control_sequence :: u64

definition start_receiver :: receiver where
  "start_receiver =
     \<lparr>rv_metrics = reset_receiver_metrics, rv_recovery = reset_recovery_policy,
      rv_repeat = \<lparr>rr_real_frame_accepted = False\<rparr>, rv_reference = initial_reference_sync,
      rv_last_presentation_time_us = 0, rv_next_control_sequence = 1\<rparr>"

text \<open>What the decoder answers to a submission, and what it was given.\<close>

record decoder_answer =
  da_accepted :: bool
  da_restart_timed_out :: bool
  da_fatal :: bool

record decoder_input =
  di_unit :: completed_access_unit
  di_presentation_time_us :: u64
  di_control_sequence :: u64
  di_content_updated :: bool

record completed_submission =
  sub_accepted :: bool
  sub_content_updated :: bool
  sub_fatal :: bool

abbreviation not_submitted :: completed_submission where
  "not_submitted \<equiv> \<lparr>sub_accepted = False, sub_content_updated = False, sub_fatal = False\<rparr>"

definition require_reference_sync :: "receiver \<Rightarrow> receiver" where
  "require_reference_sync v = v\<lparr>rv_reference := require_idr (rv_reference v),
     rv_repeat := require_resync (rv_repeat v)\<rparr>"

definition next_presentation_time_us :: "u64 \<Rightarrow> receiver \<Rightarrow> u64 \<times> receiver" where
  "next_presentation_time_us now v =
     (let (now, v) =
        (if now \<le> rv_last_presentation_time_us v
         then (rv_last_presentation_time_us v + 1,
               v\<lparr>rv_metrics := (rv_metrics v)
                 \<lparr>rm_monotonic_pts_adjustments := rm_monotonic_pts_adjustments (rv_metrics v) + 1\<rparr>\<rparr>)
         else (now, v))
      in (now, v\<lparr>rv_last_presentation_time_us := now\<rparr>))"

definition count_dropped :: "receiver_metrics \<Rightarrow> receiver_metrics" where
  "count_dropped m = m\<lparr>rm_dropped_access_units := rm_dropped_access_units m + 1\<rparr>"

definition submit_completed_access_unit ::
  "completed_access_unit \<Rightarrow> u64 \<Rightarrow> decoder_answer \<Rightarrow> receiver \<Rightarrow>
     completed_submission \<times> decoder_input option \<times> receiver" where
  "submit_completed_access_unit completed now answer v =
     (let m = rv_metrics v;
          m = m\<lparr>rm_reassembled_access_units := rm_reassembled_access_units m + 1\<rparr>;
          repeated = completed_repeated completed;
          logical_frame_id = frame_sequence (completed_identity completed);
          m = (if repeated
               then m\<lparr>rm_repeated_content_access_units := rm_repeated_content_access_units m + 1\<rparr> else m);
          sync_frame = h264_access_unit_contains_idr (completed_bytes completed);
          decision = evaluate_reference logical_frame_id sync_frame (rv_reference v) in
      if decision \<noteq> ReferenceAdmit then
        let m = (if decision = RejectSequenceGap
                 then m\<lparr>rm_sequence_gap_resyncs := rm_sequence_gap_resyncs m + 1\<rparr>
                 else m\<lparr>rm_reference_resync_drops := rm_reference_resync_drops m + 1\<rparr>)
        in (not_submitted, None, require_reference_sync (v\<lparr>rv_metrics := count_dropped m\<rparr>))
      else
        let repeated_for_admission = (repeated \<and> \<not> sync_frame);
            admission = admit_repeat repeated_for_admission (rv_repeat v) in
        if \<not> ra_submit admission then
          (not_submitted, None, v\<lparr>rv_metrics := count_dropped
             (m\<lparr>rm_resync_rejected_repeats := rm_resync_rejected_repeats m + 1\<rparr>)\<rparr>)
        else
          let (pts, v) = next_presentation_time_us now (v\<lparr>rv_metrics := m\<rparr>);
              input = \<lparr>di_unit = completed, di_presentation_time_us = pts,
                       di_control_sequence = rv_next_control_sequence v,
                       di_content_updated = ra_content_updated admission\<rparr>;
              accepted = da_accepted answer;
              v = v\<lparr>rv_next_control_sequence := rv_next_control_sequence v + 1,
                    rv_repeat := record_submit_result repeated_for_admission accepted (rv_repeat v),
                    rv_reference := record_submit logical_frame_id accepted (rv_reference v)\<rparr>;
              m = rv_metrics v in
          if \<not> accepted then
            let v = require_reference_sync (v\<lparr>rv_metrics := count_dropped m\<rparr>);
                m = rv_metrics v;
                v = (if da_restart_timed_out answer
                     then v\<lparr>rv_metrics := m\<lparr>rm_source_restart_failures :=
                            rm_source_restart_failures m + 1\<rparr>\<rparr> else v)
            in (\<lparr>sub_accepted = False, sub_content_updated = False,
                 sub_fatal = (da_fatal answer \<or> da_restart_timed_out answer)\<rparr>, Some input, v)
          else
            let m = m\<lparr>rm_decoder_accepted_access_units := rm_decoder_accepted_access_units m + 1,
                      rm_completed_access_units := rm_completed_access_units m + 1\<rparr>;
                m = (if ra_content_updated admission
                     then m\<lparr>rm_fresh_content_access_units := rm_fresh_content_access_units m + 1\<rparr>
                     else m\<lparr>rm_non_actionable_completed_access_units :=
                              rm_non_actionable_completed_access_units m + 1\<rparr>);
                m = (if ra_resync_unlock admission
                     then m\<lparr>rm_resync_actionable_acceptances := rm_resync_actionable_acceptances m + 1\<rparr>
                     else m)
            in (\<lparr>sub_accepted = True, sub_content_updated = ra_content_updated admission,
                 sub_fatal = False\<rparr>, Some input, v\<lparr>rv_metrics := m\<rparr>))"

text \<open>
  \<^verbatim>\<open>request_idr\<close>: the socket is usable when it is open and the destination is known, and
  \<open>sent\<close> says whether the whole datagram went out.
\<close>

definition receiver_request_idr ::
  "bool \<Rightarrow> bool \<Rightarrow> u64 \<Rightarrow> bool \<Rightarrow> bool \<Rightarrow> bool \<Rightarrow> receiver \<Rightarrow> bool \<times> receiver" where
  "receiver_request_idr usable sent now recovery_request idle_request invalidate_active_reference v =
     (let v = (if invalidate_active_reference then require_reference_sync v else v) in
      if \<not> usable then (False, v)
      else if sent then
        let m = rv_metrics v;
            m = m\<lparr>rm_idr_requests := rm_idr_requests m + 1\<rparr>;
            m = (if recovery_request
                 then m\<lparr>rm_recovery_idr_requests := rm_recovery_idr_requests m + 1\<rparr> else m)
        in (True, v\<lparr>rv_metrics := m, rv_recovery :=
              (if idle_request then mark_idle_idr_requested now (rv_recovery v)
               else mark_idr_requested now (rv_recovery v))\<rparr>)
      else (False, v))"


section \<open>The admission invariant\<close>

definition input_sequence :: "decoder_input \<Rightarrow> u32" where
  "input_sequence i = frame_sequence (completed_identity (di_unit i))"

definition input_is_idr :: "decoder_input \<Rightarrow> bool" where
  "input_is_idr i = h264_access_unit_contains_idr (completed_bytes (di_unit i))"

text \<open>The two policies agree: a unit to continue from is there exactly when no key frame is awaited,
  and then a real frame has been accepted.\<close>

definition admission_ok :: "receiver \<Rightarrow> bool" where
  "admission_ok v \<longleftrightarrow>
     (rs_awaiting_idr (rv_reference v) \<longleftrightarrow> rs_last_accepted_sequence (rv_reference v) = None) \<and>
     (rs_last_accepted_sequence (rv_reference v) \<noteq> None \<longrightarrow> rr_real_frame_accepted (rv_repeat v))"

lemma require_reference_sync_simps [simp]:
  "rs_last_accepted_sequence (rv_reference (require_reference_sync v)) = None"
  "rs_awaiting_idr (rv_reference (require_reference_sync v))"
  "rv_metrics (require_reference_sync v) = rv_metrics v"
  "rv_last_presentation_time_us (require_reference_sync v) = rv_last_presentation_time_us v"
  "rv_next_control_sequence (require_reference_sync v) = rv_next_control_sequence v"
  "admission_ok (require_reference_sync v)"
  by (simp_all add: require_reference_sync_def require_idr_def admission_ok_def)

lemma next_presentation_time_simps:
  assumes "next_presentation_time_us now v = (pts, v')"
  shows "rv_reference v' = rv_reference v" "rv_repeat v' = rv_repeat v"
    "rv_next_control_sequence v' = rv_next_control_sequence v" "rv_last_presentation_time_us v' = pts"
    "rm_dropped_access_units (rv_metrics v') = rm_dropped_access_units (rv_metrics v)"
    "rm_reassembled_access_units (rv_metrics v') = rm_reassembled_access_units (rv_metrics v)"
    "rm_decoder_accepted_access_units (rv_metrics v') = rm_decoder_accepted_access_units (rv_metrics v)"
    "rm_resync_rejected_repeats (rv_metrics v') = rm_resync_rejected_repeats (rv_metrics v)"
    "rm_sequence_gap_resyncs (rv_metrics v') = rm_sequence_gap_resyncs (rv_metrics v)"
    "rm_reference_resync_drops (rv_metrics v') = rm_reference_resync_drops (rv_metrics v)"
    "pts = (if now \<le> rv_last_presentation_time_us v then rv_last_presentation_time_us v + 1 else now)"
  using assms by (auto simp: next_presentation_time_us_def Let_def split: if_splits)

text \<open>
  The submission, by cases: refused by the reference gate, refused by the decoder, or accepted. The
  repeat gate never refuses what the reference gate admitted.
\<close>

lemma submit_cases:
  assumes "submit_completed_access_unit completed now answer v = (r, input, v')" and "admission_ok v"
  obtains (gate) "input = None" "\<not> sub_accepted r" "admission_ok v'"
      "\<not> h264_access_unit_contains_idr (completed_bytes completed)"
      "rs_last_accepted_sequence (rv_reference v') = None"
      "rv_last_presentation_time_us v' = rv_last_presentation_time_us v"
      "rv_next_control_sequence v' = rv_next_control_sequence v"
      "rm_reassembled_access_units (rv_metrics v') = rm_reassembled_access_units (rv_metrics v) + 1"
      "rm_dropped_access_units (rv_metrics v') = rm_dropped_access_units (rv_metrics v) + 1"
      "rm_decoder_accepted_access_units (rv_metrics v') = rm_decoder_accepted_access_units (rv_metrics v)"
      "rm_resync_rejected_repeats (rv_metrics v') = rm_resync_rejected_repeats (rv_metrics v)"
  | (decoder) i where "input = Some i" "sub_accepted r = da_accepted answer" "admission_ok v'" "di_unit i = completed"
      "di_control_sequence i = rv_next_control_sequence v"
      "rv_next_control_sequence v' = rv_next_control_sequence v + 1"
      "di_presentation_time_us i = (if now \<le> rv_last_presentation_time_us v
         then rv_last_presentation_time_us v + 1 else now)"
      "rv_last_presentation_time_us v' = di_presentation_time_us i"
      "input_is_idr i \<or> (\<exists>s. rs_last_accepted_sequence (rv_reference v) = Some s \<and>
         advance_video_frame_sequence s = Some (input_sequence i))"
      "rs_last_accepted_sequence (rv_reference v') = (if da_accepted answer then Some (input_sequence i) else None)"
      "rm_reassembled_access_units (rv_metrics v') = rm_reassembled_access_units (rv_metrics v) + 1"
      "rm_dropped_access_units (rv_metrics v') =
         rm_dropped_access_units (rv_metrics v) + (if da_accepted answer then 0 else 1)"
      "rm_decoder_accepted_access_units (rv_metrics v') =
         rm_decoder_accepted_access_units (rv_metrics v) + (if da_accepted answer then 1 else 0)"
      "rm_resync_rejected_repeats (rv_metrics v') = rm_resync_rejected_repeats (rv_metrics v)"
proof -
  define m where "m = (let m = (rv_metrics v)\<lparr>rm_reassembled_access_units := rm_reassembled_access_units (rv_metrics v) + 1\<rparr>
     in if completed_repeated completed
        then m\<lparr>rm_repeated_content_access_units := rm_repeated_content_access_units m + 1\<rparr> else m)"
  have m: "rm_reassembled_access_units m = rm_reassembled_access_units (rv_metrics v) + 1"
    "rm_dropped_access_units m = rm_dropped_access_units (rv_metrics v)"
    "rm_decoder_accepted_access_units m = rm_decoder_accepted_access_units (rv_metrics v)"
    "rm_resync_rejected_repeats m = rm_resync_rejected_repeats (rv_metrics v)"
    by (simp_all add: m_def Let_def)
  let ?idr = "h264_access_unit_contains_idr (completed_bytes completed)"
  let ?seq = "frame_sequence (completed_identity completed)"
  let ?dec = "evaluate_reference ?seq ?idr (rv_reference v)"
  let ?rep = "completed_repeated completed \<and> \<not> ?idr"
  show thesis
  proof (cases "?dec = ReferenceAdmit")
    case False
    define m' where "m' = count_dropped (if ?dec = RejectSequenceGap
        then m\<lparr>rm_sequence_gap_resyncs := rm_sequence_gap_resyncs m + 1\<rparr>
        else m\<lparr>rm_reference_resync_drops := rm_reference_resync_drops m + 1\<rparr>)"
    have "(r, input, v') = (not_submitted, None, require_reference_sync (v\<lparr>rv_metrics := m'\<rparr>))"
      using assms(1) False unfolding submit_completed_access_unit_def m'_def m_def Let_def by simp
    moreover have "\<not> ?idr" using False by (auto simp: evaluate_reference_def)
    ultimately show thesis by (intro gate) (simp_all add: m'_def count_dropped_def m)
  next
    case True
    then have chain: "?idr \<or> (\<exists>s. rs_last_accepted_sequence (rv_reference v) = Some s \<and>
        advance_video_frame_sequence s = Some ?seq)"
      by (auto simp: evaluate_reference_def split: if_splits option.splits)
    then have submit: "ra_submit (admit_repeat ?rep (rv_repeat v))"
      using assms(2) by (auto simp: admit_repeat_def admission_ok_def)
    have real: "\<not> ?rep \<or> rr_real_frame_accepted (rv_repeat v)"
      using chain assms(2) by (auto simp: admission_ok_def)
    obtain pts w where np: "next_presentation_time_us now (v\<lparr>rv_metrics := m\<rparr>) = (pts, w)" by fastforce
    note w = next_presentation_time_simps [OF np]
    let ?upd = "ra_content_updated (admit_repeat ?rep (rv_repeat v))"
    define i where "i = \<lparr>di_unit = completed, di_presentation_time_us = pts,
        di_control_sequence = rv_next_control_sequence w, di_content_updated = ?upd\<rparr>"
    define x where "x = w\<lparr>rv_next_control_sequence := rv_next_control_sequence w + 1,
        rv_repeat := record_submit_result ?rep (da_accepted answer) (rv_repeat w),
        rv_reference := record_submit ?seq (da_accepted answer) (rv_reference w)\<rparr>"
    have i: "di_unit i = completed" "di_control_sequence i = rv_next_control_sequence v"
      "di_presentation_time_us i = pts" "input_sequence i = ?seq" "input_is_idr i = ?idr"
      by (simp_all add: i_def w input_sequence_def input_is_idr_def)
    show thesis
    proof (cases "da_accepted answer")
      case acc: False
      define y where "y = require_reference_sync (x\<lparr>rv_metrics := count_dropped (rv_metrics x)\<rparr>)"
      define z where "z = (if da_restart_timed_out answer then y\<lparr>rv_metrics := (rv_metrics y)
          \<lparr>rm_source_restart_failures := rm_source_restart_failures (rv_metrics y) + 1\<rparr>\<rparr> else y)"
      have "input = Some i \<and> v' = z \<and> \<not> sub_accepted r"
        using assms(1) True submit acc np
        unfolding submit_completed_access_unit_def z_def y_def x_def i_def m_def Let_def by auto
      moreover have "admission_ok z"
        unfolding z_def y_def by (simp add: admission_ok_def)
      ultimately show thesis
        using chain acc by (intro decoder [of i]) (simp_all add: z_def y_def x_def i w m count_dropped_def)
    next
      case acc: True
      let ?n = "rv_metrics x"
      define n1 where "n1 = ?n\<lparr>rm_decoder_accepted_access_units := rm_decoder_accepted_access_units ?n + 1,
          rm_completed_access_units := rm_completed_access_units ?n + 1\<rparr>"
      define n2 where "n2 = (if ?upd then n1\<lparr>rm_fresh_content_access_units := rm_fresh_content_access_units n1 + 1\<rparr>
          else n1\<lparr>rm_non_actionable_completed_access_units := rm_non_actionable_completed_access_units n1 + 1\<rparr>)"
      define n3 where "n3 = (if ra_resync_unlock (admit_repeat ?rep (rv_repeat v))
          then n2\<lparr>rm_resync_actionable_acceptances := rm_resync_actionable_acceptances n2 + 1\<rparr> else n2)"
      have "input = Some i \<and> v' = x\<lparr>rv_metrics := n3\<rparr> \<and> sub_accepted r"
        using assms(1) True submit acc np
        unfolding submit_completed_access_unit_def n3_def n2_def n1_def x_def i_def m_def Let_def by auto
      moreover have "admission_ok (x\<lparr>rv_metrics := n3\<rparr>)"
        using acc real by (auto simp: x_def admission_ok_def record_submit_def record_submit_result_def w)
      ultimately show thesis
        using chain acc by (intro decoder [of i])
          (simp_all add: n3_def n2_def n1_def x_def i w m record_submit_def)
    qed
  qed
qed

lemma start_receiver_ok: "admission_ok start_receiver"
  by (simp add: admission_ok_def start_receiver_def initial_reference_sync_def)

section \<open>Drop counters\<close>

text \<open>Every recorded drop adds one to the total, whatever its reason; an accepted offer adds nothing.\<close>

lemma drop_total_exact:
  "drop_total (record_offer r m) = drop_total m + (if r = OfferAccepted then 0 else 1)"
  "drop_total (record_async reason m) = drop_total m + 1"
  by (cases r; simp add: drop_total_def algebra_simps)
     (simp add: record_async_def drop_total_def algebra_simps)

section \<open>The ring\<close>

text \<open>What the ring holds, oldest first.\<close>

definition ring_contents :: "'a metric_ring \<Rightarrow> 'a list" where
  "ring_contents r = map (\<lambda>k. oldest_at k r) [0..<mr_size r]"

definition ring_ok :: "'a metric_ring \<Rightarrow> bool" where
  "ring_ok r \<longleftrightarrow> mr_values r \<noteq> [] \<and> mr_head r < length (mr_values r) \<and> mr_size r \<le> length (mr_values r)"

definition make_ring :: "nat \<Rightarrow> 'a \<Rightarrow> 'a metric_ring" where
  "make_ring capacity zero = \<lparr>mr_values = replicate capacity zero, mr_head = 0, mr_size = 0\<rparr>"

definition ring_push_all :: "'a list \<Rightarrow> 'a metric_ring \<Rightarrow> 'a metric_ring" where
  "ring_push_all vs r = fold (\<lambda>v. snd \<circ> ring_push v) vs r"

lemma mod_add_inj_bound:
  fixes h i j n :: nat
  assumes "(h + i) mod n = (h + j) mod n" and "i < n" and "j < n"
  shows "i = j"
proof -
  have "int n dvd int (h + i) - int (h + j)"
    using assms(1) by (metis mod_eq_dvd_iff of_nat_mod)
  then have "int n dvd int i - int j" by simp
  moreover have "\<bar>int i - int j\<bar> < int n" using assms(2,3) by linarith
  ultimately show ?thesis by (metis dvd_imp_le_int eq_iff_diff_eq_0 int_int_eq abs_of_nat not_less)
qed

lemma ring_at_update:
  assumes "k < n" and "j < n" and "n = length xs"
  shows "xs[(h + j) mod n := v] ! ((h + k) mod n) = (if k = j then v else xs ! ((h + k) mod n))"
proof -
  have "(h + i) mod n < length xs" for i using assms by (metis mod_less_divisor gr_implies_not0 neq0_conv)
  then show ?thesis using mod_add_inj_bound [of h k n j] assms(1,2) by (auto simp: nth_list_update)
qed

lemma ring_push_contents:
  assumes "ring_ok r" and "ring_push v r = (dropped, r')"
  shows "ring_ok r'" and "length (mr_values r') = length (mr_values r)"
    and "dropped \<longleftrightarrow> length (ring_contents r) = length (mr_values r)"
    and "ring_contents r' = (if dropped then tl (ring_contents r) else ring_contents r) @ [v]"
proof -
  let ?n = "length (mr_values r)"
  show "ring_ok r'" "length (mr_values r') = ?n" "dropped \<longleftrightarrow> length (ring_contents r) = ?n"
    using assms by (auto simp: ring_ok_def ring_push_def ring_contents_def Let_def split: if_splits)
  show "ring_contents r' = (if dropped then tl (ring_contents r) else ring_contents r) @ [v]"
  proof (cases "mr_size r = ?n")
    case True
    then obtain m where m: "?n = Suc m" using assms(1) by (cases ?n) (auto simp: ring_ok_def)
    have r': "r' = r\<lparr>mr_head := (mr_head r + 1) mod ?n, mr_size := Suc m,
        mr_values := (mr_values r)[(Suc (mr_head r) + m) mod ?n := v]\<rparr>" and d: "dropped"
      using assms(2) True m by (auto simp: ring_push_def Let_def mod_simps)
    have "oldest_at k r' = (if k = m then v else oldest_at (Suc k) r)" if "k < ?n" for k
      using that m ring_at_update [of k ?n m "mr_values r" "Suc (mr_head r)" v]
      by (simp add: r' oldest_at_def mod_simps)
    then have "ring_contents r' = map (\<lambda>k. if k = m then v else oldest_at (Suc k) r) [0..<Suc m]"
      using m by (simp add: ring_contents_def r' del: upt_Suc)
    also have "\<dots> = map (\<lambda>k. oldest_at (Suc k) r) [0..<m] @ [v]" by simp
    also have "map (\<lambda>k. oldest_at (Suc k) r) [0..<m] = tl (ring_contents r)"
      using True m by (simp add: ring_contents_def upt_conv_Cons map_Suc_upt [symmetric] comp_def del: upt_Suc map_Suc_upt)
    finally show ?thesis using d by simp
  next
    case False
    let ?k = "mr_size r"
    have k: "?k < ?n" using False assms(1) by (simp add: ring_ok_def)
    have r': "r' = r\<lparr>mr_size := Suc ?k, mr_values := (mr_values r)[(mr_head r + ?k) mod ?n := v]\<rparr>"
      and d: "\<not> dropped"
      using assms(2) False by (auto simp: ring_push_def Let_def)
    have "oldest_at j r' = (if j = ?k then v else oldest_at j r)" if "j < Suc ?k" for j
      using that k ring_at_update [of j ?n ?k "mr_values r" "mr_head r" v]
      by (simp add: r' oldest_at_def)
    then have "ring_contents r' = map (\<lambda>j. if j = ?k then v else oldest_at j r) [0..<Suc ?k]"
      by (simp add: ring_contents_def r' del: upt_Suc)
    also have "\<dots> = ring_contents r @ [v]" by (simp add: ring_contents_def)
    finally show ?thesis using d by simp
  qed
qed

lemma ring_push_all_contents:
  "ring_ok r \<Longrightarrow> ring_ok (ring_push_all vs r) \<and>
     ring_contents (ring_push_all vs r) =
       drop (length (ring_contents r @ vs) - length (mr_values r)) (ring_contents r @ vs)"
proof (induction vs arbitrary: r)
  case Nil
  then show ?case by (simp add: ring_push_all_def ring_ok_def ring_contents_def)
next
  case (Cons v vs)
  obtain dropped r' where p: "ring_push v r = (dropped, r')" by fastforce
  note facts = ring_push_contents [OF Cons.prems p]
  have all: "ring_push_all (v # vs) r = ring_push_all vs r'" by (simp add: ring_push_all_def p)
  have le: "length (ring_contents r) \<le> length (mr_values r)"
    using Cons.prems by (simp add: ring_ok_def ring_contents_def)
  have "mr_values r \<noteq> []" using Cons.prems by (simp add: ring_ok_def)
  then have "drop (length (ring_contents r' @ vs) - length (mr_values r)) (ring_contents r' @ vs) =
      drop (length (ring_contents r @ v # vs) - length (mr_values r)) (ring_contents r @ v # vs)"
  proof (cases dropped)
    case True
    then obtain a xs where c: "ring_contents r = a # xs" and n: "length (mr_values r) = Suc (length xs)"
      using facts(3) \<open>mr_values r \<noteq> []\<close> by (cases "ring_contents r") auto
    show ?thesis using facts(4) True by (simp add: c n)
  qed (use facts(4) in simp)
  then show ?case using Cons.IH [OF facts(1)] facts(2) unfolding all by simp
qed

text \<open>
  The metric ring keeps the latest samples: after any sequence of samples pushed into an empty ring
  of positive capacity, it holds, oldest first, the last of them, as many as it has room for.
\<close>

theorem ring_holds_latest:
  assumes "0 < capacity"
  shows "ring_contents (ring_push_all vs (make_ring capacity zero)) = drop (length vs - capacity) vs"
  using ring_push_all_contents [of "make_ring capacity zero" vs] assms
  by (simp add: make_ring_def ring_ok_def ring_contents_def)

theorem ring_holds_latest_witness:
  "ring_contents (ring_push_all [1, 2, 3, 4, 5 :: nat] (make_ring 3 0)) = [3, 4, 5]"
  by (simp add: ring_holds_latest [of 3])

section \<open>The key-frame request policy over a history\<close>

text \<open>
  A history of the policy as its caller drives it: a fragment or a silent interval is observed and,
  when the policy asks for it and the datagram goes out, the request is marked. The ghost list holds
  the times of the requests since the last fresh content, latest first.
\<close>

datatype recovery_event =
    Recovery_Fragment u64 bool bool bool bool
  | Recovery_Idle u64 bool bool

fun recovery_step :: "recovery_event \<Rightarrow> recovery_policy \<times> u64 list \<Rightarrow> recovery_policy \<times> u64 list" where
  "recovery_step (Recovery_Fragment now fresh changed lost sent) (p, ts) =
     (let (due, p) = observe_fragment now fresh changed lost p; ts = (if fresh then [] else ts)
      in if due \<and> sent then (mark_idr_requested now p, now # ts) else (p, ts))"
| "recovery_step (Recovery_Idle now known sent) (p, ts) =
     (if observe_idle now known p \<and> sent then (mark_idle_idr_requested now p, now # ts) else (p, ts))"

fun recovery_time :: "recovery_event \<Rightarrow> u64" where
  "recovery_time (Recovery_Fragment now _ _ _ _) = now"
| "recovery_time (Recovery_Idle now _ _) = now"

text \<open>The documented back-off: half a second, doubled with every request, at most five seconds.\<close>

definition idr_backoff :: "nat \<Rightarrow> nat" where
  "idr_backoff n = min (500000 * 2 ^ (n - 1)) 5000000"

fun requests_spaced :: "u64 list \<Rightarrow> bool" where
  "requests_spaced (t # s # ts) \<longleftrightarrow>
     unat s + idr_backoff (Suc (length ts)) \<le> unat t \<and> requests_spaced (s # ts)"
| "requests_spaced _ = True"

definition recovery_inv :: "recovery_policy \<times> u64 list \<Rightarrow> bool" where
  "recovery_inv = (\<lambda>(p, ts). requests_spaced ts \<and> 0 \<notin> set ts \<and>
     rp_consecutive_idr_requests p = of_nat (length ts) \<and>
     rp_last_idr_request_us p = (case ts of [] \<Rightarrow> 0 | t # _ \<Rightarrow> t))"

lemma idr_interval_backoff:
  assumes "rp_consecutive_idr_requests p = of_nat (Suc n)" and "Suc n < 2 ^ 32"
  shows "unat (idr_request_interval p) = idr_backoff (Suc n)"
proof -
  have c: "rp_consecutive_idr_requests p - 1 = of_nat n" "rp_consecutive_idr_requests p \<noteq> 0"
    using assms unat_of_nat_small [of "Suc n", where ?'a = 32] by (simp_all only: of_nat_Suc) auto
  consider "n = 0" | "n = 1" | "n = 2" | "n = 3" | "4 \<le> n" by linarith
  then show ?thesis
  proof cases
    case 5
    have "(4 :: u32) \<le> of_nat n" using 5 assms(2) by (simp add: word_le_nat_alt unat_of_nat_small)
    then have "idr_request_interval p = 5000000"
      using c by (simp add: idr_request_interval_def min_def receiver_consts)
    moreover have "(16 :: nat) \<le> 2 ^ n" using power_increasing [of 4 n "2 :: nat"] 5 by simp
    ultimately show ?thesis by (simp add: idr_backoff_def)
  qed (use c in \<open>simp_all add: idr_request_interval_def receiver_consts idr_backoff_def min_def\<close>)
qed

lemma request_due_backoff:
  assumes "recovery_inv (p, ts)" and "request_due now p" and "length ts < 2 ^ 32" and "now \<noteq> 0"
  shows "requests_spaced (now # ts)"
proof (cases ts)
  case (Cons t us)
  then have p: "rp_consecutive_idr_requests p = of_nat (Suc (length us))" "rp_last_idr_request_us p = t" "t \<noteq> 0"
    using assms(1) by (auto simp: recovery_inv_def)
  have "t \<le> now" "idr_request_interval p \<le> now - t"
    using assms(2) p(2,3) by (auto simp: request_due_def)
  then have "unat t + unat (idr_request_interval p) \<le> unat now"
    by (simp add: word_le_nat_alt unat_sub)
  then show ?thesis
    using assms(1,3) Cons idr_interval_backoff [OF p(1)] by (simp add: recovery_inv_def)
qed simp

lemma recovery_mark_inv:
  assumes "recovery_inv (p, ts)" and "request_due now p" and "length ts < 2 ^ 32" and "now \<noteq> 0"
  shows "recovery_inv (mark_idr_requested now p, now # ts)"
    and "recovery_inv (mark_idle_idr_requested now p, now # ts)"
  using request_due_backoff [OF assms] assms(1,4)
  by (simp_all add: recovery_inv_def mark_idr_requested_def mark_idle_idr_requested_def)

lemma observe_fragment_inv:
  assumes "recovery_inv (p, ts)" and "observe_fragment now fresh changed lost p = (due, p')"
  shows "recovery_inv (p', if fresh then [] else ts)" and "due \<Longrightarrow> request_due now p'"
  using assms by (auto simp: observe_fragment_def Let_def recovery_inv_def)

lemma recovery_step_inv:
  assumes "recovery_inv (p, ts)" and "length ts < 2 ^ 32" and "recovery_time e \<noteq> 0"
  shows "recovery_inv (recovery_step e (p, ts)) \<and> length (snd (recovery_step e (p, ts))) \<le> Suc (length ts)"
proof (cases e)
  case (Recovery_Fragment now fresh changed lost sent)
  obtain due p' where o: "observe_fragment now fresh changed lost p = (due, p')" by fastforce
  show ?thesis
    using observe_fragment_inv [OF assms(1) o] recovery_mark_inv(1) [of p' "if fresh then [] else ts" now]
      assms Recovery_Fragment o by (cases fresh) auto
next
  case (Recovery_Idle now known sent)
  have "observe_idle now known p \<Longrightarrow> request_due now p"
    by (simp add: observe_idle_def split: if_splits)
  then show ?thesis using recovery_mark_inv(2) [OF assms(1) _ assms(2)] assms Recovery_Idle by simp
qed

lemma recovery_run_inv:
  assumes "recovery_inv (p, ts)" and "length ts + length es \<le> 2 ^ 32" and "0 \<notin> recovery_time ` set es"
  shows "recovery_inv (fold recovery_step es (p, ts))"
  using assms
proof (induction es arbitrary: p ts)
  case (Cons e es)
  obtain p' ts' where step: "recovery_step e (p, ts) = (p', ts')" by fastforce
  have "recovery_inv (p', ts')" "length ts' \<le> Suc (length ts)"
    using recovery_step_inv [OF Cons.prems(1), of e] Cons.prems(2,3) step by auto
  then show ?case using Cons.IH [of p' ts'] Cons.prems(2,3) step by simp
qed simp

text \<open>
  Key-frame requests keep their back-off: among the requests sent since fresh content last reached
  the decoder, consecutive ones are at least half a second apart, and the distance doubles with each
  request up to five seconds, whatever triggers them.
\<close>

theorem idr_requests_back_off:
  assumes "length es \<le> 2 ^ 32" and "0 \<notin> recovery_time ` set es"
  shows "requests_spaced (snd (fold recovery_step es (reset_recovery_policy, [])))"
proof -
  have "recovery_inv (reset_recovery_policy, [])"
    by (simp add: recovery_inv_def reset_recovery_policy_def)
  from recovery_run_inv [OF this _ assms(2)] assms(1) show ?thesis
    by (cases "fold recovery_step es (reset_recovery_policy, [])") (simp add: recovery_inv_def)
qed

theorem idr_requests_back_off_witness:
  "requests_spaced (snd (fold recovery_step
     [Recovery_Fragment 100 False True False True, Recovery_Fragment 400000 False True False True,
      Recovery_Fragment 500100 False False True True, Recovery_Idle 1500100 True True]
     (reset_recovery_policy, []))) \<and>
   snd (fold recovery_step
     [Recovery_Fragment 100 False True False True, Recovery_Fragment 400000 False True False True,
      Recovery_Fragment 500100 False False True True, Recovery_Idle 1500100 True True]
     (reset_recovery_policy, [])) = [1500100, 500100, 100]"
  using idr_requests_back_off [of "[Recovery_Fragment 100 False True False True,
      Recovery_Fragment 400000 False True False True, Recovery_Fragment 500100 False False True True,
      Recovery_Idle 1500100 True True]"]
  by (simp add: reset_recovery_policy_def observe_fragment_def observe_idle_def request_due_def Let_def
      idr_request_interval_def receiver_consts mark_idr_requested_def mark_idle_idr_requested_def min_def)

end
