(* ===== verification/Receiver_Loop.thy ===== *)
theory Receiver_Loop
  imports Receiver_Policies Epoch_Session
begin

text \<open>
  The worker loop of the Android video receiver, \<^verbatim>\<open>NativeVideoReceiver::run\<close> in
  \<^verbatim>\<open>android_inference_benchmark/app/src/main/cpp/DualMachineReceiver.cpp\<close>: it drives the two
  reassemblers, the epoch gate, the admission policies and the decoder. One iteration is one
  \<^verbatim>\<open>recvfrom\<close>; what the socket, the clock and the decoder answer during the iteration is its input.
  The log is a ghost: what was handed to the decoder, oldest first, with the decoder's answer.

  Shown: every iteration returns, and after any history the decoder has been given an unbroken
  chain, of units assembled from fragments the expected host sent, in epochs that never go back,
  each entered with a real key frame; and every access unit the receiver dropped is attributed to a
  cause.

  Left out: the diagnostic fields of \<^verbatim>\<open>ReceiverMetrics\<close> (times, \<^verbatim>\<open>errno\<close>, the last identity), the log
  messages, the 10 ms pause after a socket error, and \<^verbatim>\<open>start\<close>, which opens the socket.
\<close>

section \<open>State\<close>

definition kMaximumInflightAccessUnits :: nat where "kMaximumInflightAccessUnits = 4"
definition kAccessUnitReassemblyTtlUs :: u64 where "kAccessUnitReassemblyTtlUs = 50000"
definition kInitialReceiveTimeoutUs :: u64 where "kInitialReceiveTimeoutUs = 100000"

text \<open>The counters of \<^verbatim>\<open>ReceiverMetrics\<close> that only the loop touches.\<close>

record loop_metrics =
  lm_accepted_datagrams :: u64
  lm_accepted_bytes :: u64
  lm_rejected_datagrams :: u64
  lm_receiver_timeouts :: u64
  lm_receive_timeout_us :: u64
  lm_reassembly_expirations :: u64
  lm_reassembly_incomplete_losses :: u64
  lm_reassembly_dependent_flushes :: u64
  lm_reference_resync_dependent_flushes :: u64
  lm_source_changes :: u64
  lm_source_restart_successes :: u64
  lm_foreign_source_datagrams :: u64
  lm_fatal_socket_errors :: u64
  lm_retired_epoch_datagrams :: u64
  lm_candidate_epoch_rejections :: u64

definition reset_loop_metrics :: loop_metrics where
  "reset_loop_metrics =
     \<lparr>lm_accepted_datagrams = 0, lm_accepted_bytes = 0, lm_rejected_datagrams = 0,
      lm_receiver_timeouts = 0, lm_receive_timeout_us = kInitialReceiveTimeoutUs,
      lm_reassembly_expirations = 0, lm_reassembly_incomplete_losses = 0,
      lm_reassembly_dependent_flushes = 0, lm_reference_resync_dependent_flushes = 0,
      lm_source_changes = 0, lm_source_restart_successes = 0, lm_foreign_source_datagrams = 0,
      lm_fatal_socket_errors = 0, lm_retired_epoch_datagrams = 0, lm_candidate_epoch_rejections = 0\<rparr>"

record receiver_loop =
  rl_receiver :: receiver
  rl_metrics :: loop_metrics
  rl_source :: source_session
  rl_idr_destination :: "u32 option"
  rl_running :: bool
  rl_active :: reassembler
  rl_candidate :: reassembler
  rl_epochs :: epoch_session
  rl_pending_idr :: "completed_access_unit option"
  rl_candidate_epoch :: u64
  rl_socket_errors :: u32
  rl_restart_pending :: bool
  rl_restart_ready :: bool
  rl_backoff_available :: bool
  rl_last_accepted_us :: u64
  rl_receive_timeout_us :: u64
  rl_log :: "(decoder_input \<times> bool) list"

datatype receive_errno = Errno_Again | Errno_Interrupted | Errno_Other

text \<open>
  One iteration's input: the datagram (empty when \<^verbatim>\<open>recvfrom\<close> returned nothing), \<^verbatim>\<open>errno\<close> and the
  sender after the call, the time, \<^verbatim>\<open>running_\<close> as \<^verbatim>\<open>stop\<close> left it, the decoder's restart completion
  (whether it succeeded), its restart time-out flag, its answer to a restart, whether setting the
  receive time-out and sending the request succeed, and the decoder's answer to each submission, by
  control sequence number.
\<close>

record loop_input =
  li_datagram :: bytes
  li_errno :: receive_errno
  li_sender_ipv4 :: u32
  li_sender_port :: u16
  li_now :: u64
  li_running :: bool
  li_restart_completion :: "bool option"
  li_restart_timed_out :: bool
  li_restart_started :: bool
  li_timeout_set :: bool
  li_idr_sent :: bool
  li_answer :: "u64 \<Rightarrow> decoder_answer"

definition new_reassembler :: reassembler where
  "new_reassembler = make_reassembler kMaximumInflightAccessUnits (8 * kMaxAccessUnitBytes) 8"

definition start_loop :: "u32 \<Rightarrow> u64 \<Rightarrow> receiver_loop" where
  "start_loop expected_ipv4 now =
     \<lparr>rl_receiver = start_receiver, rl_metrics = reset_loop_metrics,
      rl_source = reset_source_session expected_ipv4, rl_idr_destination = None, rl_running = True,
      rl_active = new_reassembler, rl_candidate = new_reassembler, rl_epochs = make_epoch_session 8,
      rl_pending_idr = None, rl_candidate_epoch = 0, rl_socket_errors = 0, rl_restart_pending = False,
      rl_restart_ready = False, rl_backoff_available = True, rl_last_accepted_us = now,
      rl_receive_timeout_us = kInitialReceiveTimeoutUs, rl_log = []\<rparr>"

section \<open>The helpers of the loop\<close>

definition rebuild_active_reassembler :: "u32 option \<Rightarrow> receiver_loop \<Rightarrow> receiver_loop" where
  "rebuild_active_reassembler last_delivered s =
     s\<lparr>rl_active := (case session_active (rl_epochs s) of
          None \<Rightarrow> new_reassembler
        | Some a \<Rightarrow> snd (activate_epoch a last_delivered new_reassembler))\<rparr>"

definition rebuild_candidate_reassembler :: "u64 \<Rightarrow> receiver_loop \<Rightarrow> receiver_loop" where
  "rebuild_candidate_reassembler epoch s =
     s\<lparr>rl_candidate := snd (activate_epoch epoch None new_reassembler), rl_candidate_epoch := epoch\<rparr>"

definition reset_recovery :: "receiver_loop \<Rightarrow> receiver_loop" where
  "reset_recovery s = s\<lparr>rl_receiver := (rl_receiver s)\<lparr>rv_recovery := reset_recovery_policy\<rparr>\<rparr>"

definition loop_require_sync :: "receiver_loop \<Rightarrow> receiver_loop" where
  "loop_require_sync s = s\<lparr>rl_receiver := require_reference_sync (rl_receiver s)\<rparr>"

definition count_restart_failure :: "receiver_loop \<Rightarrow> receiver_loop" where
  "count_restart_failure s =
     (let v = rl_receiver s; m = rv_metrics v in
      s\<lparr>rl_receiver := v\<lparr>rv_metrics := m\<lparr>rm_source_restart_failures := rm_source_restart_failures m + 1\<rparr>\<rparr>\<rparr>)"

definition count_candidate_rejection :: "receiver_loop \<Rightarrow> receiver_loop" where
  "count_candidate_rejection s =
     s\<lparr>rl_metrics := (rl_metrics s)
       \<lparr>lm_candidate_epoch_rejections := lm_candidate_epoch_rejections (rl_metrics s) + 1\<rparr>\<rparr>"

definition count_flushed :: "u64 \<Rightarrow> receiver_loop \<Rightarrow> receiver_loop" where
  "count_flushed n s =
     (let v = rl_receiver s; m = rv_metrics v; l = rl_metrics s in
      s\<lparr>rl_metrics := l\<lparr>lm_reference_resync_dependent_flushes := lm_reference_resync_dependent_flushes l + n\<rparr>,
        rl_receiver := v\<lparr>rv_metrics := m\<lparr>rm_dropped_access_units := rm_dropped_access_units m + n\<rparr>\<rparr>\<rparr>)"

definition loop_submit ::
  "completed_access_unit \<Rightarrow> u64 \<Rightarrow> (u64 \<Rightarrow> decoder_answer) \<Rightarrow> receiver_loop \<Rightarrow>
     completed_submission \<times> receiver_loop" where
  "loop_submit c now answer s =
     (case submit_completed_access_unit c now (answer (rv_next_control_sequence (rl_receiver s))) (rl_receiver s) of
        (r, input, v) \<Rightarrow>
          (r, s\<lparr>rl_receiver := v,
                rl_log := rl_log s @ (case input of None \<Rightarrow> [] | Some i \<Rightarrow> [(i, sub_accepted r)])\<rparr>))"

definition loop_request_idr ::
  "loop_input \<Rightarrow> bool \<Rightarrow> bool \<Rightarrow> receiver_loop \<Rightarrow> receiver_loop" where
  "loop_request_idr i idle_request invalidate s =
     s\<lparr>rl_receiver := snd (receiver_request_idr (rl_idr_destination s \<noteq> None) (li_idr_sent i) (li_now i) True
         idle_request invalidate (rl_receiver s))\<rparr>"

definition flush_active :: "receiver_loop \<Rightarrow> receiver_loop" where
  "flush_active s =
     rebuild_active_reassembler None (count_flushed (of_nat (inflight_frame_count (rl_active s))) s)"

definition commit_restarted_candidate ::
  "u64 \<Rightarrow> (u64 \<Rightarrow> decoder_answer) \<Rightarrow> receiver_loop \<Rightarrow> bool \<times> receiver_loop" where
  "commit_restarted_candidate now answer s =
     (case rl_pending_idr s of
        None \<Rightarrow> (True, s)
      | Some c \<Rightarrow>
          if \<not> rl_restart_ready s then (True, s)
          else
            let (committed, epochs) = session_commit_candidate (stream_epoch (completed_identity c)) True (rl_epochs s);
                s = s\<lparr>rl_epochs := epochs\<rparr> in
            if \<not> committed then (True, (count_candidate_rejection s)\<lparr>rl_pending_idr := None\<rparr>)
            else
              let s = rebuild_active_reassembler (Some (frame_sequence (completed_identity c))) s;
                  s = loop_require_sync (reset_recovery s);
                  (submission, s) = loop_submit c now answer s;
                  s = s\<lparr>rl_pending_idr := None, rl_restart_ready := False, rl_restart_pending := False\<rparr> in
              if \<not> sub_accepted submission then (False, count_restart_failure s)
              else (True, s\<lparr>rl_metrics := (rl_metrics s)
                \<lparr>lm_source_restart_successes := lm_source_restart_successes (rl_metrics s) + 1\<rparr>\<rparr>))"

definition loop_ended :: "receiver_loop \<Rightarrow> receiver_loop" where
  "loop_ended s = s\<lparr>rl_running := False\<rparr>"

section \<open>The body of the loop\<close>

text \<open>The poll of the decoder's restart at the head of an iteration; False leaves the loop.\<close>

definition poll_restart :: "loop_input \<Rightarrow> receiver_loop \<Rightarrow> bool \<times> receiver_loop" where
  "poll_restart i s =
     (if \<not> rl_restart_pending s then (True, s)
      else case li_restart_completion i of
          None \<Rightarrow> (True, s)
        | Some succeeded \<Rightarrow>
            if \<not> succeeded then (False, count_restart_failure s)
            else commit_restarted_candidate (li_now i) (li_answer i) (s\<lparr>rl_restart_ready := True\<rparr>))"

definition set_loop_timeout :: "loop_input \<Rightarrow> u64 \<Rightarrow> receiver_loop \<Rightarrow> receiver_loop" where
  "set_loop_timeout i timeout s =
     (if rl_backoff_available s \<and> timeout \<noteq> rl_receive_timeout_us s then
        if li_timeout_set i
        then s\<lparr>rl_receive_timeout_us := timeout,
               rl_metrics := (rl_metrics s)\<lparr>lm_receive_timeout_us := timeout\<rparr>\<rparr>
        else s\<lparr>rl_backoff_available := False\<rparr>
      else s)"

text \<open>No datagram: the time-out, an interruption, or a socket error; the third error in a row ends it.\<close>

definition on_no_datagram :: "loop_input \<Rightarrow> receiver_loop \<Rightarrow> receiver_loop" where
  "on_no_datagram i s =
     (if \<not> rl_running s then loop_ended s
      else if li_restart_timed_out i then loop_ended (count_restart_failure s)
      else case li_errno i of
          Errno_Again \<Rightarrow>
            let l = rl_metrics s;
                s = s\<lparr>rl_socket_errors := 0, rl_metrics := l\<lparr>lm_receiver_timeouts := lm_receiver_timeouts l + 1\<rparr>\<rparr>;
                idle = (if rl_last_accepted_us s \<le> li_now i then li_now i - rl_last_accepted_us s else 0);
                s = set_loop_timeout i (receive_timeout_us idle) s in
            if \<not> rl_restart_pending s \<and>
               observe_idle (li_now i) (rl_idr_destination s \<noteq> None) (rv_recovery (rl_receiver s))
            then loop_request_idr i True True (flush_active s)
            else s
        | Errno_Interrupted \<Rightarrow> s
        | Errno_Other \<Rightarrow>
            let l = rl_metrics s;
                s = s\<lparr>rl_metrics := l\<lparr>lm_fatal_socket_errors := lm_fatal_socket_errors l + 1\<rparr>,
                      rl_socket_errors := rl_socket_errors s + 1\<rparr> in
            if rl_socket_errors s < 3 then s else loop_ended s)"

definition reject_candidate_unit :: "loop_input \<Rightarrow> u64 \<Rightarrow> receiver_loop \<Rightarrow> receiver_loop" where
  "reject_candidate_unit i epoch s =
     loop_request_idr i False False (rebuild_candidate_reassembler epoch (count_candidate_rejection s))"

text \<open>A fragment of a candidate epoch. The outer \<open>None\<close> is again a call that does not return.\<close>

definition on_candidate_unit :: "loop_input \<Rightarrow> u64 \<Rightarrow> completed_access_unit \<Rightarrow> receiver_loop \<Rightarrow> receiver_loop" where
  "on_candidate_unit i epoch c s =
     (if session_active (rl_epochs s) = None then
        let (committed, epochs) = session_commit_candidate epoch True (rl_epochs s);
            s = s\<lparr>rl_epochs := epochs\<rparr> in
        if \<not> committed then count_candidate_rejection s
        else
          let s = rebuild_active_reassembler (Some (frame_sequence (completed_identity c))) s;
              s = loop_require_sync (reset_recovery s);
              (submission, s) = loop_submit c (li_now i) (li_answer i) s in
          if \<not> sub_accepted submission then loop_ended s else s
      else
        let s = s\<lparr>rl_pending_idr := Some c\<rparr> in
        if \<not> rl_restart_pending s \<and> \<not> li_restart_started i
        then loop_ended (count_restart_failure (loop_require_sync s))
        else
          let s = (if rl_restart_pending s then s
                   else (loop_require_sync s)\<lparr>rl_restart_pending := True, rl_restart_ready := False\<rparr>);
              (going, s) = commit_restarted_candidate (li_now i) (li_answer i) s in
          if \<not> going then loop_ended s else s)"

definition on_candidate_fragment :: "loop_input \<Rightarrow> video_fragment \<Rightarrow> receiver_loop \<Rightarrow> receiver_loop option" where
  "on_candidate_fragment i f s =
     (let epoch = stream_epoch (identity f);
          s = (if rl_candidate_epoch s \<noteq> epoch
               then (rebuild_candidate_reassembler epoch s)\<lparr>rl_pending_idr := None\<rparr> else s);
          losses_before = incomplete_access_unit_losses (rl_candidate s) in
      case push_view f (li_now i) (rl_candidate s) of
        None \<Rightarrow> None
      | Some (candidate, r) \<Rightarrow>
          let (_, r) = discard_expired (li_now i) kAccessUnitReassemblyTtlUs r;
              s = s\<lparr>rl_candidate := r\<rparr> in
          Some (if incomplete_access_unit_losses r \<noteq> losses_before then reject_candidate_unit i epoch s
                else case candidate of
                    None \<Rightarrow> s
                  | Some c \<Rightarrow>
                      if completed_repeated c \<or> \<not> h264_access_unit_contains_idr (completed_bytes c)
                      then reject_candidate_unit i epoch s
                      else on_candidate_unit i epoch c s))"

lemma loop_submit_active: "(r, s') = loop_submit c now answer s \<Longrightarrow> rl_active s' = rl_active s"
  by (auto simp: loop_submit_def split: prod.splits)

lemma pop_completed_shrinks:
  assumes "(Some a, r') = pop_completed r"
  shows "length (pending r') < length (pending r)"
  using assms [symmetric]
proof (cases rule: pop_completed_cases)
  case (2 e q p)
  then obtain p' where "map_of (pending r) q = Some p'"
    by (metis domIff dom_map_of_conv_image_fst image_eqI fst_conv not_Some_eq)
  moreover have "length (AList.delete q (pending r)) < length (pending r)"
    unfolding AList.delete_eq using 2(2) by (rule length_filter_less) simp
  ultimately show ?thesis using 2(6) by (simp add: erase_pending_def)
qed simp

text \<open>
  The loop that drains completed units of the active epoch into the decoder, until a unit is not
  accepted. The flags are \<^verbatim>\<open>fresh_content_accepted\<close>, \<^verbatim>\<open>submission_failed\<close> and \<^verbatim>\<open>fatal_decoder_failure\<close>.
\<close>

function drain_completed ::
  "u64 \<Rightarrow> (u64 \<Rightarrow> decoder_answer) \<Rightarrow> completed_access_unit option \<Rightarrow> bool \<times> bool \<times> bool \<Rightarrow> receiver_loop \<Rightarrow>
     (bool \<times> bool \<times> bool) \<times> receiver_loop" where
  "drain_completed now answer None flags s = (flags, s)"
| "drain_completed now answer (Some c) (fresh, failed, fatal) s =
     (let (submission, s) = loop_submit c now answer s;
          fresh = (fresh \<or> (sub_accepted submission \<and> sub_content_updated submission));
          failed = (failed \<or> \<not> sub_accepted submission);
          fatal = (fatal \<or> sub_fatal submission) in
      if \<not> sub_accepted submission then ((fresh, failed, fatal), s)
      else
        let (completed, r) = pop_completed (rl_active s)
        in drain_completed now answer completed (fresh, failed, fatal) (s\<lparr>rl_active := r\<rparr>))"
  by pat_completeness auto
termination
  by (relation "measure (\<lambda>(_, _, c, _, s).
        case c of None \<Rightarrow> 0 | Some _ \<Rightarrow> Suc (length (pending (rl_active s))))")
     (auto simp: loop_submit_active dest: pop_completed_shrinks split: option.split)

declare drain_completed.simps [simp del]

text \<open>A loss among the in-flight units of the active epoch: what depended on it is flushed too.\<close>

definition flush_lost :: "u64 \<Rightarrow> nat \<Rightarrow> bool \<Rightarrow> receiver_loop \<Rightarrow> receiver_loop" where
  "flush_lost losses expired_units completed s =
     (let dependent = of_nat (inflight_frame_count (rl_active s)) + (if completed then 1 else 0);
          l = rl_metrics s; v = rl_receiver s; m = rv_metrics v;
          s = s\<lparr>rl_metrics := l\<lparr>lm_reassembly_expirations := lm_reassembly_expirations l + of_nat expired_units,
                  lm_reassembly_incomplete_losses := lm_reassembly_incomplete_losses l + losses,
                  lm_reassembly_dependent_flushes := lm_reassembly_dependent_flushes l + dependent\<rparr>,
                rl_receiver := v\<lparr>rv_metrics := m\<lparr>rm_dropped_access_units :=
                  rm_dropped_access_units m + (losses + dependent)\<rparr>\<rparr>\<rparr>
      in rebuild_active_reassembler None (loop_require_sync s))"

definition observe_loop_fragment ::
  "loop_input \<Rightarrow> bool \<Rightarrow> bool \<Rightarrow> bool \<Rightarrow> receiver_loop \<Rightarrow> receiver_loop" where
  "observe_loop_fragment i fresh port_restarted lost s =
     (let (due, p) = observe_fragment (li_now i) fresh port_restarted lost (rv_recovery (rl_receiver s));
          s = s\<lparr>rl_receiver := (rl_receiver s)\<lparr>rv_recovery := p\<rparr>\<rparr>
      in if due then loop_request_idr i False True (flush_active s) else s)"

definition on_active_fragment ::
  "loop_input \<Rightarrow> video_fragment \<Rightarrow> bool \<Rightarrow> receiver_loop \<Rightarrow> receiver_loop option" where
  "on_active_fragment i f port_restarted s =
     (if rl_restart_pending s then Some s
      else
        let losses_before = incomplete_access_unit_losses (rl_active s) in
        case push_view f (li_now i) (rl_active s) of
          None \<Rightarrow> None
        | Some (completed, r) \<Rightarrow>
            let (expired_units, r) = discard_expired (li_now i) kAccessUnitReassemblyTtlUs r;
                losses = incomplete_access_unit_losses r - losses_before;
                s = s\<lparr>rl_active := r\<rparr>;
                (completed, s) =
                  (if losses \<noteq> 0 then (None, flush_lost losses expired_units (completed \<noteq> None) s)
                   else (completed, s));
                ((fresh, failed, fatal), s) =
                  drain_completed (li_now i) (li_answer i) completed (False, False, False) s in
            Some (if fatal then loop_ended s
                  else
                    let s = (if failed then flush_active s else s)
                    in observe_loop_fragment i fresh port_restarted (losses \<noteq> 0 \<or> failed) s))"

text \<open>A datagram that decodes: the sender, then the epoch, decide what becomes of it.\<close>

definition on_fragment :: "loop_input \<Rightarrow> video_fragment \<Rightarrow> receiver_loop \<Rightarrow> receiver_loop option" where
  "on_fragment i f s =
     (let (decision, source) = observe_source (li_sender_ipv4 i) (li_sender_port i) (li_now i) (rl_source s);
          s = s\<lparr>rl_source := source\<rparr>;
          l = rl_metrics s in
      if decision = RejectForeign
      then Some (s\<lparr>rl_metrics := l\<lparr>lm_foreign_source_datagrams := lm_foreign_source_datagrams l + 1\<rparr>\<rparr>)
      else
        let port_restarted = (decision = RestartSourcePort);
            l = (if port_restarted then l\<lparr>lm_source_changes := lm_source_changes l + 1\<rparr> else l);
            s = s\<lparr>rl_metrics := l\<lparr>lm_accepted_datagrams := lm_accepted_datagrams l + 1,
                    lm_accepted_bytes := lm_accepted_bytes l + of_nat (length (li_datagram i))\<rparr>,
                  rl_last_accepted_us := li_now i\<rparr>;
            s = (set_loop_timeout i kInitialReceiveTimeoutUs s)
                  \<lparr>rl_idr_destination := Some (li_sender_ipv4 i)\<rparr>;
            (observed, epochs) = session_observe (stream_epoch (identity f)) (rl_epochs s);
            s = s\<lparr>rl_epochs := epochs\<rparr>; l = rl_metrics s in
        case observed of
          EpochInvalid \<Rightarrow> Some (s\<lparr>rl_metrics := l\<lparr>lm_rejected_datagrams := lm_rejected_datagrams l + 1\<rparr>\<rparr>)
        | EpochRetired \<Rightarrow> Some (s\<lparr>rl_metrics := l\<lparr>lm_retired_epoch_datagrams := lm_retired_epoch_datagrams l + 1\<rparr>\<rparr>)
        | EpochCandidate \<Rightarrow> on_candidate_fragment i f s
        | EpochActive \<Rightarrow> on_active_fragment i f port_restarted s)"

definition receiver_iteration :: "loop_input \<Rightarrow> receiver_loop \<Rightarrow> receiver_loop option" where
  "receiver_iteration i s =
     (if \<not> rl_running s then Some s
      else
        let (going, s) = poll_restart i (s\<lparr>rl_running := li_running i\<rparr>) in
        if \<not> going then Some (loop_ended s)
        else if li_datagram i = [] then Some (on_no_datagram i s)
        else
          let s = s\<lparr>rl_socket_errors := 0\<rparr>; l = rl_metrics s in
          case decode_video_packet_view (li_datagram i) of
            None \<Rightarrow> Some (s\<lparr>rl_metrics := l\<lparr>lm_rejected_datagrams := lm_rejected_datagrams l + 1\<rparr>\<rparr>)
          | Some f \<Rightarrow> on_fragment i f s)"

fun receiver_run :: "loop_input list \<Rightarrow> receiver_loop \<Rightarrow> receiver_loop option" where
  "receiver_run [] s = Some s"
| "receiver_run (i # is) s = (case receiver_iteration i s of None \<Rightarrow> None | Some s \<Rightarrow> receiver_run is s)"

section \<open>What the decoder may be given\<close>

definition input_epoch :: "decoder_input \<Rightarrow> u64" where
  "input_epoch d = stream_epoch (completed_identity (di_unit d))"

text \<open>
  The histories a decoder may see, over the fragments \<open>H\<close> that were received: a real key frame of an
  epoch above all before it, a key frame of the current epoch, or the unit that directly follows the
  one accepted last.
\<close>

inductive decoder_log :: "video_fragment set \<Rightarrow> (decoder_input \<times> bool) list \<Rightarrow> bool" for H where
  log_empty: "decoder_log H []"
| log_enter: "decoder_log H log \<Longrightarrow> assembled_from H (di_unit d) \<Longrightarrow> input_is_idr d \<Longrightarrow>
    \<not> completed_repeated (di_unit d) \<Longrightarrow> \<forall>(y, b) \<in> set log. input_epoch y < input_epoch d \<Longrightarrow>
    decoder_log H (log @ [(d, a)])"
| log_refresh: "decoder_log H (log @ [(y, b)]) \<Longrightarrow> assembled_from H (di_unit d) \<Longrightarrow> input_is_idr d \<Longrightarrow>
    input_epoch d = input_epoch y \<Longrightarrow> decoder_log H ((log @ [(y, b)]) @ [(d, a)])"
| log_continue: "decoder_log H (log @ [(y, True)]) \<Longrightarrow> assembled_from H (di_unit d) \<Longrightarrow>
    input_epoch d = input_epoch y \<Longrightarrow> advance_video_frame_sequence (input_sequence y) = Some (input_sequence d) \<Longrightarrow>
    decoder_log H ((log @ [(y, True)]) @ [(d, a)])"

lemma decoder_log_epochs:
  "decoder_log H log \<Longrightarrow> sorted (map (input_epoch \<circ> fst) log)"
  by (induction rule: decoder_log.induct) (auto simp: sorted_append intro: less_imp_le)

lemma decoder_log_last:
  assumes "decoder_log H (ys @ [(y, b)])" and "(z, c) \<in> set (ys @ [(y, b)])"
  shows "input_epoch z \<le> input_epoch y"
  using decoder_log_epochs [OF assms(1)] assms(2) by (auto simp: sorted_append)

section \<open>The invariant of the loop\<close>

definition units_ok ::
  "video_fragment set \<Rightarrow> reassembler \<Rightarrow> reassembler \<Rightarrow> u64 \<Rightarrow> epoch_session \<Rightarrow> bool" where
  "units_ok H active candidate candidate_epoch epochs \<longleftrightarrow>
     session_inv epochs \<and> reassembler_inv H active \<and> reassembler_inv H candidate \<and>
     active_epoch active = session_active epochs \<and>
     active_epoch candidate = (if candidate_epoch = 0 then None else Some candidate_epoch)"

definition log_ok ::
  "video_fragment set \<Rightarrow> epoch_session \<Rightarrow> receiver \<Rightarrow> (decoder_input \<times> bool) list \<Rightarrow> bool" where
  "log_ok H epochs v log \<longleftrightarrow>
     admission_ok v \<and> decoder_log H log \<and>
     (case session_active epochs of None \<Rightarrow> log = []
      | Some e \<Rightarrow> \<exists>ys y b. log = ys @ [(y, b)] \<and> input_epoch y = e) \<and>
     (\<forall>q. rs_last_accepted_sequence (rv_reference v) = Some q \<longrightarrow>
        (\<exists>ys y. log = ys @ [(y, True)] \<and> input_sequence y = q))"

definition pending_ok :: "video_fragment set \<Rightarrow> completed_access_unit option \<Rightarrow> bool" where
  "pending_ok H pending_idr \<longleftrightarrow>
     (\<forall>c. pending_idr = Some c \<longrightarrow> assembled_from H c \<and> \<not> completed_repeated c \<and>
        h264_access_unit_contains_idr (completed_bytes c))"

definition drops_attributed :: "receiver \<Rightarrow> loop_metrics \<Rightarrow> bool" where
  "drops_attributed v l \<longleftrightarrow>
     rm_decoder_accepted_access_units (rv_metrics v) + rm_dropped_access_units (rv_metrics v) =
       rm_reassembled_access_units (rv_metrics v) + lm_reassembly_incomplete_losses l +
       lm_reassembly_dependent_flushes l + lm_reference_resync_dependent_flushes l \<and>
     rm_resync_rejected_repeats (rv_metrics v) = 0"

text \<open>The submissions are numbered from one, and the accepted ones are counted.\<close>

definition log_counted :: "receiver \<Rightarrow> (decoder_input \<times> bool) list \<Rightarrow> bool" where
  "log_counted v log \<longleftrightarrow>
     rm_decoder_accepted_access_units (rv_metrics v) = of_nat (length (filter snd log)) \<and>
     rv_next_control_sequence v = of_nat (Suc (length log)) \<and>
     map (di_control_sequence \<circ> fst) log = map of_nat [1..<Suc (length log)]"

definition loop_inv :: "video_fragment set \<Rightarrow> u32 \<Rightarrow> receiver_loop \<Rightarrow> bool" where
  "loop_inv H x s \<longleftrightarrow>
     units_ok H (rl_active s) (rl_candidate s) (rl_candidate_epoch s) (rl_epochs s) \<and>
     log_ok H (rl_epochs s) (rl_receiver s) (rl_log s) \<and> pending_ok H (rl_pending_idr s) \<and>
     ss_expected_ipv4 (rl_source s) = x \<and> drops_attributed (rl_receiver s) (rl_metrics s) \<and>
     log_counted (rl_receiver s) (rl_log s)"

lemma new_reassembler_facts [simp]:
  "reassembler_inv H new_reassembler" "active_epoch new_reassembler = None"
  by (simp_all add: new_reassembler_def make_reassembler_inv) (simp add: make_reassembler_def)

lemma activate_new:
  assumes "valid_video_stream_epoch e"
  shows "reassembler_inv H (snd (activate_epoch e seed new_reassembler))"
    and "active_epoch (snd (activate_epoch e seed new_reassembler)) = Some e"
proof -
  show "reassembler_inv H (snd (activate_epoch e seed new_reassembler))"
    by (rule activate_epoch_inv [OF new_reassembler_facts(1) prod.collapse [symmetric]])
  show "active_epoch (snd (activate_epoch e seed new_reassembler)) = Some e"
    using assms by (simp add: activate_epoch_def is_retired_epoch_def new_reassembler_def make_reassembler_def)
qed

lemma rebuild_active_units:
  assumes "units_ok H a c ce (rl_epochs s)"
  shows "units_ok H (rl_active (rebuild_active_reassembler seed s)) c ce (rl_epochs s)"
  using assms activate_new
  by (auto simp: units_ok_def rebuild_active_reassembler_def session_inv_def split: option.splits)

lemma rebuild_active_fields [simp]:
  "rl_candidate (rebuild_active_reassembler seed s) = rl_candidate s"
  "rl_candidate_epoch (rebuild_active_reassembler seed s) = rl_candidate_epoch s"
  "rl_epochs (rebuild_active_reassembler seed s) = rl_epochs s"
  "rl_receiver (rebuild_active_reassembler seed s) = rl_receiver s"
  "rl_log (rebuild_active_reassembler seed s) = rl_log s"
  "rl_pending_idr (rebuild_active_reassembler seed s) = rl_pending_idr s"
  "rl_source (rebuild_active_reassembler seed s) = rl_source s"
  "rl_metrics (rebuild_active_reassembler seed s) = rl_metrics s"
  "rl_restart_pending (rebuild_active_reassembler seed s) = rl_restart_pending s"
  by (simp_all add: rebuild_active_reassembler_def)

lemma rebuild_active_inv [inv_intros]: "loop_inv H x s \<Longrightarrow> loop_inv H x (rebuild_active_reassembler seed s)"
  by (auto simp: loop_inv_def intro: rebuild_active_units)

lemma log_counted_fields [simp]:
  "log_counted (v\<lparr>rv_recovery := p\<rparr>) log = log_counted v log"
  "rm_decoder_accepted_access_units m = rm_decoder_accepted_access_units (rv_metrics v) \<Longrightarrow>
     log_counted (v\<lparr>rv_metrics := m\<rparr>) log = log_counted v log"
  "log_counted (require_reference_sync v) log = log_counted v log"
  by (simp_all add: log_counted_def)

lemma log_ok_fields [simp]:
  "log_ok H e (v\<lparr>rv_metrics := m\<rparr>) log = log_ok H e v log"
  "log_ok H e (v\<lparr>rv_recovery := p\<rparr>) log = log_ok H e v log"
  by (simp_all add: log_ok_def admission_ok_def)

lemma log_ok_sync: "log_ok H e v log \<Longrightarrow> log_ok H e (require_reference_sync v) log"
  by (simp add: log_ok_def)

text \<open>Operations that touch neither the streams nor the log.\<close>

lemma bookkeeping_inv [inv_intros]:
  assumes "loop_inv H x s"
  shows "loop_inv H x (loop_ended s)" "loop_inv H x (s\<lparr>rl_running := b\<rparr>)"
    "loop_inv H x (s\<lparr>rl_restart_ready := b\<rparr>)" "loop_inv H x (s\<lparr>rl_restart_pending := b, rl_restart_ready := b'\<rparr>)"
    "loop_inv H x (s\<lparr>rl_socket_errors := n\<rparr>)" "loop_inv H x (s\<lparr>rl_idr_destination := dest\<rparr>)"
    "loop_inv H x (s\<lparr>rl_pending_idr := None\<rparr>)" "loop_inv H x (count_candidate_rejection s)"
    "loop_inv H x (reset_recovery s)" "loop_inv H x (s\<lparr>rl_receiver := (rl_receiver s)\<lparr>rv_recovery := p\<rparr>\<rparr>)"
    "loop_inv H x (count_restart_failure s)" "loop_inv H x (set_loop_timeout i t s)"
    "loop_inv H x (loop_require_sync s)"
  using assms
  by (simp_all add: loop_inv_def loop_ended_def count_candidate_rejection_def reset_recovery_def
      count_restart_failure_def set_loop_timeout_def loop_require_sync_def drops_attributed_def
      pending_ok_def Let_def log_ok_sync)

lemma loop_request_idr_inv [inv_intros]:
  assumes "loop_inv H x s"
  shows "loop_inv H x (loop_request_idr i idle invalidate s)"
proof -
  define v where "v = (if invalidate then require_reference_sync (rl_receiver s) else rl_receiver s)"
  have v: "log_ok H (rl_epochs s) v (rl_log s)" "rv_metrics v = rv_metrics (rl_receiver s)"
    "log_counted v (rl_log s)"
    using assms by (simp_all add: v_def loop_inv_def log_ok_sync)
  obtain p m where "snd (receiver_request_idr (rl_idr_destination s \<noteq> None) (li_idr_sent i) (li_now i) True idle invalidate
      (rl_receiver s)) = v\<lparr>rv_metrics := m, rv_recovery := p\<rparr> \<and>
      rm_decoder_accepted_access_units m = rm_decoder_accepted_access_units (rv_metrics v) \<and>
      rm_dropped_access_units m = rm_dropped_access_units (rv_metrics v) \<and>
      rm_reassembled_access_units m = rm_reassembled_access_units (rv_metrics v) \<and>
      rm_resync_rejected_repeats m = rm_resync_rejected_repeats (rv_metrics v)"
  proof (cases "rl_idr_destination s \<noteq> None \<and> li_idr_sent i")
    case False
    then show ?thesis
      using that [of "rv_recovery v" "rv_metrics v"] by (auto simp: receiver_request_idr_def v_def Let_def)
  next
    case True
    then show ?thesis
      using that [of "if idle then mark_idle_idr_requested (li_now i) (rv_recovery v)
          else mark_idr_requested (li_now i) (rv_recovery v)"
        "(rv_metrics v)\<lparr>rm_idr_requests := rm_idr_requests (rv_metrics v) + 1,
          rm_recovery_idr_requests := rm_recovery_idr_requests (rv_metrics v) + 1\<rparr>"]
      by (simp add: receiver_request_idr_def v_def [symmetric] Let_def)
  qed
  then show ?thesis using assms v by (simp add: loop_request_idr_def loop_inv_def drops_attributed_def)
qed

lemma flush_active_inv [inv_intros]: "loop_inv H x s \<Longrightarrow> loop_inv H x (flush_active s)"
  unfolding flush_active_def
  by (rule rebuild_active_inv)
     (simp add: loop_inv_def count_flushed_def drops_attributed_def Let_def algebra_simps)

lemma flush_lost_inv [inv_intros]: "loop_inv H x s \<Longrightarrow> loop_inv H x (flush_lost losses n b s)"
  unfolding flush_lost_def Let_def
  by (intro rebuild_active_inv bookkeeping_inv(13))
     (simp add: loop_inv_def drops_attributed_def algebra_simps)

section \<open>Submissions\<close>

lemma submit_drops:
  assumes "drops_attributed v l" and "rm_reassembled_access_units (rv_metrics v') = rm_reassembled_access_units (rv_metrics v) + 1"
    and "rm_dropped_access_units (rv_metrics v') = rm_dropped_access_units (rv_metrics v) + (if a then 0 else 1)"
    and "rm_decoder_accepted_access_units (rv_metrics v') =
      rm_decoder_accepted_access_units (rv_metrics v) + (if a then 1 else 0)"
    and "rm_resync_rejected_repeats (rv_metrics v') = rm_resync_rejected_repeats (rv_metrics v)"
  shows "drops_attributed v' l"
  using assms by (cases a) (simp_all add: drops_attributed_def algebra_simps)

lemma loop_submit_cases:
  assumes "loop_submit c now answer s = (r, s')" and "admission_ok (rl_receiver s)"
    and "drops_attributed (rl_receiver s) (rl_metrics s)" and "log_counted (rl_receiver s) (rl_log s)"
  obtains (refused) v where "s' = s\<lparr>rl_receiver := v\<rparr>" "\<not> sub_accepted r" "admission_ok v"
      "rs_last_accepted_sequence (rv_reference v) = None" "drops_attributed v (rl_metrics s)"
      "log_counted v (rl_log s)"
      "\<not> h264_access_unit_contains_idr (completed_bytes c)"
  | (given) v d where "s' = s\<lparr>rl_receiver := v, rl_log := rl_log s @ [(d, sub_accepted r)]\<rparr>" "di_unit d = c"
      "admission_ok v" "drops_attributed v (rl_metrics s)"
      "input_is_idr d \<or> (\<exists>q. rs_last_accepted_sequence (rv_reference (rl_receiver s)) = Some q \<and>
         advance_video_frame_sequence q = Some (input_sequence d))"
      "rs_last_accepted_sequence (rv_reference v) = (if sub_accepted r then Some (input_sequence d) else None)"
      "log_counted v (rl_log s @ [(d, sub_accepted r)])"
proof -
  let ?a = "answer (rv_next_control_sequence (rl_receiver s))"
  obtain q input v where sub: "submit_completed_access_unit c now ?a (rl_receiver s) = (q, input, v)"
    by (metis prod_cases3)
  have r: "q = r" and s': "s' = s\<lparr>rl_receiver := v,
      rl_log := rl_log s @ (case input of None \<Rightarrow> [] | Some d \<Rightarrow> [(d, sub_accepted r)])\<rparr>"
    using assms(1) by (auto simp: loop_submit_def sub)
  from sub assms(2) show thesis
  proof (cases rule: submit_cases)
    case gate
    moreover from this have "log_counted v (rl_log s)" using assms(4) by (simp add: log_counted_def)
    ultimately show thesis
      using s' r submit_drops [OF assms(3), of v False] by (intro refused [of v]) simp_all
  next
    case (decoder d)
    moreover from this have "log_counted v (rl_log s @ [(d, sub_accepted r)])"
      using assms(4) r by (simp add: log_counted_def)
    ultimately show thesis
      using s' r submit_drops [OF assms(3), of v "da_accepted ?a"] by (intro given [of d v]) simp_all
  qed
qed

lemma loop_submit_inv:
  assumes "loop_inv H x s" and "loop_submit c now answer s = (r, s')" and "assembled_from H c"
    and "session_active (rl_epochs s) = Some (stream_epoch (completed_identity c))"
  shows "loop_inv H x s'"
proof -
  have inv: "admission_ok (rl_receiver s)" "drops_attributed (rl_receiver s) (rl_metrics s)"
    "log_counted (rl_receiver s) (rl_log s)" "decoder_log H (rl_log s)" "\<And>q. rs_last_accepted_sequence (rv_reference (rl_receiver s)) = Some q \<Longrightarrow>
        \<exists>ys y. rl_log s = ys @ [(y, True)] \<and> input_sequence y = q"
    using assms(1) by (auto simp: loop_inv_def log_ok_def)
  obtain ys y b where log: "rl_log s = ys @ [(y, b)]" and y: "input_epoch y = stream_epoch (completed_identity c)"
    using assms(1,4) by (auto simp: loop_inv_def log_ok_def)
  from assms(2) inv(1-3) show ?thesis
  proof (cases rule: loop_submit_cases)
    case (refused v)
    then show ?thesis using assms(1) by (simp add: loop_inv_def log_ok_def)
  next
    case (given v d)
    have d: "input_epoch d = input_epoch y" "assembled_from H (di_unit d)"
      using given(2) y assms(3) by (simp_all add: input_epoch_def)
    have "decoder_log H (rl_log s @ [(d, sub_accepted r)])"
    proof (cases "input_is_idr d")
      case True
      then show ?thesis using log_refresh [of H ys y b d] inv(4) d log by simp
    next
      case False
      then obtain q where "rs_last_accepted_sequence (rv_reference (rl_receiver s)) = Some q"
        "advance_video_frame_sequence q = Some (input_sequence d)" using given(5) by blast
      then show ?thesis using log_continue [of H ys y d] inv(4) inv(5) [of q] d log by auto
    qed
    then show ?thesis using assms(1) given(1,3,4,6,7) d y
      by (auto simp: loop_inv_def log_ok_def assms(4))
  qed
qed

lemma commit_facts:
  assumes "session_commit_candidate e b es = (True, es')"
  shows "session_active es' = Some e" and "\<And>a. session_active es = Some a \<Longrightarrow> a < e"
  using assms by (auto simp: session_commit_candidate_def Let_def split: if_splits option.splits)

text \<open>Entering an epoch: the gate has committed it, and the key frame that completed it is submitted.\<close>

lemma enter_epoch_inv:
  assumes "loop_inv H x s" and commit: "session_commit_candidate (stream_epoch (completed_identity c)) True (rl_epochs s) = (True, es)"
    and "assembled_from H c" "\<not> completed_repeated c" "h264_access_unit_contains_idr (completed_bytes c)"
    and "loop_submit c now answer (loop_require_sync (reset_recovery
        (rebuild_active_reassembler seed (s\<lparr>rl_epochs := es\<rparr>)))) = (r, s')"
  shows "loop_inv H x s'"
proof -
  let ?t = "loop_require_sync (reset_recovery (rebuild_active_reassembler seed (s\<lparr>rl_epochs := es\<rparr>)))"
  note active = commit_facts [OF commit]
  have es: "session_inv es"
    using session_handle_inv [of "rl_epochs s" "Commit (stream_epoch (completed_identity c)) True"] commit assms(1)
    by (simp add: loop_inv_def units_ok_def)
  have t: "rl_log ?t = rl_log s" "rl_epochs ?t = es" "rl_metrics ?t = rl_metrics s" "rl_source ?t = rl_source s"
    "rl_pending_idr ?t = rl_pending_idr s" "rl_candidate ?t = rl_candidate s"
    "rl_candidate_epoch ?t = rl_candidate_epoch s"
    "rl_receiver ?t = require_reference_sync ((rl_receiver s)\<lparr>rv_recovery := reset_recovery_policy\<rparr>)"
    "rl_active ?t = snd (activate_epoch (stream_epoch (completed_identity c)) seed new_reassembler)"
    by (simp_all add: loop_require_sync_def reset_recovery_def)
       (simp add: rebuild_active_reassembler_def active)
  have valid: "valid_video_stream_epoch (stream_epoch (completed_identity c))"
    using es active(1) by (simp add: session_inv_def)
  have units: "units_ok H (rl_active ?t) (rl_candidate ?t) (rl_candidate_epoch ?t) (rl_epochs ?t)"
    using assms(1) activate_new [OF valid] es active(1) unfolding t by (simp add: loop_inv_def units_ok_def)
  have below: "\<forall>(y, b) \<in> set (rl_log s). input_epoch y < stream_epoch (completed_identity c)"
  proof (cases "session_active (rl_epochs s)")
    case None
    then show ?thesis using assms(1) by (simp add: loop_inv_def log_ok_def)
  next
    case (Some a)
    then obtain ys y b where "rl_log s = ys @ [(y, b)]" "input_epoch y = a" "decoder_log H (ys @ [(y, b)])"
      using assms(1) by (auto simp: loop_inv_def log_ok_def)
    then show ?thesis using decoder_log_last [of H ys y b] active(2) [OF Some] by fastforce
  qed
  have adm: "admission_ok (rl_receiver ?t)" "drops_attributed (rl_receiver ?t) (rl_metrics ?t)"
    "log_counted (rl_receiver ?t) (rl_log ?t)"
    using assms(1) unfolding t by (simp_all add: loop_inv_def drops_attributed_def)
  from assms(6) adm show ?thesis
  proof (cases rule: loop_submit_cases)
    case (given v d)
    have "input_is_idr d" "input_epoch d = stream_epoch (completed_identity c)"
      using given(2) assms(5) by (simp_all add: input_is_idr_def input_epoch_def)
    moreover from this have "decoder_log H (rl_log s @ [(d, sub_accepted r)])"
      using log_enter [of H "rl_log s" d] assms(1,3,4) below given(2) by (simp add: loop_inv_def log_ok_def)
    ultimately show ?thesis
      using assms(1) given(1,3,4,6,7) units active(1) by (auto simp: loop_inv_def log_ok_def t)
  qed (use assms(5) in simp)
qed

section \<open>Reassembly inside one epoch\<close>

lemma trim_loop_epoch: "trim_loop r = Some r' \<Longrightarrow> active_epoch r' = active_epoch r"
proof (induction r rule: trim_loop.induct)
  case (1 r)
  show ?case
  proof (cases "over_limits r \<and> pending r \<noteq> []")
    case True
    then have "active_epoch r' = active_epoch (discard_oldest r)"
      using 1 by (simp add: trim_loop.simps [of r])
    then show ?thesis by (simp add: discard_oldest_def split: option.splits prod.splits)
  next
    case False
    then show ?thesis using 1(2) by (simp add: trim_loop.simps [of r] split: if_splits)
  qed
qed

lemma pop_completed_epoch: "pop_completed r = (c, r') \<Longrightarrow> active_epoch r' = active_epoch r"
  by (erule pop_completed_cases) simp_all

lemma store_fragment_epoch:
  "store_fragment q p k payload owned r = Some (c, r') \<Longrightarrow> active_epoch r' = active_epoch r"
  by (auto simp: store_fragment_def Let_def split: if_splits dest!: trim_loop_epoch dest: pop_completed_epoch)

lemma try_emplace_epoch: "try_emplace q rep n now r = (p, r') \<Longrightarrow> active_epoch r' = active_epoch r"
  by (auto simp: try_emplace_def Let_def split: option.splits)

lemma push_frame_epoch:
  assumes "push_frame q rep k n payload owned dup now r = Some (c, r')"
  shows "active_epoch r' = active_epoch r"
proof -
  obtain p t where emplace: "try_emplace q rep n now r = (p, t)" by fastforce
  note t = try_emplace_epoch [OF emplace]
  from assms show ?thesis
    unfolding push_frame_def emplace
    by (auto simp: t split: if_splits dest: pop_completed_epoch store_fragment_epoch)
qed

lemma push_view_ok:
  assumes "reassembler_inv H r" and "active_epoch r = Some e" and "f \<in> H"
  obtains c r' where "push_view f now r = Some (c, r')" "reassembler_inv H r'" "active_epoch r' = Some e"
    "\<And>a. c = Some a \<Longrightarrow> assembled_from H a \<and> stream_epoch (completed_identity a) = e"
proof -
  obtain c r' where run: "push_view f now r = Some (c, r')" and settles: "settles H r c r'"
    using push_payload_settles [OF assms(1,3)] unfolding push_view_def by blast
  have ep: "active_epoch r' = Some e"
    using run assms(2)
    by (auto simp: push_view_def push_payload_def split: if_splits dest: pop_completed_epoch push_frame_epoch)
  have "assembled_from H a \<and> stream_epoch (completed_identity a) = e" if "c = Some a" for a
    using settles_outcome(2) [OF settles that] settles that pop_completed_follows(2) [of _ a r'] ep
    by (auto simp: settles_def)
  with run ep settles_inv [OF settles] show thesis by (intro that)
qed

lemma discard_expired_ok:
  assumes "reassembler_inv H r" and "discard_expired now ttl r = (n, r')"
  shows "reassembler_inv H r'" and "active_epoch r' = active_epoch r"
  using expire_frames_inv [OF assms(1)] assms(2) by (auto simp: discard_expired_def)

text \<open>Replacing one of the reassemblers by another state of the same epoch.\<close>

lemma replace_active_inv:
  "loop_inv H x s \<Longrightarrow> reassembler_inv H r \<Longrightarrow> active_epoch r = active_epoch (rl_active s) \<Longrightarrow>
     loop_inv H x (s\<lparr>rl_active := r\<rparr>)"
  by (simp add: loop_inv_def units_ok_def)

lemma replace_candidate_inv:
  "loop_inv H x s \<Longrightarrow> reassembler_inv H r \<Longrightarrow> active_epoch r = active_epoch (rl_candidate s) \<Longrightarrow>
     loop_inv H x (s\<lparr>rl_candidate := r\<rparr>)"
  by (simp add: loop_inv_def units_ok_def)

lemma rebuild_candidate_inv [inv_intros]:
  assumes "loop_inv H x s" and "valid_video_stream_epoch e"
  shows "loop_inv H x (rebuild_candidate_reassembler e s)"
  using assms activate_new [OF assms(2)]
  by (simp add: loop_inv_def units_ok_def rebuild_candidate_reassembler_def valid_video_stream_epoch_def)

lemma loop_submit_epochs: "loop_submit c now answer s = (r, s') \<Longrightarrow> rl_epochs s' = rl_epochs s \<and> rl_active s' = rl_active s"
  by (auto simp: loop_submit_def split: prod.splits)

lemma drain_completed_inv:
  assumes "loop_inv H x s" and "\<And>a. c = Some a \<Longrightarrow> assembled_from H a \<and>
      session_active (rl_epochs s) = Some (stream_epoch (completed_identity a))"
    and "drain_completed now answer c flags s = (flags', s')"
  shows "loop_inv H x s'"
  using assms
proof (induction now answer c flags s rule: drain_completed.induct)
  case (1 now answer flags s)
  then show ?case by (simp add: drain_completed.simps)
next
  case (2 now answer c fresh failed fatal s)
  obtain sub t where sub: "loop_submit c now answer s = (sub, t)" by fastforce
  have t: "loop_inv H x t" using loop_submit_inv [OF 2(2) sub] 2(3) by simp
  show ?case
  proof (cases "sub_accepted sub")
    case False
    then show ?thesis using 2(4) t by (simp add: drain_completed.simps sub)
  next
    case True
    obtain c' r where pop: "pop_completed (rl_active t) = (c', r)" by fastforce
    have r: "reassembler_inv H (rl_active t)" "active_epoch (rl_active t) = session_active (rl_epochs t)"
      using t by (simp_all add: loop_inv_def units_ok_def)
    have "loop_inv H x (t\<lparr>rl_active := r\<rparr>)"
      using replace_active_inv [OF t] pop_completed_inv [OF r(1) pop] pop_completed_epoch [OF pop] by simp
    moreover have "assembled_from H a \<and> session_active (rl_epochs t) = Some (stream_epoch (completed_identity a))"
      if "c' = Some a" for a
      using that pop pop_completed_assembled [OF r(1)] pop_completed_follows(2) [of "rl_active t" a r]
        pop_completed_epoch [OF pop] r(2) by simp
    ultimately show ?thesis
      using 2(1) [OF sub [symmetric] refl refl refl refl] 2(4) True sub pop
      by (simp add: drain_completed.simps)
  qed
qed

section \<open>Every iteration keeps the invariant\<close>

lemma commit_refused: "session_commit_candidate e b es = (False, es') \<Longrightarrow> es' = es"
  by (auto simp: session_commit_candidate_def Let_def split: if_splits)

lemma settled_inv:
  "loop_inv H x s \<Longrightarrow> loop_inv H x (s\<lparr>rl_pending_idr := None, rl_restart_ready := b, rl_restart_pending := b'\<rparr>)"
  "loop_inv H x s \<Longrightarrow> loop_inv H x (s\<lparr>rl_metrics := (rl_metrics s)\<lparr>lm_source_restart_successes := n\<rparr>\<rparr>)"
  by (simp_all add: loop_inv_def pending_ok_def drops_attributed_def)

lemma commit_restarted_inv:
  assumes "loop_inv H x s" and run: "commit_restarted_candidate now answer s = (b, s')"
  shows "loop_inv H x s'"
proof (cases "rl_pending_idr s")
  case None
  then show ?thesis using assms by (simp add: commit_restarted_candidate_def)
next
  case (Some c)
  obtain ok es where commit: "session_commit_candidate (stream_epoch (completed_identity c)) True (rl_epochs s) = (ok, es)"
    by fastforce
  have c: "assembled_from H c" "\<not> completed_repeated c" "h264_access_unit_contains_idr (completed_bytes c)"
    using assms(1) Some by (auto simp: loop_inv_def pending_ok_def)
  let ?t = "loop_require_sync (reset_recovery (rebuild_active_reassembler
      (Some (frame_sequence (completed_identity c))) (s\<lparr>rl_epochs := es\<rparr>)))"
  obtain sub t where sub: "loop_submit c now answer ?t = (sub, t)" by fastforce
  show ?thesis
  proof (cases "rl_restart_ready s \<and> ok")
    case True
    then have "loop_inv H x t" using enter_epoch_inv [OF assms(1) _ c sub] commit by simp
    note w = settled_inv(1) [OF this, of False False]
    define w where "w = t\<lparr>rl_pending_idr := None, rl_restart_ready := False, rl_restart_pending := False\<rparr>"
    have "s' = count_restart_failure w \<or> s' = w\<lparr>rl_metrics := (rl_metrics w)
        \<lparr>lm_source_restart_successes := lm_source_restart_successes (rl_metrics w) + 1\<rparr>\<rparr>"
      using run True Some commit sub
      by (auto simp: commit_restarted_candidate_def w_def [symmetric] Let_def split: if_splits)
    then show ?thesis using w bookkeeping_inv(11) [of H x w] settled_inv(2) [of H x w] by (auto simp: w_def)
  next
    case False
    have "es = rl_epochs s" if "\<not> ok" using commit_refused commit that by simp
    then show ?thesis
      using run assms(1) Some commit False
      by (cases ok) (auto simp: commit_restarted_candidate_def split: if_splits intro!: bookkeeping_inv)
  qed
qed

lemma poll_restart_inv:
  assumes "loop_inv H x s" and "poll_restart i s = (b, s')"
  shows "loop_inv H x s'"
  using assms commit_restarted_inv [OF bookkeeping_inv(3) [OF assms(1), of True]]
  by (auto simp: poll_restart_def split: if_splits option.splits intro: bookkeeping_inv)

lemma timeout_counted_inv:
  "loop_inv H x s \<Longrightarrow> loop_inv H x (s\<lparr>rl_socket_errors := n, rl_metrics := (rl_metrics s)\<lparr>lm_receiver_timeouts := k\<rparr>\<rparr>)"
  "loop_inv H x s \<Longrightarrow> loop_inv H x (s\<lparr>rl_metrics := (rl_metrics s)\<lparr>lm_fatal_socket_errors := k\<rparr>, rl_socket_errors := n\<rparr>)"
  by (simp_all add: loop_inv_def drops_attributed_def)

lemma on_no_datagram_inv: "loop_inv H x s \<Longrightarrow> loop_inv H x (on_no_datagram i s)"
  unfolding on_no_datagram_def Let_def
  by (auto split: receive_errno.split
      intro!: bookkeeping_inv timeout_counted_inv loop_request_idr_inv flush_active_inv)

lemma reject_candidate_inv:
  "loop_inv H x s \<Longrightarrow> valid_video_stream_epoch e \<Longrightarrow> loop_inv H x (reject_candidate_unit i e s)"
  by (simp add: reject_candidate_unit_def loop_request_idr_inv rebuild_candidate_inv bookkeeping_inv)

lemma on_candidate_unit_inv:
  assumes "loop_inv H x s" and "stream_epoch (completed_identity c) = e"
    and c: "assembled_from H c" "\<not> completed_repeated c" "h264_access_unit_contains_idr (completed_bytes c)"
  shows "loop_inv H x (on_candidate_unit i e c s)"
proof (cases "session_active (rl_epochs s) = None")
  case True
  obtain ok es where commit: "session_commit_candidate e True (rl_epochs s) = (ok, es)" by fastforce
  let ?t = "loop_require_sync (reset_recovery (rebuild_active_reassembler
      (Some (frame_sequence (completed_identity c))) (s\<lparr>rl_epochs := es\<rparr>)))"
  obtain sub t where sub: "loop_submit c (li_now i) (li_answer i) ?t = (sub, t)" by fastforce
  show ?thesis
  proof (cases ok)
    case ok: True
    then have "loop_inv H x t" using enter_epoch_inv [OF assms(1) _ c sub] commit assms(2) by simp
    then show ?thesis using True ok commit sub by (simp add: on_candidate_unit_def bookkeeping_inv)
  next
    case False
    then show ?thesis
      using True commit commit_refused [of e True "rl_epochs s" es] assms(1)
      by (simp add: on_candidate_unit_def bookkeeping_inv)
  qed
next
  case False
  define t where "t = s\<lparr>rl_pending_idr := Some c\<rparr>"
  have t: "loop_inv H x t" using assms(1) c by (simp add: t_def loop_inv_def pending_ok_def)
  define u where "u = (if rl_restart_pending t then t
      else (loop_require_sync t)\<lparr>rl_restart_pending := True, rl_restart_ready := False\<rparr>)"
  have u: "loop_inv H x u" using bookkeeping_inv(4) [OF bookkeeping_inv(13) [OF t]] t by (simp add: u_def)
  obtain b w where w: "commit_restarted_candidate (li_now i) (li_answer i) u = (b, w)" by fastforce
  have "on_candidate_unit i e c s = (if \<not> rl_restart_pending t \<and> \<not> li_restart_started i
      then loop_ended (count_restart_failure (loop_require_sync t)) else if \<not> b then loop_ended w else w)"
    unfolding on_candidate_unit_def Let_def if_not_P [OF False] t_def [symmetric] u_def [symmetric]
    by (simp add: w)
  then show ?thesis using t commit_restarted_inv [OF u w] by (simp add: bookkeeping_inv)
qed

lemma on_candidate_fragment_inv:
  assumes "loop_inv H x s" and "f \<in> H" and valid: "valid_video_stream_epoch (stream_epoch (identity f))"
  shows "\<exists>s'. on_candidate_fragment i f s = Some s' \<and> loop_inv H x s'"
proof -
  let ?e = "stream_epoch (identity f)"
  define t where "t = (if rl_candidate_epoch s \<noteq> ?e
      then (rebuild_candidate_reassembler ?e s)\<lparr>rl_pending_idr := None\<rparr> else s)"
  have t: "loop_inv H x t" "rl_candidate_epoch t = ?e"
    using assms(1) rebuild_candidate_inv [OF assms(1) valid] bookkeeping_inv(7)
    by (auto simp: t_def rebuild_candidate_reassembler_def)
  have cand: "reassembler_inv H (rl_candidate t)" "active_epoch (rl_candidate t) = Some ?e"
    using t valid by (auto simp: loop_inv_def units_ok_def valid_video_stream_epoch_def)
  obtain c r where push: "push_view f (li_now i) (rl_candidate t) = Some (c, r)" and r: "reassembler_inv H r"
    "active_epoch r = Some ?e" and unit: "\<And>a. c = Some a \<Longrightarrow> assembled_from H a \<and> stream_epoch (completed_identity a) = ?e"
    using push_view_ok [OF cand assms(2)] by metis
  obtain n q where d: "discard_expired (li_now i) kAccessUnitReassemblyTtlUs r = (n, q)" by fastforce
  have u: "loop_inv H x (t\<lparr>rl_candidate := q\<rparr>)"
    using replace_candidate_inv [OF t(1)] discard_expired_ok [OF r(1) d] r(2) cand(2) by simp
  have run: "on_candidate_fragment i f s = Some (
      if incomplete_access_unit_losses q \<noteq> incomplete_access_unit_losses (rl_candidate t)
      then reject_candidate_unit i ?e (t\<lparr>rl_candidate := q\<rparr>)
      else case c of None \<Rightarrow> t\<lparr>rl_candidate := q\<rparr>
        | Some a \<Rightarrow> if completed_repeated a \<or> \<not> h264_access_unit_contains_idr (completed_bytes a)
            then reject_candidate_unit i ?e (t\<lparr>rl_candidate := q\<rparr>)
            else on_candidate_unit i ?e a (t\<lparr>rl_candidate := q\<rparr>))"
    unfolding on_candidate_fragment_def Let_def t_def [symmetric] push by (simp add: d)
  show ?thesis
    unfolding run using u reject_candidate_inv [OF u valid] on_candidate_unit_inv [OF u] unit
    by (auto split: option.split)
qed

lemma observe_loop_fragment_inv: "loop_inv H x s \<Longrightarrow> loop_inv H x (observe_loop_fragment i a b c s)"
  by (auto simp: observe_loop_fragment_def Let_def split: prod.split
      intro!: loop_request_idr_inv flush_active_inv bookkeeping_inv)

lemma flush_lost_epochs [simp]: "rl_epochs (flush_lost losses n b s) = rl_epochs s"
  by (simp add: flush_lost_def loop_require_sync_def Let_def)

lemma on_active_fragment_inv:
  assumes "loop_inv H x s" and "f \<in> H" and act: "session_active (rl_epochs s) = Some (stream_epoch (identity f))"
  shows "\<exists>s'. on_active_fragment i f port_restarted s = Some s' \<and> loop_inv H x s'"
proof (cases "rl_restart_pending s")
  case True
  then show ?thesis using assms(1) by (simp add: on_active_fragment_def)
next
  case False
  let ?e = "stream_epoch (identity f)"
  have a: "reassembler_inv H (rl_active s)" "active_epoch (rl_active s) = Some ?e"
    using assms(1) act by (simp_all add: loop_inv_def units_ok_def)
  obtain c r where push: "push_view f (li_now i) (rl_active s) = Some (c, r)" and r: "reassembler_inv H r"
    "active_epoch r = Some ?e" and unit: "\<And>a. c = Some a \<Longrightarrow> assembled_from H a \<and> stream_epoch (completed_identity a) = ?e"
    using push_view_ok [OF a assms(2)] by metis
  obtain n q where d: "discard_expired (li_now i) kAccessUnitReassemblyTtlUs r = (n, q)" by fastforce
  define losses where "losses = incomplete_access_unit_losses q - incomplete_access_unit_losses (rl_active s)"
  define t where "t = s\<lparr>rl_active := q\<rparr>"
  have t: "loop_inv H x t"
    using replace_active_inv [OF assms(1)] discard_expired_ok [OF r(1) d] r(2) a(2) by (simp add: t_def)
  define c' where "c' = (if losses \<noteq> 0 then None else c)"
  define u where "u = (if losses \<noteq> 0 then flush_lost losses n (c \<noteq> None) t else t)"
  have u: "loop_inv H x u" "rl_epochs u = rl_epochs s"
    using t flush_lost_inv [OF t] by (simp_all add: u_def t_def)
  obtain fresh failed fatal w where w: "drain_completed (li_now i) (li_answer i) c' (False, False, False) u =
      ((fresh, failed, fatal), w)" by (metis prod_cases3 surj_pair)
  have inv: "loop_inv H x w"
  proof (rule drain_completed_inv [OF u(1) _ w])
    fix a assume "c' = Some a"
    then have "c = Some a" by (simp add: c'_def split: if_splits)
    then show "assembled_from H a \<and> session_active (rl_epochs u) = Some (stream_epoch (completed_identity a))"
      using unit act u(2) by simp
  qed
  have "on_active_fragment i f port_restarted s = Some (if fatal then loop_ended w
      else observe_loop_fragment i fresh port_restarted (losses \<noteq> 0 \<or> failed)
        (if failed then flush_active w else w))"
  proof -
    have pair: "(if losses \<noteq> 0 then (None, flush_lost losses n (c \<noteq> None) t) else (c, t)) = (c', u)"
      by (simp add: c'_def u_def)
    show ?thesis
      unfolding on_active_fragment_def if_not_P [OF False] Let_def push option.case prod.case d
        losses_def [symmetric] t_def [symmetric] pair w by (simp add: Let_def)
  qed
  then show ?thesis
    using inv by (auto intro!: observe_loop_fragment_inv flush_active_inv bookkeeping_inv)
qed

lemma observe_session:
  assumes "session_observe e es = (d, es')"
  shows "session_active es' = session_active es" "session_inv es \<Longrightarrow> session_inv es'"
    "d = EpochCandidate \<Longrightarrow> valid_video_stream_epoch e" "d = EpochActive \<Longrightarrow> session_active es = Some e"
  using assms session_handle_inv [of es "Observe e"]
  by (auto simp: session_observe_def split: if_splits option.splits)

lemma observe_epoch_inv:
  assumes "loop_inv H x s" and "session_observe e (rl_epochs s) = (d, es)"
  shows "loop_inv H x (s\<lparr>rl_epochs := es\<rparr>)"
  using assms observe_session [OF assms(2)] by (simp add: loop_inv_def units_ok_def log_ok_def)

lemma counted_inv:
  assumes "loop_inv H x s"
  shows "loop_inv H x (s\<lparr>rl_metrics := (rl_metrics s)\<lparr>lm_foreign_source_datagrams := k\<rparr>\<rparr>)"
    "loop_inv H x (s\<lparr>rl_metrics := (rl_metrics s)\<lparr>lm_rejected_datagrams := k\<rparr>\<rparr>)"
    "loop_inv H x (s\<lparr>rl_metrics := (rl_metrics s)\<lparr>lm_retired_epoch_datagrams := k\<rparr>\<rparr>)"
  using assms by (simp_all add: loop_inv_def drops_attributed_def)

lemma observe_source_facts:
  assumes "observe_source ip port now src = (d, src')"
  shows "ss_expected_ipv4 src' = ss_expected_ipv4 src"
    "d \<noteq> RejectForeign \<Longrightarrow> ip = ss_expected_ipv4 src \<and> ip \<noteq> 0"
  using assms by (auto simp: observe_source_def split: if_splits)

text \<open>The fragments an iteration's datagram brings from the expected host.\<close>

definition host_fragments :: "u32 \<Rightarrow> loop_input \<Rightarrow> video_fragment set" where
  "host_fragments expected i =
     {f. decode_video_packet_view (li_datagram i) = Some f \<and> li_sender_ipv4 i = expected \<and> expected \<noteq> 0}"

lemma on_fragment_inv:
  assumes "loop_inv H x s" and "decode_video_packet_view (li_datagram i) = Some f" and "host_fragments x i \<subseteq> H"
  shows "\<exists>s'. on_fragment i f s = Some s' \<and> loop_inv H x s'"
proof -
  obtain d src where src: "observe_source (li_sender_ipv4 i) (li_sender_port i) (li_now i) (rl_source s) = (d, src)"
    by fastforce
  note facts = observe_source_facts [OF src]
  have x: "ss_expected_ipv4 (rl_source s) = x" using assms(1) by (simp add: loop_inv_def)
  define t where "t = s\<lparr>rl_source := src\<rparr>"
  have t: "loop_inv H x t" using assms(1) facts(1) by (simp add: t_def loop_inv_def)
  show ?thesis
  proof (cases "d = RejectForeign")
    case True
    then show ?thesis
      unfolding on_fragment_def Let_def src prod.case t_def [symmetric]
      using counted_inv(1) [OF t] by simp
  next
    case False
    then have f: "f \<in> H" using assms(2,3) facts(2) x by (auto simp: host_fragments_def)
    define l where "l = (if d = RestartSourcePort then (rl_metrics t)\<lparr>lm_source_changes := lm_source_changes (rl_metrics t) + 1\<rparr>
        else rl_metrics t)"
    define u where "u = (set_loop_timeout i kInitialReceiveTimeoutUs
        (t\<lparr>rl_metrics := l\<lparr>lm_accepted_datagrams := lm_accepted_datagrams l + 1,
             lm_accepted_bytes := lm_accepted_bytes l + of_nat (length (li_datagram i))\<rparr>,
           rl_last_accepted_us := li_now i\<rparr>))\<lparr>rl_idr_destination := Some (li_sender_ipv4 i)\<rparr>"
    have u: "loop_inv H x u"
      unfolding u_def by (intro bookkeeping_inv) (use t in \<open>simp add: l_def loop_inv_def drops_attributed_def\<close>)
    obtain o' es where obs: "session_observe (stream_epoch (identity f)) (rl_epochs u) = (o', es)" by fastforce
    note of = observe_session [OF obs]
    define w where "w = u\<lparr>rl_epochs := es\<rparr>"
    have w: "loop_inv H x w" using observe_epoch_inv [OF u obs] by (simp add: w_def)
    have run: "on_fragment i f s = (case o' of
        EpochInvalid \<Rightarrow> Some (w\<lparr>rl_metrics := (rl_metrics w)\<lparr>lm_rejected_datagrams := lm_rejected_datagrams (rl_metrics w) + 1\<rparr>\<rparr>)
      | EpochRetired \<Rightarrow> Some (w\<lparr>rl_metrics := (rl_metrics w)\<lparr>lm_retired_epoch_datagrams := lm_retired_epoch_datagrams (rl_metrics w) + 1\<rparr>\<rparr>)
      | EpochCandidate \<Rightarrow> on_candidate_fragment i f w
      | EpochActive \<Rightarrow> on_active_fragment i f (d = RestartSourcePort) w)"
      unfolding on_fragment_def Let_def src prod.case t_def [symmetric] if_not_P [OF False] l_def [symmetric]
        u_def [symmetric] obs w_def [symmetric] ..
    show ?thesis
      unfolding run
      using counted_inv [OF w] on_candidate_fragment_inv [OF w f] on_active_fragment_inv [OF w f] of
      by (cases o') (auto simp: w_def)
  qed
qed

lemma receiver_iteration_inv:
  assumes "loop_inv H x s" and "host_fragments x i \<subseteq> H"
  shows "\<exists>s'. receiver_iteration i s = Some s' \<and> loop_inv H x s'"
proof -
  obtain b t where poll: "poll_restart i (s\<lparr>rl_running := li_running i\<rparr>) = (b, t)" by fastforce
  have t: "loop_inv H x t" using poll_restart_inv [OF bookkeeping_inv(2) [OF assms(1)] poll] .
  note e = bookkeeping_inv(5) [OF t, of 0]
  show ?thesis
  proof (cases "rl_running s \<and> b \<and> li_datagram i \<noteq> []")
    case False
    then show ?thesis
      using assms(1) poll t by (auto simp: receiver_iteration_def intro: bookkeeping_inv on_no_datagram_inv)
  next
    case True
    then show ?thesis
      using poll counted_inv(2) [OF e] on_fragment_inv [OF e _ assms(2)]
      by (auto simp: receiver_iteration_def Let_def split: option.split)
  qed
qed

lemma receiver_run_inv:
  "loop_inv H x s \<Longrightarrow> \<forall>i \<in> set inputs. host_fragments x i \<subseteq> H \<Longrightarrow>
     \<exists>s'. receiver_run inputs s = Some s' \<and> loop_inv H x s'"
proof (induction inputs arbitrary: s)
  case (Cons i inputs)
  then obtain t where "receiver_iteration i s = Some t" "loop_inv H x t"
    using receiver_iteration_inv [of H x s i] by auto
  then show ?case using Cons.IH [of t] Cons.prems(2) by simp
qed simp

lemma start_loop_inv: "loop_inv H x (start_loop x now)"
  by (simp add: loop_inv_def start_loop_def units_ok_def log_ok_def pending_ok_def drops_attributed_def
      make_epoch_session_def session_inv_def reset_source_session_def log_empty start_receiver_ok log_counted_def)
     (simp add: start_receiver_def initial_reference_sync_def reset_receiver_metrics_def reset_loop_metrics_def)

text \<open>
  C26. Whatever the socket delivers, however long the receiver runs and whatever the decoder answers, the
  worker loop gets through every iteration, and afterwards: what the decoder was given is a history
  it may see, of units assembled from fragments that came in datagrams from the expected host, each
  a key frame, or the direct successor, in the same stream epoch, of the unit it accepted last, in
  epochs that never go back and are entered with a real key frame; and every unit counted as dropped
  is attributed to a refused submission, a reassembly loss, or the flush of what depended on one. The
  submissions are numbered 1, 2, 3 and so on, and the acceptances counted.
\<close>

theorem receiver_decodes_chain:
  "\<exists>s. receiver_run inputs (start_loop expected now) = Some s \<and>
     decoder_log (\<Union> (host_fragments expected ` set inputs)) (rl_log s) \<and>
     sorted (map (input_epoch \<circ> fst) (rl_log s)) \<and>
     rm_dropped_access_units (rv_metrics (rl_receiver s)) =
       (rm_reassembled_access_units (rv_metrics (rl_receiver s)) -
        rm_decoder_accepted_access_units (rv_metrics (rl_receiver s))) +
       lm_reassembly_incomplete_losses (rl_metrics s) + lm_reassembly_dependent_flushes (rl_metrics s) +
       lm_reference_resync_dependent_flushes (rl_metrics s) \<and>
     rm_resync_rejected_repeats (rv_metrics (rl_receiver s)) = 0 \<and>
     rm_decoder_accepted_access_units (rv_metrics (rl_receiver s)) = of_nat (length (filter snd (rl_log s))) \<and>
     map (di_control_sequence \<circ> fst) (rl_log s) = map of_nat [1..<Suc (length (rl_log s))]"
proof -
  let ?H = "\<Union> (host_fragments expected ` set inputs)"
  obtain s where "receiver_run inputs (start_loop expected now) = Some s" and s: "loop_inv ?H expected s"
    using receiver_run_inv [OF start_loop_inv, of inputs expected ?H now] by auto
  moreover have "decoder_log ?H (rl_log s)" using s by (simp add: loop_inv_def log_ok_def)
  ultimately show ?thesis
    using s decoder_log_epochs [of ?H "rl_log s"]
    by (intro exI [of _ s]) (simp add: loop_inv_def drops_attributed_def log_counted_def algebra_simps)
qed

section \<open>A concrete run\<close>

definition sample_fragment :: "u32 \<Rightarrow> bytes \<Rightarrow> video_fragment" where
  "sample_fragment q unit = \<lparr>identity = \<lparr>stream_epoch = 5, frame_sequence = q\<rparr>,
     repeated_content = False, fragment_index = 0, fragment_count = 1, access_unit_part = unit\<rparr>"

definition sample_input :: "video_fragment \<Rightarrow> loop_input" where
  "sample_input f = \<lparr>li_datagram = encode_video_packet f, li_errno = Errno_Again, li_sender_ipv4 = 1,
     li_sender_port = 9, li_now = 100, li_running = True, li_restart_completion = None,
     li_restart_timed_out = False, li_restart_started = True, li_timeout_set = True, li_idr_sent = True,
     li_answer = (\<lambda>_. \<lparr>da_accepted = True, da_restart_timed_out = False, da_fatal = False\<rparr>)\<rparr>"

definition key_unit :: bytes where "key_unit = [0, 0, 0, 1, 0x65, 1]"
definition delta_unit :: bytes where "delta_unit = [0, 0, 0, 1, 0x41, 1]"

lemma sample_units:
  "h264_access_unit_contains_idr key_unit" "\<not> h264_access_unit_contains_idr delta_unit"
  "length key_unit = 6" "length delta_unit = 6" "key_unit \<noteq> []" "delta_unit \<noteq> []"
  by code_simp+

lemma sample_fragment_ok: "length u = 6 \<Longrightarrow> fragment_ok (sample_fragment q u)"
  by (simp add: sample_fragment_def valid_video_fragment_metadata_def const_defs identity_valid_def
      valid_video_stream_epoch_def kVideoStreamEpochMax_def)

lemma sample_decode:
  assumes "length u = 6"
  shows "decode_video_packet_view (encode_video_packet (sample_fragment q u)) = Some (sample_fragment q u)"
    "encode_video_packet (sample_fragment q u) \<noteq> []"
proof -
  have "access_unit_part (sample_fragment q u) \<noteq> []" using assms by (auto simp: sample_fragment_def)
  then show "decode_video_packet_view (encode_video_packet (sample_fragment q u)) = Some (sample_fragment q u)"
    "encode_video_packet (sample_fragment q u) \<noteq> []"
    using sample_fragment_ok [OF assms, of q] by (simp_all add: encode_eq decode_header)
qed

lemma sample_fields [simp]:
  "identity (sample_fragment q u) = \<lparr>stream_epoch = 5, frame_sequence = q\<rparr>"
  "repeated_content (sample_fragment q u) = False" "fragment_index (sample_fragment q u) = 0"
  "fragment_count (sample_fragment q u) = 1" "access_unit_part (sample_fragment q u) = u"
  by (simp_all add: sample_fragment_def)

lemmas loop_run_defs = receiver_iteration_def poll_restart_def on_fragment_def observe_source_def
  start_loop_def reset_source_session_def set_loop_timeout_def session_observe_def make_epoch_session_def
  valid_video_stream_epoch_def kVideoStreamEpochMax_def session_retire_through_def session_is_retired_def
  on_candidate_fragment_def rebuild_candidate_reassembler_def
  new_reassembler_def push_view_def on_candidate_unit_def session_commit_candidate_def
  rebuild_active_reassembler_def loop_require_sync_def reset_recovery_def loop_submit_def
  submit_completed_access_unit_def evaluate_reference_def admit_repeat_def next_presentation_time_us_def
  record_submit_def record_submit_result_def require_reference_sync_def require_idr_def require_resync_def
  kMaximumInflightAccessUnits_def kAccessUnitReassemblyTtlUs_def kInitialReceiveTimeoutUs_def
  start_receiver_def initial_reference_sync_def reset_receiver_metrics_def reset_loop_metrics_def
  on_active_fragment_def drain_completed.simps observe_loop_fragment_def observe_fragment_def
  receiver_consts reset_recovery_policy_def

text \<open>A key frame opens the epoch and the next unit follows it; the decoder accepts both.\<close>

theorem receiver_decodes_chain_witness:
  "\<exists>s. receiver_run (map sample_input [sample_fragment 7 key_unit, sample_fragment 8 delta_unit]) (start_loop 1 50) = Some s \<and>
     map (\<lambda>(d, a). (input_sequence d, input_is_idr d, a)) (rl_log s) = [(7, True, True), (8, False, True)] \<and>
     decoder_log (\<Union> (host_fragments 1 ` set (map sample_input [sample_fragment 7 key_unit, sample_fragment 8 delta_unit])))
       (rl_log s)"
proof -
  let ?inputs = "map sample_input [sample_fragment 7 key_unit, sample_fragment 8 delta_unit]"
  have log: "map_option (\<lambda>s. map (\<lambda>(d, a). (input_sequence d, input_is_idr d, a)) (rl_log s))
      (receiver_run ?inputs (start_loop 1 50)) = Some [(7, True, True), (8, False, True)]"
    using sample_units
    by (simp add: loop_run_defs sample_input_def sample_decode run_defs input_sequence_def input_is_idr_def)
  from receiver_decodes_chain [of ?inputs 1 50] obtain s where
    "receiver_run ?inputs (start_loop 1 50) = Some s" "decoder_log (\<Union> (host_fragments 1 ` set ?inputs)) (rl_log s)"
    by blast
  with log show ?thesis by (intro exI [of _ s]) simp
qed

section \<open>Empty datagrams\<close>

text \<open>
  An empty datagram makes \<^verbatim>\<open>recvfrom\<close> return 0 and leaves \<^verbatim>\<open>errno\<close> as an earlier call set it. Unless
  that happens to be a time-out or an interruption, the loop takes it for a socket error, before it
  has looked at the sender, and the third in a row ends the receiver.
\<close>

lemma three_empty_datagrams_stop:
  assumes "rl_running s" "\<not> rl_restart_pending s" "rl_socket_errors s = 0"
    and "\<forall>i \<in> {i1, i2, i3}. li_datagram i = [] \<and> li_errno i = Errno_Other \<and> li_running i \<and> \<not> li_restart_timed_out i"
  shows "\<exists>s'. receiver_run [i1, i2, i3] s = Some s' \<and> \<not> rl_running s' \<and> rl_log s' = rl_log s"
  using assms by (simp add: receiver_iteration_def poll_restart_def on_no_datagram_def loop_ended_def Let_def)

end
