(* ===== verification/Spec2Isabelle.thy ===== *)
theory Spec2Isabelle
  imports Reassembler Epoch_Session Delivery_Ledger Data_Plane Control_Record Authorization_Gate
    Annex_B Usage_Contract Core_Recovery Core_Host_Runtime Desktop_Mapper Host_Session Control_Transport
    Bootstrap_Payload Receiver_Loop
begin

text \<open>
  The dual-machine runtime streams the screen of a Windows host, as H.264 access units, to an Android
  receiver and lets commands flow back. This development models the parts of
  \<^verbatim>\<open>dual_machine_runtime\<close> and of the Android receiver that decide what is sent, accepted, decoded and
  authorised, and proves what makes them correct. Paths below are relative to
  \<^verbatim>\<open>src/dual_machine_runtime\<close> unless they begin with \<^verbatim>\<open>android_inference_benchmark\<close>.

  \<^bold>\<open>How the parts interact.\<close> The two machines exchange bootstrap records over TCP (\<^verbatim>\<open>VFB1\<close>), run an
  authenticated handshake over a canonical transcript, confirm the keys with two Finished messages and
  then use an authenticated control channel (\<^verbatim>\<open>VFC1\<close>) and four authenticated datagram domains (\<^verbatim>\<open>VFD2\<close>):
  video, presence, IDR requests and mouse buttons. A chain of usage leases decides whether the host
  may open the data plane. Video units are cut into datagrams, sealed, opened behind a replay window,
  reassembled, admitted by the receiver's policies and given to the decoder. \<^verbatim>\<open>e2e_core\<close> is a second,
  self-contained implementation of the video path with a host runtime and a command coordinator.

  \<^bold>\<open>Theories.\<close>

  \<^item> \<open>Prelude\<close>: machine types, rule collections, list and word facts, runs with results
    (\<open>run_outputs\<close>), and two contracts: \<open>event_system\<close> (initial states, admissible events, an
    invariant, a preorder no event goes back in), from which the statements about every reachable
    state come, and \<open>counter_source\<close> (a sender that never uses a number twice).
  \<^item> \<open>Wire_Codec\<close>, \<open>Video_Protocol\<close>: \<^verbatim>\<open>shared/src/protocol.cpp\<close> and the fragmenter; the locale
    \<open>fixed_field\<close> states what a big-endian field promises. Shown: decoder and encoder of a
    datagram are inverse both ways.
  \<^item> \<open>Reassembler\<close>: \<^verbatim>\<open>shared/src/access_unit_reassembler.cpp\<close>. Shown: every call returns, byte accounts
    and limits hold, a delivered unit is the unit that was sent under its identity, deliveries are
    in order, and all fragments of a unit, in any order and repeated, deliver it exactly once.
  \<^item> \<open>Epoch_Session\<close>: the two stream-epoch gates (\<^verbatim>\<open>receiver_epoch_session.hpp\<close>,
    \<^verbatim>\<open>video_transport_contract.cpp\<close>), which take the same decisions.
  \<^item> \<open>Delivery_Ledger\<close>: delivery ledger and pipeline status of the host.
  \<^item> \<open>Replay_Window\<close>, \<open>Data_Plane\<close>: \<^verbatim>\<open>shared/src/authenticated_data_plane_v2.cpp\<close>. The bitmap window refines
    the set of accepted counters (locale \<open>replay_filter\<close>); a nonce is never given to the cipher
    twice; what an opener accepts, exactly; every plaintext is delivered at most once.
  \<^item> \<open>Control_Record\<close>: \<^verbatim>\<open>shared/src/authenticated_control_record_v1.cpp\<close>, with the same contracts.
  \<^item> \<open>Lease_Gate\<close>, \<open>Authorization_Gate\<close>: \<^verbatim>\<open>shared/src/usage_lease_gate.cpp\<close> and
    \<^verbatim>\<open>shared/src/host_data_plane_authorization_gate.cpp\<close>. A permit rests on a chain of submitted
    tickets and on derived time inside the lease.
  \<^item> \<open>Usage_Contract\<close>: \<^verbatim>\<open>shared/src/usage_authorization_contract.cpp\<close>; signed payloads are unambiguous.
  \<^item> \<open>Annex_B\<close>: NAL scanning and access-unit splitting against a declarative grouping.
  \<^item> \<open>Handshake_Transcript\<close>, \<open>Peer_Handshake\<close>: \<^verbatim>\<open>shared/src/authenticated_peer_handshake_v1.cpp\<close>. Parser and
    builder of the transcript are inverse; HKDF is RFC 5869; the ephemeral key is used once; both
    endpoints derive the same session; a session is released once, after both Finished messages.
  \<^item> \<open>Host_Session\<close>: \<^verbatim>\<open>host/windows/src/host_authenticated_data_plane_session_v2.cpp\<close> and the mouse-button
    payloads; the four domains never accept each other's datagrams.
  \<^item> \<open>Bootstrap_Record\<close>, \<open>Bootstrap_Payload\<close>: \<^verbatim>\<open>shared/src/authenticated_control_bootstrap_record_v1.cpp\<close>
    and \<^verbatim>\<open>authenticated_control_bootstrap_payload_v1.cpp\<close>: envelope, stream decoder, the order of an
    exchange, typed payloads, and the field grammars (compact JWT, DER signatures, versions).
  \<^item> \<open>Control_Transport\<close>: \<^verbatim>\<open>host/windows/src/authenticated_control_tcp_transport_v1.cpp\<close>. Records survive
    any cutting of the stream, every failure closes the connection, every read ends by its deadline.
    The locales \<open>framed_reader\<close> and \<open>closing_reader\<close> carry the proofs for both record kinds.
  \<^item> \<open>Core_Wire\<close>, \<open>Core_Reassembly\<close>, \<open>Core_Recovery\<close>, \<open>Core_Delivery\<close>, \<open>Core_Host_Domain\<close>, \<open>Core_Host_Runtime\<close>,
    \<open>Desktop_Mapper\<close>: \<^verbatim>\<open>e2e_core/src\<close>. Bounded memory and faithful delivery of the core reassembler, the
    resync budget, the command coordinator, and the path from a captured frame to its completion at
    a receiver.
  \<^item> \<open>Receiver_Policies\<close>, \<open>Receiver_Loop\<close>: the Android receiver,
    \<^verbatim>\<open>android_inference_benchmark/app/src/main/cpp/DualMachineReceiver.cpp\<close> and its policy classes. The
    decoder is given an unbroken chain of units over any run of the loop.
  \<^item> this theory: one access unit across the protected channel, from the created session through
    sealing, opening, decoding and reassembly.

  \<^bold>\<open>Modelling.\<close> A class is a record, an enumeration a datatype, an operation a function that returns the
  updated record with its result; exceptions and error results are values. Machine integers are words
  of their width. A C++ map is an association list. A mutex makes each operation one transition, and
  histories are arbitrary lists of operations.

  What is not in the sources is a parameter: AES-GCM (\<open>gcm_encrypt\<close>, \<open>gcm_decrypt\<close>; \<open>gcm_correct\<close> says
  that decryption inverts encryption, \<open>gcm_total\<close> that it does not fail), the Windows cryptographic
  provider (\<open>platform\<close>, whose answers are functions of the input: a provider that changes its answer on
  the same input is not covered), the clock (a time given with each call), sockets and the decoder
  (scripts of answers), the datagram sink. Each hypothesis on a parameter is met by a concrete instance
  in a witness. Allocation succeeds except where a flag says otherwise.

  \<^bold>\<open>Loops.\<close> Every loop of the sources is a total function, by structural recursion or with a measure: the
  trimming loop of the reassembler drops a frame per turn, and \<open>None\<close> stands for the turn that could
  not, which is shown never to happen; the drain of the receiver loop takes one unit in flight per
  turn. The readers of the control transport recurse over the finite list of the socket's answers and
  return \<open>None\<close> when it is used up, which means still waiting; \<open>read_ends_by_deadline\<close> shows that
  enough answers always end a read. Their inner drain makes two passes over the pending input: a header
  and a body are the most one call can complete, and the proof shows that two suffice. No other fuel
  is used.

  \<^bold>\<open>Not modelled.\<close> The epoch reservation store (file locks and atomic replacement by the operating system),
  the enrolment of a new pair and the renewal of its generation (which precede every session modelled
  here), image preprocessing and the model contract (floating-point resampling), the Windows host
  application with capture, encoders, provisioning and firewall (calls into the operating system), the
  set-up of TCP connections, key erasure, and the Android inference, tracking and motion code
  (floating-point geometry and device drivers).
\<close>

section \<open>One access unit across the protected channel\<close>

text \<open>What the receiver does with a plaintext of the video domain: decode it and push the fragment.\<close>

definition arrivals :: "(bytes \<times> bool \<times> u64) list \<Rightarrow> reassembler_event list" where
  "arrivals ps = List.map_filter (\<lambda>(packet, owned, now).
     map_option (\<lambda>f. push_event (owned, f, now)) (decode_video_packet_view packet)) ps"

lemma fragment_packets:
  assumes "fragmentable ident au m" and "f \<in> set (fragment_access_unit ident au rep m)"
  shows "decode_video_packet_view (encode_video_packet f) = Some f"
    and "length (encode_video_packet f) \<le> kMaximumAuthenticatedPayloadBytes"
proof -
  from assms have ok: "fragment_ok f"
    by (auto simp: fragment_access_unit_eq nth_fragment_ok)
  then show "decode_video_packet_view (encode_video_packet f) = Some f"
    by (simp add: encode_eq decode_header)
  show "length (encode_video_packet f) \<le> kMaximumAuthenticatedPayloadBytes"
    using ok by (simp add: encode_eq video_header_def valid_video_fragment_metadata_def const_defs)
qed

lemma arrivals_of_fragments:
  assumes "fst ` set ps = encode_video_packet ` F"
    and "\<And>f. f \<in> F \<Longrightarrow> decode_video_packet_view (encode_video_packet f) = Some f"
  shows "\<exists>qs. arrivals ps = map push_event qs \<and> set (map (fst \<circ> snd) qs) = F"
proof (intro exI conjI)
  let ?q = "\<lambda>(packet, owned, now). (owned, the (decode_video_packet_view packet), now)"
  have dec: "\<exists>f \<in> F. decode_video_packet_view (fst p) = Some f" if "p \<in> set ps" for p
    using assms that by (metis (no_types, lifting) imageE imageI)
  then show "arrivals ps = map push_event (map ?q ps)"
  proof (induction ps)
    case (Cons p ps)
    obtain packet owned now where p: "p = (packet, owned, now)" by (cases p)
    obtain f where "decode_video_packet_view packet = Some f" using Cons.prems [of p] p by auto
    with Cons p show ?case by (simp add: arrivals_def List.map_filter_simps)
  qed (simp add: arrivals_def List.map_filter_simps)
  have "set (map (fst \<circ> snd) (map ?q ps)) = (\<lambda>d. the (decode_video_packet_view d)) ` fst ` set ps"
    by (simp add: image_image case_prod_unfold comp_def)
  also have "\<dots> = (\<lambda>f. the (decode_video_packet_view (encode_video_packet f))) ` F"
    by (simp add: assms(1) image_image)
  also have "\<dots> = F" using assms(2) by simp
  finally show "set (map (fst \<circ> snd) (map ?q ps)) = F" .
qed

text \<open>
  C3. One unit, end to end. A host that was released a session by the handshake creates its data
  plane from it and sends an access unit of at most 1024 fragments: each is encoded and sealed. The
  network delivers the datagrams in any order and as often as it likes, losing none. The peer, which
  holds the same session under the other role, opens them with a receiver for the video domain,
  decodes each plaintext and pushes the fragments, in any order of arrival the opener produced, into
  a reassembler that awaits the frame: exactly the original unit comes out, exactly once.
\<close>

theorem protected_unit_delivered:
  assumes "create_data_plane_session (Some gp) s = Some h"
    and "s\<^sub>A = s\<lparr>hs_local_role := AndroidRole\<rparr>"
    and "key = domain_key s\<^sub>A VideoDomain" and "gp_imports gp (aes_256_key key)"
    and "gcm_total (gp_encrypt gp (aes_256_key key))"
    and "gcm_correct (gp_encrypt gp (aes_256_key key)) (gp_decrypt gp (aes_256_key key))"
    and "fragmentable ident au m" and "fragment_total au m \<le> 1024"
    and "run_outputs (seal_video True gp)
      (map encode_video_packet (fragment_access_unit ident au rep m)) h = (sent, h')"
    and "set ds = seal_datagram ` set sent"
    and "map fst ps = opened_plaintexts
      (fst (run_outputs (open_packet True (gp_decrypt gp (aes_256_key key))) ds (make_opener key True)))"
    and "awaits ident r" and "pending r = []" and "length au \<le> max_inflight_bytes r"
  shows "\<exists>r'. reassembler_run (arrivals ps) r =
    Some ([\<lparr>completed_identity = ident, completed_repeated = rep, completed_bytes = au\<rparr>], r')"
proof -
  let ?fs = "fragment_access_unit ident au rep m"
  have key: "key = domain_key s VideoDomain" using assms(2,3) by simp
  note h = created_session_video [OF assms(1), folded key]
  obtain s' where run: "run_outputs (seal_packet True (gp_encrypt gp (aes_256_key key)))
      (map encode_video_packet ?fs) (make_sealer key True 0) = (sent, s')"
    using seal_video_run [OF assms(9)] h assms(4) by auto
  have len: "length (map encode_video_packet ?fs) \<le> 1024"
    using assms(7,8) by (simp add: fragment_access_unit_eq)
  have small: "\<forall>pt \<in> set (map encode_video_packet ?fs). length pt \<le> kMaximumAuthenticatedPayloadBytes"
    using fragment_packets(2) [OF assms(7)] by auto
  have "fst ` set ps = encode_video_packet ` set ?fs"
    using flight_delivered [OF assms(5,6) h(3) len small run assms(10)] assms(11)
    by (metis list.set_map)
  from arrivals_of_fragments [OF this fragment_packets(1) [OF assms(7), where rep = rep]] obtain qs where
    "arrivals ps = map push_event qs" "set (map (fst \<circ> snd) qs) = set ?fs" by blast
  with collects_all [OF assms(7,12-14), of qs rep] show ?thesis by auto
qed

theorem protected_unit_delivered_witness:
  "\<exists>h sent h' ps r r'. create_data_plane_session (Some toy_gcm) toy_session = Some h \<and>
    run_outputs (seal_video True toy_gcm) (map encode_video_packet
      (fragment_access_unit example_identity example_unit False 2)) h = (sent, h') \<and>
    map fst ps = opened_plaintexts (fst (run_outputs (open_packet True example_decrypt)
      (map seal_datagram sent) (make_opener (domain_key toy_session VideoDomain) True))) \<and>
    reassembler_run (arrivals ps) r =
    Some ([\<lparr>completed_identity = example_identity, completed_repeated = False,
      completed_bytes = example_unit\<rparr>], r')"
proof -
  let ?s = "toy_session\<lparr>hs_local_role := AndroidRole\<rparr>"
  let ?key = "domain_key ?s VideoDomain"
  let ?dec = "gp_decrypt toy_gcm (aes_256_key ?key)"
  let ?packets = "map encode_video_packet (fragment_access_unit example_identity example_unit False 2)"
  obtain h where h: "create_data_plane_session (Some toy_gcm) toy_session = Some h"
    using toy_session_created by blast
  obtain sent h' where sent: "run_outputs (seal_video True toy_gcm) ?packets h = (sent, h')" by fastforce
  define ds where "ds = map seal_datagram sent"
  define opens where "opens =
    opened_plaintexts (fst (run_outputs (open_packet True ?dec) ds (make_opener ?key True)))"
  define ps where "ps = map (\<lambda>pt. (pt, True, 0 :: u64)) opens"
  obtain r where r: "awaits example_identity r" "pending r = []"
    "length example_unit \<le> max_inflight_bytes r"
    using example_ready by blast
  have "fragment_total example_unit 2 \<le> 1024" by (simp add: fragment_total_def example_unit_def)
  from protected_unit_delivered [OF h refl refl _ toy_gcm_ok example_fragmentable this sent _ _ r, of ds ps]
  have "\<exists>r'. reassembler_run (arrivals ps) r =
    Some ([\<lparr>completed_identity = example_identity, completed_repeated = False,
      completed_bytes = example_unit\<rparr>], r')"
    by (simp add: ds_def ps_def opens_def toy_gcm_def comp_def)
  moreover have "map fst ps = opened_plaintexts (fst (run_outputs (open_packet True example_decrypt)
      (map seal_datagram sent) (make_opener (domain_key toy_session VideoDomain) True)))"
    by (simp add: ds_def ps_def opens_def toy_gcm_def comp_def)
  ultimately show ?thesis using h sent by blast
qed

end
